(* ===== verification/Prelude.thy ===== *)
theory Prelude
  imports Main "HOL-Library.Word" "HOL-Library.List_Lexorder" "HOL-Library.Char_ord"
begin

text \<open>
  The vocabulary every component theory shares.

  \<^item> C++ strings are \<^typ>\<open>string\<close>; \<open>std::string::npos\<close> is \<^const>\<open>None\<close> in the
    result of a search and in the length argument of \<open>substr\<close>.
  \<^item> The exceptions of the program are the values of \<open>exn\<close>. Code that throws returns a
    sum (\<^const>\<open>Inl\<close> the exception), and stateful code that throws is a state transformer of
    type \<open>('s, 'a) prog\<close>: the state reached at the point of the throw is kept, as a
    C++ exception keeps every side effect made before it.
  \<^item> Extraction from and insertion into \<open>std::stringstream\<close> (\<open>operator>>\<close>,
    \<open>operator<<\<close>) on integers, at the width of the C++ type.
  \<^item> The collections \<open>prog_simps\<close> (evaluation of programs) and \<open>keeps_intros\<close>
    (a predicate on states that a program keeps) carry the component proofs.
\<close>

named_theorems prog_simps \<open>evaluation of state and exception programs\<close>
named_theorems keeps_intros \<open>a program keeps a predicate on its state\<close>

section \<open>Exceptions and programs\<close>

datatype exn =
    RuntimeError string
  | LogicError string
  | OutOfRange string
  | InvalidArgument string
  | DBIError int string
  | DatabaseException string
  | UnknownReference string
  | MissingValue string
  | BadType string
  | BadValue string
  | UnknownConfig string
  | Undefined string

text \<open>
  \<^const>\<open>Undefined\<close> is no C++ exception: it marks a run that reaches undefined behaviour (an
  unchecked index out of range). The theorems that matter show where it cannot be reached.
\<close>

fun what :: "exn \<Rightarrow> string" where
  "what (RuntimeError s) = s"
| "what (LogicError s) = s"
| "what (OutOfRange s) = s"
| "what (InvalidArgument s) = s"
| "what (DBIError n s) = s"
| "what (DatabaseException s) = s"
| "what (UnknownReference s) = s"
| "what (MissingValue s) = s"
| "what (BadType s) = s"
| "what (BadValue s) = s"
| "what (UnknownConfig s) = s"
| "what (Undefined s) = s"

type_synonym ('s, 'a) prog = "'s \<Rightarrow> (exn + 'a) \<times> 's"

definition ret :: "'a \<Rightarrow> ('s, 'a) prog" where
  "ret x s = (Inr x, s)"

definition raise :: "exn \<Rightarrow> ('s, 'a) prog" where
  "raise e s = (Inl e, s)"

definition gets :: "('s \<Rightarrow> 'a) \<Rightarrow> ('s, 'a) prog" where
  "gets f s = (Inr (f s), s)"

definition modify :: "('s \<Rightarrow> 's) \<Rightarrow> ('s, unit) prog" where
  "modify f s = (Inr (), f s)"

definition bindE :: "('s, 'a) prog \<Rightarrow> ('a \<Rightarrow> ('s, 'b) prog) \<Rightarrow> ('s, 'b) prog" where
  "bindE m k s = (case m s of (Inl e, s') \<Rightarrow> (Inl e, s') | (Inr x, s') \<Rightarrow> k x s')"

text \<open>The same for code that only throws.\<close>

definition bindX :: "exn + 'a \<Rightarrow> ('a \<Rightarrow> exn + 'b) \<Rightarrow> exn + 'b" where
  "bindX x f = (case x of Inl e \<Rightarrow> Inl e | Inr y \<Rightarrow> f y)"

lemma bindX_simps [simp]: "bindX (Inl e) f = Inl e" "bindX (Inr y) f = f y"
  by (simp_all add: bindX_def)

lemma bindX_eq_Inr_iff: "bindX x f = Inr z \<longleftrightarrow> (\<exists>y. x = Inr y \<and> f y = Inr z)"
  by (cases x) simp_all

fun is_undefined :: "exn \<Rightarrow> bool" where
  "is_undefined (Undefined _) \<longleftrightarrow> True"
| "is_undefined _ \<longleftrightarrow> False"

text \<open>\<open>catch (std::exception &e)\<close>: every other value of \<^typ>\<open>exn\<close> derives from it.\<close>

definition catchE :: "('s, 'a) prog \<Rightarrow> (exn \<Rightarrow> ('s, 'a) prog) \<Rightarrow> ('s, 'a) prog" where
  "catchE m h s =
     (case m s of
        (Inl e, s') \<Rightarrow> if is_undefined e then (Inl e, s') else h e s'
      | (Inr x, s') \<Rightarrow> (Inr x, s'))"

text \<open>A destructor that runs on every way out of a scope.\<close>

definition finallyE :: "('s, 'a) prog \<Rightarrow> ('s \<Rightarrow> 's) \<Rightarrow> ('s, 'a) prog" where
  "finallyE m d s = (case m s of (r, s') \<Rightarrow> (r, d s'))"

lemma ret_run [simp, prog_simps]: "ret x s = (Inr x, s)"
  by (simp add: ret_def)

lemma raise_run [simp, prog_simps]: "raise e s = (Inl e, s)"
  by (simp add: raise_def)

lemma gets_run [simp, prog_simps]: "gets f s = (Inr (f s), s)"
  by (simp add: gets_def)

lemma modify_run [simp, prog_simps]: "modify f s = (Inr (), f s)"
  by (simp add: modify_def)

lemma finallyE_run [prog_simps]: "finallyE m d s = (fst (m s), d (snd (m s)))"
  by (simp add: finallyE_def split_beta)

lemma bindE_Inr [simp]: "m s = (Inr x, s') \<Longrightarrow> bindE m k s = k x s'"
  by (simp add: bindE_def)

lemma bindE_Inl [simp]: "m s = (Inl e, s') \<Longrightarrow> bindE m k s = (Inl e, s')"
  by (simp add: bindE_def)

lemma catchE_Inr [simp]: "m s = (Inr x, s') \<Longrightarrow> catchE m h s = (Inr x, s')"
  by (simp add: catchE_def)

lemma catchE_Inl [simp]: "m s = (Inl e, s') \<Longrightarrow> \<not> is_undefined e \<Longrightarrow> catchE m h s = h e s'"
  by (simp add: catchE_def)

lemma bindE_eq_Inr_iff:
  "bindE m k s = (Inr y, t) \<longleftrightarrow> (\<exists>x s'. m s = (Inr x, s') \<and> k x s' = (Inr y, t))"
  by (auto simp: bindE_def split: prod.splits sum.splits)

lemma bindE_assoc: "bindE (bindE m k) h = bindE m (\<lambda>x. bindE (k x) h)"
  by (rule ext) (simp add: bindE_def split: prod.splits sum.splits)

subsection \<open>Predicates a program keeps, whether it returns or throws\<close>

definition keeps :: "('s \<Rightarrow> bool) \<Rightarrow> ('s, 'a) prog \<Rightarrow> bool" where
  "keeps P m \<longleftrightarrow> (\<forall>s. P s \<longrightarrow> P (snd (m s)))"

lemma keepsD: "keeps P m \<Longrightarrow> P s \<Longrightarrow> P (snd (m s))"
  by (simp add: keeps_def)

lemma keepsI: "(\<And>s. P s \<Longrightarrow> P (snd (m s))) \<Longrightarrow> keeps P m"
  by (simp add: keeps_def)

lemma keeps_ret [keeps_intros]: "keeps P (ret x)"
  by (simp add: keeps_def)

lemma keeps_raise [keeps_intros]: "keeps P (raise e)"
  by (simp add: keeps_def)

lemma keeps_gets [keeps_intros]: "keeps P (gets f)"
  by (simp add: keeps_def)

lemma keeps_modify [keeps_intros]: "(\<And>s. P s \<Longrightarrow> P (f s)) \<Longrightarrow> keeps P (modify f)"
  by (simp add: keeps_def)

lemma keeps_bindE [keeps_intros]:
  assumes "keeps P m" and "\<And>x. keeps P (k x)"
  shows "keeps P (bindE m k)"
proof (rule keepsI)
  fix s
  assume "P s"
  with assms(1) have "P (snd (m s))" by (rule keepsD)
  with assms(2) show "P (snd (bindE m k s))"
    by (auto simp: bindE_def keeps_def split: prod.splits sum.splits)
qed

lemma keeps_catchE [keeps_intros]:
  assumes "keeps P m" and "\<And>e. keeps P (h e)"
  shows "keeps P (catchE m h)"
proof (rule keepsI)
  fix s
  assume "P s"
  with assms(1) have "P (snd (m s))" by (rule keepsD)
  with assms(2) show "P (snd (catchE m h s))"
    by (auto simp: catchE_def keeps_def split: prod.splits sum.splits)
qed

lemma keeps_if [keeps_intros]:
  "(b \<Longrightarrow> keeps P m) \<Longrightarrow> (\<not> b \<Longrightarrow> keeps P n) \<Longrightarrow> keeps P (if b then m else n)"
  by simp

lemma keeps_case_option [keeps_intros]:
  "(x = None \<Longrightarrow> keeps P m) \<Longrightarrow> (\<And>y. x = Some y \<Longrightarrow> keeps P (n y)) \<Longrightarrow>
   keeps P (case x of None \<Rightarrow> m | Some y \<Rightarrow> n y)"
  by (simp split: option.split)

lemma keeps_case_prod [keeps_intros]:
  "(\<And>a b. x = (a, b) \<Longrightarrow> keeps P (k a b)) \<Longrightarrow> keeps P (case x of (a, b) \<Rightarrow> k a b)"
  by (simp split: prod.split)

section \<open>std::string\<close>

text \<open>\<open>find(c, pos)\<close>, \<open>find(c)\<close> and \<open>rfind(c)\<close>.\<close>

fun find_char :: "char \<Rightarrow> string \<Rightarrow> nat option" where
  "find_char c [] = None"
| "find_char c (x # xs) = (if x = c then Some 0 else map_option Suc (find_char c xs))"

definition find_char_from :: "char \<Rightarrow> string \<Rightarrow> nat \<Rightarrow> nat option" where
  "find_char_from c s pos = map_option (\<lambda>i. pos + i) (find_char c (drop pos s))"

definition rfind_char :: "char \<Rightarrow> string \<Rightarrow> nat option" where
  "rfind_char c s = map_option (\<lambda>i. length s - 1 - i) (find_char c (rev s))"

text \<open>
  \<open>substr(pos, len)\<close>, with \<^const>\<open>None\<close> for the default length \<open>npos\<close>. The C++ method
  throws \<open>std::out_of_range\<close> when \<open>pos > size()\<close>; no call site of the program passes
  such a position.
\<close>

definition substr :: "string \<Rightarrow> nat \<Rightarrow> nat option \<Rightarrow> string" where
  "substr s pos len = (case len of None \<Rightarrow> drop pos s | Some n \<Rightarrow> take n (drop pos s))"

text \<open>What a C function reads through \<open>c_str()\<close>: the text up to the first zero byte.\<close>

definition c_str :: "string \<Rightarrow> string" where
  "c_str s = takeWhile (\<lambda>c. c \<noteq> CHR 0x00) s"

lemma find_char_None_iff [simp]: "find_char c s = None \<longleftrightarrow> c \<notin> set s"
  by (induction s) auto

lemma find_char_SomeD: "find_char c s = Some i \<Longrightarrow> i < length s \<and> s ! i = c \<and> c \<notin> set (take i s)"
proof (induction s arbitrary: i)
  case (Cons x xs)
  show ?case
  proof (cases "x = c")
    case False
    with Cons.prems obtain j where "find_char c xs = Some j" "i = Suc j" by auto
    with Cons.IH False show ?thesis by auto
  qed (use Cons.prems in auto)
qed simp

lemma find_char_append: "c \<notin> set xs \<Longrightarrow> find_char c (xs @ c # ys) = Some (length xs)"
  by (induction xs) auto

lemma rfind_char_None_iff [simp]: "rfind_char c s = None \<longleftrightarrow> c \<notin> set s"
  by (simp add: rfind_char_def)

lemma rfind_char_append: "c \<notin> set ys \<Longrightarrow> rfind_char c (xs @ c # ys) = Some (length xs)"
  using find_char_append [of c "rev ys" "rev xs"] by (simp add: rfind_char_def)

lemma substr_None [simp]: "substr s pos None = drop pos s"
  by (simp add: substr_def)

lemma substr_Some [simp]: "substr s pos (Some n) = take n (drop pos s)"
  by (simp add: substr_def)

subsection \<open>Characters: tolower, isspace, digits (the \<open>C\<close> locale)\<close>

definition code_of :: "char \<Rightarrow> nat" where
  "code_of c = of_char c"

definition tolower :: "char \<Rightarrow> char" where
  "tolower c = (if 65 \<le> code_of c \<and> code_of c \<le> 90 then char_of (code_of c + 32) else c)"

definition isspace :: "char \<Rightarrow> bool" where
  "isspace c \<longleftrightarrow> code_of c = 32 \<or> (9 \<le> code_of c \<and> code_of c \<le> 13)"

definition is_digit :: "char \<Rightarrow> bool" where
  "is_digit c \<longleftrightarrow> 48 \<le> code_of c \<and> code_of c \<le> 57"

definition digit_char :: "nat \<Rightarrow> char" where
  "digit_char d = char_of (48 + d)"

definition digit_val :: "char \<Rightarrow> nat" where
  "digit_val c = code_of c - 48"

lemma code_of_char_of [simp]: "code_of (char_of n) = n mod 256"
  by (simp add: code_of_def)

lemma code_of_inject: "code_of c = code_of d \<longleftrightarrow> c = d"
  by (simp add: code_of_def)

lemma code_of_less [simp]: "code_of c < 256"
  by (simp add: code_of_def)

lemma tolower_idem [simp]: "tolower (tolower c) = tolower c"
  by (simp add: tolower_def)

lemma digit_char_props [simp]:
  assumes "d < 10"
  shows "is_digit (digit_char d)" and "digit_val (digit_char d) = d"
  using assms by (auto simp: is_digit_def digit_char_def digit_val_def)

section \<open>Integers in string streams\<close>

fun show_nat :: "nat \<Rightarrow> string" where
  "show_nat n = (if n < 10 then [digit_char n] else show_nat (n div 10) @ [digit_char (n mod 10)])"

declare show_nat.simps [simp del]

definition show_int :: "int \<Rightarrow> string" where
  "show_int i = (if i < 0 then CHR ''-'' # show_nat (nat (- i)) else show_nat (nat i))"

fun digits_val :: "nat \<Rightarrow> string \<Rightarrow> nat" where
  "digits_val v [] = v"
| "digits_val v (c # cs) = digits_val (10 * v + digit_val c) cs"

lemma digits_val_append: "digits_val v (xs @ ys) = digits_val (digits_val v xs) ys"
  by (induction xs arbitrary: v) auto

lemma show_nat_nonempty [simp]: "show_nat n \<noteq> []"
  by (subst show_nat.simps) simp

lemma show_nat_digits: "\<forall>c \<in> set (show_nat n). is_digit c"
proof (induction n rule: show_nat.induct)
  case (1 n)
  then show ?case by (subst show_nat.simps) auto
qed

lemma digits_val_show_nat [simp]: "digits_val 0 (show_nat n) = n"
proof (induction n rule: show_nat.induct)
  case (1 n)
  then show ?case by (subst show_nat.simps) (auto simp: digits_val_append)
qed

lemma show_nat_inject [simp]: "show_nat m = show_nat n \<longleftrightarrow> m = n"
  by (metis digits_val_show_nat)

text \<open>
  \<open>stm >> x\<close> on an integer \<open>x\<close> skips white space, takes an optional sign and a run of
  decimal digits. With nothing left after the white space the extraction does not start and \<open>x\<close>
  keeps its value; with no digit \<open>x\<close> becomes 0; a value out of range becomes the
  nearest bound (C++11).
\<close>

definition skip_ws :: "string \<Rightarrow> string" where
  "skip_ws = dropWhile isspace"

fun split_sign :: "string \<Rightarrow> bool \<times> string" where
  "split_sign [] = (False, [])"
| "split_sign (c # cs) =
     (if c = CHR ''-'' then (True, cs) else if c = CHR ''+'' then (False, cs) else (False, c # cs))"

definition extract_int :: "int \<Rightarrow> string \<Rightarrow> int" where
  "extract_int old s =
     (let t = skip_ws s in
      if t = [] then old
      else let (neg, u) = split_sign t; ds = takeWhile is_digit u; v = int (digits_val 0 ds) in
        if ds = [] then 0
        else if neg then max (- v) (- (2 ^ 31))
        else min v (2 ^ 31 - 1))"

definition extract_unsigned :: "32 word \<Rightarrow> string \<Rightarrow> 32 word" where
  "extract_unsigned old s =
     (let t = skip_ws s in
      if t = [] then old
      else let (neg, u) = split_sign t; ds = takeWhile is_digit u; v = digits_val 0 ds in
        if ds = [] then 0
        else if v > 2 ^ 32 - 1 then - 1
        else if neg then - of_nat v
        else of_nat v)"

lemma digit_not_space: "is_digit c \<Longrightarrow> \<not> isspace c"
  by (auto simp: is_digit_def isspace_def)

lemma digit_not_sign: "is_digit c \<Longrightarrow> c \<noteq> CHR ''-'' \<and> c \<noteq> CHR ''+'' \<and> c \<noteq> CHR ''.''"
  by (auto simp: is_digit_def code_of_def)

lemma skip_ws_digits: "ds \<noteq> [] \<Longrightarrow> \<forall>c \<in> set ds. is_digit c \<Longrightarrow> skip_ws (ds @ r) = ds @ r"
  by (cases ds) (auto simp: skip_ws_def digit_not_space)

lemma split_sign_digits:
  "ds \<noteq> [] \<Longrightarrow> \<forall>c \<in> set ds. is_digit c \<Longrightarrow> split_sign (ds @ r) = (False, ds @ r)"
  by (cases ds) (auto dest: digit_not_sign)

lemma takeWhile_digits_stop: "r = [] \<or> \<not> is_digit (hd r) \<Longrightarrow> takeWhile is_digit r = []"
  by (cases r) simp_all

lemma extract_unsigned_digits:
  assumes "ds \<noteq> []" and "\<forall>c \<in> set ds. is_digit c" and "r = [] \<or> \<not> is_digit (hd r)"
    and "digits_val 0 ds < 2 ^ 32"
  shows "extract_unsigned old (ds @ r) = of_nat (digits_val 0 ds)"
  using assms
  by (simp add: extract_unsigned_def skip_ws_digits split_sign_digits takeWhile_digits_stop)

lemma extract_int_digits:
  assumes "ds \<noteq> []" and "\<forall>c \<in> set ds. is_digit c" and "r = [] \<or> \<not> is_digit (hd r)"
    and "digits_val 0 ds < 2 ^ 31"
  shows "extract_int old (ds @ r) = int (digits_val 0 ds)"
  using assms
  by (simp add: extract_int_def skip_ws_digits split_sign_digits takeWhile_digits_stop)

lemma extract_int_range:
  assumes "- (2 ^ 31) \<le> old" and "old < 2 ^ 31"
  shows "- (2 ^ 31) \<le> extract_int old s" and "extract_int old s < 2 ^ 31"
  using assms by (auto simp: extract_int_def Let_def split: prod.splits)

section \<open>Maxima\<close>

lemma fold_max_ge: "x \<in> set xs \<or> x \<le> m \<Longrightarrow> x \<le> fold max xs (m :: 'a :: linorder)"
proof (induction xs arbitrary: m)
  case (Cons y xs)
  then have "x \<in> set xs \<or> x \<le> max y m" by (auto simp: le_max_iff_disj)
  from Cons.IH [OF this] show ?case by simp
qed simp

section \<open>Characters and numbers of the C library\<close>

text \<open>The value of a \<open>char\<close>, which is signed here.\<close>

definition schar :: "char \<Rightarrow> int" where
  "schar c = (if code_of c < 128 then int (code_of c) else int (code_of c) - 256)"

text \<open>
  \<open>atoi\<close> and \<open>atol\<close>, for an integer of \<open>w\<close> bits: the behaviour is undefined when the value does not fit.
\<close>

definition c_number :: "nat \<Rightarrow> string \<Rightarrow> exn + int" where
  "c_number w s =
     (let (neg, u) = split_sign (skip_ws (c_str s)); v = int (digits_val 0 (takeWhile is_digit u)); r = (if neg then - v else v)
      in if - (2 ^ (w - 1)) \<le> r \<and> r < 2 ^ (w - 1) then Inr r else Inl (Undefined ''atoi''))"

lemma show_nat_no: "\<not> is_digit c \<Longrightarrow> c \<notin> set (show_nat n)"
  using show_nat_digits by blast

lemma c_str_append: "CHR 0x00 \<notin> set s \<Longrightarrow> c_str (s @ r) = s @ c_str r"
  by (induction s) (auto simp: c_str_def)

lemma c_number_show:
  assumes "n < 2 ^ (w - 1)" and "r = [] \<or> \<not> is_digit (hd r)"
  shows "c_number w (show_nat n @ r) = Inr (int n)"
proof -
  have s: "c_str (show_nat n @ r) = show_nat n @ c_str r"
    by (rule c_str_append) (simp add: show_nat_no is_digit_def code_of_def)
  have "c_str r = [] \<or> \<not> is_digit (hd (c_str r))" using assms(2) by (cases r) (auto simp: c_str_def)
  then have "takeWhile is_digit (show_nat n @ c_str r) = show_nat n"
    using show_nat_digits [of n] by (simp add: takeWhile_append2 takeWhile_digits_stop)
  moreover have "int n < 2 ^ (w - 1)" using assms(1) by (metis of_nat_less_iff of_nat_numeral of_nat_power)
  moreover have "- (2 ^ (w - 1)) \<le> int n" by (rule order_trans [of _ 0]) simp_all
  ultimately show ?thesis using show_nat_digits [of n]
    by (simp add: c_number_def s skip_ws_digits split_sign_digits Let_def)
qed

end
