(* ===== verification/Std_Map.thy ===== *)
theory Std_Map
  imports Prelude
begin

text \<open>
  \<open>std::map\<close> as the list of its entries in key order, the order its iterators walk.
  \<open>smap_insert\<close> is \<open>insert(value_type(k, v))\<close>, which leaves an entry that is already there;
  \<open>smap_set\<close> is \<open>m[k] = v\<close>, which overwrites it; \<open>smap_erase\<close> is \<open>erase(k)\<close>. The
  locale \<open>insert_map\<close> is what the clients rely on (token lists, the writers the parser
  fills, the server settings, the caches); it is interpreted for these functions at the end.
\<close>

type_synonym ('k, 'v) stdmap = "('k \<times> 'v) list"

fun smap_insert :: "'k::linorder \<Rightarrow> 'v \<Rightarrow> ('k, 'v) stdmap \<Rightarrow> ('k, 'v) stdmap" where
  "smap_insert k v [] = [(k, v)]"
| "smap_insert k v ((a, b) # m) =
     (if k < a then (k, v) # (a, b) # m
      else if k = a then (a, b) # m
      else (a, b) # smap_insert k v m)"

fun smap_set :: "'k::linorder \<Rightarrow> 'v \<Rightarrow> ('k, 'v) stdmap \<Rightarrow> ('k, 'v) stdmap" where
  "smap_set k v [] = [(k, v)]"
| "smap_set k v ((a, b) # m) =
     (if k < a then (k, v) # (a, b) # m
      else if k = a then (a, v) # m
      else (a, b) # smap_set k v m)"

definition smap_erase :: "'k \<Rightarrow> ('k, 'v) stdmap \<Rightarrow> ('k, 'v) stdmap" where
  "smap_erase k m = filter (\<lambda>e. fst e \<noteq> k) m"

abbreviation smap_find :: "('k, 'v) stdmap \<Rightarrow> 'k \<Rightarrow> 'v option" where
  "smap_find \<equiv> map_of"

definition smap_ok :: "('k::linorder, 'v) stdmap \<Rightarrow> bool" where
  "smap_ok m \<longleftrightarrow> sorted_wrt (<) (map fst m)"

text \<open>\<open>dest.insert(first, last)\<close>: a range insertion keeps the entries \<open>dest\<close> has.\<close>

definition smap_insert_range :: "('k::linorder, 'v) stdmap \<Rightarrow> ('k \<times> 'v) list \<Rightarrow> ('k, 'v) stdmap" where
  "smap_insert_range dest es = fold (\<lambda>(k, v). smap_insert k v) es dest"

section \<open>The interface its clients use\<close>

locale insert_map =
  fixes find :: "'m \<Rightarrow> 'k \<Rightarrow> 'v option"
    and insert :: "'k \<Rightarrow> 'v \<Rightarrow> 'm \<Rightarrow> 'm"
    and erase :: "'k \<Rightarrow> 'm \<Rightarrow> 'm"
    and empty :: "'m"
    and ok :: "'m \<Rightarrow> bool"
  assumes find_empty: "find empty k = None"
    and find_insert: "ok m \<Longrightarrow>
      find (insert k v m) k' = (if k' = k \<and> find m k = None then Some v else find m k')"
    and find_erase: "ok m \<Longrightarrow> find (erase k m) k' = (if k' = k then None else find m k')"
    and ok_empty: "ok empty"
    and ok_insert: "ok m \<Longrightarrow> ok (insert k v m)"
    and ok_erase: "ok m \<Longrightarrow> ok (erase k m)"
begin

definition insert_all :: "('k \<times> 'v) list \<Rightarrow> 'm \<Rightarrow> 'm" where
  "insert_all es m = fold (\<lambda>(k, v). insert k v) es m"

lemma ok_insert_all: "ok m \<Longrightarrow> ok (insert_all es m)"
  by (induction es arbitrary: m) (auto simp: insert_all_def ok_insert)

lemma find_insert_all:
  "ok m \<Longrightarrow> find (insert_all es m) k = (case find m k of Some v \<Rightarrow> Some v | None \<Rightarrow> map_of es k)"
proof (induction es arbitrary: m)
  case Nil
  then show ?case by (simp add: insert_all_def split: option.split)
next
  case (Cons e es)
  then show ?case
    by (cases e) (auto simp: insert_all_def ok_insert find_insert split: option.split)
qed

lemma first_insert_wins: "find (insert_all es empty) k = map_of es k"
  by (simp add: find_insert_all ok_empty find_empty)

end

section \<open>The functions satisfy it\<close>

lemma smap_insert_keys: "set (map fst (smap_insert k v m)) = insert k (set (map fst m))"
  by (induction k v m rule: smap_insert.induct) auto

lemma smap_set_keys: "set (map fst (smap_set k v m)) = insert k (set (map fst m))"
  by (induction k v m rule: smap_set.induct) auto

lemma smap_ok_Nil [simp]: "smap_ok []"
  by (simp add: smap_ok_def)

lemma smap_ok_Cons [simp]: "smap_ok ((k, v) # m) \<longleftrightarrow> (\<forall>x \<in> set (map fst m). k < x) \<and> smap_ok m"
  by (auto simp: smap_ok_def)

lemma smap_ok_insert [simp]: "smap_ok m \<Longrightarrow> smap_ok (smap_insert k v m)"
  by (induction k v m rule: smap_insert.induct) (force simp: smap_insert_keys simp del: set_map)+

lemma smap_ok_set [simp]: "smap_ok m \<Longrightarrow> smap_ok (smap_set k v m)"
  by (induction k v m rule: smap_set.induct) (force simp: smap_set_keys simp del: set_map)+

lemma smap_ok_erase [simp]: "smap_ok m \<Longrightarrow> smap_ok (smap_erase k m)"
  by (induction m) (auto simp: smap_erase_def)

lemma smap_find_below: "smap_ok m \<Longrightarrow> \<forall>x \<in> fst ` set m. k < x \<Longrightarrow> smap_find m k = None"
  by (auto simp: map_of_eq_None_iff)

lemma smap_find_insert:
  "smap_ok m \<Longrightarrow>
   smap_find (smap_insert k v m) k' = (if k' = k \<and> smap_find m k = None then Some v else smap_find m k')"
proof (induction k v m rule: smap_insert.induct)
  case (2 k v a b m)
  show ?case
  proof (cases "k < a")
    case True
    have "smap_find ((a, b) # m) k = None"
      by (rule smap_find_below) (use 2 True in auto)
    with True show ?thesis by auto
  qed (use 2 in auto)
qed simp

lemma smap_find_set:
  "smap_ok m \<Longrightarrow> smap_find (smap_set k v m) = (smap_find m)(k \<mapsto> v)"
  by (induction k v m rule: smap_set.induct) (auto simp: fun_eq_iff)

lemma smap_find_erase: "smap_find (smap_erase k m) k' = (if k' = k then None else smap_find m k')"
  by (induction m) (auto simp: smap_erase_def)

interpretation smap: insert_map smap_find smap_insert smap_erase "[]" smap_ok
  by unfold_locales (simp_all add: smap_find_insert smap_find_erase)

lemma smap_insert_range_eq: "smap_insert_range m es = smap.insert_all es m"
  by (simp add: smap_insert_range_def smap.insert_all_def)

lemma smap_find_insert_range:
  "smap_ok m \<Longrightarrow>
   smap_find (smap_insert_range m es) k = (case smap_find m k of Some v \<Rightarrow> Some v | None \<Rightarrow> smap_find es k)"
  by (simp add: smap_insert_range_eq smap.find_insert_all)

lemma smap_insert_present [simp]: "smap_ok m \<Longrightarrow> smap_find m k \<noteq> None \<Longrightarrow> smap_insert k v m = m"
proof (induction k v m rule: smap_insert.induct)
  case (2 k v a b m)
  have "\<not> k < a"
  proof
    assume "k < a"
    then have "smap_find ((a, b) # m) k = None"
      by (intro smap_find_below) (use 2 in auto)
    with 2 show False by simp
  qed
  with 2 show ?case by (auto split: if_splits)
qed simp

lemma length_smap_insert:
  "smap_ok m \<Longrightarrow> length (smap_insert k v m) = (if smap_find m k = None then Suc (length m) else length m)"
proof (induction k v m rule: smap_insert.induct)
  case (2 k v a b m)
  have "k < a \<Longrightarrow> smap_find ((a, b) # m) k = None"
    by (intro smap_find_below) (use 2 in auto)
  with 2 show ?case by auto
qed simp

lemma set_smap_insert_absent:
  "smap_find m k = None \<Longrightarrow> set (smap_insert k v m) = insert (k, v) (set m)"
  by (induction k v m rule: smap_insert.induct) (auto split: if_splits)

lemma smap_erase_insert:
  "smap_ok m \<Longrightarrow> smap_erase k (smap_insert k v m) = smap_erase k m"
  "smap_find m k = None \<Longrightarrow> smap_erase k m = m"
proof -
  show "smap_erase k (smap_insert k v m) = smap_erase k m" if "smap_ok m"
    using that by (induction k v m rule: smap_insert.induct) (auto simp: smap_erase_def)
  show "smap_erase k m = m" if "smap_find m k = None"
    using that by (auto simp: smap_erase_def map_of_eq_None_iff filter_id_conv)
qed

lemma smap_find_iff_mem: "smap_ok m \<Longrightarrow> smap_find m k = Some v \<longleftrightarrow> (k, v) \<in> set m"
proof -
  assume "smap_ok m"
  then have "distinct (map fst m)"
    by (simp add: smap_ok_def strict_sorted_iff)
  then show ?thesis by (rule map_of_eq_Some_iff)
qed

end
