(* ===== verification/Token_List.thy ===== *)
theory Token_List
  imports Std_Map
begin

text \<open>
  \<open>src/src/tokenlist.h\<close>: a list of named tokens, each with an index, some of them required
  and some of those with a default. \<open>_map\<close> maps the name to the index, \<open>_reqarr\<close> holds
  the indices of the required tokens and \<open>_default\<close> their defaults. The parser copies
  \<open>_reqarr\<close> and removes the tokens it meets.
\<close>

record TokenList =
  tl_map :: "(string, nat) stdmap"
  tl_required :: "bool list"
  tl_default :: "(nat, string) stdmap"
  tl_reqarr :: "(nat, bool) stdmap"

definition TokenList_new :: TokenList where
  "TokenList_new = \<lparr>tl_map = [], tl_required = [], tl_default = [], tl_reqarr = []\<rparr>"

text \<open>\<open>getToken\<close> walks the map and throws when no entry has the index.\<close>

definition getToken :: "TokenList \<Rightarrow> nat \<Rightarrow> exn + string" where
  "getToken tk i =
     (case List.find (\<lambda>e. snd e = i) (tl_map tk) of
        Some e \<Rightarrow> Inr (fst e)
      | None \<Rightarrow> Inl (OutOfRange ''TokenList getToken''))"

definition addToken :: "string \<Rightarrow> bool \<Rightarrow> TokenList \<Rightarrow> TokenList" where
  "addToken t b tk =
     (let ipos = length (tl_map tk);
          tl1 = tk\<lparr>tl_map := smap_insert t ipos (tl_map tk), tl_required := tl_required tk @ [b]\<rparr>
      in if b then tl1\<lparr>tl_reqarr := smap_insert ipos True (tl_reqarr tl1)\<rparr> else tl1)"

definition addTokenDef :: "string \<Rightarrow> bool \<Rightarrow> string \<Rightarrow> TokenList \<Rightarrow> TokenList" where
  "addTokenDef t b def tk =
     (let ipos = length (tl_map tk);
          tl1 = tk\<lparr>tl_map := smap_insert t ipos (tl_map tk), tl_required := tl_required tk @ [b]\<rparr>
      in if b
         then tl1\<lparr>tl_reqarr := smap_insert ipos True (tl_reqarr tl1),
                  tl_default := smap_insert ipos def (tl_default tl1)\<rparr>
         else tl1)"

definition findToken :: "TokenList \<Rightarrow> string \<Rightarrow> int" where
  "findToken tk t = (case smap_find (tl_map tk) t of None \<Rightarrow> - 1 | Some i \<Rightarrow> int i)"

definition copyRequired :: "TokenList \<Rightarrow> (nat, bool) stdmap" where
  "copyRequired tk = tl_reqarr tk"

definition tl_size :: "TokenList \<Rightarrow> nat" where
  "tl_size tk = length (tl_map tk)"

text \<open>\<open>parse\<close> returns the index and the container without it.\<close>

definition tl_parse :: "TokenList \<Rightarrow> string \<Rightarrow> (nat, bool) stdmap \<Rightarrow> int \<times> (nat, bool) stdmap" where
  "tl_parse tk t container =
     (let ipos = findToken tk t in
      if ipos = - 1 then (- 1, container)
      else (case smap_find container (nat ipos) of
              Some _ \<Rightarrow> (ipos, smap_erase (nat ipos) container)
            | None \<Rightarrow> (ipos, container)))"

definition haveDefaults :: "TokenList \<Rightarrow> bool" where
  "haveDefaults tk \<longleftrightarrow> tl_default tk \<noteq> []"

definition getDefault :: "TokenList \<Rightarrow> nat \<Rightarrow> string" where
  "getDefault tk i = (case smap_find (tl_default tk) i of None \<Rightarrow> [] | Some d \<Rightarrow> d)"

section \<open>Well-formed token lists\<close>

text \<open>
  The indices of a well-formed list are \<open>0 .. size - 1\<close>, one name each; every required
  index and every default is one of them.
\<close>

definition tl_wf :: "TokenList \<Rightarrow> bool" where
  "tl_wf tk \<longleftrightarrow> smap_ok (tl_map tk) \<and> smap_ok (tl_reqarr tk) \<and> smap_ok (tl_default tk) \<and>
     distinct (map snd (tl_map tk)) \<and> set (map snd (tl_map tk)) = {..<tl_size tk} \<and>
     length (tl_required tk) = tl_size tk \<and>
     set (map fst (tl_reqarr tk)) = {i. i < tl_size tk \<and> tl_required tk ! i} \<and>
     set (map fst (tl_default tk)) \<subseteq> set (map fst (tl_reqarr tk))"

lemma tl_wf_new: "tl_wf TokenList_new"
  by (simp add: tl_wf_def TokenList_new_def tl_size_def)

lemma distinct_snd_smap_insert:
  assumes "smap_find m t = None" and "distinct (map snd m)" and "i \<notin> set (map snd m)"
  shows "distinct (map snd (smap_insert t i m))"
  using assms
proof (induction t i m rule: smap_insert.induct)
  case (2 k v a b m)
  then have "b \<notin> snd ` set (smap_insert k v m)"
    by (auto simp: set_smap_insert_absent split: if_splits)
  with 2 show ?case by (auto split: if_splits)
qed simp

lemma required_snoc:
  assumes "length r = n"
  shows "{i. i < Suc n \<and> (r @ [b]) ! i} = {i. i < n \<and> r ! i} \<union> (if b then {n} else {})"
  using assms by (auto simp: nth_append less_Suc_eq)

text \<open>Both ways of adding a token add one name with the next index.\<close>

lemma tl_wf_add_aux:
  assumes "tl_wf tk" and "smap_find (tl_map tk) t = None"
  shows "smap_ok (smap_insert t (tl_size tk) (tl_map tk))"
    and "distinct (map snd (smap_insert t (tl_size tk) (tl_map tk)))"
    and "set (map snd (smap_insert t (tl_size tk) (tl_map tk))) = {..<Suc (tl_size tk)}"
    and "length (smap_insert t (tl_size tk) (tl_map tk)) = Suc (tl_size tk)"
proof -
  from assms(1) have ok: "smap_ok (tl_map tk)" and dist: "distinct (map snd (tl_map tk))"
    and vals: "snd ` set (tl_map tk) = {..<tl_size tk}"
    by (simp_all add: tl_wf_def)
  show "smap_ok (smap_insert t (tl_size tk) (tl_map tk))"
    using ok by simp
  show "distinct (map snd (smap_insert t (tl_size tk) (tl_map tk)))"
    by (rule distinct_snd_smap_insert [OF assms(2) dist]) (simp add: vals)
  show "set (map snd (smap_insert t (tl_size tk) (tl_map tk))) = {..<Suc (tl_size tk)}"
    using assms(2) vals by (auto simp: set_smap_insert_absent lessThan_Suc)
  show "length (smap_insert t (tl_size tk) (tl_map tk)) = Suc (tl_size tk)"
    using ok assms(2) by (simp add: length_smap_insert tl_size_def)
qed

lemma tl_wf_addToken:
  assumes "tl_wf tk" and "findToken tk t = - 1"
  shows "tl_wf (addToken t b tk)"
proof -
  from assms(2) have fresh: "smap_find (tl_map tk) t = None"
    by (auto simp: findToken_def split: option.splits)
  from assms(1) have req: "length (tl_required tk) = length (tl_map tk)"
    by (simp add: tl_wf_def tl_size_def)
  show ?thesis
    using tl_wf_add_aux [OF assms(1) fresh] assms(1) req
    unfolding tl_wf_def tl_size_def addToken_def Let_def
    by (auto simp: required_snoc smap_insert_keys simp del: set_map)
qed

lemma tl_wf_addTokenDef:
  assumes "tl_wf tk" and "findToken tk t = - 1"
  shows "tl_wf (addTokenDef t b d tk)"
proof -
  from assms(2) have fresh: "smap_find (tl_map tk) t = None"
    by (auto simp: findToken_def split: option.splits)
  from assms(1) have req: "length (tl_required tk) = length (tl_map tk)"
    by (simp add: tl_wf_def tl_size_def)
  show ?thesis
    using tl_wf_add_aux [OF assms(1) fresh] assms(1) req
    unfolding tl_wf_def tl_size_def addTokenDef_def Let_def
    by (auto simp: required_snoc smap_insert_keys simp del: set_map)
qed

lemma findToken_mem: "tl_wf tk \<Longrightarrow> findToken tk t = int i \<longleftrightarrow> (t, i) \<in> set (tl_map tk)"
  by (auto simp: findToken_def tl_wf_def smap_find_iff_mem [symmetric] split: option.splits)

lemma find_snd_unique:
  assumes "distinct (map snd xs)" and "(t, i) \<in> set xs"
  shows "List.find (\<lambda>e. snd e = i) xs = Some (t, i)"
  using assms by (induction xs) force+

lemma find_snd_Some: "List.find (\<lambda>e. snd e = i) xs = Some e \<Longrightarrow> e \<in> set xs \<and> snd e = i"
  by (induction xs) (auto split: if_splits)

lemma getToken_mem: "tl_wf tk \<Longrightarrow> getToken tk i = Inr t \<longleftrightarrow> (t, i) \<in> set (tl_map tk)"
proof
  assume "getToken tk i = Inr t"
  then show "(t, i) \<in> set (tl_map tk)"
    by (auto simp: getToken_def dest!: find_snd_Some split: option.splits)
next
  assume "tl_wf tk" and "(t, i) \<in> set (tl_map tk)"
  then show "getToken tk i = Inr t"
    by (simp add: getToken_def tl_wf_def find_snd_unique)
qed

text \<open>A parsed token is no longer required; the others still are.\<close>

lemma tl_parse_required:
  "tl_parse tk t req = (ipos, req') \<Longrightarrow>
   set (map fst req') = set (map fst req) - (if ipos = - 1 then {} else {nat ipos})"
  by (auto simp: tl_parse_def Let_def smap_erase_def map_of_eq_None_iff
      split: if_splits option.splits)

lemma tl_parse_ok: "tl_parse tk t req = (ipos, req') \<Longrightarrow> smap_ok req \<Longrightarrow> smap_ok req'"
  by (auto simp: tl_parse_def Let_def split: if_splits option.splits)

end
