(* ===== verification/Tokens.thy ===== *)
theory Tokens
  imports Token_List
begin

text \<open>
  \<open>src/src/tokens.h\<close>: the token tables of the Postfix policy protocol and of the
  configuration file, and the enumerations the rest of the program uses as their indices. Each
  enumeration is a datatype with its index function. The constructor \<open>Tokens()\<close> fills a
  table with a sequence of \<open>addToken\<close> calls, here \<open>addTokens\<close> over the list of
  their arguments.
\<close>

section \<open>The enumerations\<close>

datatype PostfixTokensType =
  PF_client_address | PF_sender | PF_recipient | PF_reverse_client_name | PF_client_name

fun PostfixTokensType_idx :: "PostfixTokensType \<Rightarrow> nat" where
  "PostfixTokensType_idx PF_client_address = 0"
| "PostfixTokensType_idx PF_sender = 1"
| "PostfixTokensType_idx PF_recipient = 2"
| "PostfixTokensType_idx PF_reverse_client_name = 3"
| "PostfixTokensType_idx PF_client_name = 4"

datatype SectionsTokensType =
  Sec_database | Sec_datasource | Sec_match | Sec_policy | Sec_server

fun SectionsTokensType_idx :: "SectionsTokensType \<Rightarrow> nat" where
  "SectionsTokensType_idx Sec_database = 0"
| "SectionsTokensType_idx Sec_datasource = 1"
| "SectionsTokensType_idx Sec_match = 2"
| "SectionsTokensType_idx Sec_policy = 3"
| "SectionsTokensType_idx Sec_server = 4"

datatype DatabaseTokensType = DBT_name | DBT_type | DBT_spareconnections

fun DatabaseTokensType_idx :: "DatabaseTokensType \<Rightarrow> nat" where
  "DatabaseTokensType_idx DBT_name = 0"
| "DatabaseTokensType_idx DBT_type = 1"
| "DatabaseTokensType_idx DBT_spareconnections = 2"

datatype DataSourceTokensType = DST_name | DST_type | DST_table | DST_database

fun DataSourceTokensType_idx :: "DataSourceTokensType \<Rightarrow> nat" where
  "DataSourceTokensType_idx DST_name = 0"
| "DataSourceTokensType_idx DST_type = 1"
| "DataSourceTokensType_idx DST_table = 2"
| "DataSourceTokensType_idx DST_database = 3"

datatype MatchTokensType = MT_name | MT_type | MT_datasource | MT_lookup | MT_match | MT_return

fun MatchTokensType_idx :: "MatchTokensType \<Rightarrow> nat" where
  "MatchTokensType_idx MT_name = 0"
| "MatchTokensType_idx MT_type = 1"
| "MatchTokensType_idx MT_datasource = 2"
| "MatchTokensType_idx MT_lookup = 3"
| "MatchTokensType_idx MT_match = 4"
| "MatchTokensType_idx MT_return = 5"

datatype ColumnTokensType =
    CT_client_address | CT_sender | CT_recipient | CT_reverse_client_name | CT_client_name
  | CT_short_reverse_client_name | CT_short_client_name | CT_triplet_string | CT_network

fun ColumnTokensType_idx :: "ColumnTokensType \<Rightarrow> nat" where
  "ColumnTokensType_idx CT_client_address = 0"
| "ColumnTokensType_idx CT_sender = 1"
| "ColumnTokensType_idx CT_recipient = 2"
| "ColumnTokensType_idx CT_reverse_client_name = 3"
| "ColumnTokensType_idx CT_client_name = 4"
| "ColumnTokensType_idx CT_short_reverse_client_name = 5"
| "ColumnTokensType_idx CT_short_client_name = 6"
| "ColumnTokensType_idx CT_triplet_string = 7"
| "ColumnTokensType_idx CT_network = 8"

datatype PolicyTokensType =
  PT_name | PT_type | PT_match | PT_datasource | PT_mode | PT_weakbytes | PT_timeout

fun PolicyTokensType_idx :: "PolicyTokensType \<Rightarrow> nat" where
  "PolicyTokensType_idx PT_name = 0"
| "PolicyTokensType_idx PT_type = 1"
| "PolicyTokensType_idx PT_match = 2"
| "PolicyTokensType_idx PT_datasource = 3"
| "PolicyTokensType_idx PT_mode = 4"
| "PolicyTokensType_idx PT_weakbytes = 5"
| "PolicyTokensType_idx PT_timeout = 6"

datatype GreylistTokensType = GT_reverse | GT_weak | GT_normal

fun GreylistTokensType_idx :: "GreylistTokensType \<Rightarrow> nat" where
  "GreylistTokensType_idx GT_reverse = 0"
| "GreylistTokensType_idx GT_weak = 1"
| "GreylistTokensType_idx GT_normal = 2"

datatype MatchTypeTokensType =
  MTT_exact_match | MTT_pattern_match | MTT_cached_exact_match | MTT_cached_pattern_match | MTT_all

fun MatchTypeTokensType_idx :: "MatchTypeTokensType \<Rightarrow> nat" where
  "MatchTypeTokensType_idx MTT_exact_match = 0"
| "MatchTypeTokensType_idx MTT_pattern_match = 1"
| "MatchTypeTokensType_idx MTT_cached_exact_match = 2"
| "MatchTypeTokensType_idx MTT_cached_pattern_match = 3"
| "MatchTypeTokensType_idx MTT_all = 4"

datatype DataSourceTypeTokensType = DSTT_db

fun DataSourceTypeTokensType_idx :: "DataSourceTypeTokensType \<Rightarrow> nat" where
  "DataSourceTypeTokensType_idx DSTT_db = 0"

datatype PolicyTypeTokensType = PTT_whitelist | PTT_greylist

fun PolicyTypeTokensType_idx :: "PolicyTypeTokensType \<Rightarrow> nat" where
  "PolicyTypeTokensType_idx PTT_whitelist = 0"
| "PolicyTypeTokensType_idx PTT_greylist = 1"

datatype ServerTokensType =
    ST_port | ST_listen | ST_sparethreads | ST_maxthreads | ST_maxrequests | ST_cacherefresh
  | ST_poolrefresh | ST_deferwithstatus | ST_defer | ST_dunno | ST_onerror | ST_log | ST_statsevery

fun ServerTokensType_idx :: "ServerTokensType \<Rightarrow> nat" where
  "ServerTokensType_idx ST_port = 0"
| "ServerTokensType_idx ST_listen = 1"
| "ServerTokensType_idx ST_sparethreads = 2"
| "ServerTokensType_idx ST_maxthreads = 3"
| "ServerTokensType_idx ST_maxrequests = 4"
| "ServerTokensType_idx ST_cacherefresh = 5"
| "ServerTokensType_idx ST_poolrefresh = 6"
| "ServerTokensType_idx ST_deferwithstatus = 7"
| "ServerTokensType_idx ST_defer = 8"
| "ServerTokensType_idx ST_dunno = 9"
| "ServerTokensType_idx ST_onerror = 10"
| "ServerTokensType_idx ST_log = 11"
| "ServerTokensType_idx ST_statsevery = 12"

datatype BooleanTokensType = BT_false | BT_true

fun BooleanTokensType_idx :: "BooleanTokensType \<Rightarrow> nat" where
  "BooleanTokensType_idx BT_false = 0"
| "BooleanTokensType_idx BT_true = 1"

datatype PostfixResponseTokensType = PFT_dunno | PFT_defer

fun PostfixResponseTokensType_idx :: "PostfixResponseTokensType \<Rightarrow> nat" where
  "PostfixResponseTokensType_idx PFT_dunno = 0"
| "PostfixResponseTokensType_idx PFT_defer = 1"

datatype LogTokensType = LT_minimal | LT_full

fun LogTokensType_idx :: "LogTokensType \<Rightarrow> nat" where
  "LogTokensType_idx LT_minimal = 0"
| "LogTokensType_idx LT_full = 1"

section \<open>The tables\<close>

type_synonym token_decl = "string \<times> bool \<times> string option"

fun add_decl :: "token_decl \<Rightarrow> TokenList \<Rightarrow> TokenList" where
  "add_decl (t, b, None) tk = addToken t b tk"
| "add_decl (t, b, Some d) tk = addTokenDef t b d tk"

definition addTokens :: "token_decl list \<Rightarrow> TokenList" where
  "addTokens ds = fold add_decl ds TokenList_new"

definition postfixTokens :: TokenList where
  "postfixTokens = addTokens
     [(''client_address'', True, None), (''sender'', True, None), (''recipient'', True, None),
      (''reverse_client_name'', False, None), (''client_name'', False, None)]"

definition configColumnTokens :: TokenList where
  "configColumnTokens = addTokens
     [(''client_address'', False, None), (''sender'', False, None), (''recipient'', False, None),
      (''reverse_client_name'', False, None), (''client_name'', False, None),
      (''short_reverse_client_name'', False, None), (''short_client_name'', False, None),
      (''triplet_string'', False, None), (''network'', False, None)]"

definition configSectionsTokens :: TokenList where
  "configSectionsTokens = addTokens
     [(''database'', False, None), (''datasource'', False, None), (''match'', False, None),
      (''policy'', False, None), (''server'', False, None)]"

definition configGreylistTokens :: TokenList where
  "configGreylistTokens = addTokens
     [(''reverse'', False, None), (''weak'', False, None), (''normal'', False, None)]"

definition databaseTokens :: TokenList where
  "databaseTokens = addTokens
     [(''name'', True, None), (''type'', True, None), (''spareconnections'', True, Some ''10'')]"

definition datasourceTokens :: TokenList where
  "datasourceTokens = addTokens
     [(''name'', True, None), (''type'', True, None), (''table'', False, None),
      (''database'', False, None)]"

definition datasourceTypeTokens :: TokenList where
  "datasourceTypeTokens = addTokens [(''db'', False, None)]"

definition matchTokens :: TokenList where
  "matchTokens = addTokens
     [(''name'', True, None), (''type'', True, None), (''datasource'', False, None),
      (''lookup'', False, None), (''match'', False, None), (''return'', False, None)]"

definition matchTypeTokens :: TokenList where
  "matchTypeTokens = addTokens
     [(''exact match'', False, None), (''pattern match'', False, None),
      (''cached exact match'', False, None), (''cached pattern match'', False, None),
      (''all'', False, None)]"

definition policyTokens :: TokenList where
  "policyTokens = addTokens
     [(''name'', False, None), (''type'', True, None), (''match'', True, None),
      (''datasource'', False, None), (''mode'', True, Some ''reverse''),
      (''weakbytes'', True, Some ''4''), (''timeout'', False, None)]"

definition policyTypeTokens :: TokenList where
  "policyTypeTokens = addTokens [(''whitelist'', False, None), (''greylist'', False, None)]"

definition serverTokens :: TokenList where
  "serverTokens = addTokens
     [(''port'', True, Some ''4096''), (''listen'', True, Some ''0.0.0.0''),
      (''sparethreads'', True, Some ''2''), (''maxthreads'', True, Some ''150''),
      (''maxrequests'', True, Some ''0''), (''cacherefresh'', True, Some ''600''),
      (''poolrefresh'', True, Some ''5''), (''deferwithstatus'', True, Some ''true''),
      (''defer'', True, Some ''defer_if_permit Service is unavailable''),
      (''dunno'', True, Some ''dunno''), (''onerror'', True, Some ''dunno''),
      (''log'', True, Some ''minimal''), (''stats'', True, Some ''120'')]"

definition configBooleanTokens :: TokenList where
  "configBooleanTokens = addTokens [(''false'', False, None), (''true'', False, None)]"

definition postfixResponseTokens :: TokenList where
  "postfixResponseTokens = addTokens [(''dunno'', False, None), (''defer_if_permit'', False, None)]"

definition logTokens :: TokenList where
  "logTokens = addTokens [(''minimal'', False, None), (''full'', False, None)]"

text \<open>
  \<open>_configTokens.at(t)\<close> and \<open>_configTypeTokens.at(t)\<close>. The second vector has no
  entry for the server section (index 4), so asking for it throws.
\<close>

fun configTokens :: "SectionsTokensType \<Rightarrow> TokenList" where
  "configTokens Sec_database = databaseTokens"
| "configTokens Sec_datasource = datasourceTokens"
| "configTokens Sec_match = matchTokens"
| "configTokens Sec_policy = policyTokens"
| "configTokens Sec_server = serverTokens"

fun configTypeTokens :: "SectionsTokensType \<Rightarrow> exn + TokenList" where
  "configTypeTokens Sec_database = Inr TokenList_new"
| "configTypeTokens Sec_datasource = Inr datasourceTypeTokens"
| "configTypeTokens Sec_match = Inr matchTypeTokens"
| "configTypeTokens Sec_policy = Inr policyTypeTokens"
| "configTypeTokens Sec_server = Inl (OutOfRange ''vector::_M_range_check'')"

section \<open>What a sequence of additions builds\<close>

lemma tl_map_add_decl: "tl_map (add_decl d tk) = smap_insert (fst d) (tl_size tk) (tl_map tk)"
  by (cases d, cases "snd (snd d)") (auto simp: addToken_def addTokenDef_def Let_def tl_size_def)

lemma tl_wf_add_decl:
  "tl_wf tk \<Longrightarrow> findToken tk (fst d) = - 1 \<Longrightarrow> tl_wf (add_decl d tk)"
  by (cases d, cases "snd (snd d)") (auto simp: tl_wf_addToken tl_wf_addTokenDef)

lemma findToken_eq_none: "findToken tk t = - 1 \<longleftrightarrow> t \<notin> fst ` set (tl_map tk)"
proof -
  have "findToken tk t = - 1 \<longleftrightarrow> smap_find (tl_map tk) t = None"
    by (auto simp: findToken_def split: option.splits)
  then show ?thesis by (simp add: map_of_eq_None_iff)
qed

lemma set_tl_map_add_decl:
  assumes "findToken tk (fst d) = - 1"
  shows "set (tl_map (add_decl d tk)) = insert (fst d, tl_size tk) (set (tl_map tk))"
  using assms by (simp add: tl_map_add_decl set_smap_insert_absent findToken_eq_none map_of_eq_None_iff)

lemma addTokens_invariant:
  assumes "distinct (map fst ds)"
  shows "tl_wf (addTokens ds) \<and>
    set (tl_map (addTokens ds)) = {(fst (ds ! i), i) | i. i < length ds} \<and>
    tl_size (addTokens ds) = length ds"
  using assms
proof (induction ds rule: rev_induct)
  case Nil
  have "addTokens [] = TokenList_new" by (simp add: addTokens_def)
  then show ?case by (simp add: tl_wf_new) (simp add: TokenList_new_def tl_size_def)
next
  case (snoc d ds)
  let ?tk = "addTokens ds"
  have wf: "tl_wf ?tk" and set: "set (tl_map ?tk) = {(fst (ds ! i), i) | i. i < length ds}"
    and size: "tl_size ?tk = length ds"
    using snoc by auto
  have fresh: "findToken ?tk (fst d) = - 1"
    using snoc.prems set by (auto simp: findToken_eq_none)
  have step: "addTokens (ds @ [d]) = add_decl d ?tk"
    by (simp add: addTokens_def)
  have "set (tl_map (add_decl d ?tk)) = {(fst ((ds @ [d]) ! i), i) | i. i < length (ds @ [d])}"
    using set size by (auto simp: set_tl_map_add_decl [OF fresh] nth_append less_Suc_eq)
  moreover have "tl_size (add_decl d ?tk) = Suc (length ds)"
    using wf fresh size
    by (simp add: tl_size_def tl_map_add_decl length_smap_insert tl_wf_def findToken_eq_none
        map_of_eq_None_iff)
  ultimately show ?case
    by (simp add: step tl_wf_add_decl [OF wf fresh])
qed

lemmas addTokens_wf = addTokens_invariant [THEN conjunct1]

lemma findToken_addTokens:
  assumes "distinct (map fst ds)" and "i < length ds"
  shows "findToken (addTokens ds) (fst (ds ! i)) = int i"
  using addTokens_invariant [OF assms(1)] assms(2) by (auto simp: findToken_mem)

lemma getToken_addTokens:
  assumes "distinct (map fst ds)" and "i < length ds"
  shows "getToken (addTokens ds) i = Inr (fst (ds ! i))"
  using addTokens_invariant [OF assms(1)] assms(2) by (auto simp: getToken_mem)

lemma findToken_absent:
  assumes "distinct (map fst ds)" and "s \<notin> fst ` set ds"
  shows "findToken (addTokens ds) s = - 1"
  using addTokens_invariant [OF assms(1)] assms(2) by (auto simp: findToken_eq_none)

lemma getToken_beyond:
  assumes "distinct (map fst ds)" and "length ds \<le> i"
  shows "getToken (addTokens ds) i = Inl (OutOfRange ''TokenList getToken'')"
proof -
  have "i \<notin> snd ` set (tl_map (addTokens ds))" using addTokens_invariant [OF assms(1)] assms(2) by auto
  then have "List.find (\<lambda>e. snd e = i) (tl_map (addTokens ds)) = None" by (force simp: find_None_iff)
  then show ?thesis by (simp add: getToken_def)
qed

lemma addTokens_snoc: "addTokens (ds @ [d]) = add_decl d (addTokens ds)"
  by (simp add: addTokens_def)

lemma required_addTokens: "tl_required (addTokens ds) = map (fst \<circ> snd) ds"
proof (induction ds rule: rev_induct)
  case (snoc d ds)
  have "tl_required (add_decl d tk) = tl_required tk @ [fst (snd d)]" for tk
    by (cases d, cases "snd (snd d)") (auto simp: addToken_def addTokenDef_def Let_def)
  then show ?case using snoc.IH by (simp add: addTokens_snoc)
qed (simp add: addTokens_def TokenList_new_def)

lemma default_addTokens:
  "distinct (map fst ds) \<Longrightarrow>
   smap_find (tl_default (addTokens ds)) i = (if i < length ds \<and> fst (snd (ds ! i)) then snd (snd (ds ! i)) else None)"
proof (induction ds arbitrary: i rule: rev_induct)
  case (snoc d ds)
  let ?tk = "addTokens ds"
  have inv: "tl_wf ?tk" "tl_size ?tk = length ds" using snoc.prems addTokens_invariant [of ds] by simp_all
  have IH: "smap_find (tl_default ?tk) j = (if j < length ds \<and> fst (snd (ds ! j)) then snd (snd (ds ! j)) else None)" for j
    using snoc by simp
  have "tl_default (add_decl d ?tk) =
      (case snd (snd d) of Some x \<Rightarrow> if fst (snd d) then smap_insert (length ds) x (tl_default ?tk) else tl_default ?tk
       | None \<Rightarrow> tl_default ?tk)"
    using inv(2) by (cases d, cases "snd (snd d)") (auto simp: addToken_def addTokenDef_def Let_def tl_size_def)
  then show ?case
    using inv(1) IH [of i] IH [of "length ds"]
    by (auto simp: addTokens_snoc smap_find_insert tl_wf_def nth_append less_Suc_eq split: option.splits if_splits)
qed (simp add: addTokens_def TokenList_new_def)

lemma required_indices:
  assumes "distinct (map fst ds)"
  shows "set (map fst (copyRequired (addTokens ds))) = {i. i < length ds \<and> fst (snd (ds ! i))}"
proof -
  have "set (map fst (tl_reqarr (addTokens ds))) = {i. i < tl_size (addTokens ds) \<and> tl_required (addTokens ds) ! i}"
    using addTokens_wf [OF assms] by (simp add: tl_wf_def)
  then show ?thesis
    using addTokens_invariant [OF assms] by (auto simp: copyRequired_def required_addTokens)
qed

lemmas token_table_defs =
  postfixTokens_def configColumnTokens_def configSectionsTokens_def configGreylistTokens_def
  databaseTokens_def datasourceTokens_def datasourceTypeTokens_def matchTokens_def
  matchTypeTokens_def policyTokens_def policyTypeTokens_def serverTokens_def
  configBooleanTokens_def postfixResponseTokens_def logTokens_def

lemma token_tables_wf [simp]:
  "tl_wf postfixTokens" "tl_wf configColumnTokens" "tl_wf configSectionsTokens"
  "tl_wf configGreylistTokens" "tl_wf databaseTokens" "tl_wf datasourceTokens"
  "tl_wf datasourceTypeTokens" "tl_wf matchTokens" "tl_wf matchTypeTokens" "tl_wf policyTokens"
  "tl_wf policyTypeTokens" "tl_wf serverTokens" "tl_wf configBooleanTokens"
  "tl_wf postfixResponseTokens" "tl_wf logTokens"
  by (simp_all add: token_table_defs addTokens_wf)

lemma configTokens_wf [simp]: "tl_wf (configTokens t)"
  by (cases t) simp_all

section \<open>Indices and enumerations\<close>

text \<open>
  C31 (type). Token lists and the enumerations that index them. A list built by any sequence of additions of distinct
  texts gives the i-th text the index i, both ways, knows no other text (-1) and no other index (an exception), requires
  exactly the tokens added as required, and has the defaults they were added with. In the tables of the program the
  text of every token is at the index of the constant that the rest of the program uses for it, for all the
  enumerations: sections, Postfix attributes, the tokens of each section, the types, and the values with names.
\<close>

theorem token_tables_typed:
  assumes "distinct (map fst ds)"
  shows
  "(\<forall>i < length ds. findToken (addTokens ds) (fst (ds ! i)) = int i \<and> getToken (addTokens ds) i = Inr (fst (ds ! i)) \<and>
      getDefault (addTokens ds) i =
        (case snd (snd (ds ! i)) of Some d \<Rightarrow> if fst (snd (ds ! i)) then d else [] | None \<Rightarrow> [])) \<and>
   (\<forall>s. s \<notin> fst ` set ds \<longrightarrow> findToken (addTokens ds) s = - 1) \<and>
   (\<forall>i \<ge> length ds. getToken (addTokens ds) i = Inl (OutOfRange ''TokenList getToken'')) \<and>
   set (map fst (copyRequired (addTokens ds))) = {i. i < length ds \<and> fst (snd (ds ! i))} \<and>
   map (findToken configSectionsTokens) [''database'', ''datasource'', ''match'', ''policy'', ''server''] =
     map (int \<circ> SectionsTokensType_idx) [Sec_database, Sec_datasource, Sec_match, Sec_policy, Sec_server] \<and>
   map (findToken postfixTokens) [''client_address'', ''sender'', ''recipient'', ''reverse_client_name'', ''client_name''] =
     map (int \<circ> PostfixTokensType_idx) [PF_client_address, PF_sender, PF_recipient, PF_reverse_client_name, PF_client_name] \<and>
   map (findToken databaseTokens) [''name'', ''type'', ''spareconnections''] =
     map (int \<circ> DatabaseTokensType_idx) [DBT_name, DBT_type, DBT_spareconnections] \<and>
   map (findToken datasourceTokens) [''name'', ''type'', ''table'', ''database''] =
     map (int \<circ> DataSourceTokensType_idx) [DST_name, DST_type, DST_table, DST_database] \<and>
   map (findToken matchTokens) [''name'', ''type'', ''datasource'', ''lookup'', ''match'', ''return''] =
     map (int \<circ> MatchTokensType_idx) [MT_name, MT_type, MT_datasource, MT_lookup, MT_match, MT_return] \<and>
   map (findToken policyTokens) [''name'', ''type'', ''match'', ''datasource'', ''mode'', ''weakbytes'', ''timeout''] =
     map (int \<circ> PolicyTokensType_idx) [PT_name, PT_type, PT_match, PT_datasource, PT_mode, PT_weakbytes, PT_timeout] \<and>
   map (findToken serverTokens) [''port'', ''listen'', ''sparethreads'', ''maxthreads'', ''maxrequests'', ''cacherefresh'', ''poolrefresh'', ''deferwithstatus'', ''defer'', ''dunno'', ''onerror'', ''log'', ''stats''] =
     map (int \<circ> ServerTokensType_idx) [ST_port, ST_listen, ST_sparethreads, ST_maxthreads, ST_maxrequests, ST_cacherefresh, ST_poolrefresh, ST_deferwithstatus, ST_defer, ST_dunno, ST_onerror, ST_log, ST_statsevery] \<and>
   map (findToken configColumnTokens) [''client_address'', ''sender'', ''recipient'', ''reverse_client_name'', ''client_name'', ''short_reverse_client_name'', ''short_client_name'', ''triplet_string'', ''network''] =
     map (int \<circ> ColumnTokensType_idx) [CT_client_address, CT_sender, CT_recipient, CT_reverse_client_name, CT_client_name, CT_short_reverse_client_name, CT_short_client_name, CT_triplet_string, CT_network] \<and>
   map (findToken matchTypeTokens) [''exact match'', ''pattern match'', ''cached exact match'', ''cached pattern match'', ''all''] =
     map (int \<circ> MatchTypeTokensType_idx) [MTT_exact_match, MTT_pattern_match, MTT_cached_exact_match, MTT_cached_pattern_match, MTT_all] \<and>
   map (findToken policyTypeTokens) [''whitelist'', ''greylist''] =
     map (int \<circ> PolicyTypeTokensType_idx) [PTT_whitelist, PTT_greylist] \<and>
   map (findToken configGreylistTokens) [''reverse'', ''weak'', ''normal''] =
     map (int \<circ> GreylistTokensType_idx) [GT_reverse, GT_weak, GT_normal] \<and>
   map (findToken configBooleanTokens) [''false'', ''true''] =
     map (int \<circ> BooleanTokensType_idx) [BT_false, BT_true] \<and>
   map (findToken logTokens) [''minimal'', ''full''] =
     map (int \<circ> LogTokensType_idx) [LT_minimal, LT_full] \<and>
   map (findToken datasourceTypeTokens) [''db''] = map (int \<circ> DataSourceTypeTokensType_idx) [DSTT_db] \<and>
   map (findToken postfixResponseTokens) [''dunno'', ''defer_if_permit''] =
     map (int \<circ> PostfixResponseTokensType_idx) [PFT_dunno, PFT_defer]"
proof -
  note d = findToken_addTokens [OF assms] getToken_addTokens [OF assms]
  have g: "\<forall>i < length ds. findToken (addTokens ds) (fst (ds ! i)) = int i \<and> getToken (addTokens ds) i = Inr (fst (ds ! i)) \<and>
      getDefault (addTokens ds) i =
        (case snd (snd (ds ! i)) of Some d \<Rightarrow> if fst (snd (ds ! i)) then d else [] | None \<Rightarrow> [])"
    using d by (auto simp: getDefault_def default_addTokens [OF assms] split: option.splits)
  have a: "\<forall>s. s \<notin> fst ` set ds \<longrightarrow> findToken (addTokens ds) s = - 1" using findToken_absent [OF assms] by blast
  have b: "\<forall>i \<ge> length ds. getToken (addTokens ds) i = Inl (OutOfRange ''TokenList getToken'')"
    using getToken_beyond [OF assms] by blast
  show ?thesis by (intro conjI g a b required_indices [OF assms]) code_simp+
qed

theorem token_tables_typed_witness:
  "findToken serverTokens ''log'' = 11 \<and> getToken serverTokens 11 = Inr ''log'' \<and> getDefault serverTokens 11 = ''minimal'' \<and>
   findToken serverTokens ''stat'' = - 1"
proof -
  let ?ds = "[(''port'', True, Some ''4096''), (''listen'', True, Some ''0.0.0.0''),
      (''sparethreads'', True, Some ''2''), (''maxthreads'', True, Some ''150''),
      (''maxrequests'', True, Some ''0''), (''cacherefresh'', True, Some ''600''),
      (''poolrefresh'', True, Some ''5''), (''deferwithstatus'', True, Some ''true''),
      (''defer'', True, Some ''defer_if_permit Service is unavailable''),
      (''dunno'', True, Some ''dunno''), (''onerror'', True, Some ''dunno''),
      (''log'', True, Some ''minimal''), (''stats'', True, Some ''120'')]"
  have "distinct (map fst ?ds)" by code_simp
  note t = token_tables_typed [OF this]
  have "findToken (addTokens ?ds) (fst (?ds ! 11)) = int 11 \<and> getToken (addTokens ?ds) 11 = Inr (fst (?ds ! 11)) \<and>
      getDefault (addTokens ?ds) 11 =
        (case snd (snd (?ds ! 11)) of Some d \<Rightarrow> if fst (snd (?ds ! 11)) then d else [] | None \<Rightarrow> [])"
    by (rule conjunct1 [OF t, rule_format]) simp
  moreover have "findToken (addTokens ?ds) ''stat'' = - 1"
    by (rule conjunct1 [OF conjunct2 [OF t], rule_format]) simp
  ultimately show ?thesis by (simp add: serverTokens_def)
qed

end
