(* ===== verification/Parser.thy ===== *)
theory Parser
  imports Tokens
begin

text \<open>
  \<open>src/src/parser.h\<close>: \<open>Parser<ReaderType, WriterType>::parse\<close>, which reads lines
  \<open>key=value\<close> until the reader says \<open>npos\<close>, hands the known keys to the writer by index
  and the others by name (in variable mode only), then fills in the defaults of the required
  tokens that were not given. The two template parameters are the arguments \<open>getline\<close>,
  \<open>isEof\<close>, \<open>add\<close> and \<open>add_var\<close>; what the parser relies on of each is a locale,
  \<open>line_reader\<close> and \<open>token_writer\<close>, interpreted for the socket and the configuration
  readers and writers in the theories that define them.
\<close>

section \<open>The parser\<close>

type_synonym required = "(nat, bool) stdmap"
type_synonym 'r getline = "'r \<Rightarrow> (exn + string option) \<times> 'r"

text \<open>
  The loop over the lines. The reader decides when it ends, so the loop is a partial function:
  \<^const>\<open>None\<close> is a parser that never returns.
\<close>

partial_function (option) parse_loop ::
    "'r getline \<Rightarrow> (nat \<Rightarrow> string \<Rightarrow> 'w \<Rightarrow> 'w) \<Rightarrow> (string \<Rightarrow> string \<Rightarrow> 'w \<Rightarrow> 'w) \<Rightarrow> TokenList \<Rightarrow> bool \<Rightarrow>
     'r \<Rightarrow> 'w \<Rightarrow> required \<Rightarrow> ((exn + required) \<times> 'r \<times> 'w) option" where
  "parse_loop getline add add_var tokens variablemode r w required =
     (case getline r of
        (Inl e, r') \<Rightarrow> Some (Inl e, r', w)
      | (Inr None, r') \<Rightarrow> Some (Inr required, r', w)
      | (Inr (Some line), r') \<Rightarrow>
          (case find_char CHR ''='' line of
             None \<Rightarrow> parse_loop getline add add_var tokens variablemode r' w required
           | Some eqpos \<Rightarrow>
               (let key = substr line 0 (Some eqpos); val = substr line (eqpos + 1) None;
                    (tokenIdx, required') = tl_parse tokens key required
                in if tokenIdx = - 1
                   then parse_loop getline add add_var tokens variablemode r'
                          (if variablemode then add_var key val w else w) required'
                   else parse_loop getline add add_var tokens variablemode r'
                          (add (nat tokenIdx) val w) required')))"

declare parse_loop.simps [code]

text \<open>The loop over the required tokens that are still missing; it stops at one without a default.\<close>

fun parse_defaults ::
    "(nat \<Rightarrow> string \<Rightarrow> 'w \<Rightarrow> 'w) \<Rightarrow> TokenList \<Rightarrow> required \<Rightarrow> 'w \<Rightarrow> required \<times> 'w" where
  "parse_defaults add tokens [] w = ([], w)"
| "parse_defaults add tokens ((i, b) # required) w =
     (let val = getDefault tokens i in
      if val = [] then ((i, b) # required, w)
      else parse_defaults add tokens required (add i val w))"

text \<open>The text of the error, built by \<open>getToken\<close>, which may itself throw.\<close>

fun parse_missing :: "TokenList \<Rightarrow> required \<Rightarrow> string \<Rightarrow> exn" where
  "parse_missing tokens [] missing = RuntimeError missing"
| "parse_missing tokens ((i, b) # required) missing =
     (case getToken tokens i of
        Inl e \<Rightarrow> e
      | Inr t \<Rightarrow> parse_missing tokens required (missing @ '' '' @ t))"

definition parse ::
    "'r getline \<Rightarrow> ('r \<Rightarrow> bool) \<Rightarrow> (nat \<Rightarrow> string \<Rightarrow> 'w \<Rightarrow> 'w) \<Rightarrow> (string \<Rightarrow> string \<Rightarrow> 'w \<Rightarrow> 'w) \<Rightarrow>
     TokenList \<Rightarrow> bool \<Rightarrow> 'r \<Rightarrow> 'w \<Rightarrow> ((exn + unit) \<times> 'r \<times> 'w) option" where
  "parse getline isEof add add_var tokens variablemode r w =
     (case parse_loop getline add add_var tokens variablemode r w (copyRequired tokens) of
        None \<Rightarrow> None
      | Some (Inl e, r', w') \<Rightarrow> Some (Inl e, r', w')
      | Some (Inr required, r', w') \<Rightarrow>
          if required = [] then Some (Inr (), r', w')
          else let (required', w'') = (if haveDefaults tokens then parse_defaults add tokens required w'
                                       else (required, w'))
               in if haveDefaults tokens \<and> required' = [] then Some (Inr (), r', w'')
                  else if isEof r' then Some (Inr (), r', w'')
                  else Some (Inl (parse_missing tokens required' ''Parser missing:''), r', w''))"

section \<open>What the lines say\<close>

definition key_val :: "string \<Rightarrow> (string \<times> string) option" where
  "key_val line = map_option (\<lambda>p. (take p line, drop (Suc p) line)) (find_char CHR ''='' line)"

definition assignment :: "TokenList \<Rightarrow> string \<Rightarrow> (nat \<times> string) option" where
  "assignment tokens line =
     Option.bind (key_val line)
       (\<lambda>(k, v). if findToken tokens k = - 1 then None else Some (nat (findToken tokens k), v))"

text \<open>The tokens the lines assign, in the order of the lines.\<close>

definition assignments :: "TokenList \<Rightarrow> string list \<Rightarrow> (nat \<times> string) list" where
  "assignments tokens lines = List.map_filter (assignment tokens) lines"

fun parse_line ::
    "(nat \<Rightarrow> string \<Rightarrow> 'w \<Rightarrow> 'w) \<Rightarrow> (string \<Rightarrow> string \<Rightarrow> 'w \<Rightarrow> 'w) \<Rightarrow> TokenList \<Rightarrow> bool \<Rightarrow> string \<Rightarrow>
     'w \<times> required \<Rightarrow> 'w \<times> required" where
  "parse_line add add_var tokens variablemode line (w, required) =
     (case key_val line of
        None \<Rightarrow> (w, required)
      | Some (k, v) \<Rightarrow>
          if findToken tokens k = - 1 then (if variablemode then add_var k v w else w, required)
          else (add (nat (findToken tokens k)) v w, snd (tl_parse tokens k required)))"

lemma key_val_line [simp]:
  assumes "CHR ''='' \<notin> set k"
  shows "key_val (k @ CHR ''='' # v) = Some (k, v)"
  using assms by (simp add: key_val_def find_char_append)

lemma assignments_Nil [simp]: "assignments tokens [] = []"
  by (simp add: assignments_def map_filter_simps)

lemma assignments_Cons:
  "assignments tokens (l # ls) =
   (case assignment tokens l of None \<Rightarrow> assignments tokens ls | Some a \<Rightarrow> a # assignments tokens ls)"
  by (simp add: assignments_def map_filter_simps split: option.split)

lemma tl_parse_idx [simp]: "fst (tl_parse tokens k required) = findToken tokens k"
  by (auto simp: tl_parse_def Let_def split: option.splits)

lemma tl_parse_unknown [simp]: "findToken tokens k = - 1 \<Longrightarrow> tl_parse tokens k required = (- 1, required)"
  by (simp add: tl_parse_def)

lemma smap_erase_id: "k \<notin> fst ` set m \<Longrightarrow> smap_erase k m = m"
  by (auto simp: smap_erase_def filter_id_conv)

lemma tl_parse_erase: "findToken tokens k \<noteq> - 1 \<Longrightarrow>
    snd (tl_parse tokens k required) = smap_erase (nat (findToken tokens k)) required"
  by (auto simp: tl_parse_def Let_def smap_erase_id map_of_eq_None_iff split: option.splits)

section \<open>The reader\<close>

text \<open>
  A reader delivers a block of lines and then \<open>npos\<close>: \<open>block r\<close> are the lines still to
  come before the next \<open>npos\<close>, \<open>rest r\<close> the reader after it. A reader that keeps these
  laws cannot keep the parser busy for ever, and the parser sees nothing of it but the block.
\<close>

locale line_reader =
  fixes getline :: "'r getline"
    and block :: "'r \<Rightarrow> string list"
    and rest :: "'r \<Rightarrow> 'r"
    and ok :: "'r \<Rightarrow> bool"
  assumes getline_done: "ok r \<Longrightarrow> block r = [] \<Longrightarrow> getline r = (Inr None, rest r)"
    and getline_line: "ok r \<Longrightarrow> block r = l # ls \<Longrightarrow>
      \<exists>r'. getline r = (Inr (Some l), r') \<and> block r' = ls \<and> rest r' = rest r \<and> ok r'"
begin

lemma parse_loop_block:
  assumes "ok r"
  shows "parse_loop getline add add_var tokens vm r w required =
    (case fold (parse_line add add_var tokens vm) (block r) (w, required) of
       (w', required') \<Rightarrow> Some (Inr required', rest r, w'))"
  using assms
proof (induction "block r" arbitrary: r w required)
  case Nil
  then have "block r = []" by simp
  with getline_done [OF Nil.prems] show ?case
    by (subst parse_loop.simps) simp
next
  case (Cons l ls)
  from getline_line [OF Cons.prems Cons.hyps(2) [symmetric]]
  obtain r' where r': "getline r = (Inr (Some l), r')" "block r' = ls" "rest r' = rest r" "ok r'"
    by blast
  note IH = Cons.hyps(1) [OF r'(2) [symmetric] r'(4), unfolded r'(2,3)]
  show ?case
  proof (cases "find_char CHR ''='' l")
    case None
    then show ?thesis
      using IH by (subst parse_loop.simps)
        (simp add: r'(1) Cons.hyps(2) [symmetric] key_val_def del: find_char_None_iff)
  next
    case (Some eqpos)
    then show ?thesis
      using IH by (subst parse_loop.simps)
        (simp add: r'(1) Cons.hyps(2) [symmetric] key_val_def Let_def split_beta)
  qed
qed

end

section \<open>The writer\<close>

text \<open>A writer keeps the first value it is given for an index.\<close>

locale token_writer =
  fixes add :: "nat \<Rightarrow> string \<Rightarrow> 'w \<Rightarrow> 'w"
    and add_var :: "string \<Rightarrow> string \<Rightarrow> 'w \<Rightarrow> 'w"
    and val_of :: "'w \<Rightarrow> nat \<Rightarrow> string option"
    and ok_w :: "'w \<Rightarrow> bool"
  assumes value_add: "ok_w w \<Longrightarrow>
      val_of (add i v w) j = (if j = i \<and> val_of w i = None then Some v else val_of w j)"
    and value_add_var: "ok_w w \<Longrightarrow> val_of (add_var k v w) j = val_of w j"
    and ok_add: "ok_w w \<Longrightarrow> ok_w (add i v w)"
    and ok_add_var: "ok_w w \<Longrightarrow> ok_w (add_var k v w)"
begin

lemma ok_parse_line: "ok_w w \<Longrightarrow> ok_w (fst (parse_line add add_var tokens vm l (w, required)))"
  by (auto simp: ok_add ok_add_var split: option.splits)

lemma ok_parse_lines:
  "ok_w w \<Longrightarrow> ok_w (fst (fold (parse_line add add_var tokens vm) lines (w, required)))"
proof (induction lines arbitrary: w required)
  case (Cons l lines)
  obtain w1 req1 where st: "parse_line add add_var tokens vm l (w, required) = (w1, req1)"
    by fastforce
  with Cons.IH [of w1 req1] ok_parse_line [OF Cons.prems, of tokens vm l required] show ?case
    by simp
qed simp

lemma val_of_parse_line:
  assumes "ok_w w"
  shows "val_of (fst (parse_line add add_var tokens vm l (w, required))) i =
    (case val_of w i of Some v \<Rightarrow> Some v | None \<Rightarrow> map_of (assignments tokens [l]) i)"
  using assms
  by (auto simp: value_add value_add_var assignments_Cons assignment_def split: option.splits)

lemma val_of_parse_lines:
  assumes "ok_w w"
  shows "val_of (fst (fold (parse_line add add_var tokens vm) lines (w, required))) i =
    (case val_of w i of Some v \<Rightarrow> Some v | None \<Rightarrow> map_of (assignments tokens lines) i)"
  using assms
proof (induction lines arbitrary: w required)
  case Nil
  then show ?case by (simp split: option.split)
next
  case (Cons l lines)
  obtain w1 req1 where st: "parse_line add add_var tokens vm l (w, required) = (w1, req1)"
    by fastforce
  then have "ok_w w1" and "val_of w1 i =
      (case val_of w i of Some v \<Rightarrow> Some v | None \<Rightarrow> map_of (assignments tokens [l]) i)"
    using ok_parse_line [OF Cons.prems, of tokens vm l required]
      val_of_parse_line [OF Cons.prems, of tokens vm l required i] by simp_all
  with Cons.IH [of w1 req1] st show ?case
    by (auto simp: assignments_Cons split: option.splits)
qed

end

lemma required_parse_lines:
  "snd (fold (parse_line add add_var tokens vm) lines (w, required)) =
   filter (\<lambda>e. fst e \<notin> fst ` set (assignments tokens lines)) required"
proof (induction lines arbitrary: w required)
  case (Cons l lines)
  obtain w1 req1 where st: "parse_line add add_var tokens vm l (w, required) = (w1, req1)"
    by fastforce
  have "req1 = filter (\<lambda>e. fst e \<notin> fst ` set (assignments tokens [l])) required"
    using st by (auto simp: assignments_Cons assignment_def tl_parse_erase smap_erase_def
        split: option.splits if_splits)
  with Cons.IH [of w1 req1] st show ?case
    by (simp add: assignments_Cons split: option.splits)
qed simp

text \<open>
  The required tokens a list of lines leaves open, and those of them that are left when the
  defaults are used up: everything from the first one without a default on.
\<close>

definition open_required :: "TokenList \<Rightarrow> string list \<Rightarrow> required" where
  "open_required tokens lines =
     filter (\<lambda>e. fst e \<notin> fst ` set (assignments tokens lines)) (copyRequired tokens)"

definition defaulted :: "TokenList \<Rightarrow> required \<Rightarrow> required" where
  "defaulted tokens required = takeWhile (\<lambda>e. getDefault tokens (fst e) \<noteq> []) required"

definition undefaulted :: "TokenList \<Rightarrow> required \<Rightarrow> required" where
  "undefaulted tokens required = dropWhile (\<lambda>e. getDefault tokens (fst e) \<noteq> []) required"

lemma parse_defaults_eq:
  "parse_defaults add tokens required w =
   (undefaulted tokens required, fold (\<lambda>e. add (fst e) (getDefault tokens (fst e))) (defaulted tokens required) w)"
  by (induction add tokens required w rule: parse_defaults.induct)
    (simp_all add: defaulted_def undefaulted_def Let_def)

lemma no_defaults: "\<not> haveDefaults tokens \<Longrightarrow> getDefault tokens i = []"
  by (simp add: haveDefaults_def getDefault_def)

lemma parse_missing_names:
  assumes "\<forall>e \<in> set required. getToken tokens (fst e) = Inr (name (fst e))"
  shows "parse_missing tokens required m =
    RuntimeError (m @ concat (map (\<lambda>e. '' '' @ name (fst e)) required))"
  using assms by (induction tokens required m rule: parse_missing.induct) auto

lemma parse_missing_wf:
  assumes "tl_wf tokens" and "set required \<subseteq> set (copyRequired tokens)"
  shows "\<exists>names. parse_missing tokens required m = RuntimeError (m @ names)"
proof -
  have "\<exists>t. getToken tokens (fst e) = Inr t" if "e \<in> set required" for e
  proof -
    have "fst e \<in> set (map fst (tl_reqarr tokens))"
      using that assms(2) by (auto simp: copyRequired_def)
    then have "fst e < tl_size tokens" using assms(1) by (auto simp: tl_wf_def)
    then have "fst e \<in> set (map snd (tl_map tokens))" using assms(1) by (simp add: tl_wf_def)
    then show ?thesis using getToken_mem [OF assms(1)] by auto
  qed
  then have "\<forall>e \<in> set required. getToken tokens (fst e) = Inr (projr (getToken tokens (fst e)))"
    by force
  from parse_missing_names [OF this] show ?thesis by blast
qed

text \<open>A token is assigned exactly when some line has its name as key.\<close>

definition line_keys :: "string list \<Rightarrow> string list" where
  "line_keys lines = map fst (List.map_filter key_val lines)"

lemma findToken_idx_inj:
  assumes "tl_wf tk" and "(name, i) \<in> set (tl_map tk)"
  shows "findToken tk k \<noteq> - 1 \<and> nat (findToken tk k) = i \<longleftrightarrow> k = name"
proof -
  have name: "findToken tk name = int i"
    using findToken_mem [OF assms(1)] assms(2) by simp
  show ?thesis
  proof
    assume k: "findToken tk k \<noteq> - 1 \<and> nat (findToken tk k) = i"
    then have "findToken tk k = int i"
      by (auto simp: findToken_def split: option.splits)
    then have "getToken tk i = Inr k"
      using findToken_mem [OF assms(1)] getToken_mem [OF assms(1)] by blast
    moreover have "getToken tk i = Inr name"
      using getToken_mem [OF assms(1)] assms(2) by blast
    ultimately show "k = name" by simp
  qed (simp add: name)
qed

lemma assigned_iff:
  assumes "tl_wf tk" and "(name, i) \<in> set (tl_map tk)"
  shows "i \<in> fst ` set (assignments tk lines) \<longleftrightarrow> name \<in> set (line_keys lines)"
proof (induction lines)
  case (Cons l lines)
  have "assignment tk l = Some (i, v) \<longleftrightarrow> key_val l = Some (name, v)" for v
  proof (cases "key_val l")
    case (Some kv)
    with findToken_idx_inj [OF assms, of "fst kv"] show ?thesis
      by (cases kv) (auto simp: assignment_def)
  qed (simp add: assignment_def)
  then have "(\<exists>v. assignment tk l = Some (i, v)) \<longleftrightarrow> (\<exists>v. key_val l = Some (name, v))" by simp
  with Cons.IH show ?case
    by (auto simp: assignments_Cons line_keys_def map_filter_simps split: option.splits)
qed (simp add: line_keys_def map_filter_simps)

section \<open>The parser on a reader and a writer\<close>

locale parser_client = line_reader getline block rest ok + token_writer add add_var val_of ok_w
  for getline :: "'r getline" and block :: "'r \<Rightarrow> string list" and rest :: "'r \<Rightarrow> 'r"
    and ok :: "'r \<Rightarrow> bool" and add :: "nat \<Rightarrow> string \<Rightarrow> 'w \<Rightarrow> 'w"
    and add_var :: "string \<Rightarrow> string \<Rightarrow> 'w \<Rightarrow> 'w" and val_of :: "'w \<Rightarrow> nat \<Rightarrow> string option"
    and ok_w :: "'w \<Rightarrow> bool" +
  fixes isEof :: "'r \<Rightarrow> bool"
begin

text \<open>Whether the parser throws, and with which text, is a matter of the block alone.\<close>

definition outcome :: "TokenList \<Rightarrow> 'r \<Rightarrow> exn + unit" where
  "outcome tokens r =
     (let left = undefaulted tokens (open_required tokens (block r))
      in if left = [] \<or> isEof (rest r) then Inr ()
         else Inl (parse_missing tokens left ''Parser missing:''))"

lemma outcome_error:
  assumes "tl_wf tokens" and "outcome tokens r = Inl e"
  shows "\<exists>names. e = RuntimeError (''Parser missing:'' @ names)"
proof -
  have "set (undefaulted tokens (open_required tokens (block r))) \<subseteq> set (copyRequired tokens)"
    by (auto simp: undefaulted_def open_required_def dest: set_dropWhileD)
  from parse_missing_wf [OF assms(1) this] assms(2) show ?thesis
    unfolding outcome_def Let_def by (metis Inl_inject sum.distinct(1))
qed

definition filled :: "TokenList \<Rightarrow> bool \<Rightarrow> 'r \<Rightarrow> 'w \<Rightarrow> 'w" where
  "filled tokens vm r w =
     fold (\<lambda>e. add (fst e) (getDefault tokens (fst e))) (defaulted tokens (open_required tokens (block r)))
       (fst (fold (parse_line add add_var tokens vm) (block r) (w, copyRequired tokens)))"

lemma parse_returns:
  assumes "ok r"
  shows "parse getline isEof add add_var tokens vm r w =
         Some (outcome tokens r, rest r, filled tokens vm r w)"
proof -
  obtain w1 req where fold: "fold (parse_line add add_var tokens vm) (block r) (w, copyRequired tokens) = (w1, req)"
    by fastforce
  then have req: "req = open_required tokens (block r)"
    using required_parse_lines [of add add_var tokens vm "block r" w "copyRequired tokens"]
    by (simp add: open_required_def)
  have none: "undefaulted tokens req = req \<and> defaulted tokens req = []" if "\<not> haveDefaults tokens"
    using that by (cases req) (simp_all add: undefaulted_def defaulted_def no_defaults)
  show ?thesis
    unfolding parse_def parse_loop_block [OF assms] fold outcome_def filled_def req [symmetric]
    using none by (cases "haveDefaults tokens"; cases "req = []")
      (simp_all add: undefaulted_def defaulted_def parse_defaults_eq Let_def)
qed

lemma ok_fold_add: "ok_w w \<Longrightarrow> ok_w (fold (\<lambda>e. add (fst e) (f e)) es w)"
  by (induction es arbitrary: w) (simp_all add: ok_add)

lemma value_fold_add:
  "ok_w w \<Longrightarrow> val_of (fold (\<lambda>e. add (fst e) (g (fst e))) es w) i =
     (case val_of w i of Some v \<Rightarrow> Some v | None \<Rightarrow> if i \<in> fst ` set es then Some (g i) else None)"
  by (induction es arbitrary: w) (auto simp: ok_add value_add split: option.splits)

lemma value_filled:
  assumes "ok_w w"
  shows "val_of (filled tokens vm r w) i =
    (case val_of w i of
       Some v \<Rightarrow> Some v
     | None \<Rightarrow>
         (case map_of (assignments tokens (block r)) i of
            Some v \<Rightarrow> Some v
          | None \<Rightarrow> if i \<in> fst ` set (defaulted tokens (open_required tokens (block r)))
                   then Some (getDefault tokens i) else None))"
  using assms
  by (simp add: filled_def value_fold_add ok_parse_lines val_of_parse_lines split: option.split)

lemma ok_filled: "ok_w w \<Longrightarrow> ok_w (filled tokens vm r w)"
  by (simp add: filled_def ok_fold_add ok_parse_lines)

end

end
