(* ===== verification/Utils.thy ===== *)
theory Utils
  imports Prelude
begin

text \<open>
  \<open>src/src/utils.h\<close>: conversions through a string stream and lower case.
  \<open>StrmConvert\<close> of a number is its decimal text; of a string to \<open>int\<close> it is what
  \<open>operator>>\<close> leaves in an \<open>int\<close> that starts at 0.
\<close>

definition StrmConvert_unsigned :: "'n::len word \<Rightarrow> string" where
  "StrmConvert_unsigned w = show_nat (unat w)"

definition StrmConvert_int :: "int \<Rightarrow> string" where
  "StrmConvert_int i = show_int i"

definition StrmConvert_to_int :: "string \<Rightarrow> int" where
  "StrmConvert_to_int s = extract_int 0 s"

definition lowercase :: "string \<Rightarrow> string" where
  "lowercase s = map tolower s"

text \<open>
  \<open>getErrmsg\<close> (and the \<open>errmsg\<close> of the configuration reader) reserves room in a string
  but passes \<open>size()\<close>, which is 0, as the length of the buffer: nothing is written, and the
  string returned is the empty one.
\<close>

definition getErrmsg :: "int \<Rightarrow> string" where
  "getErrmsg error = (let errstr = []; buflen = length errstr in take buflen errstr)"

lemma getErrmsg_empty [simp]: "getErrmsg error = []"
  by (simp add: getErrmsg_def)

lemma lowercase_idem [simp]: "lowercase (lowercase s) = lowercase s"
  by (simp add: lowercase_def)

lemma lowercase_Nil_iff [simp]: "lowercase s = [] \<longleftrightarrow> s = []"
  by (simp add: lowercase_def)

lemma Nil_lowercase_iff [simp]: "[] = lowercase s \<longleftrightarrow> s = []"
  by (cases s) (simp_all add: lowercase_def)

lemma lowercase_Nil [simp]: "lowercase [] = []"
  by (simp add: lowercase_def)

lemma length_lowercase [simp]: "length (lowercase s) = length s"
  by (simp add: lowercase_def)

lemma StrmConvert_to_int_range:
  "- (2 ^ 31) \<le> StrmConvert_to_int s" "StrmConvert_to_int s < 2 ^ 31"
  using extract_int_range [of 0 s] by (simp_all add: StrmConvert_to_int_def)

lemma StrmConvert_unsigned_inject:
  "StrmConvert_unsigned v = StrmConvert_unsigned w \<longleftrightarrow> v = w"
  by (simp add: StrmConvert_unsigned_def word_unat_eq_iff)

lemma StrmConvert_to_int_show:
  assumes "n < 2 ^ 31"
  shows "StrmConvert_to_int (show_nat n) = int n"
  using extract_int_digits [of "show_nat n" "[]" 0] assms show_nat_digits [of n]
  by (simp add: StrmConvert_to_int_def)

lemma StrmConvert_to_int_empty [simp]: "StrmConvert_to_int [] = 0"
  by (simp add: StrmConvert_to_int_def extract_int_def skip_ws_def)

end
