(* ===== verification/Config_Reader.thy ===== *)
theory Config_Reader
  imports Parser Utils
begin

text \<open>
  The configuration file: \<open>src/src/configfilereader.h\<close> strips comments and blanks and
  delivers logical lines; \<open>ConfigReader\<close> and \<open>ConfigWriter\<close> of \<open>src/src/system.h\<close>
  hold all the lines of the file, cut them into sections and keep the values of one section.
  The stream is an \<open>ifstream\<close>: the characters not yet read and the end-of-file flag, which
  is set by the first read past the last character. Such a read leaves its argument unchanged.
\<close>

section \<open>ConfigFileReader\<close>

record ConfigFileReader =
  cf_filename :: string
  cf_strm :: string
  cf_eof :: bool

text \<open>\<open>rtrim\<close> with its default argument.\<close>

definition rtrim :: "string \<Rightarrow> string" where
  "rtrim line = rev (dropWhile (\<lambda>c. c = CHR '' '') (rev line))"

text \<open>
  One turn of the loop of \<open>getline\<close> after \<open>get(c)\<close>. \<open>cnt\<close> is the length of \<open>str\<close>
  throughout. \<open>CfReturn\<close> is the return inside a comment, \<open>CfBreak\<close> the \<open>break\<close>.
\<close>

datatype cf_step = CfReturn string | CfBreak string | CfContinue char bool bool string

definition cf_turn :: "char \<Rightarrow> bool \<Rightarrow> bool \<Rightarrow> string \<Rightarrow> cf_step" where
  "cf_turn c bBegin bComment str =
     (if bComment then
        (if c = CHR 0x0A
         then let str' = rtrim str in
              if str' \<noteq> [] then CfReturn str' else CfContinue c bBegin False str'
         else CfContinue c bBegin bComment str)
      else
        let bBegin' = (bBegin \<and> c \<noteq> CHR ''='');
            c' = (if bBegin \<and> c \<noteq> CHR ''='' then tolower c else c)
        in if bBegin \<and> c' = CHR '' '' then CfContinue c' bBegin' bComment str
           else if c' = CHR ''#'' then CfContinue c' bBegin' True str
           else if c' = CHR 0x0A
           then (if str \<noteq> [] then CfBreak str else CfContinue c' bBegin' bComment str)
           else CfContinue c' bBegin' bComment (str @ [c']))"

text \<open>
  The loop: its result is the string, whether it was the return inside the comment, the
  characters left and the end-of-file flag.
\<close>

fun cf_loop :: "string \<Rightarrow> char \<Rightarrow> bool \<Rightarrow> bool \<Rightarrow> string \<Rightarrow> bool \<times> string \<times> string \<times> bool" where
  "cf_loop [] c bBegin bComment str =
     (case cf_turn c bBegin bComment str of
        CfReturn s \<Rightarrow> (True, s, [], True)
      | CfBreak s \<Rightarrow> (False, s, [], True)
      | CfContinue c' b m s \<Rightarrow> (False, s, [], True))"
| "cf_loop (x # xs) c bBegin bComment str =
     (case cf_turn x bBegin bComment str of
        CfReturn s \<Rightarrow> (True, s, xs, False)
      | CfBreak s \<Rightarrow> (False, s, xs, False)
      | CfContinue c' b m s \<Rightarrow> cf_loop xs c' b m s)"

text \<open>The line, or \<^const>\<open>None\<close> for the result -1.\<close>

definition cf_getline :: "ConfigFileReader \<Rightarrow> string option \<times> ConfigFileReader" where
  "cf_getline r =
     (if cf_eof r then (None, r)
      else case cf_loop (cf_strm r) (CHR 0x00) True False [] of
        (returned, str, rest, eof) \<Rightarrow>
          let r' = r\<lparr>cf_strm := rest, cf_eof := eof\<rparr>; str' = (if returned then str else rtrim str)
          in if returned then (Some str', r')
             else if eof \<and> str' \<noteq> [] then (Some str', r')
             else if eof then (None, r')
             else (Some str', r'))"

definition cf_isEof :: "ConfigFileReader \<Rightarrow> bool" where
  "cf_isEof r = cf_eof r"

text \<open>
  Opening a file and \<open>reload\<close>. The file system is a parameter: the content of a file, or
  the error number. A successful \<open>open\<close> clears the flags. \<open>errmsg\<close> is the function
  \<open>getErrmsg\<close> of \<open>utils.h\<close>.
\<close>

type_synonym file_system = "string \<Rightarrow> int + string"

definition cf_error :: "string \<Rightarrow> int \<Rightarrow> exn" where
  "cf_error filename error =
     RuntimeError (''Error opening '' @ [CHR 0x27] @ filename @ [CHR 0x27] @ getErrmsg error
       @ '' ('' @ StrmConvert_int error @ '')'')"

definition cf_open :: "file_system \<Rightarrow> string \<Rightarrow> exn + ConfigFileReader" where
  "cf_open fs filename =
     (case fs filename of
        Inl error \<Rightarrow> Inl (cf_error filename error)
      | Inr content \<Rightarrow> Inr \<lparr>cf_filename = filename, cf_strm = content, cf_eof = False\<rparr>)"

definition cf_reload :: "file_system \<Rightarrow> ConfigFileReader \<Rightarrow> (exn + unit) \<times> ConfigFileReader" where
  "cf_reload fs r =
     (case fs (cf_filename r) of
        Inl error \<Rightarrow> (Inl (cf_error (cf_filename r) error), r)
      | Inr content \<Rightarrow> (Inr (), r\<lparr>cf_strm := content, cf_eof := False\<rparr>))"

section \<open>ConfigReader\<close>

record ConfigReader =
  cr_lines :: "string list"
  cr_itr :: nat
  cr_sectionMode :: bool

lemma cf_loop_shrinks:
  "cf_loop xs c b m s = (rt, str, rest, eof) \<Longrightarrow> length rest \<le> length xs \<and> (\<not> eof \<longrightarrow> length rest < length xs)"
  by (induction xs c b m s rule: cf_loop.induct) (fastforce split: cf_step.splits)+

definition cf_measure :: "ConfigFileReader \<Rightarrow> nat" where
  "cf_measure r = (if cf_eof r then 0 else Suc (length (cf_strm r)))"

lemma cf_getline_shrinks:
  assumes "cf_getline r = (Some line, r')"
  shows "cf_measure r' < cf_measure r"
proof -
  obtain rt str rest eof
    where loop: "cf_loop (cf_strm r) (CHR 0x00) True False [] = (rt, str, rest, eof)"
    by (metis prod_cases4)
  with assms cf_loop_shrinks [OF loop] show ?thesis
    by (auto simp: cf_getline_def cf_measure_def Let_def split: if_splits)
qed

text \<open>The constructor reads the whole file; the order of the lines is kept.\<close>

function ConfigReader_read :: "ConfigFileReader \<Rightarrow> string list \<times> ConfigFileReader" where
  "ConfigReader_read r =
     (case cf_getline r of
        (None, r') \<Rightarrow> ([], r')
      | (Some line, r') \<Rightarrow> (case ConfigReader_read r' of (ls, r'') \<Rightarrow> (line # ls, r'')))"
  by pat_completeness auto
termination
  by (relation "measure cf_measure") (auto dest: cf_getline_shrinks [OF sym])

declare ConfigReader_read.simps [simp del]

definition ConfigReader_new :: "bool \<Rightarrow> ConfigFileReader \<Rightarrow> ConfigReader \<times> ConfigFileReader" where
  "ConfigReader_new junk r =
     (case ConfigReader_read r of
        (ls, r') \<Rightarrow> (\<lparr>cr_lines = ls, cr_itr = 0, cr_sectionMode = junk\<rparr>, r'))"

definition ConfigReader_getline :: "ConfigReader getline" where
  "ConfigReader_getline r =
     (if cr_itr r = length (cr_lines r) then (Inr None, r)
      else let line = cr_lines r ! cr_itr r in
        if cr_sectionMode r \<and> line = [] then (Inl (OutOfRange ''basic_string::at''), r)
        else if cr_sectionMode r \<and> hd line = CHR ''['' then (Inr None, r)
        else (Inr (Some line), r\<lparr>cr_itr := Suc (cr_itr r)\<rparr>))"

definition previousline :: "ConfigReader \<Rightarrow> (exn + unit) \<times> ConfigReader" where
  "previousline r =
     (if cr_itr r = 0 then (Inl (OutOfRange ''moving beyond start of configuration''), r)
      else (Inr (), r\<lparr>cr_itr := cr_itr r - 1\<rparr>))"

definition switchSectionMode :: "bool \<Rightarrow> ConfigReader \<Rightarrow> ConfigReader" where
  "switchSectionMode b r = r\<lparr>cr_sectionMode := b\<rparr>"

definition ConfigReader_isEof :: "ConfigReader \<Rightarrow> bool" where
  "ConfigReader_isEof r \<longleftrightarrow> cr_itr r = length (cr_lines r)"

section \<open>ConfigWriter\<close>

record ConfigWriter =
  cw_map :: "(nat, string) stdmap"
  cw_vars :: "(string, string) stdmap"

definition ConfigWriter_new :: ConfigWriter where
  "ConfigWriter_new = \<lparr>cw_map = [], cw_vars = []\<rparr>"

definition ConfigWriter_add :: "nat \<Rightarrow> string \<Rightarrow> ConfigWriter \<Rightarrow> ConfigWriter" where
  "ConfigWriter_add u str w = w\<lparr>cw_map := smap_insert u str (cw_map w)\<rparr>"

definition ConfigWriter_add_var :: "string \<Rightarrow> string \<Rightarrow> ConfigWriter \<Rightarrow> ConfigWriter" where
  "ConfigWriter_add_var key str w = w\<lparr>cw_vars := smap_insert key str (cw_vars w)\<rparr>"

definition getVal :: "ConfigWriter \<Rightarrow> nat \<Rightarrow> string" where
  "getVal w u = (case smap_find (cw_map w) u of None \<Rightarrow> [] | Some s \<Rightarrow> s)"

definition getVars :: "ConfigWriter \<Rightarrow> (string, string) stdmap" where
  "getVars w = cw_vars w"

text \<open>\<open>copyVals\<close> inserts the values, so what \<open>dest\<close> already has is kept.\<close>

definition copyVals :: "ConfigWriter \<Rightarrow> (nat, string) stdmap \<Rightarrow> (nat, string) stdmap" where
  "copyVals w dest = smap_insert_range dest (cw_map w)"

definition cw_ok :: "ConfigWriter \<Rightarrow> bool" where
  "cw_ok w \<longleftrightarrow> smap_ok (cw_map w) \<and> smap_ok (cw_vars w)"

interpretation config_writer: token_writer ConfigWriter_add ConfigWriter_add_var
    "\<lambda>w. smap_find (cw_map w)" cw_ok
  by unfold_locales
    (simp_all add: ConfigWriter_add_def ConfigWriter_add_var_def cw_ok_def smap_find_insert)

section \<open>The section reader delivers one section\<close>

definition section_start :: "string \<Rightarrow> bool" where
  "section_start l \<longleftrightarrow> l \<noteq> [] \<and> hd l = CHR ''[''"

definition cr_ok :: "ConfigReader \<Rightarrow> bool" where
  "cr_ok r \<longleftrightarrow> cr_itr r \<le> length (cr_lines r) \<and> list_all (\<lambda>l. l \<noteq> []) (cr_lines r)"

definition cr_block :: "ConfigReader \<Rightarrow> string list" where
  "cr_block r =
     (let ls = drop (cr_itr r) (cr_lines r)
      in if cr_sectionMode r then takeWhile (\<lambda>l. \<not> section_start l) ls else ls)"

definition cr_rest :: "ConfigReader \<Rightarrow> ConfigReader" where
  "cr_rest r = r\<lparr>cr_itr := cr_itr r + length (cr_block r)\<rparr>"

lemma cr_getline_cases:
  assumes "cr_ok r"
  shows "cr_block r = [] \<Longrightarrow> ConfigReader_getline r = (Inr None, r)"
    and "cr_block r = l # ls \<Longrightarrow>
      ConfigReader_getline r = (Inr (Some l), r\<lparr>cr_itr := Suc (cr_itr r)\<rparr>) \<and>
      cr_block (r\<lparr>cr_itr := Suc (cr_itr r)\<rparr>) = ls \<and> cr_itr r < length (cr_lines r)"
proof -
  show "ConfigReader_getline r = (Inr None, r)" if "cr_block r = []"
  proof (cases "cr_itr r = length (cr_lines r)")
    case False
    with assms have less: "cr_itr r < length (cr_lines r)" by (simp add: cr_ok_def)
    then have "drop (cr_itr r) (cr_lines r) = cr_lines r ! cr_itr r # drop (Suc (cr_itr r)) (cr_lines r)"
      by (simp add: Cons_nth_drop_Suc)
    with that have "cr_sectionMode r" "section_start (cr_lines r ! cr_itr r)"
      by (auto simp: cr_block_def Let_def split: if_splits)
    with False show ?thesis
      by (auto simp: ConfigReader_getline_def section_start_def)
  qed (simp add: ConfigReader_getline_def)
  assume block: "cr_block r = l # ls"
  then have less: "cr_itr r < length (cr_lines r)"
    by (auto simp: cr_block_def Let_def split: if_splits intro: ccontr)
  then have drop: "drop (cr_itr r) (cr_lines r) = cr_lines r ! cr_itr r # drop (Suc (cr_itr r)) (cr_lines r)"
    by (simp add: Cons_nth_drop_Suc)
  moreover have "cr_lines r ! cr_itr r \<noteq> []"
    using assms less by (simp add: cr_ok_def list_all_length)
  ultimately show "ConfigReader_getline r = (Inr (Some l), r\<lparr>cr_itr := Suc (cr_itr r)\<rparr>) \<and>
      cr_block (r\<lparr>cr_itr := Suc (cr_itr r)\<rparr>) = ls \<and> cr_itr r < length (cr_lines r)"
    using block less
    by (auto simp: cr_block_def ConfigReader_getline_def section_start_def Let_def split: if_splits)
qed

interpretation config_reader: line_reader ConfigReader_getline cr_block cr_rest cr_ok
proof unfold_locales
  fix r l ls
  assume ok: "cr_ok r"
  show "ConfigReader_getline r = (Inr None, cr_rest r)" if "cr_block r = []"
    using cr_getline_cases(1) [OF ok that] that by (simp add: cr_rest_def)
  show "\<exists>r'. ConfigReader_getline r = (Inr (Some l), r') \<and> cr_block r' = ls \<and> cr_rest r' = cr_rest r \<and> cr_ok r'"
    if "cr_block r = l # ls"
    using cr_getline_cases(2) [OF ok that] that ok
    by (auto simp: cr_rest_def cr_ok_def)
qed

interpretation section_parser: parser_client ConfigReader_getline cr_block cr_rest cr_ok
    ConfigWriter_add ConfigWriter_add_var "\<lambda>w. smap_find (cw_map w)" cw_ok ConfigReader_isEof
  by unfold_locales

text \<open>The parser as \<open>parseConfigurationSections\<close> calls it, in variable mode.\<close>

definition parse_section ::
    "TokenList \<Rightarrow> ConfigReader \<Rightarrow> ((exn + unit) \<times> ConfigReader \<times> ConfigWriter) option" where
  "parse_section tokens r =
     parse ConfigReader_getline ConfigReader_isEof ConfigWriter_add ConfigWriter_add_var
       tokens True r ConfigWriter_new"

lemma parse_section_eq:
  assumes "cr_ok r"
  shows "parse_section tokens r =
    Some (section_parser.outcome tokens r, cr_rest r, section_parser.filled tokens True r ConfigWriter_new)"
  unfolding parse_section_def using assms by (rule section_parser.parse_returns)

section \<open>The lines of a file are never empty\<close>

lemma rtrim_Nil_iff: "rtrim s = [] \<longleftrightarrow> set s \<subseteq> {CHR '' ''}"
  by (auto simp: rtrim_def dropWhile_eq_Nil_conv)

lemma rtrim_last: "last s \<noteq> CHR '' '' \<Longrightarrow> rtrim s = s"
  by (cases s rule: rev_cases) (simp_all add: rtrim_def)

text \<open>Blanks reach the string only after the equals sign that ends the key.\<close>

definition cf_inv :: "bool \<Rightarrow> string \<Rightarrow> bool" where
  "cf_inv bBegin str \<longleftrightarrow>
     (if bBegin then CHR '' '' \<notin> set str else CHR ''='' \<in> set str)"

lemma cf_inv_rtrim: "cf_inv b str \<Longrightarrow> str \<noteq> [] \<Longrightarrow> rtrim str \<noteq> []"
  by (cases str) (auto simp: cf_inv_def rtrim_Nil_iff split: if_splits)

lemma cf_turn_inv:
  assumes "cf_inv b str"
  shows "case cf_turn c b m str of
           CfReturn s \<Rightarrow> s \<noteq> [] | CfBreak s \<Rightarrow> rtrim s \<noteq> [] | CfContinue c' b' m' s \<Rightarrow> cf_inv b' s"
proof -
  have "code_of (tolower c) = 32 \<longleftrightarrow> code_of c = 32"
    using code_of_less [of c] by (simp add: tolower_def)
  moreover have "code_of CHR '' '' = 32" by (simp add: code_of_def)
  ultimately have "tolower c = CHR '' '' \<longleftrightarrow> c = CHR '' ''"
    by (metis code_of_inject)
  then show ?thesis
    using assms cf_inv_rtrim [OF assms] unfolding cf_turn_def Let_def
    by (cases "str = []") (auto simp: cf_inv_def rtrim_def split: if_splits)
qed

lemma cf_loop_inv:
  "cf_inv b str \<Longrightarrow> cf_loop xs c b m str = (rt, s, rest, eof) \<Longrightarrow>
   (rt \<longrightarrow> s \<noteq> []) \<and> (\<not> rt \<and> \<not> eof \<longrightarrow> rtrim s \<noteq> [])"
proof (induction xs arbitrary: c b m str)
  case Nil
  then show ?case
    using cf_turn_inv [OF Nil.prems(1), of c m] by (auto split: cf_step.splits)
next
  case (Cons x xs)
  then show ?case
    using cf_turn_inv [OF Cons.prems(1), of x m] by (auto split: cf_step.splits)
qed

lemma cf_getline_nonempty: "cf_getline r = (Some line, r') \<Longrightarrow> line \<noteq> []"
proof -
  assume line: "cf_getline r = (Some line, r')"
  obtain rt str rest eof
    where loop: "cf_loop (cf_strm r) (CHR 0x00) True False [] = (rt, str, rest, eof)"
    by (metis prod_cases4)
  have "cf_inv True []" by (simp add: cf_inv_def)
  from cf_loop_inv [OF this loop] line loop show "line \<noteq> []"
    by (auto simp: cf_getline_def Let_def split: if_splits)
qed

lemma ConfigReader_read_nonempty: "list_all (\<lambda>l. l \<noteq> []) (fst (ConfigReader_read r))"
proof (induction r rule: ConfigReader_read.induct)
  case (1 r)
  then show ?case
    by (subst ConfigReader_read.simps)
      (auto dest: cf_getline_nonempty split: prod.splits option.splits)
qed

lemma cr_ok_new: "cr_ok (fst (ConfigReader_new junk r))"
  using ConfigReader_read_nonempty [of r] by (simp add: ConfigReader_new_def cr_ok_def split_beta)

lemma cr_ok_switch [simp]: "cr_ok (switchSectionMode b r) \<longleftrightarrow> cr_ok r"
  by (simp add: switchSectionMode_def cr_ok_def)

section \<open>A line of the file\<close>

definition key_char :: "char \<Rightarrow> bool" where
  "key_char c \<longleftrightarrow> tolower c = c \<and> c \<notin> {CHR ''='', CHR '' '', CHR ''#'', CHR 0x0A}"

definition val_char :: "char \<Rightarrow> bool" where
  "val_char c \<longleftrightarrow> c \<notin> {CHR ''#'', CHR 0x0A}"

lemma cf_loop_key:
  "list_all key_char k \<Longrightarrow> cf_loop (k @ xs) c True False s = cf_loop xs (last (c # k)) True False (s @ k)"
  by (induction k arbitrary: c s) (auto simp: cf_turn_def key_char_def)

lemma cf_loop_val:
  "list_all val_char v \<Longrightarrow> cf_loop (v @ xs) c False False s = cf_loop xs (last (c # v)) False False (s @ v)"
  by (induction v arbitrary: c s) (auto simp: cf_turn_def val_char_def)

lemma cf_loop_key_val:
  assumes "list_all key_char k" and "list_all val_char v"
  shows "cf_loop (k @ CHR ''='' # v @ xs) c True False [] =
         cf_loop xs (last (CHR ''='' # v)) False False (k @ CHR ''='' # v)"
proof -
  have "cf_loop (k @ CHR ''='' # v @ xs) c True False [] =
        cf_loop (v @ xs) (CHR ''='') False False (k @ [CHR ''=''])"
    using assms(1) by (simp add: cf_loop_key cf_turn_def Let_def)
  also have "\<dots> = cf_loop xs (last (CHR ''='' # v)) False False (k @ CHR ''='' # v)"
    using cf_loop_val [OF assms(2), of xs "CHR ''=''" "k @ [CHR ''='']"] by simp
  finally show ?thesis .
qed

subsection \<open>Any line, and all the lines of a file\<close>

abbreviation no_newline :: "string \<Rightarrow> bool" where
  "no_newline l \<equiv> CHR 0x0A \<notin> set l"

definition text_of :: "string list \<Rightarrow> string" where
  "text_of ls = concat (map (\<lambda>l. l @ [CHR 0x0A]) ls)"

text \<open>What is left of a line: the key without blanks in lower case, and the rest up to the comment.\<close>

definition cf_line :: "string \<Rightarrow> string" where
  "cf_line l =
     (let t = takeWhile (\<lambda>c. c \<noteq> CHR ''#'') l
      in rtrim (map tolower (filter (\<lambda>c. c \<noteq> CHR '' '') (takeWhile (\<lambda>c. c \<noteq> CHR ''='') t)) @ dropWhile (\<lambda>c. c \<noteq> CHR ''='') t))"

lemma tolower_eq_iff: "code_of c0 < 65 \<Longrightarrow> tolower c = c0 \<longleftrightarrow> c = c0"
  using code_of_less [of c] by (auto simp: tolower_def)

lemma cf_loop_any_key:
  "list_all (\<lambda>c. c \<notin> {CHR ''='', CHR ''#'', CHR 0x0A}) k \<Longrightarrow>
   cf_loop (k @ xs) c True False s =
   cf_loop xs (last (c # map tolower k)) True False (s @ map tolower (filter (\<lambda>c. c \<noteq> CHR '' '') k))"
proof (induction k arbitrary: c s)
  case (Cons x k)
  then show ?case using tolower_eq_iff [of _ x] by (auto simp: cf_turn_def code_of_def Let_def)
qed simp

lemma cf_loop_comment:
  "no_newline m \<Longrightarrow>
   cf_loop (m @ CHR 0x0A # xs) c b True s =
   (if rtrim s \<noteq> [] then (True, rtrim s, xs, False) else cf_loop xs (CHR 0x0A) b False [])"
  by (induction m arbitrary: c) (auto simp: cf_turn_def Let_def)

lemma while_not_none: "x \<notin> set t \<Longrightarrow> takeWhile (\<lambda>c. c \<noteq> x) t = t \<and> dropWhile (\<lambda>c. c \<noteq> x) t = []"
  by (induction t) auto

lemma while_not_split: "x \<in> set l \<Longrightarrow> \<exists>m. l = takeWhile (\<lambda>c. c \<noteq> x) l @ x # m"
  by (induction l) auto

definition cf_raw :: "string \<Rightarrow> string" where
  "cf_raw t = map tolower (filter (\<lambda>c. c \<noteq> CHR '' '') (takeWhile (\<lambda>c. c \<noteq> CHR ''='') t)) @ dropWhile (\<lambda>c. c \<noteq> CHR ''='') t"

lemma cf_raw_inv: "cf_inv (CHR ''='' \<notin> set t) (cf_raw t)"
proof (cases "CHR ''='' \<in> set t")
  case True
  then have "CHR ''='' \<in> set (dropWhile (\<lambda>c. c \<noteq> CHR ''='') t)" by (induction t) auto
  then show ?thesis using True by (simp add: cf_inv_def cf_raw_def)
next
  case False
  then have "cf_raw t = map tolower (filter (\<lambda>c. c \<noteq> CHR '' '') t)" by (simp add: cf_raw_def while_not_none)
  moreover have "CHR '' '' \<notin> set (map tolower (filter (\<lambda>c. c \<noteq> CHR '' '') t))"
    using tolower_eq_iff [of "CHR '' ''"] by (induction t) (simp_all add: code_of_def eq_commute [of "CHR '' ''"])
  ultimately show ?thesis using False by (simp only: cf_inv_def if_True simp_thms)
qed

lemma cf_raw_Nil: "rtrim (cf_raw t) = [] \<longleftrightarrow> cf_raw t = []" and cf_raw_eq: "cf_raw t = [] \<Longrightarrow> CHR ''='' \<notin> set t"
  using cf_inv_rtrim [OF cf_raw_inv, of t] cf_raw_inv [of t] by (auto simp: rtrim_def cf_inv_def)

lemma cf_loop_text:
  assumes "CHR ''#'' \<notin> set t" and "no_newline t"
  shows "\<exists>c'. cf_loop (t @ xs) c True False [] = cf_loop xs c' (CHR ''='' \<notin> set t) False (cf_raw t)"
proof (cases "CHR ''='' \<in> set t")
  case True
  then obtain k v where t: "t = k @ CHR ''='' # v" "CHR ''='' \<notin> set k" by (meson split_list_first)
  have k: "list_all (\<lambda>c. c \<notin> {CHR ''='', CHR ''#'', CHR 0x0A}) k" and v: "list_all val_char v"
    using assms t by (auto simp: list_all_iff val_char_def)
  have "takeWhile (\<lambda>c. c \<noteq> CHR ''='') t = k" "dropWhile (\<lambda>c. c \<noteq> CHR ''='') t = CHR ''='' # v"
    using t by (auto simp: takeWhile_append dropWhile_append)
  then have "cf_raw t = map tolower (filter (\<lambda>c. c \<noteq> CHR '' '') k) @ CHR ''='' # v" by (simp add: cf_raw_def)
  then show ?thesis
    using cf_loop_any_key [OF k, of "CHR ''='' # v @ xs" c "[]"]
      cf_loop_val [OF v, of xs "CHR ''=''" "map tolower (filter (\<lambda>c. c \<noteq> CHR '' '') k) @ [CHR ''='']"] t(1)
    by (auto simp: cf_turn_def Let_def)
next
  case False
  then have "list_all (\<lambda>c. c \<notin> {CHR ''='', CHR ''#'', CHR 0x0A}) t" using assms by (auto simp: list_all_iff)
  from cf_loop_any_key [OF this, of xs c "[]"] show ?thesis
    using False by (auto simp: cf_raw_def while_not_none)
qed

lemma cf_turn_marks:
  "cf_turn (CHR ''#'') b False str = CfContinue (CHR ''#'') b True str"
  "cf_turn (CHR 0x0A) b False str = (if str \<noteq> [] then CfBreak str else CfContinue (CHR 0x0A) b False str)"
proof -
  have "tolower (CHR 0x0A) = CHR 0x0A" "tolower (CHR ''#'') = CHR ''#''" by code_simp+
  then show "cf_turn (CHR ''#'') b False str = CfContinue (CHR ''#'') b True str"
    "cf_turn (CHR 0x0A) b False str = (if str \<noteq> [] then CfBreak str else CfContinue (CHR 0x0A) b False str)"
    by (simp_all add: cf_turn_def Let_def)
qed

lemma cf_loop_line:
  assumes "no_newline l"
  shows "cf_line l = [] \<Longrightarrow> cf_loop (l @ CHR 0x0A # xs) c True False [] = cf_loop xs (CHR 0x0A) True False []"
    and "cf_line l \<noteq> [] \<Longrightarrow> \<exists>rt str. cf_loop (l @ CHR 0x0A # xs) c True False [] = (rt, str, xs, False) \<and>
      (if rt then str else rtrim str) = cf_line l"
proof -
  define t where "t = takeWhile (\<lambda>c. c \<noteq> CHR ''#'') l"
  have line: "cf_line l = rtrim (cf_raw t)" by (simp add: cf_line_def cf_raw_def t_def Let_def)
  have t: "CHR ''#'' \<notin> set t" "no_newline t" using assms by (auto simp: t_def dest: set_takeWhileD)
  have nil: "rtrim [] = []" by (simp add: rtrim_def)
  have "cf_loop (l @ CHR 0x0A # xs) c True False [] =
      (if cf_raw t = [] then cf_loop xs (CHR 0x0A) True False []
       else if CHR ''#'' \<in> set l then (True, rtrim (cf_raw t), xs, False) else (False, cf_raw t, xs, False))"
  proof (cases "CHR ''#'' \<in> set l")
    case True
    then obtain m where l: "l = t @ CHR ''#'' # m"
      using while_not_split [of "CHR ''#''" l] by (auto simp: t_def)
    have m: "no_newline m" using assms l by simp
    obtain c' where "cf_loop (l @ CHR 0x0A # xs) c True False [] =
        cf_loop (CHR ''#'' # m @ CHR 0x0A # xs) c' (CHR ''='' \<notin> set t) False (cf_raw t)"
      using cf_loop_text [OF t, of "CHR ''#'' # m @ CHR 0x0A # xs" c] l by auto
    then show ?thesis
      using True cf_loop_comment [OF m] cf_raw_Nil [of t] cf_raw_eq [of t] by (simp add: cf_turn_marks nil)
  next
    case False
    then have l: "l = t" by (simp add: t_def while_not_none)
    obtain c' where "cf_loop (l @ CHR 0x0A # xs) c True False [] =
        cf_loop (CHR 0x0A # xs) c' (CHR ''='' \<notin> set t) False (cf_raw t)"
      using cf_loop_text [OF t, of "CHR 0x0A # xs" c] l by auto
    then show ?thesis using False cf_raw_eq [of t] by (simp add: cf_turn_marks)
  qed
  then show "cf_line l = [] \<Longrightarrow> cf_loop (l @ CHR 0x0A # xs) c True False [] = cf_loop xs (CHR 0x0A) True False []"
    and "cf_line l \<noteq> [] \<Longrightarrow> \<exists>rt str. cf_loop (l @ CHR 0x0A # xs) c True False [] = (rt, str, xs, False) \<and>
      (if rt then str else rtrim str) = cf_line l"
    using line cf_raw_Nil [of t] by (auto split: if_splits)
qed

text \<open>Skipping the lines of which nothing is left; the character of the last read is kept.\<close>

lemma cf_loop_skip:
  "list_all no_newline ls \<Longrightarrow> list_all (\<lambda>l. cf_line l = []) ls \<Longrightarrow>
   cf_loop (text_of ls @ xs) c True False [] = cf_loop xs (if ls = [] then c else CHR 0x0A) True False []"
  by (induction ls arbitrary: c) (auto simp: text_of_def cf_loop_line(1))

lemma cf_getline_skip:
  assumes "list_all no_newline ls" and "list_all (\<lambda>l. cf_line l = []) ls" and "no_newline l" and "cf_line l \<noteq> []"
    and "\<not> cf_eof r" and "cf_strm r = text_of (ls @ l # ks)"
  shows "cf_getline r = (Some (cf_line l), r\<lparr>cf_strm := text_of ks\<rparr>)"
proof -
  let ?c = "if ls = [] then CHR 0x00 else CHR 0x0A"
  obtain rt str where "cf_loop (l @ CHR 0x0A # text_of ks) ?c True False [] = (rt, str, text_of ks, False)"
    "(if rt then str else rtrim str) = cf_line l" using cf_loop_line(2) [OF assms(3,4)] by blast
  moreover have "cf_strm r = text_of ls @ l @ CHR 0x0A # text_of ks" using assms(6) by (simp add: text_of_def)
  ultimately show ?thesis using assms(5) by (auto simp: cf_getline_def cf_loop_skip [OF assms(1,2)] Let_def split: if_splits)
qed

lemma cf_getline_end:
  assumes "list_all no_newline ls" and "list_all (\<lambda>l. cf_line l = []) ls" and "\<not> cf_eof r" and "cf_strm r = text_of ls"
  shows "cf_getline r = (if ls = [] then Some [CHR 0x00] else None, r\<lparr>cf_strm := [], cf_eof := True\<rparr>)"
proof -
  have "tolower (CHR 0x0A) = CHR 0x0A" "tolower (CHR 0x00) = CHR 0x00" by code_simp+
  then show ?thesis
    using assms(3,4) cf_loop_skip [OF assms(1,2), of "[]" "CHR 0x00"]
    by (simp add: cf_getline_def cf_turn_def Let_def rtrim_def)
qed

lemma ConfigReader_read_eof: "cf_eof r \<Longrightarrow> ConfigReader_read r = ([], r)"
  by (subst ConfigReader_read.simps) (simp add: cf_getline_def)

lemma ConfigReader_read_lines:
  "list_all no_newline ls \<Longrightarrow> \<not> cf_eof r \<Longrightarrow> cf_strm r = text_of ls \<Longrightarrow>
   ConfigReader_read r =
     (filter (\<lambda>l. l \<noteq> []) (map cf_line ls) @ (if ls = [] \<or> cf_line (last ls) \<noteq> [] then [[CHR 0x00]] else []),
      r\<lparr>cf_strm := [], cf_eof := True\<rparr>)"
proof (induction "length ls" arbitrary: ls r rule: less_induct)
  case less
  let ?e = "\<lambda>l. cf_line l = []"
  show ?case
  proof (cases "list_all ?e ls")
    case True
    have "filter (\<lambda>l. l \<noteq> []) (map cf_line ls) = []" using True by (simp add: filter_empty_conv list_all_iff)
    moreover have "ls \<noteq> [] \<Longrightarrow> cf_line (last ls) = []" using True by (simp add: list_all_iff)
    ultimately show ?thesis
      using cf_getline_end [OF less.prems(1) True less.prems(2,3)]
      by (subst ConfigReader_read.simps) (auto simp: ConfigReader_read_eof)
  next
    case False
    then obtain pre l post where ls: "ls = pre @ l # post" "list_all ?e pre" "cf_line l \<noteq> []"
      using split_list_first_prop [of ls "\<lambda>l. cf_line l \<noteq> []"] by (auto simp: list_all_iff)
    have n: "list_all no_newline pre" "no_newline l" "list_all no_newline post" using less.prems(1) ls(1) by simp_all
    let ?r = "r\<lparr>cf_strm := text_of post\<rparr>"
    have "ConfigReader_read ?r =
        (filter (\<lambda>l. l \<noteq> []) (map cf_line post) @ (if post = [] \<or> cf_line (last post) \<noteq> [] then [[CHR 0x00]] else []),
         ?r\<lparr>cf_strm := [], cf_eof := True\<rparr>)"
      using less.prems(2) n(3) ls(1) by (intro less.hyps) simp_all
    moreover have "cf_getline r = (Some (cf_line l), ?r)"
      using cf_getline_skip [OF n(1) ls(2) n(2) ls(3) less.prems(2)] less.prems(3) ls(1) by simp
    moreover have "filter (\<lambda>l. l \<noteq> []) (map cf_line pre) = []" using ls(2) by (simp add: filter_empty_conv list_all_iff)
    ultimately show ?thesis using ls by (subst ConfigReader_read.simps) simp
  qed
qed

section \<open>Properties\<close>


definition sample_file :: ConfigFileReader where
  "sample_file = \<lparr>cf_filename = ''f'', cf_strm = ''[ Server ]'' @ [CHR 0x0A] @ ''Port = 25 # smtp'' @ [CHR 0x0A], cf_eof = False\<rparr>"


text \<open>
  C28 (functional). The lines the reader has of a file in which every line ends in a newline: of each line the part
  before the comment sign, the key (up to the equals sign) in lower case and without blanks, the rest as it is but
  for the blanks at its end; lines of which nothing is left are passed over, and the order is kept. When the file is
  empty or its last line is not passed over, one more line follows: the single zero character that the
  variable of the loop starts with, because the end of the file is only met by a read that fails.
\<close>

theorem config_file_lines:
  assumes "list_all no_newline ls" and "\<not> cf_eof r" and "cf_strm r = text_of ls"
  shows "ConfigReader_new junk r =
     (\<lparr>cr_lines = filter (\<lambda>l. l \<noteq> []) (map cf_line ls) @ (if ls = [] \<or> cf_line (last ls) \<noteq> [] then [[CHR 0x00]] else []),
       cr_itr = 0, cr_sectionMode = junk\<rparr>, r\<lparr>cf_strm := [], cf_eof := True\<rparr>)"
  unfolding ConfigReader_new_def by (simp add: ConfigReader_read_lines [OF assms])

theorem config_file_lines_witness:
  "cr_lines (fst (ConfigReader_new False
     \<lparr>cf_filename = [], cf_strm = text_of [''[ Server ]'', ''# limits'', ''Max Requests = 0 #never'', ''Defer=Go  Away ''], cf_eof = False\<rparr>)) =
   [''[server]'', ''maxrequests= 0'', ''defer=Go  Away'', [CHR 0x00]]"
proof -
  let ?ls = "[''[ Server ]'', ''# limits'', ''Max Requests = 0 #never'', ''Defer=Go  Away '']"
  have "list_all no_newline ?ls" by code_simp
  from config_file_lines [OF this, of "\<lparr>cf_filename = [], cf_strm = text_of ?ls, cf_eof = False\<rparr>" False]
  have "cr_lines (fst (ConfigReader_new False \<lparr>cf_filename = [], cf_strm = text_of ?ls, cf_eof = False\<rparr>)) =
      filter (\<lambda>l. l \<noteq> []) (map cf_line ?ls) @ (if ?ls = [] \<or> cf_line (last ?ls) \<noteq> [] then [[CHR 0x00]] else [])" by simp
  also have "\<dots> = [''[server]'', ''maxrequests= 0'', ''defer=Go  Away'', [CHR 0x00]]" by code_simp
  finally show ?thesis .
qed

lemma config_extra_line:
  "fst (ConfigReader_read \<lparr>cf_filename = [], cf_strm = text_of [''port=25''], cf_eof = False\<rparr>) = [''port=25'', [CHR 0x00]]"
  by code_simp

text \<open>
  When the last line of the file has no newline, the read that meets
  the end of the file leaves the last character in place and it is appended once more: the value
  comes back with its last character doubled.
\<close>

theorem config_last_line_doubled:
  assumes "list_all key_char k" and "list_all val_char v" and "v \<noteq> []" and "last v \<noteq> CHR '' ''"
    and "\<not> cf_eof r" and "cf_strm r = k @ CHR ''='' # v"
  shows "fst (cf_getline r) = Some (k @ CHR ''='' # v @ [last v])"
proof -
  have "val_char (last v)" using assms(2,3) by (simp add: list_all_iff)
  then have turn: "cf_turn (last v) False False str = CfContinue (last v) False False (str @ [last v])" for str
    by (simp add: cf_turn_def val_char_def Let_def)
  have "cf_loop (cf_strm r) (CHR 0x00) True False [] = (False, k @ CHR ''='' # v @ [last v], [], True)"
    using cf_loop_key_val [OF assms(1,2), of "[]"] assms(3,6) by (simp add: turn)
  moreover have "rtrim (k @ CHR ''='' # v @ [last v]) = k @ CHR ''='' # v @ [last v]"
    by (rule rtrim_last) (simp add: assms(4))
  ultimately show ?thesis
    using assms(5) by (simp add: cf_getline_def)
qed

theorem config_last_line_doubled_witness:
  "fst (cf_getline \<lparr>cf_filename = [], cf_strm = ''port=4096'', cf_eof = False\<rparr>) = Some ''port=40966''"
proof -
  have "list_all key_char ''port''" "list_all val_char ''4096''" by code_simp+
  from config_last_line_doubled [OF this, of "\<lparr>cf_filename = [], cf_strm = ''port=4096'', cf_eof = False\<rparr>"]
  show ?thesis by simp
qed

text \<open>
  C24 (functional). What a section holds for a token: the value of the first line that names it,
  else its default when every required token before it that no line names has a default, else
  nothing.
\<close>

theorem section_value:
  assumes "cr_ok r" and "tl_wf tokens" and "(name, i) \<in> set (tl_map tokens)"
  shows "\<exists>res w. parse_section tokens r = Some (res, cr_rest r, w) \<and>
    getVal w i =
      (case map_of (assignments tokens (cr_block r)) i of
         Some v \<Rightarrow> v
       | None \<Rightarrow> if i \<in> fst ` set (defaulted tokens (open_required tokens (cr_block r)))
                then getDefault tokens i else []) \<and>
    (i \<in> fst ` set (assignments tokens (cr_block r)) \<longleftrightarrow> name \<in> set (line_keys (cr_block r)))"
proof -
  have ok: "cw_ok ConfigWriter_new" and empty: "smap_find (cw_map ConfigWriter_new) i = None"
    by (simp_all add: cw_ok_def ConfigWriter_new_def)
  show ?thesis
    using section_parser.value_filled [OF ok, of tokens True r i] assigned_iff [OF assms(2,3)] empty
    by (simp add: parse_section_eq [OF assms(1)] getVal_def split: option.split)
qed

definition sample_section :: ConfigReader where
  "sample_section = \<lparr>cr_lines = [''port=25'', ''color=red'', ''port=26'', ''[x]''], cr_itr = 0, cr_sectionMode = True\<rparr>"

theorem section_value_witness:
  "\<exists>res w. parse_section serverTokens sample_section = Some (res, cr_rest sample_section, w) \<and> getVal w 0 = ''25''"
proof -
  have ok: "cr_ok sample_section" and port: "(''port'', 0) \<in> set (tl_map serverTokens)"
    and val: "map_of (assignments serverTokens (cr_block sample_section)) 0 = Some ''25''"
    by code_simp+
  from section_value [OF ok token_tables_wf(12) port] show ?thesis
    unfolding val by auto
qed

end
