(* ===== verification/IP_Address.thy ===== *)
theory IP_Address
  imports Utils
begin

text \<open>
  \<open>src/src/ipaddress.h\<close> and \<open>ipaddress.cpp\<close>: the client address of a request with its
  lazily computed parts (the numeric octets, the network, the reverse name and the shortened
  names). \<open>getnameinfo\<close> and \<open>gai_strerror\<close> are the parameter \<open>resolver\<close>: the return
  code, the content of the buffer after the call, and the error text.
\<close>

type_synonym resolver = "string \<Rightarrow> int \<times> string \<times> string"

record IPAddress =
  ip_str :: string
  ip_numeric :: "32 word list"
  ip_reverse :: string
  ip_clientname :: string
  ip_resolve_error :: string
  ip_short_reverse :: string
  ip_network :: string
  ip_short_clientname :: string

abbreviation default_length :: nat where
  "default_length \<equiv> 4"

definition IPAddress_new :: "string \<Rightarrow> string \<Rightarrow> string \<Rightarrow> IPAddress" where
  "IPAddress_new c n cn =
     \<lparr>ip_str = c, ip_numeric = [], ip_reverse = lowercase n, ip_clientname = lowercase cn,
      ip_resolve_error = [], ip_short_reverse = [], ip_network = [], ip_short_clientname = []\<rparr>"

section \<open>The octets\<close>

text \<open>
  The loop of \<open>initNumeric\<close>. The second argument of \<open>substr\<close> is the position of the
  dot, used as a length: the piece may run past the dot, and \<open>stm >> val\<close> stops there.
  \<open>junk\<close> is what the uninitialised \<open>val\<close> holds when the extraction does not start.
\<close>

function initNumeric_loop :: "32 word \<Rightarrow> string \<Rightarrow> nat \<Rightarrow> 32 word list \<Rightarrow> 32 word list" where
  "initNumeric_loop junk str startpos acc =
     (let dotpos = find_char_from CHR ''.'' str startpos;
          strVal = substr str startpos dotpos;
          acc' = acc @ [extract_unsigned junk strVal]
      in case dotpos of
           None \<Rightarrow> acc'
         | Some d \<Rightarrow> initNumeric_loop junk str (d + 1) acc')"
  by pat_completeness auto
termination
proof (relation "measure (\<lambda>(junk, str, startpos, acc). Suc (length str) - startpos)", goal_cases)
  case (2 junk str startpos acc dotpos strVal acc' d)
  then have "find_char_from CHR ''.'' str startpos = Some d" by simp
  then obtain i where "find_char CHR ''.'' (drop startpos str) = Some i" "d = startpos + i"
    by (auto simp: find_char_from_def)
  then show ?case
    using find_char_SomeD [of "CHR ''.''" "drop startpos str" i] by auto
qed simp

declare initNumeric_loop.simps [simp del]

definition initNumeric :: "32 word \<Rightarrow> IPAddress \<Rightarrow> (exn + unit) \<times> IPAddress" where
  "initNumeric junk ip =
     (let ip' = ip\<lparr>ip_numeric := initNumeric_loop junk (ip_str ip) 0 (ip_numeric ip)\<rparr>
      in if length (ip_numeric ip') \<noteq> default_length
         then (Inl (RuntimeError (''Length of parsed IP address: '' @ ip_str ip)), ip')
         else (Inr (), ip'))"

text \<open>\<open>getNumericIdx\<close> indexes the vector without a check.\<close>

definition getNumericIdx :: "32 word \<Rightarrow> nat \<Rightarrow> IPAddress \<Rightarrow> (exn + 32 word) \<times> IPAddress" where
  "getNumericIdx junk idx ip =
     (case (if ip_numeric ip = [] then initNumeric junk ip else (Inr (), ip)) of
        (Inl e, ip') \<Rightarrow> (Inl e, ip')
      | (Inr _, ip') \<Rightarrow>
          (if idx < length (ip_numeric ip') then Inr (ip_numeric ip' ! idx)
           else Inl (Undefined ''_numeric[idx] out of range''), ip'))"

section \<open>Names\<close>

text \<open>
  \<open>getShortenedName\<close> walks from the end of the name towards its start and counts domain
  parts: a dot with at least seven characters after it counts twice.
\<close>

fun shorten_loop :: "string \<Rightarrow> nat \<Rightarrow> nat \<Rightarrow> nat \<times> nat" where
  "shorten_loop name 0 parts = (0, parts)"
| "shorten_loop name (Suc pos) parts =
     (if parts < 3
      then shorten_loop name pos
             (if pos > 0 \<and> name ! (pos - 1) = CHR ''.''
              then (if length name - pos \<ge> 7 then parts + 2 else parts + 1)
              else parts)
      else (Suc pos, parts))"

definition getShortenedName :: "string \<Rightarrow> string" where
  "getShortenedName name =
     (let (pos, parts) = shorten_loop name (length name) 0
      in if parts = 0 then [] else substr name pos None)"

definition getShortClientName :: "IPAddress \<Rightarrow> string \<times> IPAddress" where
  "getShortClientName ip =
     (if ip_short_clientname ip \<noteq> [] then (ip_short_clientname ip, ip)
      else if ip_clientname ip = [] then (ip_clientname ip, ip)
      else let s = getShortenedName (ip_clientname ip) in (s, ip\<lparr>ip_short_clientname := s\<rparr>))"

text \<open>
  \<open>resolve\<close> copies the buffer into \<open>_reverse\<close> whether or not \<open>getnameinfo\<close> wrote it.
\<close>

definition resolve :: "resolver \<Rightarrow> IPAddress \<Rightarrow> IPAddress" where
  "resolve resolver ip =
     (let (n, buf, err) = resolver (ip_str ip);
          ip' = (if n \<noteq> 0
                 then ip\<lparr>ip_resolve_error := ''resolve '' @ ip_str ip @ '': '' @ err\<rparr> else ip)
      in ip'\<lparr>ip_reverse := lowercase buf\<rparr>)"

definition getReverseName :: "resolver \<Rightarrow> IPAddress \<Rightarrow> string \<times> IPAddress" where
  "getReverseName resolver ip =
     (if ip_resolve_error ip \<noteq> [] then (ip_reverse ip, ip)
      else if ip_reverse ip \<noteq> [] then (ip_reverse ip, ip)
      else let ip' = resolve resolver ip in (ip_reverse ip', ip'))"

definition getShortReverseName :: "resolver \<Rightarrow> IPAddress \<Rightarrow> string \<times> IPAddress" where
  "getShortReverseName resolver ip =
     (if ip_short_reverse ip \<noteq> [] then (ip_short_reverse ip, ip)
      else if ip_resolve_error ip \<noteq> [] then (ip_short_reverse ip, ip)
      else let ip' = (if ip_reverse ip = [] then resolve resolver ip else ip)
           in if ip_reverse ip' = [] then (ip_short_reverse ip', ip')
              else let s = getShortenedName (ip_reverse ip') in (s, ip'\<lparr>ip_short_reverse := s\<rparr>))"

text \<open>The network is the address up to and including its last dot.\<close>

definition getNetwork :: "IPAddress \<Rightarrow> string \<times> IPAddress" where
  "getNetwork ip =
     (if ip_network ip \<noteq> [] then (ip_network ip, ip)
      else let dotpos = rfind_char CHR ''.'' (ip_str ip);
               s = substr (ip_str ip) 0 (map_option (\<lambda>d. d + 1) dotpos)
           in (s, ip\<lparr>ip_network := s\<rparr>))"

section \<open>The octets of a dotted address\<close>

fun dotted :: "nat list \<Rightarrow> string" where
  "dotted [] = []"
| "dotted [n] = show_nat n"
| "dotted (n # ns) = show_nat n @ CHR ''.'' # dotted ns"

lemma show_nat_no_dot: "CHR ''.'' \<notin> set (show_nat n)"
  using show_nat_digits [of n] by (auto dest: digit_not_sign)

lemma extract_show_nat:
  assumes "n < 2 ^ 32" and "r = [] \<or> \<not> is_digit (hd r)"
  shows "extract_unsigned junk (show_nat n @ r) = of_nat n"
  using extract_unsigned_digits [of "show_nat n" r junk] assms show_nat_digits [of n] by simp

lemma initNumeric_loop_dotted:
  assumes "ns \<noteq> []" and "\<forall>n \<in> set ns. n < 2 ^ 32" and "startpos = length pre"
  shows "initNumeric_loop junk (pre @ dotted ns) startpos acc = acc @ map of_nat ns"
  using assms
proof (induction ns arbitrary: pre startpos acc rule: dotted.induct)
  case (2 n)
  have "find_char_from CHR ''.'' (pre @ dotted [n]) startpos = None"
    using 2 show_nat_no_dot [of n] by (simp add: find_char_from_def)
  then show ?case
    using 2 extract_show_nat [of n "[]" junk] by (subst initNumeric_loop.simps) simp
next
  case (3 n m ms)
  let ?d = "length pre + length (show_nat n)"
  let ?rest = "CHR ''.'' # dotted (m # ms)"
  have dot: "find_char_from CHR ''.'' (pre @ dotted (n # m # ms)) startpos = Some ?d"
    using 3 find_char_append [OF show_nat_no_dot] by (simp add: find_char_from_def)
  have piece: "substr (pre @ dotted (n # m # ms)) startpos (Some ?d)
      = show_nat n @ take (length pre) ?rest"
    using 3 by (simp add: take_append)
  have val: "extract_unsigned junk (show_nat n @ take (length pre) ?rest) = of_nat n"
    by (rule extract_show_nat) (use 3 in \<open>auto simp: take_Cons' is_digit_def code_of_def\<close>)
  have "initNumeric_loop junk (pre @ dotted (n # m # ms)) startpos acc =
      initNumeric_loop junk (pre @ dotted (n # m # ms)) (?d + 1) (acc @ [of_nat n])"
    by (subst initNumeric_loop.simps) (simp only: dot piece val Let_def option.case)
  also have "\<dots> = initNumeric_loop junk ((pre @ show_nat n @ ''.'') @ dotted (m # ms)) (?d + 1)
      (acc @ [of_nat n])"
    by simp
  also have "\<dots> = (acc @ [of_nat n]) @ map of_nat (m # ms)"
    by (rule 3) (use 3 in auto)
  finally show ?case by simp
qed simp

text \<open>Whatever the pieces hold, the loop makes one octet per dot and one more.\<close>

lemma find_char_count:
  assumes "find_char c s = Some i"
  shows "count_list s c = Suc (count_list (drop (Suc i) s) c)"
proof -
  from find_char_SomeD [OF assms] have i: "i < length s" "s ! i = c" "c \<notin> set (take i s)"
    by auto
  then have "s = take i s @ c # drop (Suc i) s"
    by (metis id_take_nth_drop)
  then have "count_list s c = count_list (take i s @ c # drop (Suc i) s) c" by simp
  with i(3) show ?thesis by (simp add: count_list_append count_notin)
qed

lemma length_initNumeric_loop:
  "length (initNumeric_loop junk str startpos acc) =
   length acc + Suc (count_list (drop startpos str) CHR ''.'')"
proof (induction junk str startpos acc rule: initNumeric_loop.induct)
  case (1 junk str startpos acc)
  show ?case
  proof (cases "find_char_from CHR ''.'' str startpos")
    case None
    then have "count_list (drop startpos str) CHR ''.'' = 0"
      by (simp add: find_char_from_def count_list_0_iff)
    with None show ?thesis by (subst initNumeric_loop.simps) simp
  next
    case (Some d)
    then obtain i where i: "find_char CHR ''.'' (drop startpos str) = Some i" "d = startpos + i"
      by (auto simp: find_char_from_def)
    have "count_list (drop startpos str) CHR ''.'' = Suc (count_list (drop (d + 1) str) CHR ''.'')"
      using find_char_count [OF i(1)] i(2) by (simp add: add.commute)
    with 1 Some show ?thesis by (subst initNumeric_loop.simps) simp
  qed
qed

section \<open>Shortened names\<close>

lemma shorten_loop_mono:
  "shorten_loop name pos parts = (p, q) \<Longrightarrow> p \<le> pos \<and> parts \<le> q \<and> (p = 0 \<or> 3 \<le> q)"
proof (induction pos arbitrary: parts)
  case (Suc pos)
  then show ?case
    by (cases "parts < 3") (force split: if_splits)+
qed simp

lemma shorten_loop_stop: "3 \<le> parts \<Longrightarrow> shorten_loop name pos parts = (pos, parts)"
  by (cases pos) simp_all

lemma shorten_loop_same: "shorten_loop name pos parts = (pos, q) \<Longrightarrow> q = parts"
  by (cases pos) (auto dest: shorten_loop_mono split: if_splits)

lemma shorten_loop_count:
  assumes "parts < 3" and "pos \<le> length name"
  shows "snd (shorten_loop name pos parts) = parts \<longleftrightarrow> CHR ''.'' \<notin> set (take (pos - 1) name)"
  using assms(2)
proof (induction pos)
  case (Suc pos)
  show ?case
  proof (cases "pos > 0 \<and> name ! (pos - 1) = CHR ''.''")
    case True
    then have "snd (shorten_loop name (Suc pos) parts) \<noteq> parts"
      using assms(1) shorten_loop_mono [of name pos "parts + 2"]
        shorten_loop_mono [of name pos "parts + 1"]
      by (cases "shorten_loop name pos (if length name - pos \<ge> 7 then parts + 2 else parts + 1)")
        (fastforce split: if_splits)
    moreover have "CHR ''.'' \<in> set (take pos name)"
      using True Suc.prems by (auto simp: in_set_conv_nth intro!: exI [of _ "pos - 1"])
    ultimately show ?thesis by simp
  next
    case False
    then have "set (take pos name) \<inter> {CHR ''.''} = set (take (pos - 1) name) \<inter> {CHR ''.''}"
      using Suc.prems by (cases pos) (auto simp: take_Suc_conv_app_nth)
    then have "CHR ''.'' \<in> set (take pos name) \<longleftrightarrow> CHR ''.'' \<in> set (take (pos - 1) name)"
      by blast
    with Suc assms(1) False show ?thesis by auto
  qed
qed simp

lemma shorten_loop_boundary:
  "shorten_loop name pos parts = (p, q) \<Longrightarrow> parts < 3 \<Longrightarrow> 0 < p \<Longrightarrow> name ! (p - 1) = CHR ''.''"
proof (induction pos arbitrary: parts)
  case (Suc pos)
  let ?parts = "if pos > 0 \<and> name ! (pos - 1) = CHR ''.''
     then (if length name - pos \<ge> 7 then parts + 2 else parts + 1) else parts"
  from Suc.prems have step: "shorten_loop name pos ?parts = (p, q)" by simp
  show ?case
  proof (cases "?parts < 3")
    case True
    with Suc step show ?thesis by blast
  next
    case False
    with step have "p = pos" by (simp add: shorten_loop_stop)
    with False Suc.prems show ?thesis by (auto split: if_splits)
  qed
qed simp

text \<open>The loop over the part it keeps runs in step with the loop over the whole name.\<close>

lemma shorten_loop_suffix:
  assumes "shorten_loop (pre @ suf) (length pre + Suc k) parts = (length pre, p)"
    and "pre \<noteq> []" and "parts < 3"
  shows "\<exists>q. shorten_loop suf (Suc k) parts = (0, q) \<and> p \<le> q + 2"
  using assms
proof (induction k arbitrary: parts)
  case 0
  then show ?case by (auto dest: shorten_loop_same split: if_splits)
next
  case (Suc k)
  let ?parts = "if suf ! k = CHR ''.''
     then (if length suf - Suc k \<ge> 7 then parts + 2 else parts + 1) else parts"
  have cond: "(length pre + Suc k > 0 \<and> (pre @ suf) ! (length pre + Suc k - 1) = CHR ''.'')
      \<longleftrightarrow> suf ! k = CHR ''.''"
    and len: "length (pre @ suf) - (length pre + Suc k) = length suf - Suc k"
    by (simp_all add: nth_append)
  have "shorten_loop (pre @ suf) (Suc (length pre + Suc k)) parts = (length pre, p)"
    using Suc.prems(1) by (simp only: add_Suc_right)
  then have step: "shorten_loop (pre @ suf) (length pre + Suc k) ?parts = (length pre, p)"
    using Suc.prems(3) by (simp only: shorten_loop.simps if_True cond len)
  moreover have "?parts < 3"
  proof (rule ccontr)
    assume "\<not> ?parts < 3"
    then have "shorten_loop (pre @ suf) (length pre + Suc k) ?parts = (length pre + Suc k, ?parts)"
      by (intro shorten_loop_stop) simp
    with step show False by simp
  qed
  ultimately obtain q where "shorten_loop suf (Suc k) ?parts = (0, q)" "p \<le> q + 2"
    using Suc.IH Suc.prems(2) by blast
  with Suc.prems(3) show ?case by auto
qed

lemma getShortenedName_suffix: "\<exists>pre. name = pre @ getShortenedName name \<or> getShortenedName name = []"
  unfolding getShortenedName_def
  by (cases "shorten_loop name (length name) 0") (auto intro: append_take_drop_id [symmetric])

lemma getShortenedName_empty_iff: "getShortenedName name = [] \<longleftrightarrow> CHR ''.'' \<notin> set (butlast name)"
proof -
  obtain p q where loop: "shorten_loop name (length name) 0 = (p, q)" by fastforce
  have "q = 0 \<longleftrightarrow> CHR ''.'' \<notin> set (butlast name)"
    using shorten_loop_count [of 0 "length name" name] loop by (simp add: butlast_conv_take)
  moreover have "p < length name" if "q \<noteq> 0"
    using loop that shorten_loop_mono [OF loop]
    by (cases name) (auto dest: shorten_loop_mono split: if_splits)
  ultimately show ?thesis
    using loop by (auto simp: getShortenedName_def)
qed

lemma getShortenedName_idem: "getShortenedName (getShortenedName name) = getShortenedName name"
proof -
  obtain p q where loop: "shorten_loop name (length name) 0 = (p, q)" by fastforce
  show ?thesis
  proof (cases "q = 0 \<or> p = 0")
    case True
    then show ?thesis
      using loop by (auto simp: getShortenedName_def)
  next
    case False
    then have q: "3 \<le> q" and p: "0 < p" "p \<le> length name"
      using shorten_loop_mono [OF loop] by auto
    define pre suf where "pre = take p name" and "suf = drop p name"
    have name: "name = pre @ suf" "length pre = p" "pre \<noteq> []"
      using p by (auto simp: pre_def suf_def)
    obtain k where k: "length suf = Suc k"
    proof (cases "length suf")
      case 0
      with name loop have "shorten_loop name p 0 = (p, q)" by simp
      with p q show ?thesis by (cases p) (auto dest: shorten_loop_mono split: if_splits)
    qed
    from loop name k obtain r where r: "shorten_loop suf (length suf) 0 = (0, r)" "q \<le> r + 2"
      using shorten_loop_suffix [of pre suf k 0 q] by auto
    with q have "getShortenedName suf = suf"
      by (simp add: getShortenedName_def)
    moreover have "getShortenedName name = suf"
      using loop False by (simp add: getShortenedName_def suf_def)
    ultimately show ?thesis by simp
  qed
qed

lemma getShortenedName_boundary:
  assumes "getShortenedName name \<noteq> []"
  shows "getShortenedName name = name \<or> (\<exists>pre. name = pre @ CHR ''.'' # getShortenedName name)"
proof -
  obtain p q where loop: "shorten_loop name (length name) 0 = (p, q)" by fastforce
  with assms have eq: "getShortenedName name = drop p name" "p < length name"
    by (auto simp: getShortenedName_def split: if_splits)
  show ?thesis
  proof (cases "p = 0")
    case False
    with loop have "name ! (p - 1) = CHR ''.''"
      by (intro shorten_loop_boundary) auto
    with eq False have "name = take (p - 1) name @ CHR ''.'' # drop p name"
      using id_take_nth_drop [of "p - 1" name] by simp
    with eq show ?thesis by auto
  qed (use eq in simp)
qed

section \<open>Properties\<close>

lemma initNumeric_new:
  "initNumeric junk (IPAddress_new c n cn) =
   (if count_list c CHR ''.'' = 3 then Inr ()
    else Inl (RuntimeError (''Length of parsed IP address: '' @ c)),
    (IPAddress_new c n cn)\<lparr>ip_numeric := initNumeric_loop junk c 0 []\<rparr>)"
  by (simp add: initNumeric_def IPAddress_new_def length_initNumeric_loop Let_def)

text \<open>
  C26 (round trip). The four numbers of a dotted address are read back from its text: on a fresh
  object \<open>getNumericIdx(i)\<close> returns the i-th of them, at the width of \<open>unsigned\<close>.
\<close>

theorem numeric_of_dotted:
  assumes "a < 2 ^ 32" "b < 2 ^ 32" "c < 2 ^ 32" "d < 2 ^ 32" and "i < 4"
  shows "fst (getNumericIdx junk i (IPAddress_new (dotted [a, b, c, d]) n cn)) =
         Inr (of_nat ([a, b, c, d] ! i))"
proof -
  have loop: "initNumeric_loop junk (dotted [a, b, c, d]) 0 [] = map of_nat [a, b, c, d]"
    using initNumeric_loop_dotted [of "[a, b, c, d]" 0 "[]" junk "[]"] assms by (simp del: dotted.simps)
  then have "count_list (dotted [a, b, c, d]) CHR ''.'' = 3"
    using length_initNumeric_loop [of junk "dotted [a, b, c, d]" 0 "[]"]
    by (simp del: dotted.simps)
  then have init: "initNumeric junk (IPAddress_new (dotted [a, b, c, d]) n cn) =
      (Inr (), (IPAddress_new (dotted [a, b, c, d]) n cn)\<lparr>ip_numeric := map of_nat [a, b, c, d]\<rparr>)"
    unfolding initNumeric_new loop by (simp del: dotted.simps)
  have "ip_numeric (IPAddress_new (dotted [a, b, c, d]) n cn) = []"
    by (simp add: IPAddress_new_def)
  with assms(5) init show ?thesis
    by (simp add: getNumericIdx_def del: dotted.simps list.map)
qed

theorem numeric_of_dotted_witness:
  "fst (getNumericIdx 7 2 (IPAddress_new (dotted [192, 168, 10, 1]) [] [])) = Inr 10"
  using numeric_of_dotted [of 192 168 10 1 2 7 "[]" "[]"] by simp

text \<open>
  C27 (error). On a fresh object an octet in range is either returned or refused with
  \<open>std::runtime_error\<close>, and it is refused exactly when the address does not have three
  dots; the unchecked index is never out of range.
\<close>

theorem numeric_error_iff:
  assumes "i < 4"
  shows "(case fst (getNumericIdx junk i (IPAddress_new c n cn)) of
            Inl e \<Rightarrow> e = RuntimeError (''Length of parsed IP address: '' @ c) \<and> count_list c CHR ''.'' \<noteq> 3
          | Inr v \<Rightarrow> v = initNumeric_loop junk c 0 [] ! i \<and> count_list c CHR ''.'' = 3)"
proof -
  have "ip_numeric (IPAddress_new c n cn) = []"
    by (simp add: IPAddress_new_def)
  with assms show ?thesis
    by (simp add: getNumericIdx_def initNumeric_new length_initNumeric_loop)
qed

theorem numeric_error_iff_witness:
  "count_list ''1.2.3'' CHR ''.'' = 2 \<and>
   fst (getNumericIdx 0 1 (IPAddress_new ''1.2.3'' [] [])) =
     Inl (RuntimeError ''Length of parsed IP address: 1.2.3'')"
  using numeric_error_iff [of 1 "''1.2.3''" 0 "[]" "[]"] by (auto split: sum.splits)

text \<open>
  The object does not survive the refusal: after an address without
  three dots was refused once, the next call finds the vector filled, skips the length check and
  indexes it out of range.
\<close>

theorem numeric_second_call_unchecked:
  assumes "count_list c CHR ''.'' < 3"
  shows "fst (getNumericIdx junk 3 (snd (getNumericIdx junk 3 (IPAddress_new c n cn)))) =
         Inl (Undefined ''_numeric[idx] out of range'')"
proof -
  have len: "length (initNumeric_loop junk c 0 []) = Suc (count_list c CHR ''.'')"
    by (simp add: length_initNumeric_loop)
  then have "initNumeric_loop junk c 0 [] \<noteq> []" by auto
  moreover have "ip_numeric (IPAddress_new c n cn) = []"
    by (simp add: IPAddress_new_def)
  ultimately show ?thesis
    using assms len by (simp add: getNumericIdx_def initNumeric_new)
qed

theorem numeric_second_call_unchecked_witness:
  "count_list ''::1'' CHR ''.'' = 0 \<and>
   fst (getNumericIdx 0 3 (snd (getNumericIdx 0 3 (IPAddress_new ''::1'' [] [])))) =
     Inl (Undefined ''_numeric[idx] out of range'')"
  using numeric_second_call_unchecked [of "''::1''" 0 "[]" "[]"] by simp

text \<open>
  A shortened name is empty exactly when the name has no dot before its last
  character. Otherwise it is the name itself or a suffix of it cut right after a dot, and
  shortening it again changes nothing.
\<close>

theorem shortened_name_spec:
  "if CHR ''.'' \<in> set (butlast name)
   then getShortenedName name \<noteq> [] \<and> getShortenedName (getShortenedName name) = getShortenedName name \<and>
        (getShortenedName name = name \<or> (\<exists>pre. name = pre @ CHR ''.'' # getShortenedName name))
   else getShortenedName name = []"
  using getShortenedName_empty_iff [of name] getShortenedName_idem [of name]
    getShortenedName_boundary [of name] by auto

end
