(* ===== verification/Triplet.thy ===== *)
theory Triplet
  imports IP_Address
begin

text \<open>
  \<open>src/src/triplet.h\<close>: the request as the matchers and policies see it. \<open>getMember\<close>
  selects one of nine members by its index; a matcher's index comes from the configuration
  through a cast, so it may name no member. The members are computed on demand and cached in the
  object: every getter returns the object it leaves behind. The last section shows what every read
  returns, whatever was read before, and the one case in which the order of the reads can be seen.
\<close>

record Triplet =
  tr_sender :: string
  tr_recipient :: string
  tr_tripletstring :: string
  tr_client_address :: IPAddress

datatype MemberType =
    TM_client_address | TM_sender | TM_recipient | TM_reverse_client_name | TM_client_name
  | TM_short_reverse_client_name | TM_short_client_name | TM_triplet_string | TM_network

fun MemberType_idx :: "MemberType \<Rightarrow> nat" where
  "MemberType_idx TM_client_address = 0"
| "MemberType_idx TM_sender = 1"
| "MemberType_idx TM_recipient = 2"
| "MemberType_idx TM_reverse_client_name = 3"
| "MemberType_idx TM_client_name = 4"
| "MemberType_idx TM_short_reverse_client_name = 5"
| "MemberType_idx TM_short_client_name = 6"
| "MemberType_idx TM_triplet_string = 7"
| "MemberType_idx TM_network = 8"

definition members :: "MemberType list" where
  "members =
     [TM_client_address, TM_sender, TM_recipient, TM_reverse_client_name, TM_client_name,
      TM_short_reverse_client_name, TM_short_client_name, TM_triplet_string, TM_network]"

definition MemberType_of :: "nat \<Rightarrow> MemberType option" where
  "MemberType_of i = (if i < length members then Some (members ! i) else None)"

definition Triplet_new :: "string \<Rightarrow> string \<Rightarrow> string \<Rightarrow> string \<Rightarrow> string \<Rightarrow> Triplet" where
  "Triplet_new c s r n cn =
     \<lparr>tr_sender = lowercase s, tr_recipient = lowercase r, tr_tripletstring = [],
      tr_client_address = IPAddress_new c n cn\<rparr>"

definition getClientAddressNumericIdx ::
    "32 word \<Rightarrow> nat \<Rightarrow> Triplet \<Rightarrow> (exn + 32 word) \<times> Triplet" where
  "getClientAddressNumericIdx junk idx t =
     (case getNumericIdx junk idx (tr_client_address t) of
        (r, ip) \<Rightarrow> (r, t\<lparr>tr_client_address := ip\<rparr>))"

definition getReverseClientName :: "resolver \<Rightarrow> Triplet \<Rightarrow> string \<times> Triplet" where
  "getReverseClientName resolver t =
     (case getReverseName resolver (tr_client_address t) of (s, ip) \<Rightarrow> (s, t\<lparr>tr_client_address := ip\<rparr>))"

definition getClientName :: "Triplet \<Rightarrow> string" where
  "getClientName t = ip_clientname (tr_client_address t)"

definition tr_getShortClientName :: "Triplet \<Rightarrow> string \<times> Triplet" where
  "tr_getShortClientName t =
     (case getShortClientName (tr_client_address t) of (s, ip) \<Rightarrow> (s, t\<lparr>tr_client_address := ip\<rparr>))"

definition getShortReverseClientName :: "resolver \<Rightarrow> Triplet \<Rightarrow> string \<times> Triplet" where
  "getShortReverseClientName resolver t =
     (case getShortReverseName resolver (tr_client_address t) of
        (s, ip) \<Rightarrow> (s, t\<lparr>tr_client_address := ip\<rparr>))"

definition getClientAddress :: "Triplet \<Rightarrow> string" where
  "getClientAddress t = ip_str (tr_client_address t)"

definition tr_getNetwork :: "Triplet \<Rightarrow> string \<times> Triplet" where
  "tr_getNetwork t =
     (case getNetwork (tr_client_address t) of (s, ip) \<Rightarrow> (s, t\<lparr>tr_client_address := ip\<rparr>))"

definition getTripletString :: "Triplet \<Rightarrow> string \<times> Triplet" where
  "getTripletString t =
     (if tr_tripletstring t \<noteq> [] then (tr_tripletstring t, t)
      else let s = ''s='' @ tr_sender t @ [CHR 0x0A] @ ''r='' @ tr_recipient t @ [CHR 0x0A]
                 @ ''c='' @ getClientAddress t @ [CHR 0x0A] @ ''h='' @ getClientName t @ [CHR 0x0A]
           in (s, t\<lparr>tr_tripletstring := s\<rparr>))"

definition getMember :: "resolver \<Rightarrow> nat \<Rightarrow> Triplet \<Rightarrow> (exn + string) \<times> Triplet" where
  "getMember resolver type t =
     (case MemberType_of type of
        Some TM_client_address \<Rightarrow> (Inr (getClientAddress t), t)
      | Some TM_sender \<Rightarrow> (Inr (tr_sender t), t)
      | Some TM_recipient \<Rightarrow> (Inr (tr_recipient t), t)
      | Some TM_reverse_client_name \<Rightarrow> map_prod Inr id (getReverseClientName resolver t)
      | Some TM_client_name \<Rightarrow> (Inr (getClientName t), t)
      | Some TM_short_reverse_client_name \<Rightarrow> map_prod Inr id (getShortReverseClientName resolver t)
      | Some TM_short_client_name \<Rightarrow> map_prod Inr id (tr_getShortClientName t)
      | Some TM_triplet_string \<Rightarrow> map_prod Inr id (getTripletString t)
      | Some TM_network \<Rightarrow> map_prod Inr id (tr_getNetwork t)
      | None \<Rightarrow> (Inl (OutOfRange (''unknown triplet member index: '' @ show_nat type)), t))"

lemma MemberType_of_idx [simp]: "MemberType_of (MemberType_idx m) = Some m"
  by (cases m) (simp_all add: MemberType_of_def members_def)

section \<open>The lazily computed members have one value\<close>

text \<open>What each member of a request is, as a function of the five strings Postfix sent.\<close>

definition reverse_spec :: "resolver \<Rightarrow> string \<Rightarrow> string \<Rightarrow> string" where
  "reverse_spec resolver c n = (if n \<noteq> [] then lowercase n else lowercase (fst (snd (resolver c))))"

definition network_spec :: "string \<Rightarrow> string" where
  "network_spec c = substr c 0 (map_option Suc (rfind_char CHR ''.'' c))"

definition tripletstring_spec :: "string \<Rightarrow> string \<Rightarrow> string \<Rightarrow> string \<Rightarrow> string" where
  "tripletstring_spec c s r cn =
     ''s='' @ lowercase s @ [CHR 0x0A] @ ''r='' @ lowercase r @ [CHR 0x0A] @ ''c='' @ c @ [CHR 0x0A]
     @ ''h='' @ lowercase cn @ [CHR 0x0A]"

fun member_spec ::
    "resolver \<Rightarrow> string \<Rightarrow> string \<Rightarrow> string \<Rightarrow> string \<Rightarrow> string \<Rightarrow> MemberType \<Rightarrow> string" where
  "member_spec f c s r n cn TM_client_address = c"
| "member_spec f c s r n cn TM_sender = lowercase s"
| "member_spec f c s r n cn TM_recipient = lowercase r"
| "member_spec f c s r n cn TM_reverse_client_name = reverse_spec f c n"
| "member_spec f c s r n cn TM_client_name = lowercase cn"
| "member_spec f c s r n cn TM_short_reverse_client_name = getShortenedName (reverse_spec f c n)"
| "member_spec f c s r n cn TM_short_client_name = getShortenedName (lowercase cn)"
| "member_spec f c s r n cn TM_triplet_string = tripletstring_spec c s r cn"
| "member_spec f c s r n cn TM_network = network_spec c"

text \<open>
  Postfix sent no reverse name and the lookup fails. What the buffer then holds is not known: it is the
  second component of the resolver's answer, as in every other case.
\<close>

definition lookup_fails :: "resolver \<Rightarrow> string \<Rightarrow> string \<Rightarrow> bool" where
  "lookup_fails f c n \<longleftrightarrow> n = [] \<and> fst (f c) \<noteq> 0"

text \<open>
  The view of the object. \<open>st\<close> is \<^const>\<open>None\<close> while a lookup that will fail has not been made, and else the
  short reverse name as it is read from now on.
\<close>

definition names_view :: "resolver \<Rightarrow> string \<Rightarrow> string \<Rightarrow> string option \<Rightarrow> IPAddress \<Rightarrow> bool" where
  "names_view f c n st ip \<longleftrightarrow>
     (case st of
        None \<Rightarrow> lookup_fails f c n \<and> ip_reverse ip = [] \<and> ip_resolve_error ip = [] \<and> ip_short_reverse ip = []
      | Some v \<Rightarrow>
          if lookup_fails f c n
          then ip_resolve_error ip \<noteq> [] \<and> ip_reverse ip = reverse_spec f c n \<and> ip_short_reverse ip = v
          else ip_resolve_error ip = [] \<and> (ip_reverse ip = reverse_spec f c n \<or> n = [] \<and> ip_reverse ip = []) \<and>
               ip_short_reverse ip \<in> {[], v} \<and> v = getShortenedName (reverse_spec f c n))"

definition ip_view :: "resolver \<Rightarrow> string \<Rightarrow> string \<Rightarrow> string \<Rightarrow> string option \<Rightarrow> IPAddress \<Rightarrow> bool" where
  "ip_view f c n cn st ip \<longleftrightarrow>
     ip_str ip = c \<and> ip_clientname ip = lowercase cn \<and> names_view f c n st ip \<and>
     ip_network ip \<in> {[], network_spec c} \<and>
     ip_short_clientname ip \<in> {[], getShortenedName (lowercase cn)}"

definition triplet_view ::
    "resolver \<Rightarrow> string \<Rightarrow> string \<Rightarrow> string \<Rightarrow> string \<Rightarrow> string \<Rightarrow> string option \<Rightarrow> Triplet \<Rightarrow> bool" where
  "triplet_view f c s r n cn st t \<longleftrightarrow>
     ip_view f c n cn st (tr_client_address t) \<and> tr_sender t = lowercase s \<and>
     tr_recipient t = lowercase r \<and> tr_tripletstring t \<in> {[], tripletstring_spec c s r cn}"

text \<open>The state of a new object, the state after a read, and what a read returns.\<close>

definition start_view :: "resolver \<Rightarrow> string \<Rightarrow> string \<Rightarrow> string option" where
  "start_view f c n = (if lookup_fails f c n then None else Some (getShortenedName (reverse_spec f c n)))"

fun next_view :: "resolver \<Rightarrow> string \<Rightarrow> string \<Rightarrow> MemberType \<Rightarrow> string option \<Rightarrow> string option" where
  "next_view f c n m (Some v) = Some v"
| "next_view f c n m None =
     (if m = TM_reverse_client_name then Some []
      else if m = TM_short_reverse_client_name then Some (getShortenedName (reverse_spec f c n)) else None)"

definition member_value ::
    "resolver \<Rightarrow> string \<Rightarrow> string \<Rightarrow> string \<Rightarrow> string \<Rightarrow> string \<Rightarrow> string option \<Rightarrow> MemberType \<Rightarrow> string" where
  "member_value f c s r n cn st m =
     (case st of
        Some v \<Rightarrow> if m = TM_short_reverse_client_name then v else member_spec f c s r n cn m
      | None \<Rightarrow> member_spec f c s r n cn m)"

lemma getShortenedName_Nil [simp]: "getShortenedName [] = []"
  by (simp add: getShortenedName_def)

lemma triplet_view_new: "triplet_view f c s r n cn (start_view f c n) (Triplet_new c s r n cn)"
  by (auto simp: triplet_view_def ip_view_def names_view_def start_view_def lookup_fails_def Triplet_new_def IPAddress_new_def
      reverse_spec_def)

lemma resolve_reverse:
  "ip_reverse (resolve f ip) = lowercase (fst (snd (f (ip_str ip))))"
  "ip_resolve_error (resolve f ip) = [] \<longleftrightarrow> fst (f (ip_str ip)) = 0 \<and> ip_resolve_error ip = []"
  by (auto simp: resolve_def Let_def split_beta)

lemma resolve_frame [simp]:
  "ip_str (resolve f ip) = ip_str ip" "ip_clientname (resolve f ip) = ip_clientname ip"
  "ip_network (resolve f ip) = ip_network ip" "ip_short_clientname (resolve f ip) = ip_short_clientname ip"
  "ip_short_reverse (resolve f ip) = ip_short_reverse ip"
  by (simp_all add: resolve_def Let_def split_beta)

lemma names_view_numeric [simp]: "names_view f c n st (ip\<lparr>ip_numeric := xs\<rparr>) = names_view f c n st ip"
  by (simp add: names_view_def split: option.splits)

lemma ip_view_getReverseName:
  assumes "ip_view f c n cn st ip"
  shows "fst (getReverseName f ip) = reverse_spec f c n \<and>
         ip_view f c n cn (next_view f c n TM_reverse_client_name st) (snd (getReverseName f ip))"
  using assms
  by (cases st)
    (auto simp: getReverseName_def ip_view_def names_view_def lookup_fails_def reverse_spec_def resolve_reverse Let_def split: if_splits)

lemma ip_view_getShortReverseName:
  assumes "ip_view f c n cn st ip"
  shows "fst (getShortReverseName f ip) = member_value f c s r n cn st TM_short_reverse_client_name \<and>
         ip_view f c n cn (next_view f c n TM_short_reverse_client_name st) (snd (getShortReverseName f ip))"
  using assms
  by (cases st)
    (auto simp: getShortReverseName_def ip_view_def names_view_def lookup_fails_def reverse_spec_def member_value_def resolve_reverse
      Let_def split: if_splits)

lemma ip_view_getShortClientName:
  assumes "ip_view f c n cn st ip"
  shows "fst (getShortClientName ip) = getShortenedName (lowercase cn) \<and>
         ip_view f c n cn st (snd (getShortClientName ip))"
  using assms by (auto simp: getShortClientName_def ip_view_def names_view_def Let_def split: option.splits)

lemma ip_view_getNetwork:
  assumes "ip_view f c n cn st ip"
  shows "fst (getNetwork ip) = network_spec c \<and> ip_view f c n cn st (snd (getNetwork ip))"
  using assms by (auto simp: getNetwork_def ip_view_def names_view_def network_spec_def Let_def split: option.splits)

lemma triplet_view_getTripletString:
  assumes "triplet_view f c s r n cn st t"
  shows "fst (getTripletString t) = tripletstring_spec c s r cn \<and>
         triplet_view f c s r n cn st (snd (getTripletString t))"
  using assms
  by (auto simp: getTripletString_def triplet_view_def ip_view_def tripletstring_spec_def
      getClientAddress_def getClientName_def Let_def)

lemmas triplet_getter_defs =
  getReverseClientName_def tr_getShortClientName_def getShortReverseClientName_def tr_getNetwork_def
  getClientName_def getClientAddress_def

lemma next_view_other: "m \<noteq> TM_reverse_client_name \<Longrightarrow> m \<noteq> TM_short_reverse_client_name \<Longrightarrow> next_view f c n m st = st"
  by (cases st) simp_all

lemma member_value_other: "m \<noteq> TM_short_reverse_client_name \<Longrightarrow> member_value f c s r n cn st m = member_spec f c s r n cn m"
  by (cases st) (simp_all add: member_value_def)

lemma getMember_view:
  assumes "triplet_view f c s r n cn st t"
  shows "\<exists>t'. getMember f (MemberType_idx m) t = (Inr (member_value f c s r n cn st m), t') \<and>
              triplet_view f c s r n cn (next_view f c n m st) t'"
proof -
  have view: "ip_view f c n cn st (tr_client_address t)"
    and base: "getClientAddress t = c" "getClientName t = lowercase cn"
      "tr_sender t = lowercase s" "tr_recipient t = lowercase r"
    using assms by (auto simp: triplet_view_def ip_view_def getClientAddress_def getClientName_def)
  have lift: "triplet_view f c s r n cn st' (t\<lparr>tr_client_address := ip\<rparr>)" if "ip_view f c n cn st' ip" for ip st'
    using that assms by (simp add: triplet_view_def)
  show ?thesis
    using assms base lift ip_view_getReverseName [OF view] ip_view_getShortReverseName [OF view, of s r]
      ip_view_getShortClientName [OF view] ip_view_getNetwork [OF view] triplet_view_getTripletString [OF assms]
    by (cases m; simp only: getMember_def MemberType_of_idx option.case MemberType.case)
      (auto simp: triplet_getter_defs split_beta map_prod_def next_view_other member_value_other)
qed

lemma getMember_unknown:
  assumes "length members \<le> i"
  shows "getMember f i t = (Inl (OutOfRange (''unknown triplet member index: '' @ show_nat i)), t)"
  using assms by (simp add: getMember_def MemberType_of_def)

section \<open>Properties\<close>

text \<open>A sequence of reads, as the matchers and policies of a chain make them.\<close>

fun getMembers :: "resolver \<Rightarrow> nat list \<Rightarrow> Triplet \<Rightarrow> (exn + string) list \<times> Triplet" where
  "getMembers f [] t = ([], t)"
| "getMembers f (i # is) t =
     (case getMember f i t of (r, t') \<Rightarrow> (case getMembers f is t' of (rs, t'') \<Rightarrow> (r # rs, t'')))"

text \<open>The full reverse name is read before the short one.\<close>

fun reverse_first :: "MemberType list \<Rightarrow> bool" where
  "reverse_first [] \<longleftrightarrow> False"
| "reverse_first (m # ms) \<longleftrightarrow> m = TM_reverse_client_name \<or> m \<noteq> TM_short_reverse_client_name \<and> reverse_first ms"

lemma getMembers_view:
  "triplet_view f c s r n cn st t \<Longrightarrow>
   fst (getMembers f (map MemberType_idx ms) t) =
   map (\<lambda>m. Inr (if m = TM_short_reverse_client_name \<and> st = None \<and> reverse_first ms then []
                 else member_value f c s r n cn st m)) ms"
proof (induction ms arbitrary: st t)
  case (Cons m ms)
  obtain t' where t': "getMember f (MemberType_idx m) t = (Inr (member_value f c s r n cn st m), t')"
    "triplet_view f c s r n cn (next_view f c n m st) t'"
    using getMember_view [OF Cons.prems] by blast
  show ?case using Cons.IH [OF t'(2)] t'(1) by (cases st) (auto simp: split_beta member_value_def)
qed simp


text \<open>
  So after a failed lookup the reads depend on their order: when it leaves a dotted text in the buffer, the short reverse name is that text if
  the short name is read first and empty if the full name is read first.
\<close>

theorem reverse_name_order_matters:
  assumes "fst (f c) \<noteq> 0" and "fst (snd (f c)) = buf" and "CHR ''.'' \<in> set (butlast (lowercase buf))"
  shows "fst (getMembers f [5] (Triplet_new c s r [] cn)) = [Inr (getShortenedName (lowercase buf))] \<and>
         fst (getMembers f [3, 5] (Triplet_new c s r [] cn)) = [Inr (lowercase buf), Inr []] \<and>
         getShortenedName (lowercase buf) \<noteq> []"
proof -
  have idx: "MemberType_of 5 = Some TM_short_reverse_client_name" "MemberType_of 3 = Some TM_reverse_client_name"
    by (simp_all add: MemberType_of_def members_def)
  have "lowercase buf \<noteq> []" using assms(3) by auto
  then have "buf \<noteq> []" by simp
  with assms getShortenedName_empty_iff [of "lowercase buf"] show ?thesis
    by (simp add: getMember_def idx triplet_getter_defs getReverseName_def getShortReverseName_def
        Triplet_new_def IPAddress_new_def resolve_def Let_def split_beta)
qed

theorem reverse_name_order_matters_witness:
  "fst (getMembers (\<lambda>_. (- 2, ''a.b'', ''fail'')) [5] (Triplet_new ''10.0.0.1'' [] [] [] [])) = [Inr ''a.b''] \<and>
   fst (getMembers (\<lambda>_. (- 2, ''a.b'', ''fail'')) [3, 5] (Triplet_new ''10.0.0.1'' [] [] [] [])) =
     [Inr ''a.b'', Inr []]"
proof -
  have lc: "lowercase ''a.b'' = ''a.b''" "getShortenedName ''a.b'' = ''a.b''" by code_simp+
  show ?thesis
    using reverse_name_order_matters [of "\<lambda>_. (- 2, ''a.b'', ''fail'')" "''10.0.0.1''" "''a.b''" "[]" "[]" "[]"]
    by (simp add: lc)
qed

end
