(* ===== verification/Database.thy ===== *)
theory Database
  imports Std_Map Utils
begin

text \<open>
  \<open>src/src/dbiwrapped-0.0.1/Database.{h,cpp}\<close> and \<open>src/src/dbierror.h\<close>: a pool of
  connections. \<open>grabdb\<close> hands out a free connection that still answers, or a new one;
  \<open>freedb\<close> takes it back. Every operation runs under the mutex of the database, so each is
  one step. libdbi is not part of the sources: it is the argument \<open>lib\<close>, a record of the
  functions the code calls, over a state \<open>'e\<close> of the library and the servers behind it.
  Handles (connections, results) are numbers; \<^const>\<open>None\<close> is the null pointer.
\<close>

record 'e libdbi =
  dbi_initialize :: int
  dbi_conn_new :: "string \<Rightarrow> 'e \<Rightarrow> nat option \<times> 'e"
  dbi_conn_set_option :: "nat \<Rightarrow> string \<Rightarrow> string \<Rightarrow> 'e \<Rightarrow> int \<times> 'e"
  dbi_conn_set_option_numeric :: "nat \<Rightarrow> string \<Rightarrow> int \<Rightarrow> 'e \<Rightarrow> int \<times> 'e"
  dbi_conn_connect :: "nat \<Rightarrow> 'e \<Rightarrow> int \<times> 'e"
  dbi_conn_ping :: "nat \<Rightarrow> 'e \<Rightarrow> int \<times> 'e"
  dbi_conn_close :: "nat \<Rightarrow> 'e \<Rightarrow> 'e"
  dbi_conn_error_flag :: "nat \<Rightarrow> 'e \<Rightarrow> int"
  dbi_conn_error :: "nat \<Rightarrow> 'e \<Rightarrow> int \<times> string"
  dbi_conn_quote_string_copy :: "nat \<Rightarrow> string \<Rightarrow> 'e \<Rightarrow> string option"
  dbi_conn_query :: "nat \<Rightarrow> string \<Rightarrow> 'e \<Rightarrow> nat option \<times> 'e"
  dbi_conn_sequence_last :: "nat \<Rightarrow> 'e \<Rightarrow> 64 word"
  dbi_result_free :: "nat \<Rightarrow> 'e \<Rightarrow> 'e"
  dbi_result_get_numfields :: "nat \<Rightarrow> 'e \<Rightarrow> nat"
  dbi_result_get_field_name :: "nat \<Rightarrow> nat \<Rightarrow> 'e \<Rightarrow> string option"
  dbi_result_get_field_type_idx :: "nat \<Rightarrow> nat \<Rightarrow> 'e \<Rightarrow> nat"
  dbi_result_get_numrows :: "nat \<Rightarrow> 'e \<Rightarrow> 64 word"
  dbi_result_next_row :: "nat \<Rightarrow> 'e \<Rightarrow> int \<times> 'e"
  dbi_result_get_string_idx :: "nat \<Rightarrow> nat \<Rightarrow> 'e \<Rightarrow> string option"
  dbi_result_get_int_idx :: "nat \<Rightarrow> nat \<Rightarrow> 'e \<Rightarrow> 32 word"
  dbi_result_get_long_idx :: "nat \<Rightarrow> nat \<Rightarrow> 'e \<Rightarrow> 64 word"
  dbi_result_get_ulonglong_idx :: "nat \<Rightarrow> nat \<Rightarrow> 'e \<Rightarrow> 64 word"
  DBI_TYPE_INTEGER :: nat
  DBI_TYPE_STRING :: nat

text \<open>
  \<open>std::set<dbi_conn>\<close> as the sorted list of its elements.
\<close>

record Database =
  db_used :: "nat list"
  db_free :: "nat list"
  db_params :: "(string, string) stdmap"
  db_spareconnections :: "32 word"
  db_max_cons :: "64 word"

text \<open>
  The state database code works on: the databases, by the identity of their shared pointer, and
  the library. Later theories extend the record.
\<close>

record 'e dbs =
  dbs_heap :: "nat \<Rightarrow> Database"
  dbs_eng :: 'e

definition Database_new :: "(string, string) stdmap \<Rightarrow> 32 word \<Rightarrow> Database" where
  "Database_new params spare =
     \<lparr>db_used = [], db_free = [], db_params = params, db_spareconnections = spare, db_max_cons = 0\<rparr>"

text \<open>The constructors with the parameters of a MySQL server; the spare count is not initialised.\<close>

definition Database_mysql ::
    "32 word \<Rightarrow> string \<Rightarrow> string \<Rightarrow> string \<Rightarrow> string \<Rightarrow> Database" where
  "Database_mysql junk h u p d =
     Database_new
       (smap_insert ''dbname'' d (smap_insert ''password'' p (smap_insert ''username'' u
         (smap_insert ''host'' h (smap_insert ''type'' ''mysql'' []))))) junk"

definition upd_db :: "nat \<Rightarrow> (Database \<Rightarrow> Database) \<Rightarrow> ('e, 'm) dbs_scheme \<Rightarrow> ('e, 'm) dbs_scheme" where
  "upd_db i f s = s\<lparr>dbs_heap := (dbs_heap s)(i := f (dbs_heap s i))\<rparr>"

definition upd_eng :: "('e \<Rightarrow> 'e) \<Rightarrow> ('e, 'm) dbs_scheme \<Rightarrow> ('e, 'm) dbs_scheme" where
  "upd_eng f s = s\<lparr>dbs_eng := f (dbs_eng s)\<rparr>"

section \<open>DBIError\<close>

definition getDBIError :: "'e libdbi \<Rightarrow> nat \<Rightarrow> 'e \<Rightarrow> int \<times> string" where
  "getDBIError lib con e =
     (if dbi_conn_error_flag lib con e = 0 then (0, [])
      else let (rc, str) = dbi_conn_error lib con e in if rc = - 1 then (0, []) else (rc, str))"

definition DBIError_of :: "int \<times> string \<Rightarrow> string \<Rightarrow> exn" where
  "DBIError_of dat str = DBIError (fst dat) (str @ '': '' @ snd dat)"

section \<open>isNumericOption\<close>

text \<open>
  The table is filled on the first call. The options of the two sqlite drivers are inserted into
  the local set \<open>mysql\<close> after it was copied into the map, so the map holds empty sets for them.
\<close>

definition numericOptions :: "(string, string list) stdmap" where
  "numericOptions =
     (let mysql = [''port'']; m1 = smap_insert ''mysql'' mysql [];
          sqlite = []; mysql' = mysql @ [''sqlite_timeout'']; m2 = smap_insert ''sqlite'' sqlite m1;
          sqlite3 = []; mysql'' = mysql' @ [''sqlite3_timeout'']
      in smap_insert ''sqlite3'' sqlite3 m2)"

definition isNumericOption :: "string \<Rightarrow> string \<Rightarrow> bool" where
  "isNumericOption type key =
     (case smap_find numericOptions type of Some opts \<Rightarrow> key \<in> set opts | None \<Rightarrow> False)"

section \<open>The pool\<close>

text \<open>The loop over the free connections: those that do not answer are closed.\<close>

fun grab_free :: "'e libdbi \<Rightarrow> nat list \<Rightarrow> 'e \<Rightarrow> nat option \<times> nat list \<times> 'e" where
  "grab_free lib [] e = (None, [], e)"
| "grab_free lib (con # free) e =
     (case dbi_conn_ping lib con e of
        (alive, e') \<Rightarrow> if alive = 0 then grab_free lib free (dbi_conn_close lib con e')
                      else (Some con, free, e'))"

text \<open>The options of a new connection, in the order of their names; the first failure ends the loop.\<close>

fun set_options :: "'e libdbi \<Rightarrow> nat \<Rightarrow> string \<Rightarrow> (string \<times> string) list \<Rightarrow> 'e \<Rightarrow> exn option \<times> 'e" where
  "set_options lib con type [] e = (None, e)"
| "set_options lib con type ((k, v) # ps) e =
     (if k = ''type'' then set_options lib con type ps e
      else case (if isNumericOption type k
                 then dbi_conn_set_option_numeric lib con k (StrmConvert_to_int v) e
                 else dbi_conn_set_option lib con k v e) of
        (rc, e') \<Rightarrow>
          if rc \<noteq> 0
          then (Some (DBIError_of (getDBIError lib con e') (''dbi_conn_set_option failed for key '' @ k)), e')
          else set_options lib con type ps e')"

definition grab_new :: "'e libdbi \<Rightarrow> nat \<Rightarrow> (('e, 'm) dbs_scheme, nat) prog" where
  "grab_new lib i s =
     (let s0 = upd_db i (\<lambda>d. d\<lparr>db_params := smap_insert ''type'' [] (db_params d)\<rparr>) s;
          params = db_params (dbs_heap s0 i);
          type = the (smap_find params ''type'')
      in case dbi_conn_new lib type (dbs_eng s0) of
           (None, e1) \<Rightarrow>
             (Inl (DatabaseException (''dbi_conn_new() failed, driver '' @ type)), s0\<lparr>dbs_eng := e1\<rparr>)
         | (Some con, e1) \<Rightarrow>
             (case set_options lib con type params e1 of
                (Some ex, e2) \<Rightarrow> (Inl ex, s0\<lparr>dbs_eng := e2\<rparr>)
              | (None, e2) \<Rightarrow>
                  (case dbi_conn_connect lib con e2 of
                     (rc, e3) \<Rightarrow>
                       if rc \<noteq> 0
                       then (Inl (DBIError_of (getDBIError lib con e3) ''dbi_conn_connect failed''),
                             s0\<lparr>dbs_eng := e3\<rparr>)
                       else (Inr con, upd_db i (\<lambda>d. d\<lparr>db_used := insort_insert con (db_used d)\<rparr>)
                                        (s0\<lparr>dbs_eng := e3\<rparr>)))))"

definition grabdb :: "'e libdbi \<Rightarrow> nat \<Rightarrow> (('e, 'm) dbs_scheme, nat) prog" where
  "grabdb lib i s =
     (if dbi_initialize lib < - 1
      then (if dbi_initialize lib = 0 then (Inl (RuntimeError ''no DBI drivers found''), s)
            else (Inl (RuntimeError ''failed to initialize DBI''), s))
      else case grab_free lib (db_free (dbs_heap s i)) (dbs_eng s) of
        (c, free, e) \<Rightarrow>
          let s' = (upd_db i (\<lambda>d. d\<lparr>db_free := free\<rparr>) s)\<lparr>dbs_eng := e\<rparr>
          in case c of
               Some con \<Rightarrow> (Inr con, upd_db i (\<lambda>d. d\<lparr>db_used := insort_insert con (db_used d)\<rparr>) s')
             | None \<Rightarrow> grab_new lib i s')"

definition freedb :: "'e libdbi \<Rightarrow> nat \<Rightarrow> nat \<Rightarrow> (('e, 'm) dbs_scheme, unit) prog" where
  "freedb lib i con s =
     (let d = dbs_heap s i in
      if con \<notin> set (db_used d)
      then (Inl (LogicError ''Freeing a db connection that isn't in use''), s)
      else let s' = (if length (db_free d) > unat (db_spareconnections d)
                     then upd_eng (dbi_conn_close lib con) s
                     else upd_db i (\<lambda>d. d\<lparr>db_free := insort_insert con (db_free d)\<rparr>) s)
           in (Inr (), upd_db i (\<lambda>d. d\<lparr>db_used := removeAll con (db_used d)\<rparr>) s'))"

definition Connected :: "'e libdbi \<Rightarrow> nat \<Rightarrow> (('e, 'm) dbs_scheme, bool) prog" where
  "Connected lib i =
     bindE (grabdb lib i) (\<lambda>con.
     bindE (\<lambda>s. case dbi_conn_ping lib con (dbs_eng s) of (p, e) \<Rightarrow> (Inr p, s\<lparr>dbs_eng := e\<rparr>)) (\<lambda>ping_result.
     bindE (freedb lib i con) (\<lambda>_.
     ret (ping_result = 1))))"

text \<open>The destructor closes what is free, then what is still in use.\<close>

definition Database_destroy :: "'e libdbi \<Rightarrow> nat \<Rightarrow> ('e, 'm) dbs_scheme \<Rightarrow> ('e, 'm) dbs_scheme" where
  "Database_destroy lib i s =
     upd_eng (\<lambda>e. fold (dbi_conn_close lib) (db_used (dbs_heap s i))
                    (fold (dbi_conn_close lib) (db_free (dbs_heap s i)) e)) s"

section \<open>Strings and numbers\<close>

fun safestr :: "string \<Rightarrow> string" where
  "safestr [] = []"
| "safestr (c # cs) =
     (if c = CHR 0x27 \<or> c = CHR 0x5C \<or> c = CHR 0x22 then CHR 0x5C # c # safestr cs
      else c # safestr cs)"

fun unsafestr :: "string \<Rightarrow> string" where
  "unsafestr [] = []"
| "unsafestr [c] = (if c = CHR 0x5C then [] else [c])"
| "unsafestr (c # d # cs) = (if c = CHR 0x5C then d # unsafestr cs else c # unsafestr (d # cs))"

fun xmlsafe_char :: "char \<Rightarrow> string" where
  "xmlsafe_char c =
     (if c = CHR ''&'' then ''&amp;''
      else if c = CHR ''<'' then ''&lt;''
      else if c = CHR ''>'' then ''&gt;''
      else if c = CHR 0x22 then ''&quot;''
      else if c = CHR 0x27 then ''&apos;''
      else [c])"

definition xmlsafestr :: "string \<Rightarrow> string" where
  "xmlsafestr str = concat (map xmlsafe_char str)"

text \<open>
  \<open>a2bigint\<close> and \<open>a2ubigint\<close> at 64 bits: no check for digits, and the sum wraps. (Signed
  overflow is undefined in C++; two's complement wrap-around stands for it here.)
\<close>

fun a2_loop :: "64 word \<Rightarrow> string \<Rightarrow> 64 word" where
  "a2_loop val [] = val"
| "a2_loop val (c # cs) = a2_loop (val * 10 + of_int (schar c - 48)) cs"

definition a2ubigint :: "string \<Rightarrow> 64 word" where
  "a2ubigint str = a2_loop 0 str"

definition a2bigint :: "string \<Rightarrow> 64 word" where
  "a2bigint str =
     (case str of
        c # cs \<Rightarrow> if c = CHR ''-'' then - a2_loop 0 cs else a2_loop 0 str
      | [] \<Rightarrow> 0)"

section \<open>The pool as a provider of connections\<close>

text \<open>
  What a user of a pool relies on: a resource it gets is not held by anybody else, and giving it
  back always works. \<open>held s i\<close> are the resources handed out by pool \<open>i\<close>.
\<close>

locale resource_pool =
  fixes acquire :: "'l \<Rightarrow> nat \<Rightarrow> ('s, nat) prog"
    and release :: "'l \<Rightarrow> nat \<Rightarrow> nat \<Rightarrow> ('s, unit) prog"
    and held :: "'s \<Rightarrow> nat \<Rightarrow> nat set"
    and ok :: "'l \<Rightarrow> 's \<Rightarrow> bool"
  assumes acquire_ok: "ok l s \<Longrightarrow> acquire l i s = (Inr c, s') \<Longrightarrow>
      ok l s' \<and> c \<notin> held s i \<and> held s' = (held s)(i := insert c (held s i))"
    and acquire_fail: "ok l s \<Longrightarrow> acquire l i s = (Inl e, s') \<Longrightarrow> ok l s' \<and> held s' = held s"
    and release_ok: "ok l s \<Longrightarrow> c \<in> held s i \<Longrightarrow>
      \<exists>s'. release l i c s = (Inr (), s') \<and> ok l s' \<and> held s' = (held s)(i := held s i - {c})"
begin

text \<open>A scope that holds one resource: acquired, used, released on every way out.\<close>

definition scoped :: "'l \<Rightarrow> nat \<Rightarrow> (nat \<Rightarrow> ('s, 'a) prog) \<Rightarrow> ('s, 'a) prog" where
  "scoped l i body s =
     (case acquire l i s of
        (Inl e, s1) \<Rightarrow> (Inl e, s1)
      | (Inr c, s1) \<Rightarrow>
          (case body c s1 of
             (r, s2) \<Rightarrow> (case release l i c s2 of (Inl e, s3) \<Rightarrow> (Inl e, s3) | (Inr _, s3) \<Rightarrow> (r, s3))))"

lemma scoped_balanced:
  assumes "ok l s" and body: "\<And>c t. ok l t \<Longrightarrow> ok l (snd (body c t)) \<and> held (snd (body c t)) = held t"
  shows "ok l (snd (scoped l i body s)) \<and> held (snd (scoped l i body s)) = held s"
proof (cases "acquire l i s")
  case (Pair r s1)
  show ?thesis
  proof (cases r)
    case (Inl e)
    with Pair acquire_fail [OF assms(1), of i e s1] show ?thesis by (simp add: scoped_def)
  next
    case (Inr c)
    with Pair acquire_ok [OF assms(1), of i c s1]
    have s1: "ok l s1" "c \<notin> held s i" "held s1 = (held s)(i := insert c (held s i))" by auto
    obtain r2 s2 where b: "body c s1 = (r2, s2)" by fastforce
    with body [OF s1(1), of c] have s2: "ok l s2" "held s2 = held s1" by auto
    then have "c \<in> held s2 i" using s1 by simp
    from release_ok [OF s2(1) this] obtain s3 where
      "release l i c s2 = (Inr (), s3)" "ok l s3" "held s3 = (held s2)(i := held s2 i - {c})" by blast
    with Pair Inr b s1 s2 show ?thesis by (simp add: scoped_def fun_eq_iff)
  qed
qed

end

subsection \<open>What libdbi promises of its handles\<close>

text \<open>
  \<open>live e\<close> are the connections that exist. A new connection is a new handle; closing a
  connection ends it and no other; nothing else creates or ends connections.
\<close>

definition dbi_handles :: "'e libdbi \<Rightarrow> ('e \<Rightarrow> nat set) \<Rightarrow> bool" where
  "dbi_handles lib live \<longleftrightarrow>
     (\<forall>t e. case dbi_conn_new lib t e of
              (None, e') \<Rightarrow> live e' = live e
            | (Some c, e') \<Rightarrow> c \<notin> live e \<and> live e' = insert c (live e)) \<and>
     (\<forall>c e. live (dbi_conn_close lib c e) = live e - {c}) \<and>
     (\<forall>c k v e. live (snd (dbi_conn_set_option lib c k v e)) = live e) \<and>
     (\<forall>c k v e. live (snd (dbi_conn_set_option_numeric lib c k v e)) = live e) \<and>
     (\<forall>c e. live (snd (dbi_conn_connect lib c e)) = live e) \<and>
     (\<forall>c e. live (snd (dbi_conn_ping lib c e)) = live e) \<and>
     (\<forall>c q e. live (snd (dbi_conn_query lib c q e)) = live e) \<and>
     (\<forall>r e. live (dbi_result_free lib r e) = live e) \<and>
     (\<forall>r e. live (snd (dbi_result_next_row lib r e)) = live e)"

text \<open>
  The pools: no connection is in two places, all exist, and a pool keeps at most one more free
  connection than its spare count.
\<close>

definition db_conns :: "Database \<Rightarrow> nat set" where
  "db_conns d = set (db_used d) \<union> set (db_free d)"

definition pool_inv :: "('e \<Rightarrow> nat set) \<Rightarrow> ('e, 'm) dbs_scheme \<Rightarrow> bool" where
  "pool_inv live s \<longleftrightarrow>
     (\<forall>i. distinct (db_used (dbs_heap s i)) \<and> distinct (db_free (dbs_heap s i)) \<and>
          set (db_used (dbs_heap s i)) \<inter> set (db_free (dbs_heap s i)) = {} \<and>
          db_conns (dbs_heap s i) \<subseteq> live (dbs_eng s) \<and>
          length (db_free (dbs_heap s i)) \<le> Suc (unat (db_spareconnections (dbs_heap s i)))) \<and>
     (\<forall>i j. i \<noteq> j \<longrightarrow> db_conns (dbs_heap s i) \<inter> db_conns (dbs_heap s j) = {})"

definition db_held :: "('e, 'm) dbs_scheme \<Rightarrow> nat \<Rightarrow> nat set" where
  "db_held s i = set (db_used (dbs_heap s i))"

lemma upd_db_simps [simp]:
  "dbs_heap (upd_db i f s) = (dbs_heap s)(i := f (dbs_heap s i))" "dbs_eng (upd_db i f s) = dbs_eng s"
  "dbs_heap (upd_eng g s) = dbs_heap s" "dbs_eng (upd_eng g s) = g (dbs_eng s)"
  by (simp_all add: upd_db_def upd_eng_def)

text \<open>A state whose databases hold the same connections and whose library lost no handle.\<close>

lemma pool_inv_same:
  assumes "pool_inv live s" and "live (dbs_eng s) \<subseteq> live (dbs_eng s')"
    and "\<And>i. db_used (dbs_heap s' i) = db_used (dbs_heap s i) \<and> db_free (dbs_heap s' i) = db_free (dbs_heap s i)
           \<and> db_spareconnections (dbs_heap s' i) = db_spareconnections (dbs_heap s i)"
  shows "pool_inv live s'" and "db_held s' = db_held s"
proof -
  have conns: "db_conns (dbs_heap s' i) = db_conns (dbs_heap s i)" for i
    using assms(3) by (simp add: db_conns_def)
  have "db_conns (dbs_heap s i) \<subseteq> live (dbs_eng s')" for i
    using assms(1,2) unfolding pool_inv_def by blast
  then show "pool_inv live s'"
    using assms(1,3) unfolding pool_inv_def conns by simp
  show "db_held s' = db_held s"
    using assms(3) by (simp add: db_held_def fun_eq_iff)
qed

text \<open>One database changes: what has to be shown of it.\<close>

lemma pool_inv_upd:
  assumes "pool_inv live s" and "dbs_heap s' = (dbs_heap s)(i := d)"
    and "distinct (db_used d)" "distinct (db_free d)" "set (db_used d) \<inter> set (db_free d) = {}"
    and "length (db_free d) \<le> Suc (unat (db_spareconnections d))"
    and "db_conns d \<subseteq> live (dbs_eng s')"
    and "\<And>j. j \<noteq> i \<Longrightarrow> db_conns (dbs_heap s j) \<subseteq> live (dbs_eng s')"
    and "\<And>j. j \<noteq> i \<Longrightarrow> db_conns d \<inter> db_conns (dbs_heap s j) = {}"
  shows "pool_inv live s'"
  using assms unfolding pool_inv_def by (auto simp: disjoint_iff)

lemma grab_free_spec:
  assumes "dbi_handles lib live" and "grab_free lib free e = (c, free', e')"
  shows "\<exists>dead. free = dead @ (case c of None \<Rightarrow> [] | Some x \<Rightarrow> x # free') \<and>
           (c = None \<longrightarrow> free' = []) \<and> live e' = live e - set dead"
  using assms(2)
proof (induction free arbitrary: e)
  case (Cons con free)
  obtain alive e1 where ping: "dbi_conn_ping lib con e = (alive, e1)" by fastforce
  have live: "live e1 = live e" "live (dbi_conn_close lib con e1) = live e1 - {con}"
    using assms(1) ping by (auto simp: dbi_handles_def) (metis snd_conv)+
  show ?case
  proof (cases "alive = 0")
    case True
    with Cons.prems ping have "grab_free lib free (dbi_conn_close lib con e1) = (c, free', e')" by simp
    from Cons.IH [OF this] obtain dead where
      "free = dead @ (case c of None \<Rightarrow> [] | Some x \<Rightarrow> x # free')" "c = None \<longrightarrow> free' = []"
      "live e' = live (dbi_conn_close lib con e1) - set dead" by blast
    with live show ?thesis by (intro exI [of _ "con # dead"]) auto
  next
    case False
    with Cons.prems ping live show ?thesis by (intro exI [of _ "[]"]) auto
  qed
qed simp

lemma set_options_live:
  assumes "dbi_handles lib live"
  shows "live (snd (set_options lib con type ps e)) = live e"
proof (induction ps arbitrary: e)
  case (Cons p ps)
  obtain k v where p: "p = (k, v)" by fastforce
  have "live (snd (if isNumericOption type k
        then dbi_conn_set_option_numeric lib con k (StrmConvert_to_int v) e
        else dbi_conn_set_option lib con k v e)) = live e"
    using assms by (simp add: dbi_handles_def)
  with Cons.IH show ?case
    by (auto simp: p split: prod.splits)
qed simp

text \<open>\<open>grab_new\<close> either changes no pool or puts a new handle into use.\<close>

lemma grab_new_spec:
  assumes h: "dbi_handles lib live" and inv: "pool_inv live s" and run: "grab_new lib i s = (r, s')"
  shows "pool_inv live s'"
    and "case r of Inl e \<Rightarrow> db_held s' = db_held s
         | Inr c \<Rightarrow> c \<notin> db_held s i \<and> db_held s' = (db_held s)(i := insert c (db_held s i))"
proof -
  define s0 where "s0 = upd_db i (\<lambda>d. d\<lparr>db_params := smap_insert ''type'' [] (db_params d)\<rparr>) s"
  define params where "params = db_params (dbs_heap s0 i)"
  define type where "type = the (smap_find params ''type'')"
  obtain c e1 where new: "dbi_conn_new lib type (dbs_eng s0) = (c, e1)" by fastforce
  have s0: "pool_inv live s0" "db_held s0 = db_held s"
    by (rule pool_inv_same [OF inv]; simp add: s0_def)+
  have eng: "dbs_eng s0 = dbs_eng s" by (simp add: s0_def)
  have fail: "pool_inv live (s0\<lparr>dbs_eng := e\<rparr>) \<and> db_held (s0\<lparr>dbs_eng := e\<rparr>) = db_held s"
    if "live (dbs_eng s0) \<subseteq> live e" for e
    using pool_inv_same [OF s0(1), of "s0\<lparr>dbs_eng := e\<rparr>"] s0(2) that by simp
  have "pool_inv live s' \<and> (case r of Inl e \<Rightarrow> db_held s' = db_held s
         | Inr c \<Rightarrow> c \<notin> db_held s i \<and> db_held s' = (db_held s)(i := insert c (db_held s i)))"
  proof (cases c)
    case None
    then have "live e1 = live (dbs_eng s0)"
      using h new unfolding dbi_handles_def by (metis (mono_tags, lifting) case_prod_conv option.case(1))
    with None new run fail [of e1] show ?thesis
      by (auto simp: grab_new_def s0_def [symmetric] params_def [symmetric] type_def [symmetric] Let_def)
  next
    case (Some con)
    then have e1: "con \<notin> live (dbs_eng s0)" "live e1 = insert con (live (dbs_eng s0))"
      using h new unfolding dbi_handles_def by (metis (mono_tags, lifting) case_prod_conv option.case(2))+
    obtain x e2 where opt: "set_options lib con type params e1 = (x, e2)" by fastforce
    have e2: "live e2 = live e1" using set_options_live [OF h, of con type params e1] opt by simp
    obtain rc e3 where conn: "dbi_conn_connect lib con e2 = (rc, e3)" by fastforce
    then have e3: "live e3 = live e2" using h by (metis dbi_handles_def snd_conv)
    define s1 where "s1 = upd_db i (\<lambda>d. d\<lparr>db_used := insort_insert con (db_used d)\<rparr>) (s0\<lparr>dbs_eng := e3\<rparr>)"
    have fresh: "con \<notin> db_conns (dbs_heap s0 j)" for j
      using s0(1) e1(1) by (auto simp: pool_inv_def)
    have "pool_inv live s1"
    proof (rule pool_inv_upd [OF s0(1)])
      show "dbs_heap s1 = (dbs_heap s0)(i := (dbs_heap s0 i)\<lparr>db_used := insort_insert con (db_used (dbs_heap s0 i))\<rparr>)"
        by (simp add: s1_def)
    qed (use s0(1) fresh e1 e2 e3 in \<open>auto simp: pool_inv_def s1_def db_conns_def set_insort_insert
          distinct_insort_insert disjoint_iff\<close>)
    moreover have "con \<notin> db_held s i" "db_held s1 = (db_held s)(i := insert con (db_held s i))"
      using fresh [of i] s0(2) [symmetric]
      by (auto simp: s1_def db_held_def db_conns_def set_insort_insert fun_eq_iff)
    moreover have "pool_inv live (s0\<lparr>dbs_eng := e2\<rparr>) \<and> db_held (s0\<lparr>dbs_eng := e2\<rparr>) = db_held s"
      "pool_inv live (s0\<lparr>dbs_eng := e3\<rparr>) \<and> db_held (s0\<lparr>dbs_eng := e3\<rparr>) = db_held s"
      by (rule fail; use e1 e2 e3 in auto)+
    ultimately show ?thesis
      using run new Some opt conn
      by (cases x; cases "rc = 0")
        (auto simp: grab_new_def s0_def [symmetric] params_def [symmetric] type_def [symmetric]
          s1_def [symmetric] Let_def)
  qed
  then show "pool_inv live s'" and "case r of Inl e \<Rightarrow> db_held s' = db_held s
         | Inr c \<Rightarrow> c \<notin> db_held s i \<and> db_held s' = (db_held s)(i := insert c (db_held s i))" by simp_all
qed

lemma grabdb_spec:
  assumes h: "dbi_handles lib live" and inv: "pool_inv live s" and run: "grabdb lib i s = (r, s')"
  shows "pool_inv live s' \<and> (case r of Inl e \<Rightarrow> db_held s' = db_held s
         | Inr c \<Rightarrow> c \<notin> db_held s i \<and> db_held s' = (db_held s)(i := insert c (db_held s i)))"
proof (cases "dbi_initialize lib < - 1")
  case True
  with run inv show ?thesis by (auto simp: grabdb_def)
next
  case False
  obtain c free e where grab: "grab_free lib (db_free (dbs_heap s i)) (dbs_eng s) = (c, free, e)"
    by (metis prod_cases3)
  define s1 where "s1 = (upd_db i (\<lambda>d. d\<lparr>db_free := free\<rparr>) s)\<lparr>dbs_eng := e\<rparr>"
  obtain dead where dead: "db_free (dbs_heap s i) = dead @ (case c of None \<Rightarrow> [] | Some x \<Rightarrow> x # free)"
    "c = None \<longrightarrow> free = []" "live e = live (dbs_eng s) - set dead"
    using grab_free_spec [OF h grab] by blast
  have old: "distinct (db_free (dbs_heap s i))" "distinct (db_used (dbs_heap s i))"
    "set (db_used (dbs_heap s i)) \<inter> set (db_free (dbs_heap s i)) = {}"
    "db_conns (dbs_heap s i) \<subseteq> live (dbs_eng s)"
    "length (db_free (dbs_heap s i)) \<le> Suc (unat (db_spareconnections (dbs_heap s i)))"
    using inv by (auto simp: pool_inv_def)
  have other: "db_conns (dbs_heap s j) \<subseteq> live e" "db_conns (dbs_heap s i) \<inter> db_conns (dbs_heap s j) = {}"
    if "j \<noteq> i" for j
  proof -
    show disj: "db_conns (dbs_heap s i) \<inter> db_conns (dbs_heap s j) = {}"
      using inv that by (simp add: pool_inv_def)
    have "set dead \<subseteq> db_conns (dbs_heap s i)" using dead(1) by (auto simp: db_conns_def)
    moreover have "db_conns (dbs_heap s j) \<subseteq> live (dbs_eng s)" using inv by (simp add: pool_inv_def)
    ultimately show "db_conns (dbs_heap s j) \<subseteq> live e" using dead(3) disj by blast
  qed
  let ?d = "dbs_heap s i"
  have sub: "set free \<subseteq> set (db_free ?d)" "distinct free" "length free \<le> length (db_free ?d)"
    "set dead \<inter> set free = {}" "set dead \<subseteq> set (db_free ?d)"
    using old(1) dead(1,2) by (auto split: option.splits)
  have conns: "db_conns (?d\<lparr>db_free := free\<rparr>) \<subseteq> live e" "db_conns (?d\<lparr>db_free := free\<rparr>) \<subseteq> db_conns ?d"
    using sub old(3,4) dead(3) unfolding db_conns_def by auto
  have s1: "pool_inv live s1"
  proof (rule pool_inv_upd [OF inv])
    show "dbs_heap s1 = (dbs_heap s)(i := ?d\<lparr>db_free := free\<rparr>)" by (simp add: s1_def)
    show "db_conns (?d\<lparr>db_free := free\<rparr>) \<inter> db_conns (dbs_heap s j) = {}" if "j \<noteq> i" for j
      using conns(2) other(2) [OF that] by blast
    show "set (db_used (?d\<lparr>db_free := free\<rparr>)) \<inter> set (db_free (?d\<lparr>db_free := free\<rparr>)) = {}"
      using sub(1) old(3) by auto
  qed (use old sub conns(1) other(1) in \<open>simp_all add: s1_def\<close>)
  have held1: "db_held s1 = db_held s" by (simp add: s1_def db_held_def fun_eq_iff)
  have new: ?thesis if "c = None"
  proof -
    have "grab_new lib i s1 = (r, s')"
      using that run False grab by (simp add: grabdb_def s1_def [symmetric] Let_def)
    from grab_new_spec [OF h s1 this] show ?thesis unfolding held1 by simp
  qed
  have ?thesis if c: "c = Some con" for con
  proof -
    have con: "con \<in> set (db_free ?d)" "con \<notin> set free" "con \<notin> set dead" "con \<notin> set (db_used ?d)"
      using old(1,3) dead(1) c by auto
    define d2 where "d2 = ?d\<lparr>db_free := free, db_used := insort_insert con (db_used ?d)\<rparr>"
    define s2 where "s2 = upd_db i (\<lambda>d. d\<lparr>db_used := insort_insert con (db_used d)\<rparr>) s1"
    have eng: "dbs_eng s2 = e" by (simp add: s1_def s2_def)
    have conns2: "db_conns d2 = insert con (db_conns (?d\<lparr>db_free := free\<rparr>))"
      by (auto simp: d2_def db_conns_def set_insort_insert)
    have "con \<in> db_conns ?d" "con \<in> live e"
      using con old(4) dead(3) by (auto simp: db_conns_def)
    note this [simp]
    have "pool_inv live s2"
    proof (rule pool_inv_upd [OF inv])
      show "dbs_heap s2 = (dbs_heap s)(i := d2)" by (simp add: s2_def s1_def d2_def)
      show "db_conns d2 \<inter> db_conns (dbs_heap s j) = {}" if "j \<noteq> i" for j
        unfolding conns2 using conns(2) other(2) [OF that] \<open>con \<in> db_conns ?d\<close> by blast
      show "db_conns d2 \<subseteq> live (dbs_eng s2)" using conns(1) by (simp add: conns2 eng)
      show "set (db_used d2) \<inter> set (db_free d2) = {}"
        using con(2) sub(1) old(3) by (auto simp: d2_def set_insort_insert)
    qed (use old sub other(1) in \<open>simp_all add: d2_def eng distinct_insort_insert\<close>)
    moreover have "con \<notin> db_held s i" "db_held s2 = (db_held s)(i := insert con (db_held s i))"
      using con(4) by (simp_all add: s2_def s1_def db_held_def set_insort_insert fun_eq_iff)
    moreover have "r = Inr con" "s' = s2"
      using run False grab c by (simp_all add: grabdb_def s1_def [symmetric] s2_def [symmetric] Let_def)
    ultimately show ?thesis by simp
  qed
  with new show ?thesis by (cases c) auto
qed

lemma freedb_spec:
  assumes h: "dbi_handles lib live" and inv: "pool_inv live s" and held: "con \<in> db_held s i"
  shows "\<exists>s'. freedb lib i con s = (Inr (), s') \<and> pool_inv live s' \<and>
           db_held s' = (db_held s)(i := db_held s i - {con})"
proof -
  let ?d = "dbs_heap s i"
  define full where "full \<longleftrightarrow> length (db_free ?d) > unat (db_spareconnections ?d)"
  define s1 where "s1 = (if full then upd_eng (dbi_conn_close lib con) s
      else upd_db i (\<lambda>d. d\<lparr>db_free := insort_insert con (db_free d)\<rparr>) s)"
  define s2 where "s2 = upd_db i (\<lambda>d. d\<lparr>db_used := removeAll con (db_used d)\<rparr>) s1"
  have close: "live (dbi_conn_close lib con (dbs_eng s)) = live (dbs_eng s) - {con}"
    using h by (simp add: dbi_handles_def)
  have mem: "con \<in> set (db_used ?d)" using held by (simp add: db_held_def)
  have old: "distinct (db_free ?d)" "distinct (db_used ?d)" "set (db_used ?d) \<inter> set (db_free ?d) = {}"
    "db_conns ?d \<subseteq> live (dbs_eng s)" "length (db_free ?d) \<le> Suc (unat (db_spareconnections ?d))"
    using inv by (auto simp: pool_inv_def)
  have other: "db_conns (dbs_heap s j) \<subseteq> live (dbs_eng s) - {con}" "db_conns ?d \<inter> db_conns (dbs_heap s j) = {}"
    if "j \<noteq> i" for j
  proof -
    show "db_conns ?d \<inter> db_conns (dbs_heap s j) = {}" using inv that by (simp add: pool_inv_def)
    moreover have "con \<in> db_conns ?d" using mem by (simp add: db_conns_def)
    moreover have "db_conns (dbs_heap s j) \<subseteq> live (dbs_eng s)" using inv by (simp add: pool_inv_def)
    ultimately show "db_conns (dbs_heap s j) \<subseteq> live (dbs_eng s) - {con}" by blast
  qed
  have run: "freedb lib i con s = (Inr (), s2)"
    using mem by (simp add: freedb_def s1_def s2_def full_def Let_def)
  have heap: "dbs_heap s2 = (dbs_heap s)(i := ?d\<lparr>db_used := removeAll con (db_used ?d),
      db_free := (if full then db_free ?d else insort_insert con (db_free ?d))\<rparr>)"
    by (simp add: s1_def s2_def fun_eq_iff)
  have eng: "live (dbs_eng s2) = live (dbs_eng s) - (if full then {con} else {})"
    using close by (simp add: s1_def s2_def)
  have "pool_inv live s2"
  proof (rule pool_inv_upd [OF inv heap])
    show "length (db_free (?d\<lparr>db_used := removeAll con (db_used ?d),
        db_free := (if full then db_free ?d else insort_insert con (db_free ?d))\<rparr>)) \<le>
      Suc (unat (db_spareconnections (?d\<lparr>db_used := removeAll con (db_used ?d),
        db_free := (if full then db_free ?d else insort_insert con (db_free ?d))\<rparr>)))"
      using old(5) mem old(3) by (auto simp: full_def insort_insert_key_def)
  qed (use old other mem eng in \<open>auto simp: db_conns_def disjoint_iff set_insort_insert
      distinct_insort_insert distinct_removeAll split: if_splits\<close>)
  moreover have "db_held s2 = (db_held s)(i := db_held s i - {con})"
    by (auto simp: db_held_def heap fun_eq_iff)
  ultimately show ?thesis using run by blast
qed

interpretation db_pool: resource_pool "\<lambda>(lib, live). grabdb lib" "\<lambda>(lib, live). freedb lib"
    db_held "\<lambda>(lib, live) s. dbi_handles lib live \<and> pool_inv live s"
proof (unfold_locales, goal_cases)
  case (1 l s i c s')
  then show ?case using grabdb_spec [of "fst l" "snd l" s i "Inr c" s'] by (simp add: split_beta)
next
  case (2 l s i e s')
  then show ?case using grabdb_spec [of "fst l" "snd l" s i "Inl e" s'] by (simp add: split_beta)
next
  case (3 l s c i)
  then show ?case using freedb_spec [of "fst l" "snd l" s c i] by (simp add: split_beta)
qed

section \<open>Properties\<close>

text \<open>A library without servers: its state is the list of the open connections, and all answer.\<close>

definition pool_dbi :: "nat list libdbi" where
  "pool_dbi =
     \<lparr>dbi_initialize = 1,
      dbi_conn_new = (\<lambda>t e. let c = Suc (fold max e 0) in (Some c, c # e)),
      dbi_conn_set_option = (\<lambda>c k v e. (0, e)),
      dbi_conn_set_option_numeric = (\<lambda>c k v e. (0, e)),
      dbi_conn_connect = (\<lambda>c e. (0, e)),
      dbi_conn_ping = (\<lambda>c e. (1, e)),
      dbi_conn_close = (\<lambda>c e. removeAll c e),
      dbi_conn_error_flag = (\<lambda>c e. 0),
      dbi_conn_error = (\<lambda>c e. (0, [])),
      dbi_conn_quote_string_copy = (\<lambda>c s e. Some s),
      dbi_conn_query = (\<lambda>c q e. (Some 0, e)),
      dbi_conn_sequence_last = (\<lambda>c e. 0),
      dbi_result_free = (\<lambda>r e. e),
      dbi_result_get_numfields = (\<lambda>r e. 0),
      dbi_result_get_field_name = (\<lambda>r i e. None),
      dbi_result_get_field_type_idx = (\<lambda>r i e. 0),
      dbi_result_get_numrows = (\<lambda>r e. 0),
      dbi_result_next_row = (\<lambda>r e. (0, e)),
      dbi_result_get_string_idx = (\<lambda>r i e. None),
      dbi_result_get_int_idx = (\<lambda>r i e. 0),
      dbi_result_get_long_idx = (\<lambda>r i e. 0),
      dbi_result_get_ulonglong_idx = (\<lambda>r i e. 0),
      DBI_TYPE_INTEGER = 1,
      DBI_TYPE_STRING = 3\<rparr>"

lemma pool_dbi_handles: "dbi_handles pool_dbi set"
proof -
  have "Suc (fold max e 0) \<notin> set e" for e :: "nat list"
    using fold_max_ge [of "Suc (fold max e 0)" e 0] by auto
  then show ?thesis by (simp add: dbi_handles_def pool_dbi_def Let_def)
qed

definition sample_pool :: "nat list dbs" where
  "sample_pool = \<lparr>dbs_heap = (\<lambda>i. (Database_new [(''type'', ''mysql'')] 10)\<lparr>db_free := (if i = 0 then [4] else [])\<rparr>),
                  dbs_eng = [4]\<rparr>"

lemma sample_pool_inv: "pool_inv set sample_pool"
  by (auto simp: pool_inv_def sample_pool_def Database_new_def db_conns_def)

text \<open>
  A connection that was allocated but cannot be set up or opened is not closed: after each failed attempt the library
  has one more open handle that is in no pool.
\<close>

lemma grabdb_failed_connect_leaks:
  "let lib = pool_dbi\<lparr>dbi_conn_connect := (\<lambda>c e. (- 1, e))\<rparr>;
       s = \<lparr>dbs_heap = (\<lambda>i. Database_new [(''type'', ''mysql'')] 10), dbs_eng = []\<rparr>;
       s2 = snd (grabdb lib 0 (snd (grabdb lib 0 s)))
   in isl (fst (grabdb lib 0 s)) \<and> isl (fst (grabdb lib 0 (snd (grabdb lib 0 s)))) \<and>
      dbs_eng s2 = [2, 1] \<and> db_used (dbs_heap s2 0) = [] \<and> db_free (dbs_heap s2 0) = []"
  by code_simp

lemma Connected_scoped:
  assumes "dbi_handles lib live" and "pool_inv live s"
  shows "pool_inv live (snd (Connected lib i s)) \<and> db_held (snd (Connected lib i s)) = db_held s"
proof -
  define ping where "ping con s =
      (case dbi_conn_ping lib con (dbs_eng s) of (p, e) \<Rightarrow> (Inr p :: exn + int, s\<lparr>dbs_eng := e\<rparr>))"
    for con and s :: "('a, 'b) dbs_scheme"
  have keep: "pool_inv live (snd (ping c t)) \<and> db_held (snd (ping c t)) = db_held t" if "pool_inv live t" for c t
    using pool_inv_same [OF that, of "snd (ping c t)"] assms(1)
    by (auto simp: ping_def dbi_handles_def split: prod.splits) (metis order_refl snd_conv)+
  have "Connected lib i s = (case db_pool.scoped (lib, live) i ping s of
      (Inl e, t) \<Rightarrow> (Inl e, t) | (Inr p, t) \<Rightarrow> (Inr (p = 1), t))"
    by (auto simp: Connected_def db_pool.scoped_def bindE_def ping_def split: prod.splits sum.splits)
  moreover have "pool_inv live (snd (db_pool.scoped (lib, live) i ping s)) \<and>
      db_held (snd (db_pool.scoped (lib, live) i ping s)) = db_held s"
    using db_pool.scoped_balanced [of "(lib, live)" s ping i] assms keep by simp
  ultimately show ?thesis by (simp split: prod.splits sum.splits)
qed

text \<open>
  C15 (invariant). Taking a connection from a pool and giving it back keep every pool in order:
  no connection is in use twice or both free and in use, and a pool never keeps more than one
  free connection above its spare count. A connection handed out was in nobody's use; giving it
  back always succeeds and takes it, and only it, out of use.
\<close>

theorem pool_operations_safe:
  assumes "dbi_handles lib live" and "pool_inv live s"
  shows "(case grabdb lib i s of
            (Inl e, s') \<Rightarrow> pool_inv live s' \<and> db_held s' = db_held s
          | (Inr con, s') \<Rightarrow>
              pool_inv live s' \<and> con \<notin> db_held s i \<and> db_held s' i = insert con (db_held s i) \<and>
              (\<exists>s''. freedb lib i con s' = (Inr (), s'') \<and> pool_inv live s'' \<and> db_held s'' = db_held s))"
proof (cases "grabdb lib i s")
  case (Pair r s')
  note spec = grabdb_spec [OF assms Pair]
  show ?thesis
  proof (cases r)
    case (Inr con)
    with spec have s': "pool_inv live s'" "con \<notin> db_held s i" "db_held s' = (db_held s)(i := insert con (db_held s i))"
      by simp_all
    then obtain s'' where "freedb lib i con s' = (Inr (), s'')" "pool_inv live s''"
      "db_held s'' = (db_held s')(i := db_held s' i - {con})"
      using freedb_spec [OF assms(1) s'(1), of con i] by auto
    with s' Pair Inr show ?thesis by (auto simp: fun_eq_iff)
  qed (use spec Pair in simp)
qed

theorem pool_operations_safe_witness:
  "fst (grabdb pool_dbi 0 sample_pool) = Inr 4 \<and>
   (\<exists>s''. freedb pool_dbi 0 4 (snd (grabdb pool_dbi 0 sample_pool)) = (Inr (), s'') \<and> db_held s'' = db_held sample_pool)"
proof -
  have "fst (grabdb pool_dbi 0 sample_pool) = Inr 4"
    by (simp add: grabdb_def pool_dbi_def sample_pool_def Database_new_def Let_def)
  moreover from this obtain s' where s': "grabdb pool_dbi 0 sample_pool = (Inr 4, s')"
    by (metis prod.collapse)
  ultimately show ?thesis
    using pool_operations_safe [OF pool_dbi_handles sample_pool_inv, of 0] by auto
qed

text \<open>
  Unescaping gives back the string that was escaped.\<close>

theorem unsafestr_safestr: "unsafestr (safestr str) = str"
proof (induction str)
  case (Cons c cs)
  show ?case
  proof (cases "c = CHR 0x27 \<or> c = CHR 0x5C \<or> c = CHR 0x22")
    case False
    with Cons show ?thesis by (cases "safestr cs") auto
  qed (use Cons in auto)
qed simp

lemma schar_digit_char: "d < 10 \<Longrightarrow> schar (digit_char d) = 48 + int d"
  by (simp add: schar_def digit_char_def)

lemma a2_loop_append: "a2_loop v (xs @ ys) = a2_loop (a2_loop v xs) ys"
  by (induction xs arbitrary: v) auto

lemma a2_loop_show_nat: "a2_loop 0 (show_nat n) = of_nat n"
proof (induction n rule: show_nat.induct)
  case (1 n)
  show ?case
  proof (cases "n < 10")
    case True
    then show ?thesis by (subst show_nat.simps) (simp add: schar_digit_char)
  next
    case False
    have "(of_nat (n div 10) * 10 + of_nat (n mod 10) :: 64 word) = of_nat n"
      by (metis div_mult_mod_eq of_nat_add of_nat_mult of_nat_numeral)
    with 1 False show ?thesis
      by (subst show_nat.simps) (simp add: a2_loop_append schar_digit_char)
  qed
qed

text \<open>
  The decimal text of an integer is read back at 64 bits, wrapping around
  when it does not fit.
\<close>

theorem a2bigint_show_int: "a2bigint (show_int i) = of_int i \<and> (0 \<le> i \<longrightarrow> a2ubigint (show_int i) = of_int i)"
proof (cases "i < 0")
  case True
  then have "(of_nat (nat (- i)) :: 64 word) = - of_int i" by (simp add: of_nat_nat)
  with True show ?thesis by (simp add: a2bigint_def show_int_def a2_loop_show_nat)
next
  case False
  then obtain c cs where "show_nat (nat i) = c # cs" by (cases "show_nat (nat i)") auto
  moreover from this have "c \<noteq> CHR ''-''"
    using show_nat_digits [of "nat i"] digit_not_sign [of c] by auto
  ultimately show ?thesis
    using False a2_loop_show_nat [of "nat i"]
    by (simp add: a2bigint_def a2ubigint_def show_int_def of_nat_nat)
qed

theorem a2bigint_show_int_witness: "a2bigint (show_int (- 42)) = - 42 \<and> a2ubigint (show_int 7) = 7"
  using a2bigint_show_int [of "- 42"] a2bigint_show_int [of 7] by simp

end
