(* ===== verification/Query.thy ===== *)
theory Query
  imports Database
begin

text \<open>
  \<open>src/src/dbiwrapped-0.0.1/Query.{h,cpp}\<close>: one statement on one connection of a pool. A
  query runs on a pair: the databases with the library, and the \<open>Query\<close> object, whose state
  survives an exception until its destructor runs. The constructor takes the connection from the
  pool and throws when there is none, so \<open>con\<close> is never null. \<open>m_tmap[x]\<close> of a column
  that is not there reads as type 0.
\<close>

record Query =
  q_con :: nat
  q_res :: "nat option"
  q_row :: int
  q_rowcount :: int
  q_tmpstr :: string
  q_last_query :: string
  q_nmap :: "(string, nat) stdmap"
  q_tmap :: "(nat, nat) stdmap"
  q_num_cols :: int

definition Query_new :: "int \<Rightarrow> nat \<Rightarrow> Query" where
  "Query_new junk con =
     \<lparr>q_con = con, q_res = None, q_row = 0, q_rowcount = junk, q_tmpstr = [], q_last_query = [],
      q_nmap = [], q_tmap = [], q_num_cols = 0\<rparr>"

type_synonym ('e, 'm, 'a) qprog = "(('e, 'm) dbs_scheme \<times> Query, 'a) prog"

text \<open>\<open>dbi_conn_query\<close> and the exception when it returns no result.\<close>

definition run_query :: "'e libdbi \<Rightarrow> string \<Rightarrow> ('e, 'm, bool) qprog" where
  "run_query lib sql = (\<lambda>(s, q).
     (case dbi_conn_query lib (q_con q) sql (dbs_eng s) of
        (None, e) \<Rightarrow> (Inl (DBIError_of (getDBIError lib (q_con q) e) ''query failed''),
                      s\<lparr>dbs_eng := e\<rparr>, q\<lparr>q_res := None\<rparr>)
      | (Some r, e) \<Rightarrow> (Inr True, s\<lparr>dbs_eng := e\<rparr>, q\<lparr>q_res := Some r\<rparr>)))"

definition execute :: "'e libdbi \<Rightarrow> string \<Rightarrow> ('e, 'm, bool) qprog" where
  "execute lib sql = (\<lambda>(s, q).
     let q' = q\<lparr>q_last_query := sql\<rparr> in
     if q_res q \<noteq> None then (Inl (LogicError ''execute: query busy''), s, q')
     else run_query lib sql (s, q'))"

text \<open>
  The substitution of \<open>executef\<close>: \<open>%%\<close> is a percent sign, \<open>%s\<close> the next argument
  quoted by the library, \<open>%\<close> before any other character the next argument as it is. What was
  substituted is not scanned again. A single \<open>%\<close> at the end is dropped.
\<close>

fun format_sql :: "(string \<Rightarrow> string option) \<Rightarrow> bool \<Rightarrow> string \<Rightarrow> string list \<Rightarrow> string \<Rightarrow> exn + string" where
  "format_sql quote bInside [] args quoted_sql = Inr quoted_sql"
| "format_sql quote bInside (c # cs) args quoted_sql =
     (if \<not> bInside then
        (if c \<noteq> CHR ''%'' then format_sql quote False cs args (quoted_sql @ [c])
         else format_sql quote True cs args quoted_sql)
      else if c = CHR ''%'' then format_sql quote False cs args (quoted_sql @ [c])
      else case args of
        [] \<Rightarrow> Inl (InvalidArgument ''executef: not enough arguments'')
      | arg # args' \<Rightarrow>
          (if c = CHR ''s'' then
             (case quote arg of
                None \<Rightarrow> Inl (RuntimeError (''dbi_driver_quote_string_copy '' @ arg))
              | Some psz \<Rightarrow> format_sql quote False cs args' (quoted_sql @ psz))
           else format_sql quote False cs args' (quoted_sql @ arg)))"

definition executef :: "'e libdbi \<Rightarrow> string \<Rightarrow> string list \<Rightarrow> ('e, 'm, bool) qprog" where
  "executef lib sql args = (\<lambda>(s, q).
     let q' = q\<lparr>q_last_query := sql\<rparr> in
     if q_res q \<noteq> None then (Inl (LogicError ''executef: query busy''), s, q')
     else case format_sql (\<lambda>a. dbi_conn_quote_string_copy lib (q_con q) a (dbs_eng s)) False sql args [] of
       Inl e \<Rightarrow> (Inl e, s, q')
     | Inr quoted_sql \<Rightarrow> run_query lib quoted_sql (s, q\<lparr>q_last_query := quoted_sql\<rparr>))"

text \<open>The loop that records the names and types of the columns 1 to \<open>m_num_cols\<close>.\<close>

fun read_fields :: "'e libdbi \<Rightarrow> nat \<Rightarrow> 'e \<Rightarrow> nat list \<Rightarrow> Query \<Rightarrow> Query" where
  "read_fields lib r e [] q = q"
| "read_fields lib r e (i # is) q =
     (let q1 = (case dbi_result_get_field_name lib r i e of
                  None \<Rightarrow> q | Some name \<Rightarrow> q\<lparr>q_nmap := smap_set name i (q_nmap q)\<rparr>);
          q2 = q1\<lparr>q_tmap := smap_set i (dbi_result_get_field_type_idx lib r i e) (q_tmap q1)\<rparr>
      in read_fields lib r e is q2)"

definition load_fields :: "'e libdbi \<Rightarrow> ('e, 'm, nat option) qprog" where
  "load_fields lib = (\<lambda>(s, q).
     (case q_res q of
        None \<Rightarrow> (Inr None, s, q)
      | Some r \<Rightarrow>
          let n = dbi_result_get_numfields lib r (dbs_eng s);
              q' = read_fields lib r (dbs_eng s) [1..<Suc n] (q\<lparr>q_num_cols := int n\<rparr>)
          in (Inr (Some r), s, q')))"

definition get_result :: "'e libdbi \<Rightarrow> string \<Rightarrow> ('e, 'm, nat option) qprog" where
  "get_result lib sql = (\<lambda>(s, q).
     if q_res q \<noteq> None then (Inl (LogicError ''get_result: query busy''), s, q)
     else bindE (execute lib sql) (\<lambda>_. load_fields lib) (s, q))"

definition get_resultf :: "'e libdbi \<Rightarrow> string \<Rightarrow> string list \<Rightarrow> ('e, 'm, nat option) qprog" where
  "get_resultf lib sql args = (\<lambda>(s, q).
     if q_res q \<noteq> None then (Inl (LogicError ''get_result: query busy''), s, q)
     else bindE (executef lib sql args) (\<lambda>_. load_fields lib) (s, q))"

definition free_result :: "'e libdbi \<Rightarrow> ('e, 'm, unit) qprog" where
  "free_result lib = (\<lambda>(s, q).
     let (s', q') = (case q_res q of
                       None \<Rightarrow> (s, q)
                     | Some r \<Rightarrow> (upd_eng (dbi_result_free lib r) s, q\<lparr>q_res := None, q_row := 0\<rparr>))
     in (Inr (), s', q'\<lparr>q_nmap := [], q_tmap := [], q_num_cols := 0\<rparr>))"

definition fetch_row :: "'e libdbi \<Rightarrow> ('e, 'm, bool) qprog" where
  "fetch_row lib = (\<lambda>(s, q).
     (case q_res q of
        None \<Rightarrow> (Inr False, s, q\<lparr>q_rowcount := 1\<rparr>)
      | Some r \<Rightarrow>
          (case dbi_result_next_row lib r (dbs_eng s) of
             (row, e) \<Rightarrow> (Inr (row = 1), s\<lparr>dbs_eng := e\<rparr>, q\<lparr>q_rowcount := 1, q_row := row\<rparr>))))"

definition insert_id :: "'e libdbi \<Rightarrow> ('e, 'm, 64 word) qprog" where
  "insert_id lib = gets (\<lambda>(s, q).
     if q_res q = None then 0 else dbi_conn_sequence_last lib (q_con q) (dbs_eng s))"

definition num_rows :: "'e libdbi \<Rightarrow> ('e, 'm, 64 word) qprog" where
  "num_rows lib = gets (\<lambda>(s, q).
     case q_res q of None \<Rightarrow> 0 | Some r \<Rightarrow> dbi_result_get_numrows lib r (dbs_eng s))"

definition num_cols :: "('e, 'm, int) qprog" where
  "num_cols = gets (\<lambda>(s, q). q_num_cols q)"

definition col_type :: "Query \<Rightarrow> nat \<Rightarrow> nat" where
  "col_type q x = (case smap_find (q_tmap q) x of None \<Rightarrow> 0 | Some t \<Rightarrow> t)"

text \<open>The columns of the current row; \<^const>\<open>None\<close> is the null pointer \<open>getstr\<close> returns without one.\<close>

definition getstr :: "'e libdbi \<Rightarrow> nat \<Rightarrow> ('e, 'm, string option) qprog" where
  "getstr lib x = gets (\<lambda>(s, q).
     case q_res q of
       None \<Rightarrow> None
     | Some r \<Rightarrow>
         if q_row q = 0 then None
         else if col_type q x = DBI_TYPE_STRING lib
         then Some (case dbi_result_get_string_idx lib r x (dbs_eng s) of None \<Rightarrow> [] | Some str \<Rightarrow> str)
         else Some [])"

definition int_column ::
    "'e libdbi \<Rightarrow> (nat \<Rightarrow> nat \<Rightarrow> 'e \<Rightarrow> 'n::len word) \<Rightarrow> nat \<Rightarrow> ('e, 'm, 'n word) qprog" where
  "int_column lib get x = gets (\<lambda>(s, q).
     case q_res q of
       None \<Rightarrow> 0
     | Some r \<Rightarrow> if q_row q \<noteq> 0 \<and> col_type q x = DBI_TYPE_INTEGER lib then get r x (dbs_eng s) else 0)"

definition getval :: "'e libdbi \<Rightarrow> nat \<Rightarrow> ('e, 'm, 32 word) qprog" where
  "getval lib x = int_column lib (dbi_result_get_int_idx lib) x"

definition getlongval :: "'e libdbi \<Rightarrow> nat \<Rightarrow> ('e, 'm, 64 word) qprog" where
  "getlongval lib x = int_column lib (dbi_result_get_long_idx lib) x"

definition getulonglongval :: "'e libdbi \<Rightarrow> nat \<Rightarrow> ('e, 'm, 64 word) qprog" where
  "getulonglongval lib x = int_column lib (dbi_result_get_ulonglong_idx lib) x"

text \<open>The variants without an index read the next column.\<close>

definition next_column :: "(nat \<Rightarrow> ('e, 'm, 'a) qprog) \<Rightarrow> ('e, 'm, 'a) qprog" where
  "next_column get = bindE (gets (\<lambda>(s, q). q_rowcount q)) (\<lambda>x.
     bindE (modify (\<lambda>(s, q). (s, q\<lparr>q_rowcount := x + 1\<rparr>))) (\<lambda>_. get (nat x)))"

definition getstr_next :: "'e libdbi \<Rightarrow> ('e, 'm, string option) qprog" where
  "getstr_next lib = next_column (getstr lib)"

definition getval_next :: "'e libdbi \<Rightarrow> ('e, 'm, 32 word) qprog" where
  "getval_next lib = next_column (getval lib)"

definition getlongval_next :: "'e libdbi \<Rightarrow> ('e, 'm, 64 word) qprog" where
  "getlongval_next lib = next_column (getlongval lib)"

definition getulonglongval_next :: "'e libdbi \<Rightarrow> ('e, 'm, 64 word) qprog" where
  "getulonglongval_next lib = next_column (getulonglongval lib)"

definition get_count :: "'e libdbi \<Rightarrow> string \<Rightarrow> ('e, 'm, 64 word) qprog" where
  "get_count lib sql = bindE (get_result lib sql) (\<lambda>r.
     case r of
       None \<Rightarrow> ret 0
     | Some _ \<Rightarrow> bindE (fetch_row lib) (\<lambda>b. bindE (if b then getval_next lib else ret 0) (\<lambda>l.
         bindE (free_result lib) (\<lambda>_. ret (scast l)))))"

definition get_string :: "'e libdbi \<Rightarrow> string \<Rightarrow> ('e, 'm, string) qprog" where
  "get_string lib sql = bindE (modify (\<lambda>(s, q). (s, q\<lparr>q_tmpstr := []\<rparr>))) (\<lambda>_.
     bindE (get_result lib sql) (\<lambda>r.
     case r of
       None \<Rightarrow> gets (\<lambda>(s, q). q_tmpstr q)
     | Some _ \<Rightarrow> bindE (fetch_row lib) (\<lambda>b.
         bindE (if b then bindE (getstr_next lib) (\<lambda>str.
                   case str of
                     None \<Rightarrow> raise (Undefined ''std::string from a null pointer'')
                   | Some t \<Rightarrow> modify (\<lambda>(s, q). (s, q\<lparr>q_tmpstr := t\<rparr>)))
                else ret ()) (\<lambda>_.
         bindE (free_result lib) (\<lambda>_. gets (\<lambda>(s, q). q_tmpstr q))))))"

definition GetLastQuery :: "Query \<Rightarrow> string" where
  "GetLastQuery q = q_last_query q"

definition GetError :: "'e libdbi \<Rightarrow> ('e, 'm) dbs_scheme \<Rightarrow> Query \<Rightarrow> string" where
  "GetError lib s q =
     (if dbi_conn_error_flag lib (q_con q) (dbs_eng s) = 0 then []
      else let (rc, str) = dbi_conn_error lib (q_con q) (dbs_eng s) in if rc = - 1 then [] else str)"

definition GetErrno :: "'e libdbi \<Rightarrow> ('e, 'm) dbs_scheme \<Rightarrow> Query \<Rightarrow> int" where
  "GetErrno lib s q = dbi_conn_error_flag lib (q_con q) (dbs_eng s)"

definition q_Connected :: "'e libdbi \<Rightarrow> ('e, 'm, bool) qprog" where
  "q_Connected lib = (\<lambda>(s, q).
     (case dbi_conn_ping lib (q_con q) (dbs_eng s) of (p, e) \<Rightarrow> (Inr (p \<noteq> 0), s\<lparr>dbs_eng := e\<rparr>, q)))"

definition q_safestr :: "string \<Rightarrow> string" where
  "q_safestr x = safestr x"

text \<open>
  The constructor that executes a statement. When it throws, no \<open>Query\<close> exists and no destructor runs.
\<close>

definition Query_sql :: "'e libdbi \<Rightarrow> nat \<Rightarrow> int \<Rightarrow> string \<Rightarrow> (('e, 'm) dbs_scheme, Query) prog" where
  "Query_sql lib i junk sql s =
     (case grabdb lib i s of
        (Inl e, s1) \<Rightarrow> (Inl e, s1)
      | (Inr con, s1) \<Rightarrow>
          (case execute lib sql (s1, Query_new junk con) of
             (Inl e, s2, q) \<Rightarrow> (Inl e, s2)
           | (Inr b, s2, q) \<Rightarrow> (Inr q, s2)))"

text \<open>The destructor: a result that was not freed is freed, and the connection goes back.\<close>

definition Query_destroy :: "'e libdbi \<Rightarrow> nat \<Rightarrow> Query \<Rightarrow> (('e, 'm) dbs_scheme, unit) prog" where
  "Query_destroy lib i q s =
     freedb lib i (q_con q) (case q_res q of None \<Rightarrow> s | Some r \<Rightarrow> upd_eng (dbi_result_free lib r) s)"

section \<open>The text of a statement\<close>

text \<open>
  A statement is made of literal text and slots for arguments. Rendering gives the format string
  \<open>executef\<close> receives; filling puts each argument into its slot.
\<close>

datatype sql_part = Lit string | StrArg string | NumArg string

fun part_format :: "sql_part \<Rightarrow> string" where
  "part_format (Lit s) = s"
| "part_format (StrArg a) = ''%s''"
| "part_format (NumArg a) = ''%d''"

fun part_args :: "sql_part \<Rightarrow> string list" where
  "part_args (Lit s) = []"
| "part_args (StrArg a) = [a]"
| "part_args (NumArg a) = [a]"

fun part_text :: "(string \<Rightarrow> string option) \<Rightarrow> sql_part \<Rightarrow> string" where
  "part_text quote (Lit s) = s"
| "part_text quote (StrArg a) = the (quote a)"
| "part_text quote (NumArg a) = a"

fun part_ok :: "(string \<Rightarrow> string option) \<Rightarrow> sql_part \<Rightarrow> bool" where
  "part_ok quote (Lit s) \<longleftrightarrow> CHR ''%'' \<notin> set s"
| "part_ok quote (StrArg a) \<longleftrightarrow> quote a \<noteq> None"
| "part_ok quote (NumArg a) \<longleftrightarrow> True"

definition sql_format :: "sql_part list \<Rightarrow> string" where
  "sql_format ps = concat (map part_format ps)"

definition sql_args :: "sql_part list \<Rightarrow> string list" where
  "sql_args ps = concat (map part_args ps)"

definition sql_text :: "(string \<Rightarrow> string option) \<Rightarrow> sql_part list \<Rightarrow> string" where
  "sql_text quote ps = concat (map (part_text quote) ps)"

lemma format_sql_lit:
  "CHR ''%'' \<notin> set s \<Longrightarrow> format_sql quote False (s @ cs) args acc = format_sql quote False cs args (acc @ s)"
  by (induction s arbitrary: acc) auto

lemma format_sql_parts:
  assumes "list_all (part_ok quote) ps"
  shows "format_sql quote False (sql_format ps @ cs) (sql_args ps @ args) acc =
         format_sql quote False cs args (acc @ sql_text quote ps)"
  using assms
proof (induction ps arbitrary: acc)
  case (Cons p ps)
  then show ?case
    by (cases p) (auto simp: sql_format_def sql_args_def sql_text_def format_sql_lit)
qed (simp_all add: sql_format_def sql_args_def sql_text_def)

section \<open>What a query leaves of the pools\<close>

text \<open>The operations of a query touch no pool, only the library, and none ends a connection.\<close>

definition same_pools :: "('e \<Rightarrow> nat set) \<Rightarrow> ('e, 'm) dbs_scheme \<Rightarrow> ('e, 'm) dbs_scheme \<Rightarrow> bool" where
  "same_pools live s s' \<longleftrightarrow> dbs_heap s' = dbs_heap s \<and> live (dbs_eng s') = live (dbs_eng s)"

definition q_local :: "('e \<Rightarrow> nat set) \<Rightarrow> ('e, 'm, 'a) qprog \<Rightarrow> bool" where
  "q_local live m \<longleftrightarrow> (\<forall>s q. same_pools live s (fst (snd (m (s, q)))) \<and> q_con (snd (snd (m (s, q)))) = q_con q)"

lemma q_localI:
  "(\<And>s q. same_pools live s (fst (snd (m (s, q)))) \<and> q_con (snd (snd (m (s, q)))) = q_con q) \<Longrightarrow> q_local live m"
  by (simp add: q_local_def)

lemma q_local_bindE [keeps_intros]:
  assumes "q_local live m" and "\<And>x. q_local live (k x)"
  shows "q_local live (bindE m k)"
proof (rule q_localI)
  fix s q
  obtain r s' q' where m: "m (s, q) = (r, s', q')" by (metis prod_cases3)
  with assms(1) have "same_pools live s s'" "q_con q' = q_con q"
    unfolding q_local_def by (metis fst_conv snd_conv)+
  with m assms(2) show "same_pools live s (fst (snd (bindE m k (s, q)))) \<and>
      q_con (snd (snd (bindE m k (s, q)))) = q_con q"
    by (cases r) (auto simp: bindE_def q_local_def same_pools_def)
qed

lemma q_local_ret [keeps_intros]: "q_local live (ret x)"
  by (simp add: q_local_def same_pools_def)

lemma q_local_raise [keeps_intros]: "q_local live (raise e)"
  by (simp add: q_local_def same_pools_def)

lemma q_local_gets [keeps_intros]: "q_local live (gets f)"
  by (simp add: q_local_def same_pools_def)

lemma q_local_run_query [keeps_intros]:
  assumes "dbi_handles lib live"
  shows "q_local live (run_query lib sql)"
proof (rule q_localI)
  fix s :: "('a, 'b) dbs_scheme" and q :: Query
  obtain r e where "dbi_conn_query lib (q_con q) sql (dbs_eng s) = (r, e)" by fastforce
  moreover from this have "live e = live (dbs_eng s)"
    using assms by (metis dbi_handles_def snd_conv)
  ultimately show "same_pools live s (fst (snd (run_query lib sql (s, q)))) \<and>
      q_con (snd (snd (run_query lib sql (s, q)))) = q_con q"
    by (cases r) (simp_all add: run_query_def same_pools_def)
qed

lemma q_local_executef [keeps_intros]:
  assumes "dbi_handles lib live"
  shows "q_local live (executef lib sql args)"
  using q_local_run_query [OF assms]
  by (auto simp: q_local_def executef_def same_pools_def Let_def split: sum.splits)

lemma q_con_read_fields [simp]: "q_con (read_fields lib r e is q) = q_con q"
  by (induction lib r e "is" q rule: read_fields.induct) (simp_all add: Let_def split: option.splits)

lemma read_fields_keeps [simp]:
  "q_res (read_fields lib r e is q) = q_res q" "q_row (read_fields lib r e is q) = q_row q"
  by (induction lib r e "is" q rule: read_fields.induct) (simp_all add: Let_def split: option.splits)

lemma read_fields_types:
  "q_tmap (read_fields lib r e is q) =
   fold (\<lambda>i. smap_set i (dbi_result_get_field_type_idx lib r i e)) is (q_tmap q)"
  by (induction lib r e "is" q rule: read_fields.induct) (simp_all add: Let_def split: option.splits)

lemma q_local_load_fields [keeps_intros]: "q_local live (load_fields lib)"
  by (auto simp: q_local_def load_fields_def same_pools_def Let_def split: option.splits)

lemma q_local_get_resultf [keeps_intros]:
  assumes "dbi_handles lib live"
  shows "q_local live (get_resultf lib sql args)"
proof -
  have "q_local live (bindE (executef lib sql args) (\<lambda>_. load_fields lib))"
    by (intro keeps_intros assms)
  then show ?thesis
    by (auto simp: q_local_def get_resultf_def same_pools_def)
qed

lemma q_local_free_result [keeps_intros]:
  assumes "dbi_handles lib live"
  shows "q_local live (free_result lib)"
  using assms
  by (auto simp: q_local_def free_result_def same_pools_def dbi_handles_def Let_def split: option.splits)

lemma q_local_fetch_row [keeps_intros]:
  assumes "dbi_handles lib live"
  shows "q_local live (fetch_row lib)"
proof (rule q_localI)
  fix s :: "('a, 'b) dbs_scheme" and q :: Query
  show "same_pools live s (fst (snd (fetch_row lib (s, q)))) \<and> q_con (snd (snd (fetch_row lib (s, q)))) = q_con q"
  proof (cases "q_res q")
    case (Some r)
    obtain row e where "dbi_result_next_row lib r (dbs_eng s) = (row, e)" by fastforce
    moreover from this have "live e = live (dbs_eng s)"
      using assms by (metis dbi_handles_def snd_conv)
    ultimately show ?thesis using Some by (simp add: fetch_row_def same_pools_def)
  qed (simp add: fetch_row_def same_pools_def)
qed

lemma q_local_execute [keeps_intros]:
  assumes "dbi_handles lib live"
  shows "q_local live (execute lib sql)"
  using q_local_run_query [OF assms] by (auto simp: q_local_def execute_def same_pools_def Let_def)

text \<open>
  A statement that fails in the constructor leaks the connection: it stays among those in use,
  with nobody to give it back.
\<close>

lemma query_sql_leaks:
  assumes h: "dbi_handles lib live" and inv: "pool_inv live s" and g: "grabdb lib i s = (Inr con, s1)"
    and r: "Query_sql lib i junk sql s = (Inl e, s2)"
  shows "con \<notin> db_held s i \<and> db_held s2 = (db_held s)(i := insert con (db_held s i))"
proof -
  obtain x s3 q where x: "execute lib sql (s1, Query_new junk con) = (x, s3, q)" by (metis prod_cases3)
  have "same_pools live s1 s3"
    using q_local_execute [OF h, of sql] x unfolding q_local_def by (metis fst_conv snd_conv)
  moreover have "s3 = s2" using r g x by (auto simp: Query_sql_def split: sum.splits)
  ultimately have "db_held s2 = db_held s1" by (simp add: same_pools_def db_held_def fun_eq_iff)
  with grabdb_spec [OF h inv g] show ?thesis by simp
qed

section \<open>Properties\<close>

text \<open>
  C16 (functional). The statement sent to the server is the format with every slot filled by its
  own argument, text arguments as quoted by the library: a percent sign inside an argument is
  never taken for a slot, and arguments beyond the last slot are not used.
\<close>

theorem executef_fills_slots:
  assumes "list_all (part_ok quote) ps"
  shows "format_sql quote False (sql_format ps) (sql_args ps @ extra) [] = Inr (sql_text quote ps)"
  using format_sql_parts [OF assms, of "[]" extra "[]"] by simp

theorem executef_fills_slots_witness:
  "format_sql (\<lambda>a. Some (''<'' @ a @ ''>'')) False ''a=%s AND b=%d'' [''50%d'', ''7'', ''x''] [] = Inr ''a=<50%d> AND b=7''"
  using executef_fills_slots [of "\<lambda>a. Some (''<'' @ a @ ''>'')"
      "[Lit ''a='', StrArg ''50%d'', Lit '' AND b='', NumArg ''7'']" "[''x'']"]
  by (simp add: sql_format_def sql_args_def sql_text_def)

end
