(* ===== verification/Db_Data_Source.thy ===== *)
theory Db_Data_Source
  imports Query
begin

text \<open>
  \<open>src/src/dbdatasource.h\<close> and \<open>src/src/datasource.h\<close>: a data source is a table of a
  database; a \<open>DBQuery\<close> collects fields, conditions and arguments as text and sends one
  statement. \<open>with_query\<close> is the life of a \<open>DBQuery\<close>: constructor (which takes a
  connection), use, destructor (which frees the result and gives the connection back), whether
  the use returns or throws. A shared pointer to a data source is a \<open>DataSource\<close> with its
  address \<open>ds_ptr\<close>; the object behind it never changes.
\<close>

record DataSource =
  ds_ptr :: nat
  ds_db :: nat
  ds_table :: string

record DBQuery =
  dq_query :: Query
  dq_table :: string
  dq_returnFields :: string
  dq_whereClause :: string
  dq_args :: "string list"
  dq_haveResult :: bool
  dq_insFields :: string
  dq_values :: string
  dq_updFields :: string

definition DBQuery_new :: "nat \<Rightarrow> string \<Rightarrow> DBQuery" where
  "DBQuery_new con table =
     \<lparr>dq_query = Query_new 0 con, dq_table = table, dq_returnFields = [], dq_whereClause = [],
      dq_args = [], dq_haveResult = False, dq_insFields = [], dq_values = [], dq_updFields = []\<rparr>"

type_synonym ('e, 'm, 'a) dprog = "(('e, 'm) dbs_scheme \<times> DBQuery, 'a) prog"

definition on_query :: "('e, 'm, 'a) qprog \<Rightarrow> ('e, 'm, 'a) dprog" where
  "on_query m = (\<lambda>(s, dq). case m (s, dq_query dq) of (r, s', q') \<Rightarrow> (r, s', dq\<lparr>dq_query := q'\<rparr>))"

definition upd_dq :: "(DBQuery \<Rightarrow> DBQuery) \<Rightarrow> ('e, 'm, unit) dprog" where
  "upd_dq f = modify (\<lambda>(s, dq). (s, f dq))"

definition bquote :: "string \<Rightarrow> string" where
  "bquote field = ''`'' @ field @ ''`''"

section \<open>Building\<close>

definition setTable :: "string \<Rightarrow> DBQuery \<Rightarrow> DBQuery" where
  "setTable t dq = dq\<lparr>dq_table := t\<rparr>"

definition addReturnField :: "string \<Rightarrow> DBQuery \<Rightarrow> DBQuery" where
  "addReturnField field dq =
     (if field = ''*'' then dq\<lparr>dq_returnFields := field\<rparr>
      else dq\<lparr>dq_returnFields :=
                (if dq_returnFields dq \<noteq> [] then dq_returnFields dq @ '','' else dq_returnFields dq)
                @ bquote field\<rparr>)"

definition add_condition :: "string \<Rightarrow> string \<Rightarrow> string \<Rightarrow> string \<Rightarrow> DBQuery \<Rightarrow> DBQuery" where
  "add_condition field op slot arg dq =
     dq\<lparr>dq_whereClause :=
          (if dq_whereClause dq \<noteq> [] then dq_whereClause dq @ '' AND '' else dq_whereClause dq)
          @ bquote field @ op @ slot,
        dq_args := dq_args dq @ [arg]\<rparr>"

definition addWhere_str :: "string \<Rightarrow> string \<Rightarrow> string \<Rightarrow> DBQuery \<Rightarrow> DBQuery" where
  "addWhere_str field val op dq = add_condition field op ''%s'' val dq"

definition addWhere_num :: "string \<Rightarrow> 64 word \<Rightarrow> string \<Rightarrow> DBQuery \<Rightarrow> DBQuery" where
  "addWhere_num field val op dq = add_condition field op ''%d'' (StrmConvert_unsigned val) dq"

definition add_column :: "string \<Rightarrow> string \<Rightarrow> string \<Rightarrow> DBQuery \<Rightarrow> DBQuery" where
  "add_column field slot arg dq =
     (let (fs, vs) = (if dq_insFields dq \<noteq> [] then (dq_insFields dq @ '','', dq_values dq @ '','')
                      else (dq_insFields dq, dq_values dq))
      in dq\<lparr>dq_insFields := fs @ bquote field, dq_values := vs @ slot, dq_args := dq_args dq @ [arg]\<rparr>)"

definition addString :: "string \<Rightarrow> string \<Rightarrow> DBQuery \<Rightarrow> DBQuery" where
  "addString field val dq = add_column field ''%s'' val dq"

definition addNumeric :: "string \<Rightarrow> 64 word \<Rightarrow> DBQuery \<Rightarrow> DBQuery" where
  "addNumeric field val dq = add_column field ''%d'' (StrmConvert_unsigned val) dq"

definition add_update :: "string \<Rightarrow> string \<Rightarrow> DBQuery \<Rightarrow> DBQuery" where
  "add_update assign arg dq =
     dq\<lparr>dq_updFields := (if dq_updFields dq \<noteq> [] then dq_updFields dq @ '','' else dq_updFields dq) @ assign,
        dq_args := dq_args dq @ [arg]\<rparr>"

text \<open>The values of \<open>addIncrement\<close> and \<open>addSet\<close> are \<open>unsigned\<close>, 32 bits.\<close>

definition addIncrement :: "string \<Rightarrow> 32 word \<Rightarrow> DBQuery \<Rightarrow> DBQuery" where
  "addIncrement field inc dq =
     add_update (bquote field @ ''='' @ bquote field @ ''+%d'') (StrmConvert_unsigned inc) dq"

definition addSet :: "string \<Rightarrow> 32 word \<Rightarrow> DBQuery \<Rightarrow> DBQuery" where
  "addSet field val dq = add_update (bquote field @ ''=%d'') (StrmConvert_unsigned val) dq"

section \<open>Sending\<close>

text \<open>The backquote that closes the table name is part of the WHERE text only.\<close>

definition lookup_format :: "DBQuery \<Rightarrow> string" where
  "lookup_format dq =
     (let returnFields = (if dq_returnFields dq = [] then ''COUNT(*)'' else dq_returnFields dq);
          whereClause = (if dq_whereClause dq = [] then [] else ''` WHERE ('' @ dq_whereClause dq @ '')'')
      in ''SELECT '' @ returnFields @ '' FROM `'' @ dq_table dq @ whereClause)"

definition dq_lookup :: "'e libdbi \<Rightarrow> ('e, 'm, unit) dprog" where
  "dq_lookup lib = (\<lambda>(s, dq).
     bindE (on_query (get_resultf lib (lookup_format dq) (dq_args dq)))
       (\<lambda>r. if r \<noteq> None then upd_dq (\<lambda>dq. dq\<lparr>dq_haveResult := True\<rparr>) else ret ()) (s, dq))"

text \<open>\<open>executef\<close> and the flag that a result has to be freed.\<close>

definition dq_execute :: "'e libdbi \<Rightarrow> string \<Rightarrow> string list \<Rightarrow> ('e, 'm, unit) dprog" where
  "dq_execute lib sql args =
     bindE (on_query (executef lib sql args))
       (\<lambda>b. if b then upd_dq (\<lambda>dq. dq\<lparr>dq_haveResult := True\<rparr>) else ret ())"

definition insert_format :: "DBQuery \<Rightarrow> string" where
  "insert_format dq =
     ''INSERT INTO '' @ dq_table dq @ '' ('' @ dq_insFields dq @ '') '' @ '' VALUES('' @ dq_values dq @ '')''"

definition dq_insert :: "'e libdbi \<Rightarrow> ('e, 'm, unit) dprog" where
  "dq_insert lib = (\<lambda>(s, dq).
     (case dq_execute lib (insert_format dq) (dq_args dq) (s, dq) of
        (Inl (DBIError n msg), st) \<Rightarrow> if n \<noteq> 1062 then (Inl (DBIError n msg), st) else (Inr (), st)
      | (r, st) \<Rightarrow> (r, st)))"

definition update_format :: "DBQuery \<Rightarrow> string" where
  "update_format dq =
     ''UPDATE '' @ dq_table dq @ '' SET '' @ dq_updFields dq @ '' WHERE('' @ dq_whereClause dq @ '')''"

definition dq_update :: "'e libdbi \<Rightarrow> ('e, 'm, unit) dprog" where
  "dq_update lib = (\<lambda>(s, dq). dq_execute lib (update_format dq) (dq_args dq) (s, dq))"

definition numRows :: "'e libdbi \<Rightarrow> ('e, 'm, 64 word) dprog" where
  "numRows lib = on_query (num_rows lib)"

definition numCols :: "('e, 'm, int) dprog" where
  "numCols = on_query num_cols"

definition fetchRow :: "'e libdbi \<Rightarrow> ('e, 'm, bool) dprog" where
  "fetchRow lib = on_query (fetch_row lib)"

definition getNumeric :: "'e libdbi \<Rightarrow> nat \<Rightarrow> ('e, 'm, 64 word) dprog" where
  "getNumeric lib idx = on_query (getlongval lib idx)"

definition getBigNumeric :: "'e libdbi \<Rightarrow> nat \<Rightarrow> ('e, 'm, 64 word) dprog" where
  "getBigNumeric lib idx = on_query (getulonglongval lib idx)"

text \<open>\<open>std::string\<close> built from the null pointer throws in the library the program is built with.\<close>

definition getString :: "'e libdbi \<Rightarrow> nat \<Rightarrow> ('e, 'm, string) dprog" where
  "getString lib idx = bindE (on_query (getstr lib idx)) (\<lambda>str.
     case str of None \<Rightarrow> raise (LogicError ''basic_string::_S_construct null not valid'') | Some t \<Rightarrow> ret t)"

section \<open>The life of a query\<close>

text \<open>What the destructor does before the connection goes back.\<close>

definition dq_close :: "'e libdbi \<Rightarrow> DBQuery \<Rightarrow> ('e, 'm) dbs_scheme \<Rightarrow> ('e, 'm) dbs_scheme" where
  "dq_close lib dq s =
     (let (s', q') = (if dq_haveResult dq then snd (free_result lib (s, dq_query dq)) else (s, dq_query dq))
      in (case q_res q' of None \<Rightarrow> s' | Some r \<Rightarrow> upd_eng (dbi_result_free lib r) s'))"

definition with_query ::
    "'e libdbi \<Rightarrow> DataSource \<Rightarrow> ('e, 'm, 'a) dprog \<Rightarrow> (('e, 'm) dbs_scheme, 'a) prog" where
  "with_query lib ds body s =
     (case grabdb lib (ds_db ds) s of
        (Inl e, s1) \<Rightarrow> (Inl e, s1)
      | (Inr con, s1) \<Rightarrow>
          (case body (s1, DBQuery_new con (ds_table ds)) of
             (r, s2, dq) \<Rightarrow>
               (case freedb lib (ds_db ds) (q_con (dq_query dq)) (dq_close lib dq s2) of
                  (Inl e, s3) \<Rightarrow> (Inl e, s3)
                | (Inr _, s3) \<Rightarrow> (r, s3))))"

section \<open>A query gives its connection back\<close>

definition d_local :: "('e \<Rightarrow> nat set) \<Rightarrow> ('e, 'm, 'a) dprog \<Rightarrow> bool" where
  "d_local live m \<longleftrightarrow>
     (\<forall>s dq. same_pools live s (fst (snd (m (s, dq)))) \<and> q_con (dq_query (snd (snd (m (s, dq))))) = q_con (dq_query dq))"

lemma d_localI:
  "(\<And>s dq. same_pools live s (fst (snd (m (s, dq)))) \<and> q_con (dq_query (snd (snd (m (s, dq))))) = q_con (dq_query dq))
   \<Longrightarrow> d_local live m"
  by (simp add: d_local_def)

lemma d_local_bindE [keeps_intros]:
  assumes "d_local live m" and "\<And>x. d_local live (k x)"
  shows "d_local live (bindE m k)"
proof (rule d_localI)
  fix s dq
  obtain r s' dq' where m: "m (s, dq) = (r, s', dq')" by (metis prod_cases3)
  with assms(1) have "same_pools live s s'" "q_con (dq_query dq') = q_con (dq_query dq)"
    unfolding d_local_def by (metis fst_conv snd_conv)+
  with m assms(2) show "same_pools live s (fst (snd (bindE m k (s, dq)))) \<and>
      q_con (dq_query (snd (snd (bindE m k (s, dq))))) = q_con (dq_query dq)"
    by (cases r) (auto simp: bindE_def d_local_def same_pools_def)
qed

lemma d_local_basic [keeps_intros]:
  "d_local live (ret x)" "d_local live (raise e)" "d_local live (gets f)"
  by (simp_all add: d_local_def same_pools_def)

lemma d_local_if [keeps_intros]:
  "d_local live m \<Longrightarrow> d_local live n \<Longrightarrow> d_local live (if b then m else n)"
  by simp

lemma d_local_case_option [keeps_intros]:
  "d_local live m \<Longrightarrow> (\<And>x. d_local live (k x)) \<Longrightarrow> d_local live (case v of None \<Rightarrow> m | Some x \<Rightarrow> k x)"
  by (simp split: option.split)

lemma d_local_on_query [keeps_intros]: "q_local live m \<Longrightarrow> d_local live (on_query m)"
  by (auto simp: d_local_def q_local_def on_query_def split: prod.splits) (metis fst_conv snd_conv)+

lemma d_local_upd_dq [keeps_intros]:
  "(\<And>dq. q_con (dq_query (f dq)) = q_con (dq_query dq)) \<Longrightarrow> d_local live (upd_dq f)"
  by (simp add: d_local_def same_pools_def upd_dq_def)

lemma builders_query [simp]:
  "dq_query (addReturnField a dq) = dq_query dq" "dq_query (addWhere_str a v p dq) = dq_query dq"
  "dq_query (addWhere_num a n p dq) = dq_query dq" "dq_query (addString a v dq) = dq_query dq"
  "dq_query (addNumeric a n dq) = dq_query dq" "dq_query (addIncrement a k dq) = dq_query dq"
  "dq_query (addSet a k dq) = dq_query dq"
  by (simp_all add: addReturnField_def addWhere_str_def addWhere_num_def add_condition_def addString_def
      addNumeric_def add_column_def addIncrement_def addSet_def add_update_def)

lemma DBQuery_new_query [simp]:
  "q_con (dq_query (DBQuery_new con table)) = con" "q_res (dq_query (DBQuery_new con table)) = None"
  by (simp_all add: DBQuery_new_def Query_new_def)

lemma d_local_dependent:
  "(\<And>x. d_local live (m x)) \<Longrightarrow> d_local live (\<lambda>(s, dq). m dq (s, dq))"
  by (simp add: d_local_def)

lemma d_local_execute [keeps_intros]:
  assumes "dbi_handles lib live"
  shows "d_local live (dq_execute lib sql args)"
  unfolding dq_execute_def by (intro keeps_intros assms) simp

lemma d_local_sending [keeps_intros]:
  assumes "dbi_handles lib live"
  shows "d_local live (dq_lookup lib)" "d_local live (dq_update lib)"
  unfolding dq_lookup_def dq_update_def
  by (intro d_local_dependent keeps_intros assms; simp)+

lemma d_local_insert [keeps_intros]:
  assumes "dbi_handles lib live"
  shows "d_local live (dq_insert lib)"
proof (rule d_localI)
  fix s :: "('a, 'b) dbs_scheme" and dq :: DBQuery
  have "snd (dq_insert lib (s, dq)) = snd (dq_execute lib (insert_format dq) (dq_args dq) (s, dq))"
    by (simp add: dq_insert_def split: prod.splits sum.splits exn.splits)
  moreover have "d_local live (dq_execute lib (insert_format dq) (dq_args dq) :: ('a, 'b, unit) dprog)"
    by (rule d_local_execute [OF assms])
  ultimately show "same_pools live s (fst (snd (dq_insert lib (s, dq)))) \<and>
      q_con (dq_query (snd (snd (dq_insert lib (s, dq))))) = q_con (dq_query dq)"
    by (simp add: d_local_def)
qed

lemma d_local_reading [keeps_intros]:
  "d_local live (numRows lib)" "d_local live numCols" "d_local live (getNumeric lib i)"
  "d_local live (getBigNumeric lib i)" "d_local live (getString lib i)"
  unfolding numRows_def numCols_def getNumeric_def getBigNumeric_def getString_def num_rows_def
    num_cols_def getlongval_def getulonglongval_def getstr_def int_column_def
  by (intro keeps_intros)+

lemma d_local_fetchRow [keeps_intros]: "dbi_handles lib live \<Longrightarrow> d_local live (fetchRow lib)"
  unfolding fetchRow_def by (intro keeps_intros)

lemma dq_close_same:
  assumes "dbi_handles lib live"
  shows "same_pools live s (dq_close lib dq s)"
  using assms
  by (auto simp: dq_close_def free_result_def same_pools_def dbi_handles_def Let_def split: option.splits)

lemma same_pools_inv:
  assumes "same_pools live s s'" and "pool_inv live s"
  shows "pool_inv live s'" and "db_held s' = db_held s"
  using pool_inv_same [OF assms(2), of s'] assms(1) by (simp_all add: same_pools_def)

text \<open>Whatever happens during the use, the connection is back in the pool afterwards.\<close>

lemma with_query_balanced:
  assumes h: "dbi_handles lib live" and inv: "pool_inv live s" and body: "d_local live body"
  shows "pool_inv live (snd (with_query lib ds body s))" and "db_held (snd (with_query lib ds body s)) = db_held s"
proof -
  define use where "use con s1 =
      (case body (s1, DBQuery_new con (ds_table ds)) of (r, s2, dq) \<Rightarrow> (r, dq_close lib dq s2))" for con s1
  have con: "q_con (dq_query (snd (snd (body (s1, DBQuery_new c (ds_table ds)))))) = c" for c s1
    using body by (simp add: d_local_def DBQuery_new_def Query_new_def)
  have "with_query lib ds body s = db_pool.scoped (lib, live) (ds_db ds) use s"
  proof (cases "grabdb lib (ds_db ds) s")
    case (Pair r s1)
    show ?thesis
    proof (cases r)
      case (Inr c)
      obtain r2 s2 dq where b: "body (s1, DBQuery_new c (ds_table ds)) = (r2, s2, dq)"
        by (metis prod_cases3)
      with con [of s1 c] have "q_con (dq_query dq) = c" by simp
      with Pair Inr b show ?thesis
        by (simp add: with_query_def db_pool.scoped_def use_def)
    qed (simp add: Pair with_query_def db_pool.scoped_def)
  qed
  moreover have "pool_inv live (snd (use c t)) \<and> db_held (snd (use c t)) = db_held t" if t: "pool_inv live t" for c t
  proof -
    obtain r s2 dq where b: "body (t, DBQuery_new c (ds_table ds)) = (r, s2, dq)" by (metis prod_cases3)
    with body have s2: "same_pools live t s2" unfolding d_local_def by (metis fst_conv snd_conv)
    show ?thesis
      using same_pools_inv [OF dq_close_same [OF h] same_pools_inv(1) [OF s2 t], of dq]
        same_pools_inv(2) [OF s2 t] by (simp add: use_def b)
  qed
  ultimately show "pool_inv live (snd (with_query lib ds body s))"
    and "db_held (snd (with_query lib ds body s)) = db_held s"
    using db_pool.scoped_balanced [of "(lib, live)" s use "ds_db ds"] h inv by simp_all
qed

end
