(* ===== verification/Core.thy ===== *)
theory Core
  imports Triplet Db_Data_Source
begin

text \<open>
  \<open>src/src/core.{h,cpp}\<close>: the chain of modules, each a matcher and a policy. A matcher says
  whether its policy applies; a policy decides or lets the chain go on. Both are virtual methods:
  here they are programs on a common state. \<open>src/src/whitelist.h\<close> and \<open>allmatcher.h\<close> are
  the two modules without a data source. The state of a request, \<open>world\<close>, extends the state
  of the databases with the request (\<open>Triplet\<close>), the annotations for the reply
  (\<open>Extra\<close>), the readings of the clock, and the caches of the cached matchers.
\<close>

record Extra =
  ex_comment :: string
  ex_prefix :: string
  ex_diff :: "64 word"
  ex_count :: "64 word"

definition Extra_new :: Extra where
  "Extra_new = \<lparr>ex_comment = [], ex_prefix = [], ex_diff = 0, ex_count = 0\<rparr>"

definition setComment :: "string \<Rightarrow> Extra \<Rightarrow> Extra" where
  "setComment c x = x\<lparr>ex_comment := c\<rparr>"

definition setPrefix :: "string \<Rightarrow> Extra \<Rightarrow> Extra" where
  "setPrefix p x = x\<lparr>ex_prefix := p\<rparr>"

definition Extra_set :: "string \<Rightarrow> 64 word \<Rightarrow> 64 word \<Rightarrow> Extra \<Rightarrow> Extra" where
  "Extra_set p c t x = x\<lparr>ex_prefix := p, ex_count := c, ex_diff := t\<rparr>"

datatype ActionType = Dunno | Defer | Cont | Error

fun ActionType_idx :: "ActionType \<Rightarrow> nat" where
  "ActionType_idx Dunno = 0"
| "ActionType_idx Defer = 1"
| "ActionType_idx Cont = 2"
| "ActionType_idx Error = 3"

section \<open>The chain\<close>

type_synonym 's matcher = "('s, bool) prog"
type_synonym 's policy = "('s, ActionType) prog"
type_synonym 's chain = "('s matcher \<times> 's policy) list"

definition push_back :: "'s matcher \<Rightarrow> 's policy \<Rightarrow> 's chain \<Rightarrow> 's chain" where
  "push_back m p chain = chain @ [(m, p)]"

fun process :: "'s chain \<Rightarrow> ('s, ActionType) prog" where
  "process [] = ret Dunno"
| "process ((m, p) # chain) =
     bindE m (\<lambda>matched.
       if \<not> matched then process chain
       else bindE p (\<lambda>action. if action \<noteq> Cont then ret action else process chain))"

text \<open>The modules that are passed: those that do not match, and those whose policy continues.\<close>

inductive passes :: "'s chain \<Rightarrow> 's \<Rightarrow> 's \<Rightarrow> bool" where
  passes_Nil: "passes [] s s"
| passes_nomatch: "m s = (Inr False, s1) \<Longrightarrow> passes chain s1 t \<Longrightarrow> passes ((m, p) # chain) s t"
| passes_cont: "m s = (Inr True, s1) \<Longrightarrow> p s1 = (Inr Cont, s2) \<Longrightarrow> passes chain s2 t \<Longrightarrow>
                passes ((m, p) # chain) s t"

inductive_simps passes_Nil_iff [simp]: "passes [] s t"
inductive_simps passes_Cons_iff: "passes ((m, p) # chain) s t"

lemma process_passes: "passes pre s t \<Longrightarrow> process (pre @ post) s = process post t"
  by (induction rule: passes.induct) (simp_all add: bindE_def)

lemma process_cases:
  assumes "process chain s = (r, t)"
  shows "(passes chain s t \<and> r = Inr Dunno) \<or>
    (\<exists>pre m p post s1. chain = pre @ (m, p) # post \<and> passes pre s s1 \<and>
       ((\<exists>e. m s1 = (Inl e, t) \<and> r = Inl e) \<or>
        (\<exists>s2 e. m s1 = (Inr True, s2) \<and> p s2 = (Inl e, t) \<and> r = Inl e) \<or>
        (\<exists>s2 a. m s1 = (Inr True, s2) \<and> p s2 = (Inr a, t) \<and> a \<noteq> Cont \<and> r = Inr a)))"
    (is "?all chain s \<or> ?stop chain s")
  using assms
proof (induction chain arbitrary: s)
  case (Cons mp chain)
  obtain m p where mp: "mp = (m, p)" by fastforce
  have later: "?all (mp # chain) s \<or> ?stop (mp # chain) s"
    if step: "\<And>u. passes chain s1 u \<Longrightarrow> passes (mp # chain) s u"
      and pre: "\<And>pre u. passes pre s1 u \<Longrightarrow> passes (mp # pre) s u"
      and run: "process chain s1 = (r, t)" for s1
    using Cons.IH [OF run]
  proof
    assume "?all chain s1"
    then show ?thesis using step by blast
  next
    assume "?stop chain s1"
    then show ?thesis by (metis append_Cons pre)
  qed
  obtain rm s1 where m: "m s = (rm, s1)" by fastforce
  show ?case
  proof (cases rm)
    case (Inl e)
    with m Cons.prems mp have "?stop (mp # chain) s"
      by (intro exI [of _ "[]"] exI [of _ m] exI [of _ p] exI [of _ chain] exI [of _ s]) (auto simp: bindE_def)
    then show ?thesis by blast
  next
    case (Inr matched)
    show ?thesis
    proof (cases matched)
      case False
      with Inr m Cons.prems mp later [of s1] show ?thesis
        by (auto simp: bindE_def intro: passes.intros)
    next
      case True
      obtain rp s2 where p: "p s1 = (rp, s2)" by fastforce
      show ?thesis
      proof (cases "rp = Inr Cont")
        case True
        with \<open>matched\<close> Inr m p Cons.prems mp later [of s2] show ?thesis
          by (auto simp: bindE_def intro: passes.intros)
      next
        case False
        with \<open>matched\<close> Inr m p Cons.prems mp have "?stop (mp # chain) s"
          by (intro exI [of _ "[]"] exI [of _ m] exI [of _ p] exI [of _ chain] exI [of _ s])
            (auto simp: bindE_def split: sum.splits if_splits)
        then show ?thesis by blast
      qed
    qed
  qed
qed simp

lemma keeps_process:
  assumes "\<And>m p. (m, p) \<in> set chain \<Longrightarrow> keeps P m \<and> keeps P p"
  shows "keeps P (process chain)"
  using assms
proof (induction chain)
  case (Cons mp chain)
  obtain m p where mp: "mp = (m, p)" by fastforce
  with Cons have "keeps P m" "keeps P p" "keeps P (process chain)" by auto
  then show ?case unfolding mp process.simps by (intro keeps_intros)
qed (simp add: keeps_ret)

text \<open>
  C4 (functional). The first module that matches and does not say "continue" decides, in the
  state the modules before it left; with no such module the answer is "dunno". The chain returns
  an action exactly in these two ways, and never the action "continue".
\<close>

theorem process_first_decision:
  "process chain s = (Inr a, t) \<longleftrightarrow>
     a \<noteq> Cont \<and>
     ((a = Dunno \<and> passes chain s t) \<or>
      (\<exists>pre m p post s1 s2. chain = pre @ (m, p) # post \<and> passes pre s s1 \<and>
         m s1 = (Inr True, s2) \<and> p s2 = (Inr a, t)))"
proof
  assume "process chain s = (Inr a, t)"
  from process_cases [OF this] show "a \<noteq> Cont \<and>
     ((a = Dunno \<and> passes chain s t) \<or>
      (\<exists>pre m p post s1 s2. chain = pre @ (m, p) # post \<and> passes pre s s1 \<and>
         m s1 = (Inr True, s2) \<and> p s2 = (Inr a, t)))"
  proof (elim disjE exE conjE)
    fix pre m p post s1 s2 b
    assume "chain = pre @ (m, p) # post" "passes pre s s1" "m s1 = (Inr True, s2)"
      "p s2 = (Inr b, t)" "b \<noteq> Cont" "Inr a = (Inr b :: exn + ActionType)"
    then show ?thesis by blast
  qed auto
next
  assume rhs: "a \<noteq> Cont \<and>
     ((a = Dunno \<and> passes chain s t) \<or>
      (\<exists>pre m p post s1 s2. chain = pre @ (m, p) # post \<and> passes pre s s1 \<and>
         m s1 = (Inr True, s2) \<and> p s2 = (Inr a, t)))"
  then show "process chain s = (Inr a, t)"
    using process_passes [of chain s t "[]"]
    by (auto simp: process_passes bindE_def)
qed

section \<open>The state of a request\<close>

type_synonym ExactCache = "string list \<times> (string, 32 word) stdmap"
type_synonym 'r PatternCache = "('r \<times> string) list"

text \<open>
  \<open>w_clock n\<close> is what the n-th call of \<open>time\<close> returns, \<open>w_reads\<close> the number of calls
  made. A cache handler is a singleton, built at its first use: its number at the refresh
  registry and the caches by the address of their data source.
\<close>

record ('e, 'r) world = "'e dbs" +
  w_triplet :: Triplet
  w_extra :: Extra
  w_clock :: "nat \<Rightarrow> 64 word"
  w_reads :: nat
  w_refresh :: "(32 word, nat) stdmap \<times> 32 word"
  w_exact :: "(32 word \<times> (nat, ExactCache) stdmap) option"
  w_pattern :: "(32 word \<times> (nat, 'r PatternCache) stdmap) option"

text \<open>What the program calls outside its sources.\<close>

record ('e, 'r) platform =
  pf_dbi :: "'e libdbi"
  pf_resolver :: resolver
  pf_regcomp :: "string \<Rightarrow> (int \<times> string) + 'r"
  pf_regexec :: "'r \<Rightarrow> string \<Rightarrow> int"
  pf_junk :: "32 word"

type_synonym ('e, 'r, 'a) wprog = "(('e, 'r) world, 'a) prog"

definition upd_extra :: "(Extra \<Rightarrow> Extra) \<Rightarrow> ('e, 'r, unit) wprog" where
  "upd_extra f = modify (\<lambda>s. s\<lparr>w_extra := f (w_extra s)\<rparr>)"

definition on_triplet :: "(Triplet \<Rightarrow> 'a \<times> Triplet) \<Rightarrow> ('e, 'r, 'a) wprog" where
  "on_triplet f s = (case f (w_triplet s) of (x, t) \<Rightarrow> (Inr x, s\<lparr>w_triplet := t\<rparr>))"

definition on_triplet_exn :: "(Triplet \<Rightarrow> (exn + 'a) \<times> Triplet) \<Rightarrow> ('e, 'r, 'a) wprog" where
  "on_triplet_exn f s = (case f (w_triplet s) of (r, t) \<Rightarrow> (r, s\<lparr>w_triplet := t\<rparr>))"

text \<open>A step of the request inside the life of a query.\<close>

definition on_world :: "('s, 'a) prog \<Rightarrow> ('s \<times> DBQuery, 'a) prog" where
  "on_world m = (\<lambda>(s, dq). case m s of (r, s') \<Rightarrow> (r, s', dq))"

definition getNow :: "('e, 'r, 64 word) wprog" where
  "getNow s = (Inr (w_clock s (w_reads s)), s\<lparr>w_reads := Suc (w_reads s)\<rparr>)"

lemma d_local_on_world:
  assumes "\<And>s. same_pools live s (snd (m s))"
  shows "d_local live (on_world m)"
  using assms by (auto simp: d_local_def on_world_def split: prod.splits) (metis snd_conv)

lemma d_local_extra [keeps_intros]: "d_local live (on_world (upd_extra f))"
  by (rule d_local_on_world) (simp add: upd_extra_def same_pools_def)

lemma d_local_triplet [keeps_intros]:
  "d_local live (on_world (on_triplet f))" "d_local live (on_world (on_triplet_exn g))"
  by (rule d_local_on_world; simp add: on_triplet_def on_triplet_exn_def same_pools_def split: prod.split)+

lemma d_local_world_gets [keeps_intros]: "d_local live (on_world (gets f))"
  by (rule d_local_on_world) (simp add: same_pools_def)

text \<open>The pools of a request: in order, and with the connections \<open>held\<close> in use.\<close>

definition balanced :: "('e \<Rightarrow> nat set) \<Rightarrow> (nat \<Rightarrow> nat set) \<Rightarrow> ('e, 'm) dbs_scheme \<Rightarrow> bool" where
  "balanced live held s \<longleftrightarrow> pool_inv live s \<and> db_held s = held"

lemma keeps_same_pools:
  assumes "\<And>s. same_pools live s (snd (m s))"
  shows "keeps (balanced live held) m"
  using same_pools_inv [OF assms] by (auto intro!: keepsI simp: balanced_def)

lemma keeps_with_query [keeps_intros]:
  assumes "dbi_handles lib live" and "d_local live body"
  shows "keeps (balanced live held) (with_query lib ds body)"
  using with_query_balanced [OF assms(1) _ assms(2)] by (auto intro!: keepsI simp: balanced_def)

lemma keeps_request_steps [keeps_intros]:
  "keeps (balanced live held) (upd_extra f)" "keeps (balanced live held) getNow"
  "keeps (balanced live held) (on_triplet g)" "keeps (balanced live held) (on_triplet_exn k)"
  by (rule keeps_same_pools;
      simp add: upd_extra_def getNow_def on_triplet_def on_triplet_exn_def same_pools_def split: prod.split)+

section \<open>Whitelist and AllMatch\<close>

definition Whitelist_decide :: "string \<Rightarrow> ('e, 'r) world policy" where
  "Whitelist_decide name = bindE (upd_extra (setPrefix (''wl '' @ name))) (\<lambda>_. ret Dunno)"

definition AllMatch_match :: "('e, 'r) world matcher" where
  "AllMatch_match = ret True"

lemma Whitelist_accepts:
  "Whitelist_decide name s = (Inr Dunno, s\<lparr>w_extra := setPrefix (''wl '' @ name) (w_extra s)\<rparr>)"
  by (simp add: Whitelist_decide_def upd_extra_def bindE_def)

lemma keeps_simple_modules [keeps_intros]:
  "keeps (balanced live held) (Whitelist_decide name)" "keeps (balanced live held) AllMatch_match"
  unfolding Whitelist_decide_def AllMatch_match_def by (intro keeps_intros)+

section \<open>A sample platform\<close>

text \<open>Concrete values of the parameters, for the witnesses.\<close>

definition sample_platform :: "(nat list, unit) platform" where
  "sample_platform =
     \<lparr>pf_dbi = pool_dbi, pf_resolver = (\<lambda>_. (0, [], [])), pf_regcomp = (\<lambda>_. Inr ()), pf_regexec = (\<lambda>_ _. 1), pf_junk = 0\<rparr>"

definition sample_world :: "(nat list, unit) world" where
  "sample_world =
     \<lparr>dbs_heap = dbs_heap sample_pool, dbs_eng = dbs_eng sample_pool,
      w_triplet = Triplet_new ''10.0.0.1'' ''a@b'' ''c@d'' [] [], w_extra = Extra_new, w_clock = (\<lambda>_. 0), w_reads = 0,
      w_refresh = ([], 0), w_exact = None, w_pattern = None\<rparr>"

lemma sample_platform_handles: "dbi_handles (pf_dbi sample_platform) set"
  by (simp add: sample_platform_def pool_dbi_handles)

lemma sample_world_balanced: "balanced set (db_held sample_pool) sample_world"
  using sample_pool_inv by (auto simp: balanced_def pool_inv_def sample_world_def db_held_def fun_eq_iff)

end
