(* ===== verification/Matchers.thy ===== *)
theory Matchers
  imports Core
begin

text \<open>
  The matchers with a data source: \<open>src/src/exactmatch.h\<close>, \<open>patternmatch.h\<close>,
  \<open>cachedexactmatch.h\<close> and \<open>cachedpatternmatch.h\<close>, with the regular expressions of
  \<open>regexcpp.h\<close>, the caches of \<open>cachehandler.h\<close> and their refresh, \<open>cacherefresh.h\<close>.
  The regular expression library is part of the platform. A cache is reached through its handler
  under a lock of \<open>readwriteable.h\<close>; here a request runs alone, so each operation of a
  handler is one step. \<open>Cache_Locks\<close> has the steps of threads that run at the same time.
\<close>

record Match =
  m_ds :: DataSource
  m_column :: string
  m_member :: nat
  m_returnfield :: string

definition triplet_member :: "('e, 'r) platform \<Rightarrow> nat \<Rightarrow> ('e, 'r, string) wprog" where
  "triplet_member pf i = on_triplet_exn (getMember (pf_resolver pf) i)"

section \<open>RegEx\<close>

definition RegEx_new :: "('e, 'r) platform \<Rightarrow> string \<Rightarrow> exn + 'r" where
  "RegEx_new pf expr =
     (case pf_regcomp pf expr of
        Inl (err, strErr) \<Rightarrow>
          Inl (RuntimeError (''Regex: '' @ strErr @ ''('' @ StrmConvert_int err @ ''), '' @ expr))
      | Inr r \<Rightarrow> Inr r)"

definition RegEx_match :: "('e, 'r) platform \<Rightarrow> 'r \<Rightarrow> string \<Rightarrow> bool" where
  "RegEx_match pf r s \<longleftrightarrow> pf_regexec pf r s = 0"

definition lift_exn :: "exn + 'a \<Rightarrow> ('s, 'a) prog" where
  "lift_exn r = (case r of Inl e \<Rightarrow> raise e | Inr x \<Rightarrow> ret x)"

section \<open>ExactMatch\<close>

definition exact_body :: "('e, 'r) platform \<Rightarrow> Match \<Rightarrow> (('e, 'r) world \<times> DBQuery, bool) prog" where
  "exact_body pf m =
     bindE (if m_returnfield m \<noteq> [] then upd_dq (addReturnField (m_returnfield m)) else ret ()) (\<lambda>_.
     bindE (on_world (triplet_member pf (m_member m))) (\<lambda>val.
     bindE (upd_dq (addWhere_str (m_column m) val ''='')) (\<lambda>_.
     bindE (dq_lookup (pf_dbi pf)) (\<lambda>_.
     bindE (numRows (pf_dbi pf)) (\<lambda>n.
     if n = 0 then ret False
     else bindE (if m_returnfield m \<noteq> []
                 then bindE (fetchRow (pf_dbi pf)) (\<lambda>_.
                      bindE (getString (pf_dbi pf) 1) (\<lambda>c.
                      on_world (upd_extra (setComment c))))
                 else ret ()) (\<lambda>_.
          ret True))))))"

definition ExactMatch_match :: "('e, 'r) platform \<Rightarrow> Match \<Rightarrow> ('e, 'r) world matcher" where
  "ExactMatch_match pf m = with_query (pf_dbi pf) (m_ds m) (exact_body pf m)"

section \<open>PatternMatch\<close>

text \<open>The loop over the rows; it ends early when there is no further row.\<close>

fun pattern_loop :: "('e, 'r) platform \<Rightarrow> Match \<Rightarrow> nat \<Rightarrow> (('e, 'r) world \<times> DBQuery, bool) prog" where
  "pattern_loop pf m 0 = ret False"
| "pattern_loop pf m (Suc n) =
     bindE (fetchRow (pf_dbi pf)) (\<lambda>more_rows.
     if \<not> more_rows then ret False
     else bindE (getString (pf_dbi pf) 1) (\<lambda>pattern.
          bindE (lift_exn (RegEx_new pf pattern)) (\<lambda>regex.
          bindE (on_world (triplet_member pf (m_member m))) (\<lambda>val.
          if RegEx_match pf regex val
          then bindE (getString (pf_dbi pf) 2) (\<lambda>c.
               bindE (on_world (upd_extra (setComment c))) (\<lambda>_.
               ret True))
          else pattern_loop pf m n))))"

definition pattern_body :: "('e, 'r) platform \<Rightarrow> Match \<Rightarrow> (('e, 'r) world \<times> DBQuery, bool) prog" where
  "pattern_body pf m =
     bindE (upd_dq (addReturnField (m_returnfield m) \<circ> addReturnField (m_column m))) (\<lambda>_.
     bindE (dq_lookup (pf_dbi pf)) (\<lambda>_.
     bindE (numRows (pf_dbi pf)) (\<lambda>n.
     let numrows = (ucast n :: 32 word) in
     if numrows = 0 then ret False else pattern_loop pf m (unat numrows))))"

definition PatternMatch_match :: "('e, 'r) platform \<Rightarrow> Match \<Rightarrow> ('e, 'r) world matcher" where
  "PatternMatch_match pf m = with_query (pf_dbi pf) (m_ds m) (pattern_body pf m)"

section \<open>CacheRefresh\<close>

text \<open>
  The registry of the functions that clear a handler, by number. The functions are the
  \<open>clear\<close> methods of the two handlers: 0 stands for the exact, 1 for the pattern handler.
\<close>

type_synonym CacheRefresh = "(32 word, nat) stdmap \<times> 32 word"

definition registerHandler :: "nat \<Rightarrow> CacheRefresh \<Rightarrow> 32 word \<times> CacheRefresh" where
  "registerHandler f cr =
     (case cr of (functions, countid) \<Rightarrow>
        let pos = countid + 1
        in (if smap_find functions pos = None then pos else 0, smap_insert pos f functions, pos))"

definition unregisterHandler :: "32 word \<Rightarrow> CacheRefresh \<Rightarrow> CacheRefresh" where
  "unregisterHandler i cr = (case cr of (functions, countid) \<Rightarrow> (smap_erase i functions, countid))"

definition CacheRefresh_size :: "CacheRefresh \<Rightarrow> nat" where
  "CacheRefresh_size cr = length (fst cr)"

definition handler_clear :: "nat \<Rightarrow> ('e, 'r) world \<Rightarrow> ('e, 'r) world" where
  "handler_clear f w =
     (if f = 0 then w\<lparr>w_exact := map_option (\<lambda>(i, caches). (i, [])) (w_exact w)\<rparr>
      else w\<lparr>w_pattern := map_option (\<lambda>(i, caches). (i, [])) (w_pattern w)\<rparr>)"

definition CacheRefresh_run :: "('e, 'r) world \<Rightarrow> ('e, 'r) world" where
  "CacheRefresh_run w = fold (\<lambda>(i, f). handler_clear f) (fst (w_refresh w)) w"

section \<open>CacheHandler\<close>

text \<open>
  \<open>instance()\<close>: the first use builds the handler with no caches and registers it.
  \<open>get\<close> and \<open>create\<close> use the address of the data source as the key; \<open>create\<close> looks
  again before it builds a cache with the factory.
\<close>

definition exact_instance :: "('e, 'r, unit) wprog" where
  "exact_instance = modify (\<lambda>w.
     case w_exact w of
       Some h \<Rightarrow> w
     | None \<Rightarrow> (case registerHandler 0 (w_refresh w) of
                 (i, cr) \<Rightarrow> w\<lparr>w_refresh := cr, w_exact := Some (i, [])\<rparr>))"

definition pattern_instance :: "('e, 'r, unit) wprog" where
  "pattern_instance = modify (\<lambda>w.
     case w_pattern w of
       Some h \<Rightarrow> w
     | None \<Rightarrow> (case registerHandler 1 (w_refresh w) of
                 (i, cr) \<Rightarrow> w\<lparr>w_refresh := cr, w_pattern := Some (i, [])\<rparr>))"

definition cache_get :: "(32 word \<times> (nat, 'c) stdmap) option \<Rightarrow> nat \<Rightarrow> 'c option" where
  "cache_get h ds = (case h of None \<Rightarrow> None | Some (i, caches) \<Rightarrow> smap_find caches ds)"

definition cache_put ::
    "nat \<Rightarrow> 'c \<Rightarrow> (32 word \<times> (nat, 'c) stdmap) option \<Rightarrow> (32 word \<times> (nat, 'c) stdmap) option" where
  "cache_put ds c h = map_option (\<lambda>(i, caches). (i, smap_insert ds c caches)) h"

definition cache_create ::
    "(('e, 'r) world \<Rightarrow> (32 word \<times> (nat, 'c) stdmap) option) \<Rightarrow>
     (((32 word \<times> (nat, 'c) stdmap) option \<Rightarrow> (32 word \<times> (nat, 'c) stdmap) option) \<Rightarrow>
        ('e, 'r) world \<Rightarrow> ('e, 'r) world) \<Rightarrow>
     nat \<Rightarrow> ('e, 'r, 'c) wprog \<Rightarrow> ('e, 'r, 'c) wprog" where
  "cache_create sel upd ds factory =
     bindE (gets (\<lambda>w. cache_get (sel w) ds)) (\<lambda>found.
     case found of
       Some c \<Rightarrow> ret c
     | None \<Rightarrow> bindE factory (\<lambda>c. bindE (modify (upd (cache_put ds c))) (\<lambda>_. ret c)))"

section \<open>CachedExactMatch\<close>

definition exact_add :: "string \<Rightarrow> string \<Rightarrow> 32 word \<Rightarrow> ExactCache \<Rightarrow> ExactCache" where
  "exact_add key val count cache =
     (fst cache @ [lowercase val], smap_insert (lowercase key) count (snd cache))"

text \<open>
  The loop of the factory. The counter has 32 bits, the number of rows \<open>n\<close> that the library announced 64. \<open>left\<close> is
  the number of announced rows that were not yet read: a library that delivers more of them than it announced, which
  below \<open>2^32\<close> rows is what the assertion finds, ends the program.
\<close>

fun exact_rows ::
    "('e, 'r) platform \<Rightarrow> 64 word \<Rightarrow> nat \<Rightarrow> 32 word \<Rightarrow> ExactCache \<Rightarrow> (('e, 'r) world \<times> DBQuery, ExactCache) prog" where
  "exact_rows pf n left count cache =
     bindE (fetchRow (pf_dbi pf)) (\<lambda>more_rows.
     if \<not> more_rows then ret cache
     else case left of
       0 \<Rightarrow> raise (Undefined ''assert(count < query->numRows())'')
     | Suc left' \<Rightarrow>
         if \<not> ucast count < n then raise (Undefined ''assert(count < query->numRows())'')
         else bindE (getString (pf_dbi pf) 1) (\<lambda>key.
              bindE (getString (pf_dbi pf) 2) (\<lambda>val.
              exact_rows pf n left' (count + 1) (exact_add key val count cache))))"

declare exact_rows.simps [simp del]

definition exact_factory :: "('e, 'r) platform \<Rightarrow> Match \<Rightarrow> ('e, 'r, ExactCache) wprog" where
  "exact_factory pf m = with_query (pf_dbi pf) (m_ds m)
     (bindE (upd_dq (addReturnField (m_returnfield m) \<circ> addReturnField (m_column m))) (\<lambda>_.
      bindE (dq_lookup (pf_dbi pf)) (\<lambda>_.
      bindE (numRows (pf_dbi pf)) (\<lambda>n.
      exact_rows pf n (unat n) 0 ([], [])))))"

text \<open>What the match does with the cache it got.\<close>

definition exact_lookup :: "('e, 'r) platform \<Rightarrow> Match \<Rightarrow> ExactCache \<Rightarrow> ('e, 'r, bool) wprog" where
  "exact_lookup pf m cache =
     bindE (triplet_member pf (m_member m)) (\<lambda>val.
     case smap_find (snd cache) val of
       None \<Rightarrow> ret False
     | Some i \<Rightarrow>
         if unat i < length (fst cache)
         then bindE (upd_extra (setComment (fst cache ! unat i))) (\<lambda>_. ret True)
         else raise (Undefined ''_data[i] out of range''))"

definition CachedExactMatch_match :: "('e, 'r) platform \<Rightarrow> Match \<Rightarrow> ('e, 'r) world matcher" where
  "CachedExactMatch_match pf m =
     bindE exact_instance (\<lambda>_.
     bindE (gets (\<lambda>w. cache_get (w_exact w) (ds_ptr (m_ds m)))) (\<lambda>found.
     bindE (case found of
              Some c \<Rightarrow> ret c
            | None \<Rightarrow> cache_create w_exact w_exact_update (ds_ptr (m_ds m)) (exact_factory pf m)) (\<lambda>cache.
     exact_lookup pf m cache)))"

section \<open>CachedPatternMatch\<close>

fun pattern_rows ::
    "('e, 'r) platform \<Rightarrow> 64 word \<Rightarrow> nat \<Rightarrow> 32 word \<Rightarrow> 'r PatternCache \<Rightarrow> (('e, 'r) world \<times> DBQuery, 'r PatternCache) prog" where
  "pattern_rows pf n left count cache =
     bindE (fetchRow (pf_dbi pf)) (\<lambda>more_rows.
     if \<not> more_rows then ret cache
     else case left of
       0 \<Rightarrow> raise (Undefined ''assert(count < query->numRows())'')
     | Suc left' \<Rightarrow>
         if \<not> ucast count < n then raise (Undefined ''assert(count < query->numRows())'')
         else bindE (getString (pf_dbi pf) 1) (\<lambda>exp.
              bindE (getString (pf_dbi pf) 2) (\<lambda>val.
              bindE (lift_exn (RegEx_new pf exp)) (\<lambda>r.
              pattern_rows pf n left' (count + 1) (cache @ [(r, val)])))))"

declare pattern_rows.simps [simp del]

definition pattern_factory :: "('e, 'r) platform \<Rightarrow> Match \<Rightarrow> ('e, 'r, 'r PatternCache) wprog" where
  "pattern_factory pf m = with_query (pf_dbi pf) (m_ds m)
     (bindE (upd_dq (addReturnField (m_returnfield m) \<circ> addReturnField (m_column m))) (\<lambda>_.
      bindE (dq_lookup (pf_dbi pf)) (\<lambda>_.
      bindE (numRows (pf_dbi pf)) (\<lambda>n.
      pattern_rows pf n (unat n) 0 []))))"

fun match_patterns :: "('e, 'r) platform \<Rightarrow> Match \<Rightarrow> 'r PatternCache \<Rightarrow> ('e, 'r, bool) wprog" where
  "match_patterns pf m [] = ret False"
| "match_patterns pf m ((r, c) # rows) =
     bindE (triplet_member pf (m_member m)) (\<lambda>val.
     if RegEx_match pf r val then bindE (upd_extra (setComment c)) (\<lambda>_. ret True)
     else match_patterns pf m rows)"

definition CachedPatternMatch_match :: "('e, 'r) platform \<Rightarrow> Match \<Rightarrow> ('e, 'r) world matcher" where
  "CachedPatternMatch_match pf m =
     bindE pattern_instance (\<lambda>_.
     bindE (gets (\<lambda>w. cache_get (w_pattern w) (ds_ptr (m_ds m)))) (\<lambda>found.
     bindE (case found of
              Some c \<Rightarrow> ret c
            | None \<Rightarrow> cache_create w_pattern w_pattern_update (ds_ptr (m_ds m)) (pattern_factory pf m)) (\<lambda>cache.
     match_patterns pf m cache)))"

section \<open>No matcher keeps a connection\<close>

lemma d_local_lift_exn [keeps_intros]: "d_local live (lift_exn r)"
  unfolding lift_exn_def by (cases r) (simp_all only: sum.case keeps_intros)

lemma d_local_member [keeps_intros]: "d_local live (on_world (triplet_member pf i))"
  unfolding triplet_member_def by (rule d_local_triplet)

lemma keeps_member [keeps_intros]: "keeps (balanced live held) (triplet_member pf i)"
  unfolding triplet_member_def by (intro keeps_intros)

lemma keeps_ExactMatch [keeps_intros]:
  assumes "dbi_handles (pf_dbi pf) live"
  shows "keeps (balanced live held) (ExactMatch_match pf m)"
  unfolding ExactMatch_match_def exact_body_def by (intro keeps_intros assms) simp_all

lemma d_local_pattern_loop [keeps_intros]:
  assumes "dbi_handles (pf_dbi pf) live"
  shows "d_local live (pattern_loop pf m n)"
proof (induction n)
  case (Suc n)
  show ?case unfolding pattern_loop.simps by (intro keeps_intros assms Suc.IH)
qed (simp only: pattern_loop.simps keeps_intros)

lemma keeps_PatternMatch [keeps_intros]:
  assumes "dbi_handles (pf_dbi pf) live"
  shows "keeps (balanced live held) (PatternMatch_match pf m)"
  unfolding PatternMatch_match_def pattern_body_def Let_def by (intro keeps_intros assms) simp_all

lemma d_local_case_nat [keeps_intros]:
  "(n = 0 \<Longrightarrow> d_local live a) \<Longrightarrow> (\<And>k. n = Suc k \<Longrightarrow> d_local live (b k)) \<Longrightarrow> d_local live (case n of 0 \<Rightarrow> a | Suc k \<Rightarrow> b k)"
  by (cases n) simp_all

lemma d_local_exact_rows [keeps_intros]:
  assumes "dbi_handles (pf_dbi pf) live"
  shows "d_local live (exact_rows pf n left count cache)"
proof (induction left arbitrary: count cache rule: less_induct)
  case (less left)
  show ?case by (subst exact_rows.simps) (intro keeps_intros assms less.IH; simp)
qed

lemma d_local_pattern_rows [keeps_intros]:
  assumes "dbi_handles (pf_dbi pf) live"
  shows "d_local live (pattern_rows pf n left count cache)"
proof (induction left arbitrary: count cache rule: less_induct)
  case (less left)
  show ?case by (subst pattern_rows.simps) (intro keeps_intros assms less.IH; simp)
qed

lemma keeps_factories [keeps_intros]:
  assumes "dbi_handles (pf_dbi pf) live"
  shows "keeps (balanced live held) (exact_factory pf m)" "keeps (balanced live held) (pattern_factory pf m)"
  unfolding exact_factory_def pattern_factory_def by (intro keeps_intros assms; simp)+

lemma keeps_instances [keeps_intros]:
  "keeps (balanced live held) exact_instance" "keeps (balanced live held) pattern_instance"
  by (rule keeps_same_pools;
      simp add: exact_instance_def pattern_instance_def same_pools_def split: option.split prod.split)+

lemma keeps_cache_create [keeps_intros]:
  assumes "keeps (balanced live held) factory" and "\<And>f w. same_pools live w (upd f w)"
  shows "keeps (balanced live held) (cache_create sel upd ds factory)"
  unfolding cache_create_def
  by (intro keeps_intros assms(1) keeps_same_pools) (simp add: assms(2))

lemma keeps_match_patterns [keeps_intros]: "keeps (balanced live held) (match_patterns pf m rows)"
proof (induction rows)
  case (Cons row rows)
  obtain r c where "row = (r, c)" by fastforce
  then show ?case by (simp only: match_patterns.simps) (intro keeps_intros Cons.IH)
qed (simp only: match_patterns.simps keeps_intros)

lemma keeps_CachedMatch [keeps_intros]:
  assumes "dbi_handles (pf_dbi pf) live"
  shows "keeps (balanced live held) (CachedExactMatch_match pf m)"
    and "keeps (balanced live held) (CachedPatternMatch_match pf m)"
  unfolding CachedExactMatch_match_def exact_lookup_def CachedPatternMatch_match_def
  by (intro keeps_intros assms; simp add: same_pools_def)+

section \<open>The caches\<close>

text \<open>The cache of given rows: what \<^const>\<open>exact_add\<close> makes of them, with the counter of the loop.\<close>

definition exact_cache_of :: "(string \<times> string) list \<Rightarrow> ExactCache" where
  "exact_cache_of rows = fold (\<lambda>(i, k, v). exact_add k v (of_nat i)) (enumerate 0 rows) ([], [])"

lemma exact_cache_snoc: "exact_cache_of (rows @ [(k, v)]) = exact_add k v (of_nat (length rows)) (exact_cache_of rows)"
  by (simp add: exact_cache_of_def enumerate_append_eq)

lemma exact_cache_inv:
  "length rows \<le> 2 ^ 32 \<Longrightarrow>
   fst (exact_cache_of rows) = map (lowercase \<circ> snd) rows \<and> smap_ok (snd (exact_cache_of rows)) \<and>
   (\<forall>x. case smap_find (snd (exact_cache_of rows)) x of
          None \<Rightarrow> x \<notin> set (map (lowercase \<circ> fst) rows)
        | Some i \<Rightarrow> unat i < length rows \<and> lowercase (fst (rows ! unat i)) = x \<and>
                    (\<forall>j < unat i. lowercase (fst (rows ! j)) \<noteq> x))"
proof (induction rows rule: rev_induct)
  case Nil
  show ?case by (simp add: exact_cache_of_def)
next
  case (snoc kv rows)
  obtain k v where kv: "kv = (k, v)" by fastforce
  let ?c = "exact_cache_of rows"
  have len: "unat (of_nat (length rows) :: 32 word) = length rows"
    using snoc.prems by (simp add: unat_of_nat)
  from snoc have data: "fst ?c = map (lowercase \<circ> snd) rows" and ok: "smap_ok (snd ?c)"
    and idx: "\<And>x. case smap_find (snd ?c) x of
          None \<Rightarrow> x \<notin> set (map (lowercase \<circ> fst) rows)
        | Some i \<Rightarrow> unat i < length rows \<and> lowercase (fst (rows ! unat i)) = x \<and> (\<forall>j < unat i. lowercase (fst (rows ! j)) \<noteq> x)"
    by auto
  have find: "smap_find (snd (exact_cache_of (rows @ [kv]))) x =
      (if x = lowercase k \<and> smap_find (snd ?c) x = None then Some (of_nat (length rows)) else smap_find (snd ?c) x)" for x
    using ok by (auto simp: kv exact_cache_snoc exact_add_def smap_find_insert)
  have "case smap_find (snd (exact_cache_of (rows @ [kv]))) x of
          None \<Rightarrow> x \<notin> set (map (lowercase \<circ> fst) (rows @ [kv]))
        | Some i \<Rightarrow> unat i < length (rows @ [kv]) \<and> lowercase (fst ((rows @ [kv]) ! unat i)) = x \<and>
                    (\<forall>j < unat i. lowercase (fst ((rows @ [kv]) ! j)) \<noteq> x)" for x
  proof (cases "smap_find (snd ?c) x")
    case None
    then have new: "x \<notin> set (map (lowercase \<circ> fst) rows)" using idx [of x] by simp
    then have "\<forall>j < length rows. lowercase (fst (rows ! j)) \<noteq> x" using nth_mem by fastforce
    with None new len show ?thesis
      by (cases "x = lowercase k") (simp_all add: find, simp_all add: kv nth_append)
  next
    case (Some i)
    with idx [of x] show ?thesis by (auto simp: find nth_append)
  qed
  moreover have "fst (exact_cache_of (rows @ [kv])) = map (lowercase \<circ> snd) (rows @ [kv])"
    using data by (simp add: kv exact_cache_snoc exact_add_def)
  moreover have "smap_ok (snd (exact_cache_of (rows @ [kv])))"
    using ok by (simp add: kv exact_cache_snoc exact_add_def)
  ultimately show ?case by blast
qed

lemma map_of_first:
  "i < length xs \<Longrightarrow> fst (xs ! i) = x \<Longrightarrow> \<forall>j < i. fst (xs ! j) \<noteq> x \<Longrightarrow> map_of xs x = Some (snd (xs ! i))"
proof (induction xs arbitrary: i)
  case (Cons a xs)
  show ?case
  proof (cases i)
    case (Suc k)
    with Cons have "map_of xs x = Some (snd (xs ! k))" by (metis Suc_less_eq length_Cons nth_Cons_Suc)
    moreover have "fst a \<noteq> x" using Cons.prems(3) Suc by auto
    ultimately show ?thesis using Suc by (cases a) auto
  qed (use Cons in \<open>cases a; simp\<close>)
qed simp

abbreviation lower_rows :: "(string \<times> string) list \<Rightarrow> (string \<times> string) list" where
  "lower_rows rows \<equiv> map (\<lambda>(k, v). (lowercase k, lowercase v)) rows"

lemma exact_cache_find:
  assumes "length rows \<le> 2 ^ 32"
  shows "case smap_find (snd (exact_cache_of rows)) x of
     None \<Rightarrow> map_of (lower_rows rows) x = None
   | Some i \<Rightarrow> unat i < length (fst (exact_cache_of rows)) \<and>
       map_of (lower_rows rows) x = Some (fst (exact_cache_of rows) ! unat i)"
proof -
  note inv = exact_cache_inv [OF assms]
  have data: "fst (exact_cache_of rows) = map (lowercase \<circ> snd) rows"
    using inv by (rule conjunct1)
  have idx: "case smap_find (snd (exact_cache_of rows)) x of
          None \<Rightarrow> x \<notin> set (map (lowercase \<circ> fst) rows)
        | Some i \<Rightarrow> unat i < length rows \<and> lowercase (fst (rows ! unat i)) = x \<and> (\<forall>j < unat i. lowercase (fst (rows ! j)) \<noteq> x)"
    using inv by blast
  show ?thesis
  proof (cases "smap_find (snd (exact_cache_of rows)) x")
    case None
    with idx have "x \<notin> set (map (lowercase \<circ> fst) rows)" by simp
    then have "map_of (lower_rows rows) x = None" by (simp add: map_of_eq_None_iff image_image split_beta)
    with None show ?thesis by simp
  next
    case (Some i)
    with idx have i: "unat i < length rows" "lowercase (fst (rows ! unat i)) = x" "\<forall>j < unat i. lowercase (fst (rows ! j)) \<noteq> x"
      by simp_all
    then have "map_of (lower_rows rows) x = Some (snd (lower_rows rows ! unat i))"
      by (intro map_of_first) (auto simp: split_beta)
    with Some i(1) data show ?thesis by (simp add: split_beta)
  qed
qed

section \<open>A cached exact match answers as its table\<close>

text \<open>
  The reference. \<open>table_rows\<close> reads the table with the same calls of the library and returns the pairs of the two
  columns as they came; \<open>answer_rows\<close> is a match against such a list: the first row whose key, in lower case, is the member.
\<close>

fun read_rows ::
    "('e, 'r) platform \<Rightarrow> 64 word \<Rightarrow> nat \<Rightarrow> (string \<times> string) list \<Rightarrow> (('e, 'r) world \<times> DBQuery, (string \<times> string) list) prog" where
  "read_rows pf n left rows =
     bindE (fetchRow (pf_dbi pf)) (\<lambda>more_rows.
     if \<not> more_rows then ret rows
     else if left = 0 \<or> \<not> ucast (of_nat (length rows) :: 32 word) < n
     then raise (Undefined ''assert(count < query->numRows())'')
     else bindE (getString (pf_dbi pf) 1) (\<lambda>key.
          bindE (getString (pf_dbi pf) 2) (\<lambda>val.
          read_rows pf n (left - 1) (rows @ [(key, val)]))))"

declare read_rows.simps [simp del]

definition table_rows :: "('e, 'r) platform \<Rightarrow> Match \<Rightarrow> ('e, 'r, (string \<times> string) list) wprog" where
  "table_rows pf m = with_query (pf_dbi pf) (m_ds m)
     (bindE (upd_dq (addReturnField (m_returnfield m) \<circ> addReturnField (m_column m))) (\<lambda>_.
      bindE (dq_lookup (pf_dbi pf)) (\<lambda>_.
      bindE (numRows (pf_dbi pf)) (\<lambda>n. read_rows pf n (unat n) []))))"

definition answer_rows :: "('e, 'r) platform \<Rightarrow> Match \<Rightarrow> (string \<times> string) list \<Rightarrow> ('e, 'r, bool) wprog" where
  "answer_rows pf m rows =
     bindE (triplet_member pf (m_member m)) (\<lambda>val.
     case map_of (lower_rows rows) val of
       None \<Rightarrow> ret False
     | Some comment \<Rightarrow> bindE (upd_extra (setComment comment)) (\<lambda>_. ret True))"

lemma exact_rows_read:
  "exact_rows pf n left (of_nat (length rows)) (exact_cache_of rows) =
   bindE (read_rows pf n left rows) (\<lambda>rows. ret (exact_cache_of rows))"
proof (induction left arbitrary: rows)
  case 0
  show ?case
    by (subst exact_rows.simps, subst read_rows.simps, rule ext) (auto simp: bindE_def split: prod.splits sum.splits)
next
  case (Suc left)
  have step: "exact_rows pf n left (of_nat (length rows) + 1) (exact_add k v (of_nat (length rows)) (exact_cache_of rows)) =
      bindE (read_rows pf n left (rows @ [(k, v)])) (\<lambda>rows. ret (exact_cache_of rows))" for k v
  proof -
    have "of_nat (length (rows @ [(k, v)])) = of_nat (length rows) + (1 :: 32 word)" by simp
    then show ?thesis using Suc.IH [of "rows @ [(k, v)]"] by (simp only: exact_cache_snoc)
  qed
  show ?case
    by (subst exact_rows.simps, subst read_rows.simps, rule ext) (simp add: step bindE_def split: prod.splits sum.splits)
qed

lemma with_query_bind_ret:
  "with_query lib ds (bindE body (\<lambda>x. ret (f x))) = bindE (with_query lib ds body) (\<lambda>x. ret (f x))"
  by (rule ext) (simp add: with_query_def bindE_def split: prod.splits sum.splits)

lemma exact_factory_rows: "exact_factory pf m = bindE (table_rows pf m) (\<lambda>rows. ret (exact_cache_of rows))"
proof -
  have "exact_rows pf n (unat n) 0 ([], []) = bindE (read_rows pf n (unat n) []) (\<lambda>rows. ret (exact_cache_of rows))" for n
    using exact_rows_read [of pf n "unat n" "[]"] by (simp add: exact_cache_of_def)
  then show ?thesis
    unfolding exact_factory_def table_rows_def by (simp add: with_query_bind_ret flip: bindE_assoc)
qed

lemma bindE_ret: "bindE (ret x) k = k x"
  by (rule ext) simp

lemma answer_cache:
  assumes "length rows \<le> 2 ^ 32"
  shows "exact_lookup pf m (exact_cache_of rows) = answer_rows pf m rows"
  unfolding exact_lookup_def answer_rows_def
proof (rule arg_cong [where f = "bindE (triplet_member pf (m_member m))"], rule ext)
  fix val
  show "(case smap_find (snd (exact_cache_of rows)) val of
       None \<Rightarrow> ret False
     | Some i \<Rightarrow>
         if unat i < length (fst (exact_cache_of rows))
         then bindE (upd_extra (setComment (fst (exact_cache_of rows) ! unat i))) (\<lambda>_. ret True)
         else raise (Undefined ''_data[i] out of range'')) =
     (case map_of (lower_rows rows) val of
       None \<Rightarrow> ret False
     | Some comment \<Rightarrow> bindE (upd_extra (setComment comment)) (\<lambda>_. ret True))"
    using exact_cache_find [OF assms, of val] by (auto split: option.splits)
qed

subsection \<open>A query leaves the rest of the request alone\<close>

definition d_frame :: "('e, 'm, 'a) dprog \<Rightarrow> bool" where
  "d_frame m \<longleftrightarrow> (\<forall>s dq. dbs.more (fst (snd (m (s, dq)))) = dbs.more s)"

lemma d_frame_bindE: "d_frame m \<Longrightarrow> (\<And>x. d_frame (k x)) \<Longrightarrow> d_frame (bindE m k)"
  unfolding d_frame_def
proof (intro allI)
  fix s dq
  assume m: "\<forall>s dq. dbs.more (fst (snd (m (s, dq)))) = dbs.more s"
    and k: "\<And>x. \<forall>s dq. dbs.more (fst (snd (k x (s, dq)))) = dbs.more s"
  obtain r s1 dq1 where "m (s, dq) = (r, s1, dq1)" by (metis prod_cases3)
  then show "dbs.more (fst (snd (bindE m k (s, dq)))) = dbs.more s"
    using m [rule_format, of s dq] k [rule_format, of _ s1 dq1] by (cases r) (simp_all add: bindE_def)
qed

lemma d_frame_if: "d_frame m \<Longrightarrow> d_frame n \<Longrightarrow> d_frame (if b then m else n)"
  by simp

lemma d_frame_basic: "d_frame (ret x)" "d_frame (raise e)" "d_frame (upd_dq f)"
  by (simp_all add: d_frame_def upd_dq_def)

lemma more_upd [simp]:
  "dbs.more (upd_eng f s) = dbs.more s" "dbs.more (upd_db i g s) = dbs.more s"
  by (simp_all add: upd_eng_def upd_db_def)

lemma d_frame_queries:
  "d_frame (numRows lib)" "d_frame (fetchRow lib)" "d_frame (getString lib i)" "d_frame (dq_lookup lib)"
  by (auto simp: d_frame_def numRows_def fetchRow_def getString_def dq_lookup_def on_query_def num_rows_def fetch_row_def getstr_def
      get_resultf_def executef_def run_query_def load_fields_def bindE_def upd_dq_def Let_def
      split: prod.splits sum.splits option.splits if_splits)

lemma d_frame_read_rows: "d_frame (read_rows pf n left rows)"
proof (induction left arbitrary: rows)
  case 0
  show ?case
    by (subst read_rows.simps) (simp only: simp_thms if_True, intro d_frame_bindE d_frame_if d_frame_basic d_frame_queries)
next
  case (Suc left)
  show ?case
    by (subst read_rows.simps)
      (simp only: diff_Suc_1, intro d_frame_bindE d_frame_if d_frame_basic d_frame_queries Suc.IH)
qed

lemma grabdb_more: "dbs.more (snd (grabdb lib i s)) = dbs.more s"
  by (simp add: grabdb_def grab_new_def Let_def split: prod.splits option.splits)

lemma freedb_more: "dbs.more (snd (freedb lib i con s)) = dbs.more s"
  by (simp add: freedb_def Let_def)

lemma dq_close_more: "dbs.more (dq_close lib dq s) = dbs.more s"
  by (simp add: dq_close_def free_result_def Let_def split: prod.splits option.splits)

lemma with_query_more:
  assumes "d_frame body"
  shows "dbs.more (snd (with_query lib ds body s)) = dbs.more s"
proof -
  obtain g s1 where g: "grabdb lib (ds_db ds) s = (g, s1)" by fastforce
  then have s1: "dbs.more s1 = dbs.more s" using grabdb_more [of lib "ds_db ds" s] by simp
  show ?thesis
  proof (cases g)
    case (Inr con)
    obtain r s2 dq where b: "body (s1, DBQuery_new con (ds_table ds)) = (r, s2, dq)" by (metis prod_cases3)
    then have "dbs.more s2 = dbs.more s1" using assms unfolding d_frame_def by (metis fst_conv snd_conv)
    then show ?thesis
      using g Inr b s1 freedb_more [of lib "ds_db ds" "q_con (dq_query dq)" "dq_close lib dq s2"] dq_close_more [of lib dq s2]
      by (auto simp: with_query_def split: prod.splits sum.splits)
  qed (use g s1 in \<open>simp add: with_query_def\<close>)
qed

lemma table_rows_caches: "w_exact (snd (table_rows pf m w)) = w_exact w"
proof -
  have "dbs.more (snd (table_rows pf m w)) = dbs.more w"
    unfolding table_rows_def by (intro with_query_more d_frame_bindE d_frame_basic d_frame_queries d_frame_read_rows)
  then show ?thesis by (cases w; cases "snd (table_rows pf m w)") simp
qed

lemma exact_instance_handler: "\<exists>i caches. w_exact (snd (exact_instance w)) = Some (i, caches)"
  by (auto simp: exact_instance_def split: option.splits prod.splits)

lemma smap_find_inserted: "smap_find ms k = None \<Longrightarrow> smap_find (smap_insert k v ms) k = Some v"
  by (induction k v ms rule: smap_insert.induct) (auto split: if_splits)

lemma cache_get_put: "h \<noteq> None \<Longrightarrow> cache_get h ds = None \<Longrightarrow> cache_get (cache_put ds c h) ds = Some c"
  by (auto simp: cache_get_def cache_put_def smap_find_inserted)

lemma match_cached:
  assumes "cache_get (w_exact w) (ds_ptr (m_ds m)) = Some (exact_cache_of rows)" and "length rows \<le> 2 ^ 32"
  shows "CachedExactMatch_match pf m w = answer_rows pf m rows w"
proof -
  have "exact_instance w = (Inr (), w)"
    using assms(1) by (auto simp: exact_instance_def cache_get_def split: option.splits)
  then show ?thesis
    using assms(1) answer_cache [OF assms(2), of pf m] by (simp add: CachedExactMatch_match_def bindE_ret)
qed

text \<open>
  C30 (equivalence). A cached exact match answers as the rows of its table. With no cache yet, the match makes the
  calls of the library that read the table, fails as they fail, and else answers from the rows that came: the
  comment is the lower-cased second column of the first row whose lower-cased first column is the member, and without
  such a row the match is false; no index is out of range. Every later match on that data source, in any state whose caches
  are those left behind, answers from the same rows without a query. The rows are at most \<open>2^32\<close>, the range of the counter.
\<close>

theorem cached_exact_match:
  assumes none: "cache_get (w_exact w) (ds_ptr (m_ds m)) = None"
    and rows: "table_rows pf m (snd (exact_instance w)) = (r, w1)"
  shows "case r of
      Inl e \<Rightarrow> CachedExactMatch_match pf m w = (Inl e, w1)
    | Inr rows \<Rightarrow> length rows \<le> 2 ^ 32 \<longrightarrow>
        (let w2 = w1\<lparr>w_exact := cache_put (ds_ptr (m_ds m)) (exact_cache_of rows) (w_exact w1)\<rparr> in
         CachedExactMatch_match pf m w = answer_rows pf m rows w2 \<and>
         (\<forall>m' w3. ds_ptr (m_ds m') = ds_ptr (m_ds m) \<and> w_exact w3 = w_exact w2 \<longrightarrow>
            CachedExactMatch_match pf m' w3 = answer_rows pf m' rows w3))"
proof -
  let ?w0 = "snd (exact_instance w)" and ?p = "ds_ptr (m_ds m)"
  have i: "exact_instance w = (Inr (), ?w0)" by (simp add: exact_instance_def)
  have none0: "cache_get (w_exact ?w0) ?p = None"
    using none by (auto simp: exact_instance_def cache_get_def registerHandler_def Let_def split: option.splits prod.splits)
  have w1: "w_exact w1 = w_exact ?w0" using table_rows_caches [of pf m ?w0] rows by simp
  let ?create = "cache_create w_exact w_exact_update ?p (exact_factory pf m)"
  have match: "CachedExactMatch_match pf m w = bindE ?create (exact_lookup pf m) ?w0"
    using i none0 by (simp add: CachedExactMatch_match_def)
  show ?thesis
  proof (cases r)
    case (Inl e)
    have "?create ?w0 = (Inl e, w1)"
      using none0 rows Inl by (simp add: cache_create_def exact_factory_rows)
    then show ?thesis using Inl match by simp
  next
    case (Inr rs)
    let ?w2 = "w1\<lparr>w_exact := cache_put ?p (exact_cache_of rs) (w_exact w1)\<rparr>"
    have "w_exact w1 \<noteq> None" using w1 exact_instance_handler [of w] by auto
    then have put: "cache_get (w_exact ?w2) ?p = Some (exact_cache_of rs)"
      using none0 w1 by (simp add: cache_get_put)
    have "?create ?w0 = (Inr (exact_cache_of rs), ?w2)"
      using none0 rows Inr by (simp add: cache_create_def exact_factory_rows bindE_def)
    then have "CachedExactMatch_match pf m w = answer_rows pf m rs ?w2" if "length rs \<le> 2 ^ 32"
      using match answer_cache [OF that, of pf m] by simp
    moreover have "CachedExactMatch_match pf m' w3 = answer_rows pf m' rs w3"
      if "length rs \<le> 2 ^ 32" "ds_ptr (m_ds m') = ?p" "w_exact w3 = w_exact ?w2" for m' w3
      using put that by (intro match_cached) simp_all
    ultimately show ?thesis using Inr by (simp add: Let_def)
  qed
qed

text \<open>A library with one table of three rows; its state is the number of rows that were read.\<close>

definition table_dbi :: "nat libdbi" where
  "table_dbi =
     \<lparr>dbi_initialize = 1,
      dbi_conn_new = (\<lambda>t e. (Some 1, e)),
      dbi_conn_set_option = (\<lambda>c k v e. (0, e)),
      dbi_conn_set_option_numeric = (\<lambda>c k v e. (0, e)),
      dbi_conn_connect = (\<lambda>c e. (0, e)),
      dbi_conn_ping = (\<lambda>c e. (1, e)),
      dbi_conn_close = (\<lambda>c e. e),
      dbi_conn_error_flag = (\<lambda>c e. 0),
      dbi_conn_error = (\<lambda>c e. (0, [])),
      dbi_conn_quote_string_copy = (\<lambda>c s e. Some s),
      dbi_conn_query = (\<lambda>c q e. (Some 0, 0)),
      dbi_conn_sequence_last = (\<lambda>c e. 0),
      dbi_result_free = (\<lambda>r e. e),
      dbi_result_get_numfields = (\<lambda>r e. 2),
      dbi_result_get_field_name = (\<lambda>r i e. None),
      dbi_result_get_field_type_idx = (\<lambda>r i e. 3),
      dbi_result_get_numrows = (\<lambda>r e. 3),
      dbi_result_next_row = (\<lambda>r e. if e < 3 then (1, e + 1) else (0, e)),
      dbi_result_get_string_idx = (\<lambda>r i e.
        Some ((if i = 1 then [''A@B.org'', ''x@y.org'', ''a@b.org''] else [''One'', ''Two'', ''Three'']) ! (e - 1))),
      dbi_result_get_int_idx = (\<lambda>r i e. 0),
      dbi_result_get_long_idx = (\<lambda>r i e. 0),
      dbi_result_get_ulonglong_idx = (\<lambda>r i e. 0),
      DBI_TYPE_INTEGER = 1,
      DBI_TYPE_STRING = 3\<rparr>"

definition table_platform :: "(nat, unit) platform" where
  "table_platform =
     \<lparr>pf_dbi = table_dbi, pf_resolver = (\<lambda>_. (0, [], [])), pf_regcomp = (\<lambda>_. Inr ()), pf_regexec = (\<lambda>_ _. 1), pf_junk = 0\<rparr>"

definition table_world :: "(nat, unit) world" where
  "table_world =
     \<lparr>dbs_heap = (\<lambda>i. Database_new [(''type'', ''mysql'')] 10), dbs_eng = 0,
      w_triplet = Triplet_new ''10.0.0.1'' ''a@b.ORG'' ''c@d'' [] [], w_extra = Extra_new, w_clock = (\<lambda>_. 0), w_reads = 0,
      w_refresh = ([], 0), w_exact = None, w_pattern = None\<rparr>"

definition sender_match :: Match where
  "sender_match = \<lparr>m_ds = \<lparr>ds_ptr = 7, ds_db = 0, ds_table = ''wl''\<rparr>, m_column = ''sender'', m_member = 1, m_returnfield = ''comment''\<rparr>"

lemma table_rows_sample:
  "fst (table_rows table_platform sender_match (snd (exact_instance table_world))) =
   Inr [(''A@B.org'', ''One''), (''x@y.org'', ''Two''), (''a@b.org'', ''Three'')]"
  by code_simp

theorem cached_exact_match_witness:
  "\<exists>w1. CachedExactMatch_match table_platform sender_match table_world = (Inr True, w1) \<and> ex_comment (w_extra w1) = ''one''"
proof -
  let ?rows = "[(''A@B.org'', ''One''), (''x@y.org'', ''Two''), (''a@b.org'', ''Three'')]"
  obtain w1 where w1: "table_rows table_platform sender_match (snd (exact_instance table_world)) = (Inr ?rows, w1)"
    using table_rows_sample by (metis prod.collapse)
  have "cache_get (w_exact table_world) (ds_ptr (m_ds sender_match)) = None" by (simp add: table_world_def cache_get_def)
  from cached_exact_match [OF this w1] obtain w2 where
    m: "CachedExactMatch_match table_platform sender_match table_world = answer_rows table_platform sender_match ?rows w2"
    and w2: "w2 = w1\<lparr>w_exact := cache_put 7 (exact_cache_of ?rows) (w_exact w1)\<rparr>" by (auto simp: Let_def sender_match_def)
  have "w_triplet w1 = w_triplet table_world"
  proof -
    have "w_triplet (snd (table_rows table_platform sender_match (snd (exact_instance table_world)))) = w_triplet table_world"
      by code_simp
    then show ?thesis using w1 by simp
  qed
  then have "w_triplet w2 = Triplet_new ''10.0.0.1'' ''a@b.ORG'' ''c@d'' [] []" by (simp add: w2 table_world_def)
  moreover have "getMember (pf_resolver table_platform) 1 (Triplet_new ''10.0.0.1'' ''a@b.ORG'' ''c@d'' [] []) =
      (Inr ''a@b.org'', Triplet_new ''10.0.0.1'' ''a@b.ORG'' ''c@d'' [] [])" by code_simp
  moreover have "lowercase ''A@B.org'' = ''a@b.org''" "lowercase ''One'' = ''one''" by code_simp+
  ultimately show ?thesis
    unfolding m
    by (simp add: answer_rows_def sender_match_def triplet_member_def on_triplet_exn_def bindE_def upd_extra_def setComment_def)
qed

definition sample_match :: Match where
  "sample_match = \<lparr>m_ds = \<lparr>ds_ptr = 7, ds_db = 0, ds_table = ''wl''\<rparr>, m_column = ''ip'', m_member = 0, m_returnfield = ''comment''\<rparr>"

definition sample_caches :: "(nat list, unit) world" where
  "sample_caches = sample_world\<lparr>w_exact := Some (1, [(7, [''x''], [(''10.0.0.1'', 0)])]), w_refresh := ([(1, 0)], 1)\<rparr>"

text \<open>
  A handler keeps its caches by the address of the data source
  only: once some matcher has filled the cache of a data source, every exact matcher on that data
  source answers from it, whatever column and return field it was configured with.
\<close>

theorem exact_cache_shared:
  assumes "cache_get (w_exact w) (ds_ptr (m_ds m)) = Some c"
  shows "CachedExactMatch_match pf (m\<lparr>m_column := col, m_returnfield := rf\<rparr>) w = CachedExactMatch_match pf m w"
proof -
  have "exact_instance w = (Inr (), w)"
    using assms by (auto simp: exact_instance_def cache_get_def split: option.splits)
  with assms show ?thesis by (simp add: CachedExactMatch_match_def exact_lookup_def bindE_def)
qed

theorem exact_cache_shared_witness:
  "CachedExactMatch_match sample_platform (sample_match\<lparr>m_column := ''b'', m_returnfield := ''c''\<rparr>) sample_caches =
   CachedExactMatch_match sample_platform sample_match sample_caches"
  by (rule exact_cache_shared) (simp add: sample_caches_def sample_match_def cache_get_def)

text \<open>
  The statement a cached matcher loads its table with has no
  condition, and then the backquote around the table name is not closed: the statement has an
  odd number of backquotes.
\<close>

theorem full_select_unbalanced:
  assumes "CHR ''`'' \<notin> set col" and "CHR ''`'' \<notin> set rf" and "CHR ''`'' \<notin> set tab" and "col \<noteq> ''*''" and "rf \<noteq> ''*''"
  shows "lookup_format (addReturnField rf (addReturnField col (DBQuery_new con tab))) =
           ''SELECT `'' @ col @ ''`,`'' @ rf @ ''` FROM `'' @ tab \<and>
         odd (count_list (lookup_format (addReturnField rf (addReturnField col (DBQuery_new con tab)))) CHR ''`'')"
proof -
  have "lookup_format (addReturnField rf (addReturnField col (DBQuery_new con tab))) =
           ''SELECT `'' @ col @ ''`,`'' @ rf @ ''` FROM `'' @ tab"
    using assms(4,5) by (simp add: lookup_format_def addReturnField_def DBQuery_new_def bquote_def)
  moreover have "count_list s CHR ''`'' = 0" if "CHR ''`'' \<notin> set s" for s
    using that by (rule count_notin)
  ultimately show ?thesis using assms(1-3) by simp
qed

theorem full_select_unbalanced_witness:
  "odd (count_list (lookup_format (addReturnField ''comment'' (addReturnField ''ip'' (DBQuery_new 1 ''wl'')))) CHR ''`'')"
  using full_select_unbalanced [of "''ip''" "''comment''" "''wl''" 1] by simp

section \<open>The refresh of the caches\<close>

text \<open>The states of the registry: the handlers that were used, in the order of their first use.\<close>

definition refresh_wf :: "('e, 'r) world \<Rightarrow> bool" where
  "refresh_wf w \<longleftrightarrow>
     w_refresh w =
       (case (w_exact w, w_pattern w) of
          (None, None) \<Rightarrow> ([], 0)
        | (Some (i, _), None) \<Rightarrow> ([(1, 0)], 1)
        | (None, Some (i, _)) \<Rightarrow> ([(1, 1)], 1)
        | (Some (i, _), Some (j, _)) \<Rightarrow> (if i = 1 then [(1, 0), (2, 1)] else [(1, 1), (2, 0)], 2)) \<and>
     (case (w_exact w, w_pattern w) of
          (Some (i, _), Some (j, _)) \<Rightarrow> (i = 1 \<and> j = 2) \<or> (i = 2 \<and> j = 1)
        | (Some (i, _), None) \<Rightarrow> i = 1
        | (None, Some (i, _)) \<Rightarrow> i = 1
        | _ \<Rightarrow> True)"

lemma refresh_wf_instances:
  assumes "refresh_wf w"
  shows "refresh_wf (snd (exact_instance w))" and "refresh_wf (snd (pattern_instance w))"
  using assms
  by (auto simp: refresh_wf_def exact_instance_def pattern_instance_def registerHandler_def Let_def
      split: option.splits prod.splits)

lemma CacheRefresh_run_empty:
  assumes "refresh_wf w"
  shows "cache_get (w_exact (CacheRefresh_run w)) p = None" and "cache_get (w_pattern (CacheRefresh_run w)) p = None"
    and "refresh_wf (CacheRefresh_run w)"
  using assms
  by (auto simp: refresh_wf_def CacheRefresh_run_def handler_clear_def cache_get_def split: option.splits prod.splits if_splits)

text \<open>
  A refresh empties every cache: afterwards no matcher finds one, and the next
  use loads the table again. Using a handler for the first time keeps it registered for this.
\<close>

theorem refresh_clears_caches:
  assumes "refresh_wf w"
  shows "cache_get (w_exact (CacheRefresh_run w)) p = None \<and> cache_get (w_pattern (CacheRefresh_run w)) p = None \<and>
         refresh_wf (CacheRefresh_run w) \<and> refresh_wf (snd (exact_instance w)) \<and> refresh_wf (snd (pattern_instance w))"
  using CacheRefresh_run_empty [OF assms] refresh_wf_instances [OF assms] by blast

theorem refresh_clears_caches_witness:
  "cache_get (w_exact (CacheRefresh_run sample_caches)) 7 = None \<and> cache_get (w_exact sample_caches) 7 \<noteq> None"
proof -
  have "refresh_wf sample_caches"
    by (simp add: refresh_wf_def sample_caches_def sample_world_def)
  from refresh_clears_caches [OF this, of 7] show ?thesis by (simp add: sample_caches_def cache_get_def)
qed

end
