(* ===== verification/Greylist.thy ===== *)
theory Greylist
  imports Core
begin

text \<open>
  \<open>src/src/greylist.h\<close>: the greylisting policy. The first time a triplet is seen it is
  recorded and deferred; it is let through once it is tried again after the timeout, and from
  then on. The record is a row of a table, found by sender, recipient and the client (its
  shortened name, or the first octets of its address).
\<close>

datatype ModeType = Reverse | Weak | Normal | Init

record Greylist =
  gl_ds :: DataSource
  gl_mode :: ModeType
  gl_verbose :: bool
  gl_timeout :: "32 word"
  gl_weakbytes :: "32 word"

text \<open>The loop over the octets: \<open>i\<close> counts up, \<open>j\<close> is shifted right from 64.\<close>

fun add_octets :: "('e, 'r) platform \<Rightarrow> nat \<Rightarrow> nat \<Rightarrow> nat \<Rightarrow> (('e, 'r) world \<times> DBQuery, unit) prog" where
  "add_octets pf 0 i j = ret ()"
| "add_octets pf (Suc n) i j =
     bindE (on_world (on_triplet_exn (getClientAddressNumericIdx (pf_junk pf) i))) (\<lambda>v.
     bindE (upd_dq (addWhere_num (''ip'' @ show_nat j) (ucast v) ''='')) (\<lambda>_.
     add_octets pf n (i + 1) (j div 2)))"

definition add_client :: "('e, 'r) platform \<Rightarrow> Greylist \<Rightarrow> (('e, 'r) world \<times> DBQuery, unit) prog" where
  "add_client pf g =
     bindE (if gl_mode g = Reverse
            then bindE (on_world (on_triplet tr_getShortClientName)) (\<lambda>short.
                   ret (if short = [] then Weak else Reverse))
            else ret (gl_mode g)) (\<lambda>mode.
     case mode of
       Reverse \<Rightarrow> bindE (on_world (on_triplet tr_getShortClientName)) (\<lambda>short.
                    upd_dq (addWhere_str ''client_address'' short ''=''))
     | Weak \<Rightarrow> add_octets pf (unat (gl_weakbytes g)) 0 64
     | Normal \<Rightarrow> add_octets pf default_length 0 64
     | Init \<Rightarrow> ret ())"

text \<open>The result: the id, the count and the time of the row, or \<^const>\<open>None\<close> for false.\<close>

definition find_result ::
    "('e, 'r) platform \<Rightarrow> (('e, 'r) world \<times> DBQuery, (64 word \<times> 64 word \<times> 64 word) option) prog" where
  "find_result pf =
     bindE (dq_lookup (pf_dbi pf)) (\<lambda>_.
     bindE (numRows (pf_dbi pf)) (\<lambda>n.
     if n = 0 then ret None
     else bindE (fetchRow (pf_dbi pf)) (\<lambda>_.
       bindE (getBigNumeric (pf_dbi pf) 1) (\<lambda>rid.
       bindE (getNumeric (pf_dbi pf) 2) (\<lambda>count.
       bindE (getNumeric (pf_dbi pf) 3) (\<lambda>uts.
       ret (Some (rid, count, uts))))))))"

definition find_body ::
    "('e, 'r) platform \<Rightarrow> Greylist \<Rightarrow>
     (('e, 'r) world \<times> DBQuery, (64 word \<times> 64 word \<times> 64 word) option) prog" where
  "find_body pf g =
     bindE (upd_dq (addReturnField ''uts'' \<circ> addReturnField ''count'' \<circ> addReturnField ''id'')) (\<lambda>_.
     bindE (on_world (gets (\<lambda>s. tr_sender (w_triplet s)))) (\<lambda>sender.
     bindE (upd_dq (addWhere_str ''sender'' sender ''='')) (\<lambda>_.
     bindE (on_world (gets (\<lambda>s. tr_recipient (w_triplet s)))) (\<lambda>recipient.
     bindE (upd_dq (addWhere_str ''recipient'' recipient ''='')) (\<lambda>_.
     bindE (add_client pf g) (\<lambda>_.
     find_result pf))))))"

definition findTriplet ::
    "('e, 'r) platform \<Rightarrow> Greylist \<Rightarrow> ('e, 'r, (64 word \<times> 64 word \<times> 64 word) option) wprog" where
  "findTriplet pf g = with_query (pf_dbi pf) (gl_ds g) (find_body pf g)"

definition add_octet_column ::
    "('e, 'r) platform \<Rightarrow> string \<Rightarrow> nat \<Rightarrow> (('e, 'r) world \<times> DBQuery, unit) prog" where
  "add_octet_column pf field i =
     bindE (on_world (on_triplet_exn (getClientAddressNumericIdx (pf_junk pf) i))) (\<lambda>v.
     upd_dq (addNumeric field (ucast v)))"

definition insert_body :: "('e, 'r) platform \<Rightarrow> 64 word \<Rightarrow> (('e, 'r) world \<times> DBQuery, unit) prog" where
  "insert_body pf lNow =
     bindE (on_world (on_triplet tr_getShortClientName)) (\<lambda>short.
     bindE (upd_dq (addString ''client_address'' short)) (\<lambda>_.
     bindE (on_world (gets (\<lambda>s. tr_sender (w_triplet s)))) (\<lambda>sender.
     bindE (upd_dq (addString ''sender'' sender)) (\<lambda>_.
     bindE (on_world (gets (\<lambda>s. tr_recipient (w_triplet s)))) (\<lambda>recipient.
     bindE (upd_dq (addString ''recipient'' recipient)) (\<lambda>_.
     bindE (add_octet_column pf ''ip64'' 0) (\<lambda>_.
     bindE (add_octet_column pf ''ip32'' 1) (\<lambda>_.
     bindE (add_octet_column pf ''ip16'' 2) (\<lambda>_.
     bindE (add_octet_column pf ''ip8'' 3) (\<lambda>_.
     bindE (upd_dq (addNumeric ''count'' 0)) (\<lambda>_.
     bindE (upd_dq (addNumeric ''uts'' lNow)) (\<lambda>_.
     dq_insert (pf_dbi pf)))))))))))))"

definition insertTriplet :: "('e, 'r) platform \<Rightarrow> Greylist \<Rightarrow> ('e, 'r, unit) wprog" where
  "insertTriplet pf g =
     bindE getNow (\<lambda>lNow. with_query (pf_dbi pf) (gl_ds g) (insert_body pf lNow))"

text \<open>\<open>addSet\<close> takes an \<open>unsigned\<close>: the time is cut to 32 bits.\<close>

definition incrementTriplet ::
    "('e, 'r) platform \<Rightarrow> Greylist \<Rightarrow> 64 word \<Rightarrow> 64 word \<Rightarrow> ('e, 'r, unit) wprog" where
  "incrementTriplet pf g rid lNow = with_query (pf_dbi pf) (gl_ds g)
     (bindE (upd_dq (addIncrement ''count'' 1)) (\<lambda>_.
      bindE (upd_dq (addSet ''uts'' (ucast lNow))) (\<lambda>_.
      bindE (upd_dq (addWhere_num ''id'' rid ''='')) (\<lambda>_.
      dq_update (pf_dbi pf)))))"

definition Greylist_decide :: "('e, 'r) platform \<Rightarrow> Greylist \<Rightarrow> ('e, 'r) world policy" where
  "Greylist_decide pf g =
     bindE (findTriplet pf g) (\<lambda>found.
     case found of
       None \<Rightarrow>
         bindE (insertTriplet pf g) (\<lambda>_.
         bindE (upd_extra (setPrefix ''new'')) (\<lambda>_.
         ret Defer))
     | Some (rid, count, uts) \<Rightarrow>
         bindE getNow (\<lambda>lNow.
         let lTimeDiff = (if uts < lNow then lNow - uts else 0) in
         if count > 0 \<or> lTimeDiff > ucast (gl_timeout g)
         then bindE (incrementTriplet pf g rid lNow) (\<lambda>_.
              bindE (upd_extra (Extra_set ''ok'' count lTimeDiff)) (\<lambda>_.
              ret Dunno))
         else bindE (upd_extra (Extra_set ''wait'' count lTimeDiff)) (\<lambda>_.
              ret Defer)))"

section \<open>A decision leaves no connection behind\<close>

lemma d_local_add_octets: "d_local live (add_octets pf n i j)"
proof (induction n arbitrary: i j)
  case (Suc n)
  show ?case unfolding add_octets.simps by (intro keeps_intros Suc.IH) simp
qed (simp only: add_octets.simps keeps_intros)

lemma d_local_add_client [keeps_intros]: "d_local live (add_client pf g)"
proof -
  have "d_local live (case mode of
       Reverse \<Rightarrow> bindE (on_world (on_triplet tr_getShortClientName)) (\<lambda>short.
                    upd_dq (addWhere_str ''client_address'' short ''=''))
     | Weak \<Rightarrow> add_octets pf (unat (gl_weakbytes g)) 0 64
     | Normal \<Rightarrow> add_octets pf default_length 0 64
     | Init \<Rightarrow> ret ())" for mode
    by (cases mode; simp only: ModeType.case; intro keeps_intros d_local_add_octets; simp)
  then show ?thesis
    unfolding add_client_def by (intro d_local_bindE d_local_if d_local_triplet d_local_basic)
qed

lemma d_local_octet_column [keeps_intros]: "d_local live (add_octet_column pf f i)"
  unfolding add_octet_column_def by (intro keeps_intros) simp

lemma keeps_findTriplet [keeps_intros]:
  assumes "dbi_handles (pf_dbi pf) live"
  shows "keeps (balanced live held) (findTriplet pf g)"
  unfolding findTriplet_def find_body_def find_result_def by (intro keeps_intros assms) simp_all

lemma keeps_insertTriplet [keeps_intros]:
  assumes "dbi_handles (pf_dbi pf) live"
  shows "keeps (balanced live held) (insertTriplet pf g)"
  unfolding insertTriplet_def insert_body_def by (intro keeps_intros assms) simp_all

lemma keeps_incrementTriplet [keeps_intros]:
  assumes "dbi_handles (pf_dbi pf) live"
  shows "keeps (balanced live held) (incrementTriplet pf g rid lNow)"
  unfolding incrementTriplet_def by (intro keeps_intros assms) simp_all

lemma keeps_Greylist_decide [keeps_intros]:
  assumes "dbi_handles (pf_dbi pf) live"
  shows "keeps (balanced live held) (Greylist_decide pf g)"
  unfolding Greylist_decide_def Let_def
  by (intro keeps_intros assms)

end
