(* ===== verification/Configuration.thy ===== *)
theory Configuration
  imports Config_Reader Matchers Greylist
begin

text \<open>
  The objects a configuration describes and how its sections create them:
  \<open>databasecreator.h\<close>, \<open>dbdatasourcecreator.h\<close>, \<open>matchcreator.h\<close>, \<open>whitelistcreator.h\<close>,
  \<open>greylistcreator.h\<close> and \<open>servercreator.h\<close>, and of \<open>src/src/system.h\<close> the containers, the
  factories, the checks and \<open>parseConfigurationSections\<close>. A matcher or a policy is described by
  a value of a datatype, one constructor per class of the program; \<open>matcher_of\<close> and
  \<open>policy_of\<close> are their virtual methods (\<open>tmplcore.h\<close>).
\<close>

datatype MatcherDef =
    ExactMatchMatcher Match
  | PatternMatchMatcher Match
  | CachedExactMatchMatcher Match
  | CachedPatternMatchMatcher Match
  | AllMatchMatcher

datatype PolicyDef = WhitelistPolicy string | GreylistPolicy Greylist

type_synonym CoreDef = "(MatcherDef \<times> PolicyDef) list"

fun matcher_of :: "('e, 'r) platform \<Rightarrow> MatcherDef \<Rightarrow> ('e, 'r) world matcher" where
  "matcher_of pf (ExactMatchMatcher m) = ExactMatch_match pf m"
| "matcher_of pf (PatternMatchMatcher m) = PatternMatch_match pf m"
| "matcher_of pf (CachedExactMatchMatcher m) = CachedExactMatch_match pf m"
| "matcher_of pf (CachedPatternMatchMatcher m) = CachedPatternMatch_match pf m"
| "matcher_of pf AllMatchMatcher = AllMatch_match"

fun policy_of :: "('e, 'r) platform \<Rightarrow> PolicyDef \<Rightarrow> ('e, 'r) world policy" where
  "policy_of pf (WhitelistPolicy name) = Whitelist_decide name"
| "policy_of pf (GreylistPolicy g) = Greylist_decide pf g"

definition chain_of :: "('e, 'r) platform \<Rightarrow> CoreDef \<Rightarrow> ('e, 'r) world chain" where
  "chain_of pf core = map (\<lambda>(m, p). (matcher_of pf m, policy_of pf p)) core"

text \<open>
  The members of \<open>System\<close> the sections fill, with the core and the server settings they are
  passed; \<open>sy_heap\<close> holds the databases created, a database is its position there, and
  \<open>sy_nds\<close> counts the data sources, whose addresses are distinct.
\<close>

record System =
  sy_databases :: "(string, nat) stdmap"
  sy_datasources :: "(string, DataSource) stdmap"
  sy_matchers :: "(string, MatcherDef) stdmap"
  sy_core :: CoreDef
  sy_settings :: "(nat, string) stdmap"
  sy_heap :: "Database list"
  sy_nds :: nat

definition System_new :: System where
  "System_new = \<lparr>sy_databases = [], sy_datasources = [], sy_matchers = [], sy_core = [], sy_settings = [], sy_heap = [], sy_nds = 0\<rparr>"

type_synonym 'a sprog = "(System, 'a) prog"

definition quoted :: "string \<Rightarrow> string" where
  "quoted s = [CHR 0x27] @ s @ [CHR 0x27]"

section \<open>The checks\<close>

definition section_name :: "SectionsTokensType \<Rightarrow> string sprog" where
  "section_name tid = lift_exn (getToken configSectionsTokens (SectionsTokensType_idx tid))"

definition named_part :: "string \<Rightarrow> string" where
  "named_part sn = (if sn = [] then [] else '' named '' @ quoted sn)"

definition checkForToken :: "ConfigWriter \<Rightarrow> SectionsTokensType \<Rightarrow> nat \<Rightarrow> string \<Rightarrow> unit sprog" where
  "checkForToken cfg tid s sn =
     (if getVal cfg s = []
      then bindE (lift_exn (getToken (configTokens tid) s)) (\<lambda>token.
           bindE (section_name tid) (\<lambda>sec.
           raise (MissingValue (''missing value for '' @ quoted token @ '' in section ['' @ sec @ '']'' @ named_part sn))))
      else ret ())"

fun known_names :: "(string \<times> 'v) list \<Rightarrow> string" where
  "known_names [] = []"
| "known_names [e] = quoted (fst e)"
| "known_names (e # es) = quoted (fst e) @ '', '' @ known_names es"

definition checkForRef ::
    "ConfigWriter \<Rightarrow> (string, 'v) stdmap \<Rightarrow> SectionsTokensType \<Rightarrow> SectionsTokensType \<Rightarrow> nat \<Rightarrow> string \<Rightarrow> 'v sprog" where
  "checkForRef cfg container sid tid s sn =
     bindE (checkForToken cfg tid s sn) (\<lambda>_.
     case smap_find container (getVal cfg s) of
       Some v \<Rightarrow> ret v
     | None \<Rightarrow>
         bindE (section_name sid) (\<lambda>ref.
         bindE (section_name tid) (\<lambda>sec.
         raise (UnknownReference (''unknown reference to '' @ ref @ '' '' @ quoted (getVal cfg s) @ '' in section ['' @ sec @ '']'' @
           named_part sn @ '', defined: '' @ (if container = [] then ''(none)'' else known_names container))))))"

section \<open>The creators\<close>

definition DatabaseCreator_create :: "ConfigWriter \<Rightarrow> string sprog" where
  "DatabaseCreator_create cfg =
     bindE (lift_exn (getToken (configTokens Sec_database) (DatabaseTokensType_idx DBT_type))) (\<lambda>typeToken.
     let dbparams = smap_insert typeToken (getVal cfg (DatabaseTokensType_idx DBT_type)) (getVars cfg);
         strSpare = getVal cfg (DatabaseTokensType_idx DBT_spareconnections);
         spare = StrmConvert_to_int strSpare
     in if spare < 0
        then raise (BadValue (''bad value for '' @ quoted ''spare'' @ '' '' @ (if strSpare = [] then [] else quoted strSpare)))
        else let name = getVal cfg (DatabaseTokensType_idx DBT_name) in
          bindE (gets sy_databases) (\<lambda>dbs.
          if smap_find dbs name \<noteq> None
          then raise (RuntimeError (''database named '' @ quoted name @ '' already defined''))
          else bindE (modify (\<lambda>s. s\<lparr>sy_heap := sy_heap s @ [Database_new dbparams (word_of_int spare)],
                                   sy_databases := smap_insert name (length (sy_heap s)) dbs\<rparr>)) (\<lambda>_.
               ret name)))"

definition DBDataSourceCreator_create :: "ConfigWriter \<Rightarrow> SectionsTokensType \<Rightarrow> string sprog" where
  "DBDataSourceCreator_create cfg sectionId =
     (let name = getVal cfg (DataSourceTokensType_idx DST_name) in
      bindE (gets sy_databases) (\<lambda>dbs.
      bindE (checkForRef cfg dbs Sec_database sectionId (DataSourceTokensType_idx DST_database) name) (\<lambda>db.
      bindE (checkForToken cfg sectionId (DataSourceTokensType_idx DST_table) name) (\<lambda>_.
      bindE (gets sy_datasources) (\<lambda>dss.
      if smap_find dss name \<noteq> None
      then raise (RuntimeError (''datasource named '' @ quoted name @ '' already defined''))
      else bindE (modify (\<lambda>s. s\<lparr>sy_datasources := smap_insert name
                  \<lparr>ds_ptr = sy_nds s, ds_db = db, ds_table = getVal cfg (DataSourceTokensType_idx DST_table)\<rparr> dss,
                  sy_nds := Suc (sy_nds s)\<rparr>)) (\<lambda>_.
           ret name))))))"

definition add_matcher :: "string \<Rightarrow> MatcherDef \<Rightarrow> string sprog" where
  "add_matcher name m =
     bindE (gets sy_matchers) (\<lambda>mts.
     if smap_find mts name \<noteq> None
     then raise (RuntimeError (''match named '' @ quoted name @ '' already defined''))
     else bindE (modify (\<lambda>s. s\<lparr>sy_matchers := smap_insert name m mts\<rparr>)) (\<lambda>_. ret name))"

text \<open>An unknown column has index \<open>-1\<close>, which as \<open>unsigned\<close> is the largest member index.\<close>

definition MatchCreator_create :: "(Match \<Rightarrow> MatcherDef) \<Rightarrow> ConfigWriter \<Rightarrow> SectionsTokensType \<Rightarrow> string sprog" where
  "MatchCreator_create mk cfg sectionId =
     (let name = getVal cfg (MatchTokensType_idx MT_name);
          lookup = getVal cfg (MatchTokensType_idx MT_lookup);
          match = getVal cfg (MatchTokensType_idx MT_match);
          rt = getVal cfg (MatchTokensType_idx MT_return)
      in bindE (gets sy_datasources) (\<lambda>dss.
         bindE (checkForRef cfg dss Sec_datasource sectionId (MatchTokensType_idx MT_datasource) name) (\<lambda>ds.
         bindE (checkForToken cfg sectionId (MatchTokensType_idx MT_lookup) name) (\<lambda>_.
         bindE (checkForToken cfg sectionId (MatchTokensType_idx MT_match) name) (\<lambda>_.
         let m = (word_of_int (findToken configColumnTokens match) :: 32 word)
         in add_matcher name (mk \<lparr>m_ds = ds, m_column = lookup, m_member = unat m, m_returnfield = rt\<rparr>))))))"

definition AllMatchCreator_create :: "ConfigWriter \<Rightarrow> SectionsTokensType \<Rightarrow> nat \<Rightarrow> string sprog" where
  "AllMatchCreator_create cfg sectionId typeId =
     bindE (lift_exn (configTypeTokens sectionId)) (\<lambda>types.
     bindE (lift_exn (getToken types typeId)) (\<lambda>_.
     add_matcher (getVal cfg (MatchTokensType_idx MT_name)) AllMatchMatcher))"

definition core_push_back :: "MatcherDef \<Rightarrow> PolicyDef \<Rightarrow> unit sprog" where
  "core_push_back m p = modify (\<lambda>s. s\<lparr>sy_core := sy_core s @ [(m, p)]\<rparr>)"

definition WhitelistCreator_create :: "ConfigWriter \<Rightarrow> SectionsTokensType \<Rightarrow> nat \<Rightarrow> string sprog" where
  "WhitelistCreator_create cfg sectionId typeId =
     (let name = getVal cfg (PolicyTokensType_idx PT_name) in
      bindE (lift_exn (configTypeTokens sectionId)) (\<lambda>types.
      bindE (lift_exn (getToken types typeId)) (\<lambda>typeName.
      bindE (gets sy_matchers) (\<lambda>mts.
      bindE (checkForRef cfg mts Sec_match sectionId (PolicyTokensType_idx PT_match) typeName) (\<lambda>matcher.
      bindE (core_push_back matcher (WhitelistPolicy (getVal cfg (PolicyTokensType_idx PT_match)))) (\<lambda>_.
      ret (if name = [] then ''(whitelist)'' else name)))))))"

fun ModeType_of :: "int \<Rightarrow> ModeType" where
  "ModeType_of i = (if i = 0 then Reverse else if i = 1 then Weak else if i = 2 then Normal else Init)"

definition GreylistCreator_create :: "ConfigWriter \<Rightarrow> SectionsTokensType \<Rightarrow> nat \<Rightarrow> string sprog" where
  "GreylistCreator_create cfg sectionId typeId =
     (let name = getVal cfg (PolicyTokensType_idx PT_name);
          strTimeout = getVal cfg (PolicyTokensType_idx PT_timeout);
          timeout = StrmConvert_to_int strTimeout;
          strWeakbytes = getVal cfg (PolicyTokensType_idx PT_weakbytes);
          weakbytes = (if strWeakbytes = [] then 3 else StrmConvert_to_int strWeakbytes);
          strMode = getVal cfg (PolicyTokensType_idx PT_mode);
          iMode = (if strMode = [] then int (GreylistTokensType_idx GT_reverse) else findToken configGreylistTokens strMode)
      in bindE (lift_exn (configTypeTokens sectionId)) (\<lambda>types.
         bindE (lift_exn (getToken types typeId)) (\<lambda>typeName.
         bindE (gets sy_datasources) (\<lambda>dss.
         bindE (checkForRef cfg dss Sec_policy sectionId (PolicyTokensType_idx PT_datasource) typeName) (\<lambda>ds.
         if timeout < 0
         then raise (BadValue (''bad value for '' @ quoted ''timeout'' @ '' '' @ (if strTimeout = [] then [] else quoted strTimeout)))
         else if weakbytes < 0 \<or> weakbytes > int default_length
         then raise (BadValue (''bad value for '' @ quoted ''weakbytes'' @ '' '' @ (if strTimeout = [] then [] else quoted strWeakbytes)))
         else if iMode = - 1
         then raise (BadValue (''unknown greylist mode '' @ quoted strMode))
         else bindE (gets sy_matchers) (\<lambda>mts.
              bindE (checkForRef cfg mts Sec_match sectionId (PolicyTokensType_idx PT_match) typeName) (\<lambda>matcher.
              bindE (core_push_back matcher (GreylistPolicy
                  \<lparr>gl_ds = ds, gl_mode = ModeType_of iMode, gl_verbose = True, gl_timeout = word_of_int timeout,
                   gl_weakbytes = word_of_int weakbytes\<rparr>)) (\<lambda>_.
              ret (if name = [] then ''(greylist)'' else name)))))))))"

definition ServerCreator_create :: "ConfigWriter \<Rightarrow> string sprog" where
  "ServerCreator_create cfg = bindE (modify (\<lambda>s. s\<lparr>sy_settings := copyVals cfg (sy_settings s)\<rparr>)) (\<lambda>_. ret ''(server)'')"

section \<open>The factories\<close>

text \<open>\<open>_sectionFactory\<close> and \<open>_subSectionFactory\<close>, as the constructor of \<open>System\<close> fills them.\<close>

definition sectionFactory :: "nat \<Rightarrow> (ConfigWriter \<Rightarrow> string sprog) option" where
  "sectionFactory tid =
     (if tid = SectionsTokensType_idx Sec_database then Some DatabaseCreator_create
      else if tid = SectionsTokensType_idx Sec_server then Some ServerCreator_create
      else None)"

definition subSectionFactory :: "nat \<Rightarrow> nat \<Rightarrow> (ConfigWriter \<Rightarrow> SectionsTokensType \<Rightarrow> nat \<Rightarrow> string sprog) option" where
  "subSectionFactory tid typeId =
     (if tid = SectionsTokensType_idx Sec_datasource \<and> typeId = DataSourceTypeTokensType_idx DSTT_db
      then Some (\<lambda>cfg sec ty. DBDataSourceCreator_create cfg sec)
      else if tid = SectionsTokensType_idx Sec_match \<and> typeId = MatchTypeTokensType_idx MTT_exact_match
      then Some (\<lambda>cfg sec ty. MatchCreator_create ExactMatchMatcher cfg sec)
      else if tid = SectionsTokensType_idx Sec_match \<and> typeId = MatchTypeTokensType_idx MTT_pattern_match
      then Some (\<lambda>cfg sec ty. MatchCreator_create PatternMatchMatcher cfg sec)
      else if tid = SectionsTokensType_idx Sec_match \<and> typeId = MatchTypeTokensType_idx MTT_cached_exact_match
      then Some (\<lambda>cfg sec ty. MatchCreator_create CachedExactMatchMatcher cfg sec)
      else if tid = SectionsTokensType_idx Sec_match \<and> typeId = MatchTypeTokensType_idx MTT_cached_pattern_match
      then Some (\<lambda>cfg sec ty. MatchCreator_create CachedPatternMatchMatcher cfg sec)
      else if tid = SectionsTokensType_idx Sec_match \<and> typeId = MatchTypeTokensType_idx MTT_all
      then Some AllMatchCreator_create
      else if tid = SectionsTokensType_idx Sec_policy \<and> typeId = PolicyTypeTokensType_idx PTT_whitelist
      then Some WhitelistCreator_create
      else if tid = SectionsTokensType_idx Sec_policy \<and> typeId = PolicyTypeTokensType_idx PTT_greylist
      then Some GreylistCreator_create
      else None)"

section \<open>parseConfigurationSections\<close>

fun SectionsTokensType_of :: "nat \<Rightarrow> SectionsTokensType" where
  "SectionsTokensType_of tid =
     (if tid = 0 then Sec_database else if tid = 1 then Sec_datasource else if tid = 2 then Sec_match
      else if tid = 3 then Sec_policy else Sec_server)"

text \<open>What follows the parser in the body of the loop.\<close>

definition create_section :: "nat \<Rightarrow> ConfigWriter \<Rightarrow> string sprog" where
  "create_section tid cfg =
     (case sectionFactory tid of
        Some create \<Rightarrow> create cfg
      | None \<Rightarrow>
          let typeStr = getVal cfg (DataSourceTokensType_idx DST_type); stkid = SectionsTokensType_of tid in
          if typeStr = []
          then bindE (section_name stkid) (\<lambda>sec. raise (UnknownConfig (''Missing type in section ['' @ sec @ '']'')))
          else bindE (lift_exn (configTypeTokens stkid)) (\<lambda>types.
               let typeId = findToken types typeStr in
               if typeId = - 1
               then bindE (section_name stkid) (\<lambda>sec.
                    raise (BadType (''Unknown type in section '' @ quoted sec @ '' '' @ quoted typeStr)))
               else case subSectionFactory tid (nat typeId) of
                      None \<Rightarrow>
                        bindE (section_name stkid) (\<lambda>sec.
                        raise (LogicError (''No sub section handler defined in section '' @ quoted sec @ '' for type '' @ quoted typeStr)))
                    | Some create \<Rightarrow> create cfg stkid (nat typeId)))"

text \<open>The name between the brackets; with the brackets in the wrong order it is the rest of the line.\<close>

definition header_name :: "string \<Rightarrow> string option" where
  "header_name line =
     (case (find_char CHR ''['' line, find_char CHR '']'' line) of
        (Some left, Some right) \<Rightarrow> Some (substr line (left + 1) (if left < right then Some (right - left - 1) else None))
      | _ \<Rightarrow> None)"

partial_function (option) sections_loop :: "ConfigReader \<Rightarrow> System \<Rightarrow> ((exn + unit) \<times> ConfigReader \<times> System) option" where
  "sections_loop reader s =
     (case ConfigReader_getline (switchSectionMode False reader) of
        (Inl e, r) \<Rightarrow> Some (Inl e, r, s)
      | (Inr None, r) \<Rightarrow> Some (Inr (), r, s)
      | (Inr (Some line), r) \<Rightarrow>
          (case header_name line of
             None \<Rightarrow> sections_loop r s
           | Some sec \<Rightarrow>
               let tid = findToken configSectionsTokens sec in
               if tid = - 1 then sections_loop r s
               else (case parse_section (configTokens (SectionsTokensType_of (nat tid))) (switchSectionMode True r) of
                       None \<Rightarrow> None
                     | Some (res, r', cfg) \<Rightarrow>
                         (case res of
                            Inl e \<Rightarrow> Some (Inl e, r', s)
                          | Inr _ \<Rightarrow>
                              (case create_section (nat tid) cfg s of
                                 (Inl e, s') \<Rightarrow> Some (Inl e, r', s')
                               | (Inr _, s') \<Rightarrow> sections_loop r' s')))))"

declare sections_loop.simps [code]

definition parseConfigurationSections :: "ConfigReader \<Rightarrow> System \<Rightarrow> ((exn + unit) \<times> ConfigReader \<times> System) option" where
  "parseConfigurationSections reader s =
     (case sections_loop reader s of
        None \<Rightarrow> None
      | Some (Inl e, r, s') \<Rightarrow> Some (Inl e, r, s')
      | Some (Inr _, r, s') \<Rightarrow> Some (Inr (), r, s'\<lparr>sy_matchers := [], sy_datasources := [], sy_databases := []\<rparr>))"

section \<open>Every reference of a configuration is resolved\<close>

definition ds_ok :: "nat \<Rightarrow> nat \<Rightarrow> DataSource \<Rightarrow> bool" where
  "ds_ok h n ds \<longleftrightarrow> ds_db ds < h \<and> ds_ptr ds < n \<and> ds_table ds \<noteq> []"

fun matcher_ok :: "nat \<Rightarrow> nat \<Rightarrow> MatcherDef \<Rightarrow> bool" where
  "matcher_ok h n (ExactMatchMatcher m) \<longleftrightarrow> ds_ok h n (m_ds m) \<and> m_column m \<noteq> []"
| "matcher_ok h n (PatternMatchMatcher m) \<longleftrightarrow> ds_ok h n (m_ds m) \<and> m_column m \<noteq> []"
| "matcher_ok h n (CachedExactMatchMatcher m) \<longleftrightarrow> ds_ok h n (m_ds m) \<and> m_column m \<noteq> []"
| "matcher_ok h n (CachedPatternMatchMatcher m) \<longleftrightarrow> ds_ok h n (m_ds m) \<and> m_column m \<noteq> []"
| "matcher_ok h n AllMatchMatcher \<longleftrightarrow> True"

fun policy_ok :: "nat \<Rightarrow> nat \<Rightarrow> PolicyDef \<Rightarrow> bool" where
  "policy_ok h n (WhitelistPolicy name) \<longleftrightarrow> True"
| "policy_ok h n (GreylistPolicy g) \<longleftrightarrow>
     ds_ok h n (gl_ds g) \<and> unat (gl_weakbytes g) \<le> default_length \<and> gl_mode g \<noteq> Init"

definition core_ok :: "nat \<Rightarrow> nat \<Rightarrow> CoreDef \<Rightarrow> bool" where
  "core_ok h n core \<longleftrightarrow> list_all (\<lambda>(m, p). matcher_ok h n m \<and> policy_ok h n p) core"

text \<open>
  The state while sections are read. \<open>old\<close> is the core in use meanwhile: what it refers to stays.
\<close>

definition config_inv :: "CoreDef \<Rightarrow> System \<Rightarrow> bool" where
  "config_inv old s \<longleftrightarrow>
     smap_ok (sy_databases s) \<and> smap_ok (sy_datasources s) \<and> smap_ok (sy_matchers s) \<and> smap_ok (sy_settings s) \<and>
     (\<forall>k i. smap_find (sy_databases s) k = Some i \<longrightarrow> i < length (sy_heap s)) \<and>
     (\<forall>k ds. smap_find (sy_datasources s) k = Some ds \<longrightarrow> ds_ok (length (sy_heap s)) (sy_nds s) ds) \<and>
     (\<forall>k m. smap_find (sy_matchers s) k = Some m \<longrightarrow> matcher_ok (length (sy_heap s)) (sy_nds s) m) \<and>
     core_ok (length (sy_heap s)) (sy_nds s) (sy_core s) \<and> core_ok (length (sy_heap s)) (sy_nds s) old"

lemma ds_ok_mono: "ds_ok h n ds \<Longrightarrow> h \<le> h' \<Longrightarrow> n \<le> n' \<Longrightarrow> ds_ok h' n' ds"
  by (auto simp: ds_ok_def)

lemma matcher_ok_mono: "matcher_ok h n m \<Longrightarrow> h \<le> h' \<Longrightarrow> n \<le> n' \<Longrightarrow> matcher_ok h' n' m"
  by (cases m) (auto intro: ds_ok_mono)

lemma policy_ok_mono: "policy_ok h n p \<Longrightarrow> h \<le> h' \<Longrightarrow> n \<le> n' \<Longrightarrow> policy_ok h' n' p"
  by (cases p) (auto intro: ds_ok_mono)

lemma core_ok_mono: "core_ok h n core \<Longrightarrow> h \<le> h' \<Longrightarrow> n \<le> n' \<Longrightarrow> core_ok h' n' core"
  unfolding core_ok_def by (erule list.pred_mono_strong) (auto intro: matcher_ok_mono policy_ok_mono)

lemma ok_Suc:
  "ds_ok h n ds \<Longrightarrow> ds_ok (Suc h) n ds" "matcher_ok h n m \<Longrightarrow> matcher_ok (Suc h) n m" "core_ok h n core \<Longrightarrow> core_ok (Suc h) n core"
  "ds_ok h n ds \<Longrightarrow> ds_ok h (Suc n) ds" "matcher_ok h n m \<Longrightarrow> matcher_ok h (Suc n) m" "core_ok h n core \<Longrightarrow> core_ok h (Suc n) core"
  by (auto intro: ds_ok_mono matcher_ok_mono core_ok_mono)

lemma lift_exn_cases: "lift_exn r s = (case r of Inl e \<Rightarrow> (Inl e, s) | Inr x \<Rightarrow> (Inr x, s))"
  by (simp add: lift_exn_def split: sum.split)

lemma checkForToken_state:
  "snd (checkForToken cfg tid k sn s) = s" "fst (checkForToken cfg tid k sn s) = Inr u \<Longrightarrow> getVal cfg k \<noteq> []"
  by (auto simp: checkForToken_def section_name_def bindE_def lift_exn_cases split: sum.splits if_splits)

lemma checkForRef_state:
  "snd (checkForRef cfg c sid tid k sn s) = s"
  "fst (checkForRef cfg c sid tid k sn s) = Inr v \<Longrightarrow> smap_find c (getVal cfg k) = Some v"
proof -
  obtain r s' where t: "checkForToken cfg tid k sn s = (r, s')" by fastforce
  then have "s' = s" using checkForToken_state(1) [of cfg tid k sn s] by simp
  with t show "snd (checkForRef cfg c sid tid k sn s) = s"
    "fst (checkForRef cfg c sid tid k sn s) = Inr v \<Longrightarrow> smap_find c (getVal cfg k) = Some v"
    by (cases r; cases "smap_find c (getVal cfg k)";
        simp add: checkForRef_def bindE_def section_name_def lift_exn_cases split: sum.splits)+
qed

text \<open>A predicate holds of the state a creator leaves, started in a known state.\<close>

definition leaves :: "(System \<Rightarrow> bool) \<Rightarrow> 'a sprog \<Rightarrow> System \<Rightarrow> bool" where
  "leaves P m s \<longleftrightarrow> P (snd (m s))"

lemma leaves_ref:
  assumes "P s" and "\<And>v. smap_find c (getVal cfg k) = Some v \<Longrightarrow> leaves P (f v) s"
  shows "leaves P (bindE (checkForRef cfg c sid tid k sn) f) s"
  using assms checkForRef_state [of cfg c sid tid k sn s]
  by (cases "checkForRef cfg c sid tid k sn s"; cases "fst (checkForRef cfg c sid tid k sn s)") (auto simp: leaves_def)

lemma leaves_token:
  assumes "P s" and "getVal cfg k \<noteq> [] \<Longrightarrow> leaves P (f ()) s"
  shows "leaves P (bindE (checkForToken cfg tid k sn) f) s"
  using assms checkForToken_state [of cfg tid k sn s]
  by (cases "checkForToken cfg tid k sn s"; cases "fst (checkForToken cfg tid k sn s)") (auto simp: leaves_def)

lemma leaves_gets: "leaves P (f (g s)) s \<Longrightarrow> leaves P (bindE (gets g) f) s"
  by (simp add: bindE_def leaves_def)

lemma leaves_modify: "leaves P (f ()) (g s) \<Longrightarrow> leaves P (bindE (modify g) f) s"
  by (simp add: bindE_def leaves_def)

lemma leaves_lift: "P s \<Longrightarrow> (\<And>x. r = Inr x \<Longrightarrow> leaves P (f x) s) \<Longrightarrow> leaves P (bindE (lift_exn r) f) s"
  by (cases r) (simp_all add: bindE_def lift_exn_def leaves_def)

lemma leaves_if: "(b \<Longrightarrow> leaves P m s) \<Longrightarrow> (\<not> b \<Longrightarrow> leaves P n s) \<Longrightarrow> leaves P (if b then m else n) s"
  by simp

lemma leaves_basic: "P s \<Longrightarrow> leaves P (raise e) s" "P s \<Longrightarrow> leaves P (ret x) s"
  by (simp_all add: leaves_def)

lemmas leaves_intros = leaves_ref leaves_token leaves_gets leaves_modify leaves_lift leaves_if leaves_basic

lemma DatabaseCreator_inv: "config_inv old s \<Longrightarrow> leaves (config_inv old) (DatabaseCreator_create cfg) s"
  unfolding DatabaseCreator_create_def Let_def
proof (intro leaves_intros; assumption?)
  fix spare params name
  assume inv: "config_inv old s" and "\<not> smap_find (sy_databases s) name \<noteq> None"
  then show "config_inv old (s\<lparr>sy_heap := sy_heap s @ [Database_new params spare],
      sy_databases := smap_insert name (length (sy_heap s)) (sy_databases s)\<rparr>)"
    by (auto simp: config_inv_def smap_find_insert less_Suc_eq split: if_splits intro: ok_Suc)
qed

lemma DBDataSourceCreator_inv: "config_inv old s \<Longrightarrow> leaves (config_inv old) (DBDataSourceCreator_create cfg sec) s"
  unfolding DBDataSourceCreator_create_def Let_def
proof (intro leaves_intros; assumption?)
  fix db name
  assume inv: "config_inv old s" and "smap_find (sy_databases s) (getVal cfg (DataSourceTokensType_idx DST_database)) = Some db"
    and "getVal cfg (DataSourceTokensType_idx DST_table) \<noteq> []" and "\<not> smap_find (sy_datasources s) name \<noteq> None"
  then show "config_inv old (s\<lparr>sy_datasources := smap_insert name
        \<lparr>ds_ptr = sy_nds s, ds_db = db, ds_table = getVal cfg (DataSourceTokensType_idx DST_table)\<rparr> (sy_datasources s),
      sy_nds := Suc (sy_nds s)\<rparr>)"
    by (auto simp: config_inv_def smap_find_insert split: if_splits intro: ok_Suc) (simp add: ds_ok_def)
qed

lemma add_matcher_inv:
  assumes "config_inv old s" and "matcher_ok (length (sy_heap s)) (sy_nds s) m"
  shows "leaves (config_inv old) (add_matcher name m) s"
  unfolding add_matcher_def
proof (intro leaves_intros; (rule assms(1))?)
  assume "\<not> smap_find (sy_matchers s) name \<noteq> None"
  then show "config_inv old (s\<lparr>sy_matchers := smap_insert name m (sy_matchers s)\<rparr>)"
    using assms by (auto simp: config_inv_def smap_find_insert split: if_splits)
qed

lemma core_push_back_inv:
  assumes "config_inv old s" and "matcher_ok (length (sy_heap s)) (sy_nds s) m" and "policy_ok (length (sy_heap s)) (sy_nds s) p"
  shows "leaves (config_inv old) (bindE (core_push_back m p) (\<lambda>_. ret x)) s"
  using assms by (simp add: leaves_def core_push_back_def bindE_def config_inv_def core_ok_def)

lemma config_inv_find:
  "config_inv old s \<Longrightarrow> smap_find (sy_datasources s) k = Some ds \<Longrightarrow> ds_ok (length (sy_heap s)) (sy_nds s) ds"
  "config_inv old s \<Longrightarrow> smap_find (sy_matchers s) k = Some m \<Longrightarrow> matcher_ok (length (sy_heap s)) (sy_nds s) m"
  by (auto simp: config_inv_def)

lemma MatchCreator_inv:
  assumes "config_inv old s" and "\<And>m. ds_ok (length (sy_heap s)) (sy_nds s) (m_ds m) \<Longrightarrow> m_column m \<noteq> [] \<Longrightarrow>
    matcher_ok (length (sy_heap s)) (sy_nds s) (mk m)"
  shows "leaves (config_inv old) (MatchCreator_create mk cfg sec) s"
  unfolding MatchCreator_create_def Let_def
  by (intro leaves_intros add_matcher_inv assms) (use config_inv_find [OF assms(1)] in auto)

lemma policy_creators_inv:
  assumes "config_inv old s"
  shows "leaves (config_inv old) (WhitelistCreator_create cfg sec ty) s" and "leaves (config_inv old) (GreylistCreator_create cfg sec ty) s"
    and "leaves (config_inv old) (AllMatchCreator_create cfg sec ty) s" and "leaves (config_inv old) (ServerCreator_create cfg) s"
proof -
  show "leaves (config_inv old) (WhitelistCreator_create cfg sec ty) s"
    unfolding WhitelistCreator_create_def Let_def
    by (intro leaves_ref leaves_lift leaves_gets core_push_back_inv assms) (use config_inv_find [OF assms] in auto)
  show "leaves (config_inv old) (AllMatchCreator_create cfg sec ty) s"
    unfolding AllMatchCreator_create_def by (intro leaves_intros add_matcher_inv assms) simp
  show "leaves (config_inv old) (ServerCreator_create cfg) s"
    using assms
    by (simp add: leaves_def ServerCreator_create_def bindE_def config_inv_def copyVals_def smap_insert_range_eq smap.ok_insert_all)
  have reverse: "ModeType_of (int (GreylistTokensType_idx GT_reverse)) \<noteq> Init" by code_simp
  have mode: "ModeType_of (findToken configGreylistTokens t) \<noteq> Init" if "findToken configGreylistTokens t \<noteq> - 1" for t
  proof -
    have "tl_map configGreylistTokens = [(''normal'', 2), (''reverse'', 0), (''weak'', 1)]" by code_simp
    with that show ?thesis by (auto simp: findToken_def split: option.splits if_splits)
  qed
  have small: "unat (word_of_int w :: 32 word) \<le> default_length" if "\<not> (w < 0 \<or> w > int default_length)" for w
  proof -
    have "take_bit 32 w = w" using that by (simp add: take_bit_int_eq_self)
    with that show ?thesis by (simp add: unsigned_of_int nat_le_iff)
  qed
  define iMode where "iMode t = (if t = [] then int (GreylistTokensType_idx GT_reverse) else findToken configGreylistTokens t)" for t
  have iMode: "ModeType_of (iMode t) \<noteq> Init" if "iMode t \<noteq> - 1" for t
    using that reverse mode [of t] unfolding iMode_def by (cases "t = []") (simp_all del: ModeType_of.simps)
  have greylist: "policy_ok (length (sy_heap s)) (sy_nds s) (GreylistPolicy
        \<lparr>gl_ds = ds, gl_mode = ModeType_of (iMode t), gl_verbose = True, gl_timeout = to, gl_weakbytes = word_of_int w\<rparr>)"
    if "smap_find (sy_datasources s) k = Some ds" "iMode t \<noteq> - 1" "\<not> (w < 0 \<or> w > int default_length)" for ds t w k to
    using config_inv_find(1) [OF assms that(1)] iMode [OF that(2)] small [OF that(3)] by (simp del: ModeType_of.simps)
  show "leaves (config_inv old) (GreylistCreator_create cfg sec ty) s"
    unfolding GreylistCreator_create_def Let_def iMode_def [symmetric]
    by (intro leaves_intros core_push_back_inv assms; (erule greylist | erule config_inv_find(2) [OF assms])?; assumption?)
qed

lemma create_section_inv:
  assumes "config_inv old s"
  shows "leaves (config_inv old) (create_section tid cfg) s"
proof -
  have sub: "leaves (config_inv old) (create cfg sec ty) s" if "subSectionFactory tid ty' = Some create" for create sec ty ty'
    using that assms MatchCreator_inv [OF assms] policy_creators_inv [OF assms] DBDataSourceCreator_inv [OF assms]
    by (auto simp: subSectionFactory_def split: if_splits)
  have main: "leaves (config_inv old) (create cfg) s" if "sectionFactory tid = Some create" for create
    using that DatabaseCreator_inv [OF assms] policy_creators_inv(4) [OF assms]
    by (auto simp: sectionFactory_def split: if_splits)
  have rest: "leaves (config_inv old) (case subSectionFactory tid ty of
        None \<Rightarrow> bindE (section_name sec) (\<lambda>n. raise (LogicError (msg n)))
      | Some create \<Rightarrow> create cfg sec ty) s" for ty sec msg
    using sub assms by (auto simp: section_name_def split: option.split intro!: leaves_intros)
  show ?thesis
    unfolding create_section_def Let_def section_name_def
    by (cases "sectionFactory tid")
      (simp_all only: option.case main, intro leaves_lift leaves_if leaves_basic assms rest [unfolded section_name_def])
qed

section \<open>Parsing a configuration returns\<close>

lemma header_getline:
  assumes "cr_ok r" and "ConfigReader_getline (switchSectionMode False r) = (res, r')"
  shows "(res = Inr None \<and> cr_ok r') \<or>
    (\<exists>line. res = Inr (Some line) \<and> cr_ok r' \<and> cr_lines r' = cr_lines r \<and> cr_itr r' = Suc (cr_itr r) \<and> cr_itr r < length (cr_lines r))"
  using assms by (auto simp: ConfigReader_getline_def switchSectionMode_def cr_ok_def Let_def split: if_splits)

lemma cr_rest_ok:
  assumes "cr_ok r"
  shows "cr_ok (cr_rest r)" and "cr_lines (cr_rest r) = cr_lines r" and "cr_itr r \<le> cr_itr (cr_rest r)"
proof -
  have "length (cr_block r) \<le> length (drop (cr_itr r) (cr_lines r))"
    by (simp add: cr_block_def Let_def length_takeWhile_le del: length_drop)
  with assms show "cr_ok (cr_rest r)" "cr_lines (cr_rest r) = cr_lines r" "cr_itr r \<le> cr_itr (cr_rest r)"
    by (auto simp: cr_rest_def cr_ok_def)
qed

lemma sections_loop_returns:
  assumes "cr_ok r" and "config_inv old s"
  shows "\<exists>res r' s'. sections_loop r s = Some (res, r', s') \<and> config_inv old s'"
  using assms
proof (induction "length (cr_lines r) - cr_itr r" arbitrary: r s rule: less_induct)
  case less
  obtain res r1 where line: "ConfigReader_getline (switchSectionMode False r) = (res, r1)" by fastforce
  from header_getline [OF less.prems(1) line] show ?case
  proof (elim disjE exE conjE)
    assume "res = Inr None"
    with line less.prems(2) show ?thesis by (subst sections_loop.simps) simp
  next
    fix l
    assume res: "res = Inr (Some l)" and r1: "cr_ok r1" "cr_lines r1 = cr_lines r" "cr_itr r1 = Suc (cr_itr r)"
      and more: "cr_itr r < length (cr_lines r)"
    have IH: "\<exists>res' r' s''. sections_loop r2 s2 = Some (res', r', s'') \<and> config_inv old s''"
      if "cr_ok r2" "cr_lines r2 = cr_lines r" "cr_itr r1 \<le> cr_itr r2" "config_inv old s2" for r2 s2
      using less.hyps [of r2 s2] that r1 more by simp
    show ?thesis
    proof (cases "header_name l = None \<or> (\<exists>n. header_name l = Some n \<and> findToken configSectionsTokens n = - 1)")
      case True
      then have "sections_loop r s = sections_loop r1 s" using line res by (subst sections_loop.simps) auto
      with IH [OF r1(1,2) _ less.prems(2)] show ?thesis by simp
    next
      case False
      then obtain n where n: "header_name l = Some n" "findToken configSectionsTokens n \<noteq> - 1" by auto
      define tid where "tid = nat (findToken configSectionsTokens n)"
      let ?r = "switchSectionMode True r1"
      have ok: "cr_ok ?r" using r1(1) by simp
      obtain out cfg where parse: "parse_section (configTokens (SectionsTokensType_of tid)) ?r = Some (out, cr_rest ?r, cfg)"
        by (simp add: parse_section_eq [OF ok])
      have r2: "cr_ok (cr_rest ?r)" "cr_lines (cr_rest ?r) = cr_lines r" "cr_itr r1 \<le> cr_itr (cr_rest ?r)"
        using cr_rest_ok [OF ok] r1 by (simp_all add: switchSectionMode_def)
      obtain made s2 where create: "create_section tid cfg s = (made, s2)" by fastforce
      then have s2: "config_inv old s2" using create_section_inv [OF less.prems(2), of tid cfg] by (simp add: leaves_def)
      have "sections_loop r s =
          (case out of Inl e \<Rightarrow> Some (Inl e, cr_rest ?r, s)
           | Inr _ \<Rightarrow> (case made of Inl e \<Rightarrow> Some (Inl e, cr_rest ?r, s2) | Inr _ \<Rightarrow> sections_loop (cr_rest ?r) s2))"
        using line res n parse create
        by (subst sections_loop.simps) (simp add: Let_def tid_def split: sum.split)
      with IH [OF r2 s2] less.prems(2) s2 show ?thesis by (cases out; cases made) auto
    qed
  qed
qed

lemma config_inv_new: "config_inv [] System_new"
  by (simp add: config_inv_def System_new_def core_ok_def)

lemma configuration_returns:
  assumes "config_inv old s"
  shows "\<exists>res r s'. parseConfigurationSections (fst (ConfigReader_new junk f)) s = Some (res, r, s') \<and> config_inv old s' \<and>
     (res = Inr () \<longrightarrow> sy_databases s' = [] \<and> sy_datasources s' = [] \<and> sy_matchers s' = [])"
proof -
  obtain res r s' where "sections_loop (fst (ConfigReader_new junk f)) s = Some (res, r, s')" "config_inv old s'"
    using sections_loop_returns [OF cr_ok_new assms] by blast
  then show ?thesis by (cases res) (auto simp: parseConfigurationSections_def config_inv_def)
qed

text \<open>
  C8 (invariant). Whatever the configuration file holds, parsing it returns. When it succeeds
  from an empty system, everything the core was built from is there: each matcher and policy
  refers to a data source with a table, made from a database that was created; a greylist has
  at most four octets for its weak mode and one of the three modes; and the containers of the
  parser are empty again.
\<close>

theorem configuration_resolved:
  "\<exists>res r s. parseConfigurationSections (fst (ConfigReader_new junk f)) System_new = Some (res, r, s) \<and>
     core_ok (length (sy_heap s)) (sy_nds s) (sy_core s) \<and>
     (res = Inr () \<longrightarrow> sy_databases s = [] \<and> sy_datasources s = [] \<and> sy_matchers s = [])"
  using configuration_returns [OF config_inv_new, of junk f] by (auto simp: config_inv_def)

section \<open>A parse that fails keeps what it has created\<close>

definition config_text :: "string list \<Rightarrow> string" where
  "config_text ls = concat (map (\<lambda>l. l @ [CHR 0x0A]) ls)"

definition config_file :: "string list \<Rightarrow> ConfigFileReader" where
  "config_file ls = \<lparr>cf_filename = ''/etc/greylist.cfg'', cf_strm = config_text ls, cf_eof = False\<rparr>"

definition sample_sections :: "string list" where
  "sample_sections =
     [''[database]'', ''name=db'', ''type=mysql'',
      ''[datasource]'', ''type=db'', ''name=grey'', ''database=db'', ''table=triplets'',
      ''[match]'', ''type=all'', ''name=all'',
      ''[policy]'', ''type=greylist'', ''datasource=grey'', ''match=all'', ''timeout=300'',
      ''[server]'', ''port=10023'']"

definition wrong_sections :: "string list" where
  "wrong_sections = [''[database]'', ''name=db'', ''type=mysql'', ''[datasource]'', ''type=db'', ''name=grey'', ''database=bd'']"

theorem configuration_resolved_witness:
  "\<exists>res r s. parseConfigurationSections (fst (ConfigReader_new False (config_file sample_sections))) System_new = Some (res, r, s) \<and>
     core_ok (length (sy_heap s)) (sy_nds s) (sy_core s) \<and>
     (res = Inr () \<longrightarrow> sy_databases s = [] \<and> sy_datasources s = [] \<and> sy_matchers s = [])"
  by (rule configuration_resolved)

definition parse_lines :: "string list \<Rightarrow> System \<Rightarrow> ((exn + unit) \<times> System) option" where
  "parse_lines ls s =
     map_option (\<lambda>(res, r, s'). (res, s')) (parseConfigurationSections (fst (ConfigReader_new False (config_file ls))) s)"

lemma wrong_sections_fail:
  "case parse_lines wrong_sections System_new of
     Some (Inl e, s) \<Rightarrow> smap_find (sy_databases s) ''db'' \<noteq> None
   | _ \<Rightarrow> False"
  by code_simp

lemma sample_sections_core:
  "case parse_lines sample_sections System_new of
     Some (Inr _, s) \<Rightarrow> sy_core s = [(AllMatchMatcher, GreylistPolicy
         \<lparr>gl_ds = \<lparr>ds_ptr = 0, ds_db = 0, ds_table = ''triplets''\<rparr>, gl_mode = Reverse, gl_verbose = True,
          gl_timeout = 300, gl_weakbytes = 4\<rparr>)]
   | _ \<Rightarrow> False"
  by code_simp

text \<open>
  A configuration that fails to parse keeps what it had created before the error:
  the containers are cleared only at the end of a parse that succeeds. So a configuration that is
  accepted at start-up is refused after a failed one that defines a database of the same name,
  with the message that the database is already defined, although the failed one is gone.
\<close>

theorem failed_parse_blocks_next:
  "(case parse_lines sample_sections System_new of Some (Inr _, s) \<Rightarrow> sy_databases s = [] | _ \<Rightarrow> False) \<and>
   (case parse_lines wrong_sections System_new of
      Some (Inl e, s) \<Rightarrow>
        (case parse_lines sample_sections (s\<lparr>sy_core := [], sy_settings := []\<rparr>) of
           Some (Inl e', s') \<Rightarrow> e' = RuntimeError (''database named '' @ quoted ''db'' @ '' already defined'') \<and> sy_core s' = []
         | _ \<Rightarrow> False)
    | _ \<Rightarrow> False)"
  by code_simp

end
