(* ===== verification/Socket_Reader.thy ===== *)
theory Socket_Reader
  imports Parser
begin

text \<open>
  \<open>src/src/server.h\<close> (\<open>SocketReader\<close>, \<open>TripletWriter\<close>) and
  \<open>src/src/postfixreader.h\<close>: the Postfix policy protocol, lines \<open>name=value\<close> closed by an
  empty line. A connection is the sequence of bytes its peer sends (\<open>sr_input\<close>, those not
  yet read) and the way it ends: \<open>read\<close> returns 0, or fails with an \<open>errno\<close>.
\<close>

record SocketReader =
  sr_fd :: int
  sr_input :: string
  sr_end :: "int option"
  sr_eof :: bool
  sr_errno :: int

abbreviation newline :: char where
  "newline \<equiv> CHR 0x0A"

definition SocketReader_new :: "int \<Rightarrow> string \<Rightarrow> int option \<Rightarrow> int \<Rightarrow> SocketReader" where
  "SocketReader_new fd input ending junk =
     \<lparr>sr_fd = fd, sr_input = input, sr_end = ending, sr_eof = False, sr_errno = junk\<rparr>"

text \<open>
  The byte loop: the text of the line, and the bytes after its newline or \<^const>\<open>None\<close> when
  \<open>read\<close> did not return 1. The count \<open>n\<close> is the length of the text.
\<close>

fun read_loop :: "string \<Rightarrow> string \<Rightarrow> string \<times> string option" where
  "read_loop str [] = (str, None)"
| "read_loop str (c # cs) = (if c = newline then (str, Some cs) else read_loop (str @ [c]) cs)"

definition sr_at_end :: "SocketReader \<Rightarrow> SocketReader" where
  "sr_at_end r =
     r\<lparr>sr_input := [], sr_eof := True,
       sr_errno := (case sr_end r of None \<Rightarrow> sr_errno r | Some e \<Rightarrow> e)\<rparr>"

definition SocketReader_getline :: "SocketReader getline" where
  "SocketReader_getline r =
     (case read_loop [] (sr_input r) of
        (str, Some cs) \<Rightarrow> (Inr (if str = [] then None else Some str), r\<lparr>sr_input := cs\<rparr>)
      | (str, None) \<Rightarrow> (Inr (if str = [] then None else Some str), sr_at_end r))"

definition SocketReader_isEof :: "SocketReader \<Rightarrow> bool" where
  "SocketReader_isEof r = sr_eof r"

text \<open>
  \<open>postfixreader.h\<close> has the same loop on a \<open>FileDescriptor\<close>, whose \<open>setErrno\<close> does
  nothing unless a subclass overrides it: \<open>setErrno\<close> is an argument.
\<close>

record 'fd PostfixReader =
  pr_fd :: 'fd
  pr_input :: string
  pr_end :: "int option"
  pr_eof :: bool

definition PostfixReader_new :: "'fd \<Rightarrow> string \<Rightarrow> int option \<Rightarrow> 'fd PostfixReader" where
  "PostfixReader_new fd input ending =
     \<lparr>pr_fd = fd, pr_input = input, pr_end = ending, pr_eof = False\<rparr>"

definition PostfixReader_getline ::
    "(int \<Rightarrow> 'fd \<Rightarrow> 'fd) \<Rightarrow> 'fd PostfixReader getline" where
  "PostfixReader_getline setErrno r =
     (case read_loop [] (pr_input r) of
        (str, Some cs) \<Rightarrow> (Inr (if str = [] then None else Some str), r\<lparr>pr_input := cs\<rparr>)
      | (str, None) \<Rightarrow>
          (Inr (if str = [] then None else Some str),
           r\<lparr>pr_input := [], pr_eof := True,
             pr_fd := (case pr_end r of None \<Rightarrow> pr_fd r | Some e \<Rightarrow> setErrno e (pr_fd r))\<rparr>))"

definition PostfixReader_isEof :: "'fd PostfixReader \<Rightarrow> bool" where
  "PostfixReader_isEof r = pr_eof r"

section \<open>The writer\<close>

type_synonym TripletWriter = "(nat, string) stdmap"

definition TripletWriter_add :: "nat \<Rightarrow> string \<Rightarrow> TripletWriter \<Rightarrow> TripletWriter" where
  "TripletWriter_add idx str w = smap_insert idx str w"

definition TripletWriter_add_var :: "string \<Rightarrow> string \<Rightarrow> TripletWriter \<Rightarrow> TripletWriter" where
  "TripletWriter_add_var key str w = w"

definition TripletWriter_member :: "TripletWriter \<Rightarrow> PostfixTokensType \<Rightarrow> string" where
  "TripletWriter_member w t =
     (case smap_find w (PostfixTokensType_idx t) of None \<Rightarrow> [] | Some s \<Rightarrow> s)"

interpretation triplet_writer: token_writer TripletWriter_add TripletWriter_add_var smap_find smap_ok
  by unfold_locales
    (simp_all add: TripletWriter_add_def TripletWriter_add_var_def smap_find_insert)

section \<open>The block of a request\<close>

text \<open>The lines before the next empty line or the end, and the bytes after the empty line.\<close>

fun block_lines :: "string \<Rightarrow> string \<Rightarrow> string list" where
  "block_lines str [] = (if str = [] then [] else [str])"
| "block_lines str (c # cs) =
     (if c = newline then (if str = [] then [] else str # block_lines [] cs)
      else block_lines (str @ [c]) cs)"

fun block_rest :: "bool \<Rightarrow> string \<Rightarrow> string option" where
  "block_rest start [] = None"
| "block_rest start (c # cs) =
     (if c = newline then (if start then Some cs else block_rest True cs) else block_rest False cs)"

lemma block_lines_read_loop:
  "block_lines str cs =
   (case read_loop str cs of
      (l, Some cs') \<Rightarrow> if l = [] then [] else l # block_lines [] cs'
    | (l, None) \<Rightarrow> if l = [] then [] else [l])"
  by (induction str cs rule: read_loop.induct) auto

lemma block_rest_read_loop:
  "block_rest (str = []) cs =
   (case read_loop str cs of
      (l, Some cs') \<Rightarrow> if l = [] then Some cs' else block_rest True cs'
    | (l, None) \<Rightarrow> None)"
proof (induction str cs rule: read_loop.induct)
  case (2 str c cs)
  then show ?case by (cases "c = newline") auto
qed simp

definition sr_block :: "SocketReader \<Rightarrow> string list" where
  "sr_block r = block_lines [] (sr_input r)"

definition sr_rest :: "SocketReader \<Rightarrow> SocketReader" where
  "sr_rest r =
     (case block_rest True (sr_input r) of None \<Rightarrow> sr_at_end r | Some cs \<Rightarrow> r\<lparr>sr_input := cs\<rparr>)"

lemma sr_at_end_idem [simp]: "sr_at_end (sr_at_end r) = sr_at_end r"
  by (simp add: sr_at_end_def split: option.split)

lemma sr_at_end_upd [simp]: "sr_at_end (r\<lparr>sr_input := cs\<rparr>) = sr_at_end r"
  by (simp add: sr_at_end_def split: option.split)

lemma sr_at_end_input [simp]: "sr_input (sr_at_end r) = []"
  by (simp add: sr_at_end_def)

lemma SocketReader_getline_cases:
  assumes "read_loop [] (sr_input r) = (l, m)"
  shows "SocketReader_getline r =
      (Inr (if l = [] then None else Some l), (case m of None \<Rightarrow> sr_at_end r | Some cs \<Rightarrow> r\<lparr>sr_input := cs\<rparr>))"
    and "sr_block r = (if l = [] then [] else l # (case m of None \<Rightarrow> [] | Some cs \<Rightarrow> block_lines [] cs))"
    and "sr_rest r = (case m of None \<Rightarrow> sr_at_end r
       | Some cs \<Rightarrow> if l = [] then r\<lparr>sr_input := cs\<rparr> else sr_rest (r\<lparr>sr_input := cs\<rparr>))"
  using assms block_lines_read_loop [of "[]" "sr_input r"] block_rest_read_loop [of "[]" "sr_input r"]
  by (auto simp: SocketReader_getline_def sr_block_def sr_rest_def split: option.split)

interpretation socket_reader: line_reader SocketReader_getline sr_block sr_rest "\<lambda>_. True"
proof unfold_locales
  fix r :: SocketReader
  obtain l m where loop: "read_loop [] (sr_input r) = (l, m)" by fastforce
  note cases = SocketReader_getline_cases [OF loop]
  show "SocketReader_getline r = (Inr None, sr_rest r)" if "sr_block r = []"
    using that cases by (auto split: if_splits option.split)
  show "\<exists>r'. SocketReader_getline r = (Inr (Some s), r') \<and> sr_block r' = ss \<and> sr_rest r' = sr_rest r \<and> True"
    if "sr_block r = s # ss" for s ss
    using that cases by (auto simp: sr_block_def sr_rest_def split: if_splits option.splits)
qed

interpretation request_parser: parser_client SocketReader_getline sr_block sr_rest "\<lambda>_. True"
    TripletWriter_add TripletWriter_add_var smap_find smap_ok SocketReader_isEof
  by unfold_locales

text \<open>The parser as the handler calls it.\<close>

definition parse_request ::
    "SocketReader \<Rightarrow> ((exn + unit) \<times> SocketReader \<times> TripletWriter) option" where
  "parse_request r =
     parse SocketReader_getline SocketReader_isEof TripletWriter_add TripletWriter_add_var
       postfixTokens False r []"

lemma parse_request_eq:
  "parse_request r =
   Some (request_parser.outcome postfixTokens r, sr_rest r, request_parser.filled postfixTokens False r [])"
  unfolding parse_request_def by (rule request_parser.parse_returns) simp

section \<open>A request Postfix writes\<close>

definition attr_line :: "string \<times> string \<Rightarrow> string" where
  "attr_line a = fst a @ CHR ''='' # snd a"

definition request_text :: "(string \<times> string) list \<Rightarrow> string" where
  "request_text attrs = concat (map (\<lambda>a. attr_line a @ [newline]) attrs) @ [newline]"

definition attr_ok :: "string \<times> string \<Rightarrow> bool" where
  "attr_ok a \<longleftrightarrow> CHR ''='' \<notin> set (fst a) \<and> newline \<notin> set (fst a) \<and> newline \<notin> set (snd a)"

lemma read_loop_line:
  "newline \<notin> set l \<Longrightarrow> read_loop str (l @ newline # cs) = (str @ l, Some cs)"
  by (induction l arbitrary: str) auto

lemma request_lines:
  assumes "list_all attr_ok attrs"
  shows "block_lines [] (request_text attrs @ tail_bytes) = map attr_line attrs"
    and "block_rest True (request_text attrs @ tail_bytes) = Some tail_bytes"
proof -
  have "block_lines [] (request_text attrs @ tail_bytes) = map attr_line attrs \<and>
        block_rest True (request_text attrs @ tail_bytes) = Some tail_bytes"
    using assms
  proof (induction attrs)
    case Nil
    show ?case by (simp add: request_text_def)
  next
    case (Cons a attrs)
    have eq: "request_text (a # attrs) @ tail_bytes = attr_line a @ newline # (request_text attrs @ tail_bytes)"
      by (simp add: request_text_def)
    have loop: "read_loop [] (request_text (a # attrs) @ tail_bytes) =
        (attr_line a, Some (request_text attrs @ tail_bytes))"
      unfolding eq using Cons.prems by (subst read_loop_line) (auto simp: attr_line_def attr_ok_def)
    have "attr_line a \<noteq> []" by (simp add: attr_line_def)
    with Cons block_lines_read_loop [of "[]" "request_text (a # attrs) @ tail_bytes"]
      block_rest_read_loop [of "[]" "request_text (a # attrs) @ tail_bytes"] loop
    show ?case by simp
  qed
  then show "block_lines [] (request_text attrs @ tail_bytes) = map attr_line attrs"
    and "block_rest True (request_text attrs @ tail_bytes) = Some tail_bytes" by simp_all
qed

lemma assignment_attr_line:
  "attr_ok a \<Longrightarrow> assignment tk (attr_line a) =
     (if findToken tk (fst a) = - 1 then None else Some (nat (findToken tk (fst a)), snd a))"
  by (cases a) (simp add: assignment_def attr_line_def attr_ok_def)

lemma assignments_attrs:
  assumes "tl_wf tk" and "(name, i) \<in> set (tl_map tk)" and "list_all attr_ok attrs"
  shows "map_of (assignments tk (map attr_line attrs)) i = map_of attrs name"
  using assms(3)
proof (induction attrs)
  case (Cons a attrs)
  with findToken_idx_inj [OF assms(1,2), of "fst a"] show ?case
    by (auto simp: assignments_Cons assignment_attr_line)
qed simp

section \<open>Properties\<close>

fun postfix_name :: "PostfixTokensType \<Rightarrow> string" where
  "postfix_name PF_client_address = ''client_address''"
| "postfix_name PF_sender = ''sender''"
| "postfix_name PF_recipient = ''recipient''"
| "postfix_name PF_reverse_client_name = ''reverse_client_name''"
| "postfix_name PF_client_name = ''client_name''"

lemma postfix_mem: "(postfix_name t, PostfixTokensType_idx t) \<in> set (tl_map postfixTokens)"
  by (cases t; simp; code_simp)

lemma postfix_required: "copyRequired postfixTokens = [(0, True), (1, True), (2, True)]"
  by code_simp

lemma postfix_no_default [simp]: "getDefault postfixTokens i = []"
proof -
  have "tl_default postfixTokens = []" by code_simp
  then show ?thesis by (simp add: getDefault_def)
qed

lemma postfix_assigned:
  "0 \<in> fst ` set (assignments postfixTokens ls) \<longleftrightarrow> ''client_address'' \<in> set (line_keys ls)"
  "Suc 0 \<in> fst ` set (assignments postfixTokens ls) \<longleftrightarrow> ''sender'' \<in> set (line_keys ls)"
  "2 \<in> fst ` set (assignments postfixTokens ls) \<longleftrightarrow> ''recipient'' \<in> set (line_keys ls)"
  using assigned_iff [OF token_tables_wf(1) postfix_mem [of PF_client_address]]
    assigned_iff [OF token_tables_wf(1) postfix_mem [of PF_sender]]
    assigned_iff [OF token_tables_wf(1) postfix_mem [of PF_recipient]] by simp_all

lemma getToken_postfix:
  "getToken postfixTokens 0 = Inr ''client_address''" "getToken postfixTokens (Suc 0) = Inr ''sender''"
  "getToken postfixTokens 2 = Inr ''recipient''"
  by code_simp+

definition missing_attrs :: "string list \<Rightarrow> string list" where
  "missing_attrs lines =
     filter (\<lambda>n. n \<notin> set (line_keys lines)) [''client_address'', ''sender'', ''recipient'']"

lemma request_outcome:
  "request_parser.outcome postfixTokens r =
   (if missing_attrs (sr_block r) = [] \<or> sr_eof (sr_rest r) then Inr ()
    else Inl (RuntimeError (''Parser missing:'' @ concat (map (\<lambda>n. '' '' @ n) (missing_attrs (sr_block r))))))"
proof -
  have left: "undefaulted postfixTokens req = req" for req
    by (cases req) (simp_all add: undefaulted_def)
  have "open_required postfixTokens ls =
      filter (\<lambda>e. fst e \<notin> fst ` set (assignments postfixTokens ls)) [(0, True), (1, True), (2, True)]" for ls
    by (simp add: open_required_def postfix_required)
  note this [simplified postfix_assigned filter.simps fst_conv]
  then show ?thesis
    unfolding request_parser.outcome_def left SocketReader_isEof_def
    by (simp add: missing_attrs_def postfix_assigned getToken_postfix)
qed

text \<open>
  C12 (error). Reading a request always returns: it consumes the bytes up to the empty line (or
  the end), and it throws exactly when one of the three required attributes is missing and the
  connection is still open; the exception names the missing ones. A request the peer cut short
  by closing the connection is not refused.
\<close>

theorem parse_request_returns:
  "\<exists>w. parse_request r =
     Some (if missing_attrs (sr_block r) = [] \<or> sr_eof (sr_rest r) then Inr ()
           else Inl (RuntimeError (''Parser missing:'' @
                  concat (map (\<lambda>n. '' '' @ n) (missing_attrs (sr_block r))))),
           sr_rest r, w)"
  by (simp add: parse_request_eq request_outcome)

lemma request_parsed:
  assumes "list_all attr_ok attrs" and "list_all (\<lambda>n. n \<in> set (map fst attrs)) [''client_address'', ''sender'', ''recipient'']"
  shows "\<exists>w. parse_request (SocketReader_new fd (request_text attrs @ rest) ending junk) =
             Some (Inr (), SocketReader_new fd rest ending junk, w) \<and>
             (\<forall>t. TripletWriter_member w t = (case map_of attrs (postfix_name t) of None \<Rightarrow> [] | Some v \<Rightarrow> v))"
proof -
  let ?r = "SocketReader_new fd (request_text attrs @ rest) ending junk"
  have block: "sr_block ?r = map attr_line attrs" and rest: "sr_rest ?r = SocketReader_new fd rest ending junk"
    using request_lines [OF assms(1), of rest] by (simp_all add: sr_block_def sr_rest_def SocketReader_new_def)
  have "key_val (attr_line a) = Some a" if "attr_ok a" for a
    using that by (simp add: attr_line_def attr_ok_def)
  then have "List.map_filter key_val (map attr_line attrs) = attrs"
    using assms(1) by (induction attrs) (simp_all add: map_filter_simps)
  then have out: "request_parser.outcome postfixTokens ?r = Inr ()"
    unfolding request_outcome block missing_attrs_def line_keys_def using assms(2) by auto
  have "smap_find (request_parser.filled postfixTokens False ?r []) (PostfixTokensType_idx t) =
        map_of attrs (postfix_name t)" for t
    using request_parser.value_filled [of "[]" postfixTokens False ?r]
      assignments_attrs [OF token_tables_wf(1) postfix_mem assms(1), of t]
    by (simp add: block defaulted_def split: option.split)
      (cases "open_required postfixTokens (map attr_line attrs)"; simp)
  then show ?thesis
    by (simp add: parse_request_eq out rest TripletWriter_member_def)
qed

text \<open>
  C11 (round trip). The request Postfix writes, attribute by attribute and closed by an empty
  line, is read back: the parser leaves the connection right after it, and each of the five
  members is the first value sent under its name, or empty when it was not sent.
\<close>

theorem request_roundtrip:
  assumes "list_all attr_ok attrs" and "list_all (\<lambda>n. n \<in> set (map fst attrs)) [''client_address'', ''sender'', ''recipient'']"
  shows "\<exists>w. parse_request (SocketReader_new fd (request_text attrs @ rest) ending junk) =
             Some (Inr (), SocketReader_new fd rest ending junk, w) \<and>
             TripletWriter_member w t = (case map_of attrs (postfix_name t) of None \<Rightarrow> [] | Some v \<Rightarrow> v)"
  using request_parsed [OF assms] by blast

definition sample_attrs :: "(string \<times> string) list" where
  "sample_attrs =
     [(''request'', ''smtpd_access_policy''), (''sender'', ''me@here''), (''recipient'', ''you@there''),
      (''client_address'', ''10.0.0.1''), (''client_name'', ''mx.here''), (''size'', [])]"

theorem request_roundtrip_witness:
  "\<exists>w. parse_request (SocketReader_new 5 (request_text sample_attrs @ ''x'') None 0) =
       Some (Inr (), SocketReader_new 5 ''x'' None 0, w) \<and>
       TripletWriter_member w PF_sender = ''me@here''"
  using request_roundtrip [of sample_attrs 5 "''x''" None 0 PF_sender]
  by (simp add: sample_attrs_def attr_ok_def)

end
