(* ===== verification/Action.thy ===== *)
theory Action
  imports Core Socket_Reader
begin

text \<open>
  \<open>src/src/action.h\<close>: the reply to a request. The constructor keeps the three reply texts by
  action (\<open>cont\<close> has none) and notes which of them start with \<open>defer_if_permit\<close>;
  \<open>process\<close> builds the reply line and, at the full log level, one line for \<open>syslog\<close>.
\<close>

record Action =
  ac_deferwithstatus :: bool
  ac_logLevel :: "32 word"
  ac_map :: "(nat, string) stdmap"
  ac_deferMap :: "(nat, bool) stdmap"

text \<open>\<open>postfixResponseTokens()->getToken(PFT_defer)\<close>, index 1 of its table.\<close>

definition deferprefix :: string where
  "deferprefix = (case getToken postfixResponseTokens (PostfixResponseTokensType_idx PFT_defer) of Inl _ \<Rightarrow> [] | Inr t \<Rightarrow> t)"

text \<open>\<open>s.compare(0, p.length(), p) == 0\<close>.\<close>

definition has_prefix :: "string \<Rightarrow> string \<Rightarrow> bool" where
  "has_prefix p s \<longleftrightarrow> take (length p) s = p"

definition Action_new :: "bool \<Rightarrow> string \<Rightarrow> string \<Rightarrow> string \<Rightarrow> 32 word \<Rightarrow> Action" where
  "Action_new deferwithstatus defer dunno onerror loglevel =
     (let m = smap_insert (ActionType_idx Error) onerror
                (smap_insert (ActionType_idx Defer) defer
                  (smap_insert (ActionType_idx Dunno) dunno []));
          d = fold (\<lambda>(i, text). smap_insert i (has_prefix deferprefix text)) m []
      in \<lparr>ac_deferwithstatus = deferwithstatus, ac_logLevel = loglevel, ac_map = m, ac_deferMap = d\<rparr>)"

definition status_text :: "Extra \<Rightarrow> string" where
  "status_text x =
     ex_prefix x @ '': ('' @ StrmConvert_unsigned (ex_count x) @ '', '' @ StrmConvert_unsigned (ex_diff x) @ '' secs)''"

definition log_line :: "Triplet \<Rightarrow> Extra \<Rightarrow> string" where
  "log_line t x =
     (let client = (if getClientName t = ''unknown'' then getClientAddress t else getClientName t);
          comment = (if ex_comment x = [] then [] else '': '' @ ex_comment x)
      in c_str (ex_prefix x) @ '': '' @ c_str (tr_sender t) @ '' -> '' @ c_str (tr_recipient t) @ '', '' @ c_str client @
         '' ('' @ StrmConvert_unsigned (ex_count x) @ '', '' @ StrmConvert_unsigned (ex_diff x) @ '' secs)'' @ c_str comment)"

text \<open>The reply, and the lines passed to \<open>syslog\<close>.\<close>

definition Action_process :: "Action \<Rightarrow> ActionType \<Rightarrow> Triplet \<Rightarrow> Extra \<Rightarrow> (exn + string) \<times> string list" where
  "Action_process ac action t x =
     (case smap_find (ac_map ac) (ActionType_idx action) of
        None \<Rightarrow> (Inl (LogicError (''Unexpected Action idx='' @ StrmConvert_int (int (ActionType_idx action)))), [])
      | Some text \<Rightarrow>
          let str = ''action='' @ text;
              str' = (if ac_deferwithstatus ac \<and> smap_find (ac_deferMap ac) (ActionType_idx action) = Some True
                      then str @ '' '' @ status_text x else str)
          in (Inr (str' @ [newline, newline]),
              if ac_logLevel ac = of_nat (LogTokensType_idx LT_full) then [log_line t x] else []))"

section \<open>The replies of an action\<close>

lemma deferprefix_eq [simp]: "deferprefix = ''defer_if_permit''"
  by code_simp

fun reply_text :: "string \<Rightarrow> string \<Rightarrow> string \<Rightarrow> ActionType \<Rightarrow> string" where
  "reply_text defer dunno onerror Dunno = dunno"
| "reply_text defer dunno onerror Defer = defer"
| "reply_text defer dunno onerror Cont = []"
| "reply_text defer dunno onerror Error = onerror"

lemma Action_process_eq:
  assumes "a \<noteq> Cont"
  shows "fst (Action_process (Action_new dws defer dunno onerror ll) a t x) =
    Inr (''action='' @ reply_text defer dunno onerror a @
         (if dws \<and> has_prefix ''defer_if_permit'' (reply_text defer dunno onerror a) then '' '' @ status_text x else []) @
         [newline, newline])"
  using assms by (cases a) (simp_all add: Action_process_def Action_new_def Let_def)

lemma Action_process_cont:
  "Action_process (Action_new dws defer dunno onerror ll) Cont t x = (Inl (LogicError ''Unexpected Action idx=2''), [])"
proof -
  have "StrmConvert_int 2 = ''2''" by code_simp
  then show ?thesis by (simp add: Action_process_def Action_new_def Let_def)
qed

lemma newline_not_digit: "newline \<notin> set (show_nat n)"
  using show_nat_digits [of n] by (auto simp: is_digit_def code_of_def)

lemma status_text_line: "newline \<notin> set (ex_prefix x) \<Longrightarrow> newline \<notin> set (status_text x)"
  by (simp add: status_text_def StrmConvert_unsigned_def newline_not_digit)

text \<open>
  C14 (round trip). Every action but "continue" has a reply, and the reply is well framed: as
  long as the configured texts and the prefix hold no newline, the reader of the protocol finds
  exactly one attribute in it, \<open>action\<close>, whose value is the configured text, followed by the
  status exactly when status is on and the text starts with \<open>defer_if_permit\<close>. "Continue" throws.
\<close>

theorem reply_roundtrip:
  assumes "newline \<notin> set defer" and "newline \<notin> set dunno" and "newline \<notin> set onerror" and "newline \<notin> set (ex_prefix x)"
  shows "case fst (Action_process (Action_new dws defer dunno onerror ll) a t x) of
           Inl e \<Rightarrow> a = Cont \<and> e = LogicError ''Unexpected Action idx=2''
         | Inr reply \<Rightarrow> a \<noteq> Cont \<and>
             block_lines [] (reply @ rest) =
               [attr_line (''action'', reply_text defer dunno onerror a @
                  (if dws \<and> has_prefix ''defer_if_permit'' (reply_text defer dunno onerror a) then '' '' @ status_text x else []))] \<and>
             block_rest True (reply @ rest) = Some rest"
proof (cases "a = Cont")
  case True
  then show ?thesis by (simp add: Action_process_cont)
next
  case False
  define v where "v = reply_text defer dunno onerror a @
      (if dws \<and> has_prefix ''defer_if_permit'' (reply_text defer dunno onerror a) then '' '' @ status_text x else [])"
  have "newline \<notin> set (reply_text defer dunno onerror a)" using assms by (cases a) auto
  with status_text_line [OF assms(4)] have "list_all attr_ok [(''action'', v)]"
    by (auto simp: attr_ok_def v_def)
  from request_lines [OF this, of rest]
  have "block_lines [] (''action='' @ v @ newline # newline # rest) = [attr_line (''action'', v)]"
    "block_rest True (''action='' @ v @ newline # newline # rest) = Some rest"
    by (simp_all add: request_text_def attr_line_def)
  with False show ?thesis by (simp add: Action_process_eq v_def)
qed

theorem reply_roundtrip_witness:
  "block_lines []
     (case fst (Action_process (Action_new True ''defer_if_permit later'' ''dunno'' ''dunno'' 0) Defer
               (Triplet_new ''10.0.0.1'' [] [] [] []) (setPrefix ''new'' Extra_new)) of Inl _ \<Rightarrow> [] | Inr s \<Rightarrow> s) =
   [''action=defer_if_permit later new: (0, 0 secs)'']"
  using reply_roundtrip [of "''defer_if_permit later''" "''dunno''" "''dunno''" "setPrefix ''new'' Extra_new" Defer "[]"
      True 0 "Triplet_new ''10.0.0.1'' [] [] [] []"]
  by (simp add: setPrefix_def Extra_new_def Action_process_eq has_prefix_def attr_line_def status_text_def
      StrmConvert_unsigned_def) code_simp

end
