(* ===== verification/Server.thy ===== *)
theory Server
  imports Action Matchers
begin

text \<open>
  \<open>src/src/server.h\<close>: the handler of a connection. It reads requests until the peer closes,
  an error occurs or the limit of requests is reached, and writes one reply per request. What the
  system answers is part of the state: the bytes of the peer and how the stream ends (in the
  reader), what each \<open>write\<close> returns, when an interruption is requested and the value of the
  signal flag. Handlers run in several threads; this theory follows one of them, and the shared
  counters and the table of sockets are part of its state.
\<close>

record ('e, 'r) server =
  sv_world :: "('e, 'r) world"
  sv_sockets :: "(32 word, bool) stdmap"
  sv_busyHandlers :: int
  sv_handled :: int
  sv_signal :: int
  sv_syslog :: "string list"

text \<open>
  The connection: \<open>cn_writes n s\<close> is what the n-th \<open>write\<close> of the bytes \<open>s\<close> returns, with its
  \<open>errno\<close>, \<open>cn_sent\<close> the bytes the peer got.
\<close>

record ('e, 'r) conn = "('e, 'r) server" +
  cn_reader :: SocketReader
  cn_writes :: "nat \<Rightarrow> string \<Rightarrow> int \<times> int"
  cn_nwrites :: nat
  cn_sent :: string
  cn_interrupts :: "nat \<Rightarrow> bool"
  cn_polls :: nat
  cn_shut :: bool

type_synonym ('e, 'r, 'a) cprog = "(('e, 'r) conn, 'a) prog"

text \<open>The members of a server the handler reads.\<close>

record ('e, 'r) service =
  se_core :: "('e, 'r) world chain"
  se_action :: Action
  se_maxRequests :: "32 word"

section \<open>SocketWrapper and the end of SocketReader\<close>

definition SocketWrapper_new :: "32 word \<Rightarrow> ('e, 'r, 'm) server_scheme \<Rightarrow> bool \<times> ('e, 'r, 'm) server_scheme" where
  "SocketWrapper_new fd s =
     (let inserted = (smap_find (sv_sockets s) fd = None);
          s' = s\<lparr>sv_sockets := smap_insert fd True (sv_sockets s)\<rparr>
      in (inserted,
          if inserted then s'
          else s'\<lparr>sv_syslog := sv_syslog s' @ [''Error: socket still in use '' @ StrmConvert_int (sint fd)]\<rparr>))"

definition SocketWrapper_destroy :: "32 word \<Rightarrow> bool \<Rightarrow> ('e, 'r, 'm) server_scheme \<Rightarrow> ('e, 'r, 'm) server_scheme" where
  "SocketWrapper_destroy fd inserted s =
     (if inserted then s\<lparr>sv_sockets := smap_erase fd (sv_sockets s)\<rparr> else s)"

definition SocketReader_destroy :: "int \<Rightarrow> SocketReader \<Rightarrow> SocketReader" where
  "SocketReader_destroy close_errno r = (if sr_fd r \<ge> 0 then r\<lparr>sr_errno := close_errno, sr_fd := - 1\<rparr> else r)"

section \<open>One request\<close>

definition request_triplet :: "TripletWriter \<Rightarrow> Triplet" where
  "request_triplet w =
     Triplet_new (TripletWriter_member w PF_client_address) (TripletWriter_member w PF_sender)
       (TripletWriter_member w PF_recipient) (TripletWriter_member w PF_reverse_client_name)
       (TripletWriter_member w PF_client_name)"

definition reply :: "Action \<Rightarrow> ActionType \<Rightarrow> ('e, 'r, string \<times> string list) wprog" where
  "reply ac a w =
     (case Action_process ac a (w_triplet w) (w_extra w) of
        (Inl e, log) \<Rightarrow> (Inl e, w) | (Inr str, log) \<Rightarrow> (Inr (str, log), w))"

definition answer :: "('e, 'r) service \<Rightarrow> ('e, 'r, string \<times> string list) wprog" where
  "answer sv =
     catchE (bindE (process (se_core sv)) (\<lambda>result. reply (se_action sv) result))
       (\<lambda>e. bindE (upd_extra (setComment (''Error: caught exception in core: '' @ what e))) (\<lambda>_.
             reply (se_action sv) Error))"

definition on_sv_world :: "('e, 'r, 'a) wprog \<Rightarrow> ('e, 'r, 'a) cprog" where
  "on_sv_world m c = (case m (sv_world c) of (r, w) \<Rightarrow> (r, c\<lparr>sv_world := w\<rparr>))"

definition add_log :: "string list \<Rightarrow> ('e, 'r) conn \<Rightarrow> ('e, 'r) conn" where
  "add_log lines c = c\<lparr>sv_syslog := sv_syslog c @ lines\<rparr>"

definition shut :: "('e, 'r) conn \<Rightarrow> ('e, 'r) conn" where
  "shut c = c\<lparr>cn_shut := True\<rparr>"

definition write_reply :: "string \<Rightarrow> ('e, 'r, int \<times> int) cprog" where
  "write_reply str c =
     (let (n, err) = cn_writes c (cn_nwrites c) str
      in (Inr (n, err), c\<lparr>cn_nwrites := Suc (cn_nwrites c), cn_sent := cn_sent c @ take (nat n) str\<rparr>))"

text \<open>The body after the parser, up to the test of the limit: whether the loop goes on.\<close>

definition serve :: "('e, 'r) service \<Rightarrow> TripletWriter \<Rightarrow> 32 word \<Rightarrow> ('e, 'r, bool) cprog" where
  "serve sv tw handled =
     bindE (modify (\<lambda>c. c\<lparr>sv_world := (sv_world c)\<lparr>w_triplet := request_triplet tw, w_extra := Extra_new\<rparr>\<rparr>)) (\<lambda>_.
     bindE (on_sv_world (answer sv)) (\<lambda>(strAction, log).
     bindE (modify (add_log log)) (\<lambda>_.
     bindE (write_reply strAction) (\<lambda>(nwritten, err).
     if nwritten \<le> 0
     then bindE (modify (\<lambda>c. shut (if sv_signal c = 0
                                   then add_log [''Error: in write: '' @ getErrmsg err @ '' ('' @ StrmConvert_int err @ '')''] c
                                   else c))) (\<lambda>_. ret False)
     else bindE (modify (\<lambda>c. c\<lparr>sv_handled := sv_handled c + 1\<rparr>)) (\<lambda>_.
          ret (\<not> (se_maxRequests sv > 0 \<and> handled + 1 = se_maxRequests sv)))))))"

definition poll :: "('e, 'r) conn \<Rightarrow> bool \<times> ('e, 'r) conn" where
  "poll c = (cn_interrupts c (cn_polls c), c\<lparr>cn_polls := Suc (cn_polls c)\<rparr>)"

section \<open>The loop and the handler\<close>

partial_function (option) handle_loop ::
    "('e, 'r) service \<Rightarrow> 32 word \<Rightarrow> ('e, 'r) conn \<Rightarrow> ((exn + unit) \<times> ('e, 'r) conn) option" where
  "handle_loop sv handled c0 =
     (if SocketReader_isEof (cn_reader c0) then Some (Inr (), c0)
      else let (interrupted, c) = poll c0 in
        if interrupted then Some (Inr (), c)
        else case parse_request (cn_reader c) of
          None \<Rightarrow> None
        | Some (r, reader, tw) \<Rightarrow>
            let c1 = c\<lparr>cn_reader := reader\<rparr> in
            (case r of
               Inl e \<Rightarrow>
                 if is_undefined e then Some (Inl e, c1)
                 else Some (Inr (), shut (add_log [''Error: getting triplet input: '' @ what e] c1))
             | Inr _ \<Rightarrow>
                 if SocketReader_isEof reader then Some (Inr (), c1)
                 else (case serve sv tw handled c1 of
                         (Inl e, c2) \<Rightarrow>
                           if is_undefined e then Some (Inl e, c2)
                           else Some (Inr (), shut (add_log [''Error: in handler: '' @ what e] c2))
                       | (Inr go, c2) \<Rightarrow>
                           if go then handle_loop sv (handled + 1) c2 else Some (Inr (), c2))))"

declare handle_loop.simps [code]

text \<open>
  The connection of an accepted descriptor; the wrapper registers it, and on the way out the
  reader closes it before the wrapper takes it out of the table.
\<close>

definition handle ::
    "('e, 'r) service \<Rightarrow> 32 word \<Rightarrow> int \<Rightarrow> ('e, 'r) conn \<Rightarrow> ((exn + unit) \<times> ('e, 'r) conn) option" where
  "handle sv fd close_errno c =
     (case SocketWrapper_new fd c of
        (inserted, c1) \<Rightarrow>
          let c2 = c1\<lparr>sv_busyHandlers := sv_busyHandlers c1 + 1\<rparr> in
          case handle_loop sv 0 c2 of
            None \<Rightarrow> None
          | Some (r, c3) \<Rightarrow>
              let c4 = (case r of Inl _ \<Rightarrow> c3 | Inr _ \<Rightarrow> c3\<lparr>sv_busyHandlers := sv_busyHandlers c3 - 1\<rparr>);
                  c5 = c4\<lparr>cn_reader := SocketReader_destroy close_errno (cn_reader c4)\<rparr>
              in Some (r, SocketWrapper_destroy fd inserted c5))"

definition conn_open ::
    "('e, 'r) server \<Rightarrow> 32 word \<Rightarrow> string \<Rightarrow> int option \<Rightarrow> int \<Rightarrow> (nat \<Rightarrow> string \<Rightarrow> int \<times> int) \<Rightarrow> (nat \<Rightarrow> bool) \<Rightarrow> ('e, 'r) conn" where
  "conn_open s fd input ending junk writes interrupts =
     server.extend s \<lparr>cn_reader = SocketReader_new (sint fd) input ending junk, cn_writes = writes, cn_nwrites = 0,
       cn_sent = [], cn_interrupts = interrupts, cn_polls = 0, cn_shut = False\<rparr>"

section \<open>What a handler leaves alone\<close>

definition request_inv :: "(('e, 'r) world \<Rightarrow> bool) \<Rightarrow> bool" where
  "request_inv P \<longleftrightarrow> (\<forall>w t x. P w \<longrightarrow> P (w\<lparr>w_triplet := t, w_extra := x\<rparr>))"

definition conn_frame :: "(('e, 'r) world \<Rightarrow> bool) \<Rightarrow> ('e, 'r) conn \<Rightarrow> ('e, 'r) conn \<Rightarrow> bool" where
  "conn_frame P c c' \<longleftrightarrow>
     sv_sockets c' = sv_sockets c \<and> sv_busyHandlers c' = sv_busyHandlers c \<and>
     sr_fd (cn_reader c') = sr_fd (cn_reader c) \<and> (P (sv_world c) \<longrightarrow> P (sv_world c'))"

lemma conn_frame_refl [simp, intro]: "conn_frame P c c"
  by (simp add: conn_frame_def)

lemma conn_frame_trans: "conn_frame P a b \<Longrightarrow> conn_frame P b c \<Longrightarrow> conn_frame P a c"
  by (simp add: conn_frame_def)

lemma conn_frame_upd [simp]:
  "conn_frame P c (add_log ls c') \<longleftrightarrow> conn_frame P c c'" "conn_frame P c (shut c') \<longleftrightarrow> conn_frame P c c'"
  "conn_frame P c (c'\<lparr>sv_handled := n\<rparr>) \<longleftrightarrow> conn_frame P c c'"
  by (simp_all add: conn_frame_def add_log_def shut_def)

lemma conn_frame_poll: "poll c = (b, c') \<Longrightarrow> conn_frame P c c' \<and> cn_reader c' = cn_reader c"
  by (auto simp: poll_def conn_frame_def)

lemma SocketWrapper_destroy_simps [simp]:
  "cn_reader (SocketWrapper_destroy fd b c) = cn_reader c"
  "sv_busyHandlers (SocketWrapper_destroy fd b s) = sv_busyHandlers s"
  "sv_world (SocketWrapper_destroy fd b s) = sv_world s"
  "sv_sockets (SocketWrapper_destroy fd b s) = (if b then smap_erase fd (sv_sockets s) else sv_sockets s)"
  by (simp_all add: SocketWrapper_destroy_def)

lemma SocketReader_destroy_closed [simp]: "sr_fd (SocketReader_destroy e r) < 0"
  by (simp add: SocketReader_destroy_def)

lemma keeps_reply [keeps_intros]: "keeps P (reply ac a)"
  by (rule keepsI) (simp add: reply_def split: prod.split sum.split)

lemma keeps_answer:
  assumes "request_inv P" and "keeps P (process (se_core sv))"
  shows "keeps P (answer sv)"
proof -
  have "keeps P (upd_extra f)" for f
  proof (rule keepsI)
    fix w assume "P w"
    then have "P (w\<lparr>w_triplet := w_triplet w, w_extra := f (w_extra w)\<rparr>)"
      using assms(1) unfolding request_inv_def by blast
    then show "P (snd (upd_extra f w))" by (simp add: upd_extra_def)
  qed
  then show ?thesis unfolding answer_def by (intro keeps_intros assms(2))
qed

lemma conn_frame_serve:
  assumes "request_inv P" and "keeps P (process (se_core sv))"
  shows "conn_frame P c (snd (serve sv tw handled c))"
    and "cn_reader (snd (serve sv tw handled c)) = cn_reader c"
proof -
  define w0 where "w0 = (sv_world c)\<lparr>w_triplet := request_triplet tw, w_extra := Extra_new\<rparr>"
  obtain r w where ans: "answer sv w0 = (r, w)" by fastforce
  have "P w" if "P (sv_world c)"
    using keepsD [OF keeps_answer [OF assms], of w0] that assms(1) ans by (simp add: w0_def request_inv_def)
  moreover have "sv_sockets (snd (serve sv tw handled c)) = sv_sockets c \<and>
      sv_busyHandlers (snd (serve sv tw handled c)) = sv_busyHandlers c \<and>
      cn_reader (snd (serve sv tw handled c)) = cn_reader c \<and> sv_world (snd (serve sv tw handled c)) = w"
    using ans [unfolded w0_def]
    by (cases r) (simp_all add: serve_def bindE_def on_sv_world_def write_reply_def add_log_def shut_def split: prod.split)
  ultimately show "conn_frame P c (snd (serve sv tw handled c))"
    and "cn_reader (snd (serve sv tw handled c)) = cn_reader c"
    by (simp_all add: conn_frame_def)
qed

lemma block_rest_shorter: "block_rest start s = Some t \<Longrightarrow> length t < length s"
  by (induction start s rule: block_rest.induct) (auto split: if_splits)

lemma sr_rest_progress:
  "sr_fd (sr_rest r) = sr_fd r \<and> (sr_eof (sr_rest r) \<or> length (sr_input (sr_rest r)) < length (sr_input r))"
  by (auto simp: sr_rest_def sr_at_end_def dest: block_rest_shorter split: option.split)

lemma handle_loop_returns:
  assumes inv: "request_inv P" and core: "keeps P (process (se_core sv))"
  shows "\<exists>r c'. handle_loop sv handled c = Some (r, c') \<and> (\<forall>e. r = Inl e \<longrightarrow> is_undefined e) \<and> conn_frame P c c'"
proof (induction "length (sr_input (cn_reader c))" arbitrary: handled c rule: less_induct)
  case less
  show ?case
  proof (cases "sr_eof (cn_reader c) \<or> fst (poll c)")
    case True
    then show ?thesis
      by (subst handle_loop.simps) (auto simp: SocketReader_isEof_def dest: conn_frame_poll split: prod.split)
  next
    case False
    obtain c1 where poll: "poll c = (False, c1)" using False by (cases "poll c") auto
    then have c1: "conn_frame P c c1" "cn_reader c1 = cn_reader c"
      by (auto dest: conn_frame_poll)
    obtain r tw where parse: "parse_request (cn_reader c) = Some (r, sr_rest (cn_reader c), tw)"
      and r: "\<forall>e. r = Inl e \<longrightarrow> \<not> is_undefined e"
      by (simp add: parse_request_eq request_outcome split: if_splits)
    let ?c2 = "c1\<lparr>cn_reader := sr_rest (cn_reader c)\<rparr>"
    have c2: "conn_frame P c ?c2" using c1 sr_rest_progress [of "cn_reader c"] by (simp add: conn_frame_def)
    obtain rs c3 where serve: "serve sv tw handled ?c2 = (rs, c3)" by fastforce
    have c3: "conn_frame P c c3" and reader: "cn_reader c3 = sr_rest (cn_reader c)"
      using conn_frame_serve [OF inv core, where c = ?c2 and tw = tw and handled = handled] conn_frame_trans [OF c2] serve by auto
    have loop: "handle_loop sv handled c =
        (case r of
           Inl e \<Rightarrow> Some (Inr (), shut (add_log [''Error: getting triplet input: '' @ what e] ?c2))
         | Inr _ \<Rightarrow>
             if sr_eof (sr_rest (cn_reader c)) then Some (Inr (), ?c2)
             else (case rs of
                     Inl e \<Rightarrow> if is_undefined e then Some (Inl e, c3)
                              else Some (Inr (), shut (add_log [''Error: in handler: '' @ what e] c3))
                   | Inr go \<Rightarrow> if go then handle_loop sv (handled + 1) c3 else Some (Inr (), c3)))"
      using False poll parse c1(2) serve r
      by (subst handle_loop.simps) (auto simp: SocketReader_isEof_def split: sum.split)
    show ?thesis
    proof (cases "r = Inr () \<and> \<not> sr_eof (sr_rest (cn_reader c)) \<and> rs = Inr True")
      case True
      with sr_rest_progress [of "cn_reader c"] reader
      have "length (sr_input (cn_reader c3)) < length (sr_input (cn_reader c))" by simp
      from less.hyps [OF this, of "handled + 1"] True loop conn_frame_trans [OF c3] show ?thesis by auto
    next
      case False
      with loop c2 c3 show ?thesis by (cases r; cases rs) auto
    qed
  qed
qed

lemma handle_returns:
  assumes "request_inv P" and "keeps P (process (se_core sv))" and "P (sv_world c)" and "smap_ok (sv_sockets c)"
  shows "\<exists>r c'. handle sv fd close_errno c = Some (r, c') \<and> (\<forall>e. r = Inl e \<longrightarrow> is_undefined e) \<and>
           sv_sockets c' = sv_sockets c \<and> (r = Inr () \<longrightarrow> sv_busyHandlers c' = sv_busyHandlers c) \<and>
           sr_fd (cn_reader c') < 0 \<and> P (sv_world c')"
proof -
  obtain inserted c1 where wrap: "SocketWrapper_new fd c = (inserted, c1)" by fastforce
  then have ins: "inserted = (smap_find (sv_sockets c) fd = None)" "sv_sockets c1 = smap_insert fd True (sv_sockets c)"
    "sv_busyHandlers c1 = sv_busyHandlers c" "sv_world c1 = sv_world c"
    by (auto simp: SocketWrapper_new_def Let_def split: if_splits)
  define c2 where "c2 = c1\<lparr>sv_busyHandlers := sv_busyHandlers c1 + 1\<rparr>"
  obtain r c3 where loop: "handle_loop sv 0 c2 = Some (r, c3)" "\<forall>e. r = Inl e \<longrightarrow> is_undefined e" "conn_frame P c2 c3"
    using handle_loop_returns [OF assms(1,2), of 0 c2] by blast
  have table: "(if inserted then smap_erase fd (sv_sockets c3) else sv_sockets c3) = sv_sockets c"
    using loop(3) ins assms(4) by (auto simp: c2_def conn_frame_def smap_erase_insert)
  from loop(3) table show ?thesis
    using loop(1,2) wrap ins(3,4) assms(3)
    by (cases r) (simp_all add: handle_def Let_def c2_def conn_frame_def split: if_splits)
qed

text \<open>
  C6 (termination). Whatever the peer sends, however its connection ends and whatever the system
  answers, the handler of a connection returns. It returns normally unless the core runs into
  undefined behaviour; then the counter of busy handlers is back at its value, the descriptor is
  closed and the table of sockets is as it was, whether or not the descriptor was in it, and
  every property of the core's state that the chain keeps still holds.
\<close>

theorem handler_returns:
  assumes "request_inv P" and "keeps P (process (se_core sv))" and "P (sv_world c)" and "smap_ok (sv_sockets c)"
  shows "\<exists>r c'. handle sv fd close_errno c = Some (r, c') \<and> (\<forall>e. r = Inl e \<longrightarrow> is_undefined e) \<and>
           sv_sockets c' = sv_sockets c \<and> (r = Inr () \<longrightarrow> sv_busyHandlers c' = sv_busyHandlers c) \<and>
           sr_fd (cn_reader c') < 0 \<and> P (sv_world c')"
  by (rule handle_returns [OF assms])

section \<open>The answer to a request\<close>

lemma reply_Action_new:
  "a \<noteq> Cont \<Longrightarrow> \<exists>text log. reply (Action_new dws d1 d2 d3 ll) a w = (Inr (''action='' @ text, log), w)"
  using Action_process_eq [of a dws d1 d2 d3 ll "w_triplet w" "w_extra w"]
  by (cases "Action_process (Action_new dws d1 d2 d3 ll) a (w_triplet w) (w_extra w)") (auto simp: reply_def)

lemma process_not_cont: "process chain w \<noteq> (Inr Cont, w')"
  using process_cases [of chain w "Inr Cont" w'] by auto

text \<open>
  C13 (error). Every request gets an answer: the reply of the action the core decided on, and the
  configured reply for errors when the core throws, whatever it throws; the exception's text goes
  into the comment. Only undefined behaviour in the core is not answered.
\<close>

theorem core_failure_answered:
  assumes "se_action sv = Action_new dws d1 d2 d3 ll" and "process (se_core sv) w = (r, w')"
  shows "answer sv w =
     (case r of
        Inr a \<Rightarrow> (Inr (''action='' @ reply_text d1 d2 d3 a @
                   (if dws \<and> has_prefix ''defer_if_permit'' (reply_text d1 d2 d3 a) then '' '' @ status_text (w_extra w') else []) @
                   [newline, newline], snd (Action_process (se_action sv) a (w_triplet w') (w_extra w'))), w')
      | Inl e \<Rightarrow>
          if is_undefined e then (Inl e, w')
          else let x = setComment (''Error: caught exception in core: '' @ what e) (w_extra w') in
            (Inr (''action='' @ d3 @ (if dws \<and> has_prefix ''defer_if_permit'' d3 then '' '' @ status_text x else []) @
                   [newline, newline], snd (Action_process (se_action sv) Error (w_triplet w') x)), w'\<lparr>w_extra := x\<rparr>))"
proof -
  have rep: "reply (se_action sv) a v =
      (Inr (''action='' @ reply_text d1 d2 d3 a @
         (if dws \<and> has_prefix ''defer_if_permit'' (reply_text d1 d2 d3 a) then '' '' @ status_text (w_extra v) else []) @
         [newline, newline], snd (Action_process (se_action sv) a (w_triplet v) (w_extra v))), v)" if "a \<noteq> Cont" for a v
    using Action_process_eq [OF that, of dws d1 d2 d3 ll "w_triplet v" "w_extra v"] assms(1)
    by (cases "Action_process (Action_new dws d1 d2 d3 ll) a (w_triplet v) (w_extra v)") (simp add: reply_def)
  show ?thesis
  proof (cases r)
    case (Inl e)
    then show ?thesis
      using assms(2) by (simp add: answer_def catchE_def bindE_def upd_extra_def Let_def rep)
  next
    case (Inr a)
    then have "a \<noteq> Cont" using assms(2) process_not_cont [of "se_core sv" w w'] by auto
    with Inr show ?thesis
      using assms(2) rep [of a w'] by (simp add: answer_def catchE_def bindE_def)
  qed
qed

section \<open>The replies of a connection\<close>

definition request_ok :: "(string \<times> string) list \<Rightarrow> bool" where
  "request_ok attrs \<longleftrightarrow> list_all attr_ok attrs \<and>
     list_all (\<lambda>n. n \<in> set (map fst attrs)) [''client_address'', ''sender'', ''recipient'']"

definition attr_value :: "(string \<times> string) list \<Rightarrow> string \<Rightarrow> string" where
  "attr_value attrs n = (case map_of attrs n of None \<Rightarrow> [] | Some v \<Rightarrow> v)"

definition attrs_triplet :: "(string \<times> string) list \<Rightarrow> Triplet" where
  "attrs_triplet attrs =
     Triplet_new (attr_value attrs ''client_address'') (attr_value attrs ''sender'') (attr_value attrs ''recipient'')
       (attr_value attrs ''reverse_client_name'') (attr_value attrs ''client_name'')"

text \<open>The replies to a sequence of requests, one after the other on the same state.\<close>

fun answers :: "('e, 'r) service \<Rightarrow> Triplet list \<Rightarrow> ('e, 'r) world \<Rightarrow> (string list \<times> ('e, 'r) world) option" where
  "answers sv [] w = Some ([], w)"
| "answers sv (t # ts) w =
     (case answer sv (w\<lparr>w_triplet := t, w_extra := Extra_new\<rparr>) of
        (Inl e, w') \<Rightarrow> None
      | (Inr (str, log), w') \<Rightarrow> map_option (\<lambda>(strs, v). (str # strs, v)) (answers sv ts w'))"

text \<open>The system takes every byte and does not interrupt.\<close>

definition good_line :: "('e, 'r) conn \<Rightarrow> bool" where
  "good_line c \<longleftrightarrow> (\<forall>n str. fst (cn_writes c n str) = int (length str)) \<and> (\<forall>n. \<not> cn_interrupts c n)"

lemma answer_nonempty:
  assumes "se_action sv = Action_new dws d1 d2 d3 ll" and "answer sv w = (Inr (str, log), w')"
  shows "str \<noteq> []"
proof -
  have nonempty: "reply (se_action sv) a v = (Inr (s, l), v') \<Longrightarrow> s \<noteq> []" for a v s l v'
    using reply_Action_new [of a dws d1 d2 d3 ll v] assms(1)
    by (cases "a = Cont") (auto simp: reply_def Action_process_cont)
  from assms(2) show ?thesis
    by (auto simp: answer_def catchE_def bindE_def split: prod.splits sum.splits if_splits dest: nonempty)
qed

lemma serve_good:
  assumes "se_action sv = Action_new dws d1 d2 d3 ll" and "good_line c"
    and "answer sv ((sv_world c)\<lparr>w_triplet := request_triplet tw, w_extra := Extra_new\<rparr>) = (Inr (str, log), w')"
  shows "\<exists>c'. serve sv tw handled c = (Inr (\<not> (se_maxRequests sv > 0 \<and> handled + 1 = se_maxRequests sv)), c') \<and>
    cn_sent c' = cn_sent c @ str \<and> sv_handled c' = sv_handled c + 1 \<and> sv_world c' = w' \<and>
    cn_reader c' = cn_reader c \<and> good_line c'"
proof -
  have "str \<noteq> []" using answer_nonempty [OF assms(1,3)] .
  moreover obtain err where "cn_writes c (cn_nwrites c) str = (int (length str), err)"
    using assms(2) by (metis good_line_def prod.collapse)
  ultimately show ?thesis
    using assms(2,3)
    by (simp add: serve_def bindE_def on_sv_world_def write_reply_def add_log_def good_line_def)
qed

lemma handle_loop_good:
  assumes act: "se_action sv = Action_new dws d1 d2 d3 ll"
  shows "list_all request_ok rqs \<Longrightarrow> good_line c \<Longrightarrow>
    cn_reader c = SocketReader_new fd (concat (map request_text rqs) @ rest) ending junk \<Longrightarrow>
    answers sv (map attrs_triplet rqs) (sv_world c) = Some (replies, w) \<Longrightarrow>
    (se_maxRequests sv = 0 \<and> rest = []) \<or>
      (se_maxRequests sv = handled + of_nat (length rqs) \<and> rqs \<noteq> [] \<and> unat handled + length rqs < 2 ^ 32) \<Longrightarrow>
    \<exists>c'. handle_loop sv handled c = Some (Inr (), c') \<and> cn_sent c' = cn_sent c @ concat replies \<and>
      sv_handled c' = sv_handled c + int (length rqs) \<and> sv_world c' = w"
proof (induction rqs arbitrary: c handled replies)
  case Nil
  then have r: "cn_reader c = SocketReader_new fd [] ending junk" "replies = []" "w = sv_world c" by auto
  obtain c1 where poll: "poll c = (False, c1)" "cn_reader c1 = cn_reader c" "cn_sent c1 = cn_sent c" "sv_handled c1 = sv_handled c"
    "sv_world c1 = sv_world c"
    using Nil.prems(2) by (simp add: poll_def good_line_def)
  have "\<exists>tw. parse_request (cn_reader c) = Some (Inr (), sr_rest (cn_reader c), tw) \<and> sr_eof (sr_rest (cn_reader c)) \<and>
      \<not> sr_eof (cn_reader c)"
    by (simp add: parse_request_eq request_outcome r(1) SocketReader_new_def sr_rest_def sr_at_end_def)
  with poll r show ?case
    by (subst handle_loop.simps) (auto simp: SocketReader_isEof_def)
next
  case (Cons rq rqs)
  let ?rest = "concat (map request_text rqs) @ rest"
  obtain c1 where poll: "poll c = (False, c1)" "cn_reader c1 = cn_reader c" "cn_sent c1 = cn_sent c" "sv_handled c1 = sv_handled c"
    "sv_world c1 = sv_world c" "good_line c1"
    using Cons.prems(2) by (simp add: poll_def good_line_def)
  obtain tw where parse: "parse_request (cn_reader c) = Some (Inr (), SocketReader_new fd ?rest ending junk, tw)"
    and tw: "\<forall>t. TripletWriter_member tw t = (case map_of rq (postfix_name t) of None \<Rightarrow> [] | Some v \<Rightarrow> v)"
    using Cons.prems(1,3) request_parsed [of rq fd ?rest ending junk] by (auto simp: request_ok_def)
  have trip: "request_triplet tw = attrs_triplet rq"
    by (simp add: request_triplet_def attrs_triplet_def attr_value_def tw)
  obtain str log w1 replies' where ans: "answer sv ((sv_world c)\<lparr>w_triplet := attrs_triplet rq, w_extra := Extra_new\<rparr>) = (Inr (str, log), w1)"
    and more: "answers sv (map attrs_triplet rqs) w1 = Some (replies', w)" and replies: "replies = str # replies'"
    using Cons.prems(4) by (auto split: prod.splits sum.splits)
  let ?c2 = "c1\<lparr>cn_reader := SocketReader_new fd ?rest ending junk\<rparr>"
  obtain c3 where serve: "serve sv tw handled ?c2 = (Inr (\<not> (se_maxRequests sv > 0 \<and> handled + 1 = se_maxRequests sv)), c3)"
    and c3: "cn_sent c3 = cn_sent c @ str" "sv_handled c3 = sv_handled c + 1" "sv_world c3 = w1"
      "cn_reader c3 = SocketReader_new fd ?rest ending junk" "good_line c3"
    using serve_good [OF act, of ?c2 tw str log w1 handled] ans trip poll by (auto simp: good_line_def)
  have loop: "handle_loop sv handled c =
      (if se_maxRequests sv > 0 \<and> handled + 1 = se_maxRequests sv then Some (Inr (), c3) else handle_loop sv (handled + 1) c3)"
    using poll parse serve Cons.prems(3)
    by (subst handle_loop.simps) (simp add: SocketReader_isEof_def SocketReader_new_def)
  show ?case
  proof (cases "se_maxRequests sv > 0 \<and> handled + 1 = se_maxRequests sv")
    case True
    with Cons.prems(5) have "of_nat (length rqs) = (0 :: 32 word)" by (auto simp: algebra_simps)
    moreover have "length rqs < 2 ^ 32" using Cons.prems(5) True by auto
    ultimately have "rqs = []" by (auto simp: word_of_nat_eq_0_iff dest: dvd_imp_le)
    with True loop c3 more replies show ?thesis by simp
  next
    case False
    have stop: "(se_maxRequests sv = 0 \<and> rest = []) \<or>
      (se_maxRequests sv = (handled + 1) + of_nat (length rqs) \<and> rqs \<noteq> [] \<and> unat (handled + 1) + length rqs < 2 ^ 32)"
    proof (cases "se_maxRequests sv = 0 \<and> rest = []")
      case no: False
      with Cons.prems(5) have max: "se_maxRequests sv = handled + of_nat (Suc (length rqs))"
        "unat handled + Suc (length rqs) < 2 ^ 32" by auto
      have "unat (handled + 1) = Suc (unat handled)"
        using max(2) by (simp add: unat_word_ariths)
      moreover have "se_maxRequests sv > 0"
      proof -
        have "unat (se_maxRequests sv) = unat handled + Suc (length rqs)"
          using max by (simp add: unat_word_ariths unat_of_nat)
        then show ?thesis by (metis add_is_0 nat.distinct(1) unat_0 word_gt_0)
      qed
      ultimately show ?thesis using max False by (auto simp: algebra_simps)
    qed blast
    from Cons.IH [OF _ c3(5) c3(4) _ stop] Cons.prems(1) more c3 loop False replies
    show ?thesis by (simp add: add.assoc)
  qed
qed

lemma connection_served:
  assumes "se_action sv = Action_new dws d1 d2 d3 ll" and "list_all request_ok rqs"
    and "\<forall>n str. fst (writes n str) = int (length str)" and "\<forall>n. \<not> interrupts n"
    and "answers sv (map attrs_triplet rqs) (sv_world s) = Some (replies, w)"
    and "(se_maxRequests sv = 0 \<and> rest = []) \<or> (se_maxRequests sv = of_nat (length rqs) \<and> rqs \<noteq> [] \<and> length rqs < 2 ^ 32)"
  shows "\<exists>c. handle sv fd close_errno
               (conn_open s fd (concat (map request_text rqs) @ rest) ending junk writes interrupts) = Some (Inr (), c) \<and>
             cn_sent c = concat replies \<and> sv_handled c = sv_handled s + int (length rqs) \<and> sv_world c = w"
proof -
  let ?c = "conn_open s fd (concat (map request_text rqs) @ rest) ending junk writes interrupts"
  obtain inserted c1 where wrap: "SocketWrapper_new fd ?c = (inserted, c1)" by fastforce
  define c2 where "c2 = c1\<lparr>sv_busyHandlers := sv_busyHandlers c1 + 1\<rparr>"
  have c2: "cn_reader c2 = SocketReader_new (sint fd) (concat (map request_text rqs) @ rest) ending junk"
    "sv_world c2 = sv_world s" "sv_handled c2 = sv_handled s" "cn_sent c2 = []" "good_line c2"
    using wrap assms(3,4)
    by (auto simp: SocketWrapper_new_def Let_def c2_def conn_open_def server.defs good_line_def split: if_splits)
  have limit: "(se_maxRequests sv = 0 \<and> rest = []) \<or>
      (se_maxRequests sv = 0 + of_nat (length rqs) \<and> rqs \<noteq> [] \<and> unat (0 :: 32 word) + length rqs < 2 ^ 32)"
    using assms(6) by simp
  obtain c3 where "handle_loop sv 0 c2 = Some (Inr (), c3)" "cn_sent c3 = concat replies"
    "sv_handled c3 = sv_handled s + int (length rqs)" "sv_world c3 = w"
    using handle_loop_good [OF assms(1,2) c2(5,1) _ limit] assms(5) c2 by auto
  then show ?thesis
    using wrap by (simp add: handle_def Let_def c2_def SocketWrapper_destroy_def)
qed

text \<open>
  C5 (functional). A connection is served to its end: a peer that sends well-formed requests one
  after the other and then closes, or sends more than the limit of requests, gets exactly the
  replies the core gives to these requests in turn, in their order and with nothing in between,
  and all of them are counted. (The system delivers what is written and does not interrupt.)
\<close>

theorem connection_replies:
  assumes "se_action sv = Action_new dws d1 d2 d3 ll" and "list_all request_ok rqs"
    and "\<forall>n str. fst (writes n str) = int (length str)" and "\<forall>n. \<not> interrupts n"
    and "answers sv (map attrs_triplet rqs) (sv_world s) = Some (replies, w)"
    and "(se_maxRequests sv = 0 \<and> rest = []) \<or> (se_maxRequests sv = of_nat (length rqs) \<and> rqs \<noteq> [] \<and> length rqs < 2 ^ 32)"
  shows "\<exists>c. handle sv fd close_errno
               (conn_open s fd (concat (map request_text rqs) @ rest) ending junk writes interrupts) = Some (Inr (), c) \<and>
             cn_sent c = concat replies \<and> sv_handled c = sv_handled s + int (length rqs) \<and> sv_world c = w"
  by (rule connection_served [OF assms])

section \<open>Witnesses\<close>

definition sample_service :: "(nat list, unit) service" where
  "sample_service =
     \<lparr>se_core = [(AllMatch_match, Whitelist_decide ''all'')],
      se_action = Action_new True ''defer_if_permit later'' ''dunno'' ''dunno'' 0, se_maxRequests = 0\<rparr>"

definition sample_server :: "(nat list, unit) server" where
  "sample_server =
     \<lparr>sv_world = sample_world, sv_sockets = [], sv_busyHandlers = 0, sv_handled = 0, sv_signal = 0, sv_syslog = []\<rparr>"

definition sample_conn :: "string \<Rightarrow> (nat list, unit) conn" where
  "sample_conn input = conn_open sample_server 5 input None 0 (\<lambda>n str. (int (length str), 0)) (\<lambda>n. False)"

lemma request_inv_balanced: "request_inv (balanced live held)"
proof -
  have "same_pools live w (w\<lparr>w_triplet := t, w_extra := x\<rparr>)" for w :: "('a, 'b) world" and t x
    by (simp add: same_pools_def)
  from same_pools_inv [OF this] show ?thesis by (simp add: request_inv_def balanced_def)
qed

lemma sample_core_balanced: "keeps (balanced set held) (process (se_core sample_service))"
  unfolding sample_service_def by (rule keeps_process) (auto intro!: keeps_intros)

theorem handler_returns_witness:
  "\<exists>r c'. handle sample_service 5 0 (sample_conn ''garbage'') = Some (r, c') \<and>
     sv_sockets c' = [] \<and> sr_fd (cn_reader c') < 0 \<and> balanced set (db_held sample_pool) (sv_world c')"
proof -
  have "balanced set (db_held sample_pool) (sv_world (sample_conn ''garbage''))" "smap_ok (sv_sockets (sample_conn ''garbage''))"
    "sv_sockets (sample_conn ''garbage'') = []"
    using sample_world_balanced by (simp_all add: sample_conn_def conn_open_def sample_server_def server.defs)
  then show ?thesis
    using handler_returns [OF request_inv_balanced sample_core_balanced, of "db_held sample_pool" "sample_conn ''garbage''" 5 0]
    by auto
qed

theorem core_failure_answered_witness:
  "answer \<lparr>se_core = [(raise (RuntimeError ''no db''), ret Dunno)], se_action = Action_new False ''d'' ''u'' ''e'' 0,
      se_maxRequests = 0\<rparr> sample_world =
   (Inr (''action=e'' @ [newline, newline], []),
    sample_world\<lparr>w_extra := setComment ''Error: caught exception in core: no db'' Extra_new\<rparr>)"
proof -
  let ?sv = "\<lparr>se_core = [(raise (RuntimeError ''no db''), ret Dunno)], se_action = Action_new False ''d'' ''u'' ''e'' 0,
      se_maxRequests = 0\<rparr> :: (nat list, unit) service"
  have "se_action ?sv = Action_new False ''d'' ''u'' ''e'' 0"
    "process (se_core ?sv) sample_world = (Inl (RuntimeError ''no db''), sample_world)"
    by (simp_all add: bindE_def)
  from core_failure_answered [OF this] show ?thesis
    by (simp add: Let_def Action_process_def Action_new_def sample_world_def)
qed

theorem connection_replies_witness:
  "\<exists>c. handle sample_service 5 0
         (sample_conn (request_text sample_attrs @ request_text sample_attrs)) = Some (Inr (), c) \<and>
       cn_sent c = ''action=dunno'' @ [newline, newline] @ ''action=dunno'' @ [newline, newline] \<and> sv_handled c = 2"
proof -
  have ok: "list_all request_ok [sample_attrs, sample_attrs]"
    by (simp add: request_ok_def sample_attrs_def attr_ok_def)
  have step: "\<exists>log w'. answer sample_service w = (Inr (''action=dunno'' @ [newline, newline], log), w')" for w
    by (simp add: answer_def sample_service_def catchE_def bindE_def AllMatch_match_def Whitelist_decide_def upd_extra_def
        reply_def Action_process_def Action_new_def has_prefix_def)
  have "\<exists>w. answers sample_service (map attrs_triplet [sample_attrs, sample_attrs]) sample_world =
      Some ([''action=dunno'' @ [newline, newline], ''action=dunno'' @ [newline, newline]], w)"
  proof -
    obtain l1 w1 where 1: "answer sample_service (sample_world\<lparr>w_triplet := attrs_triplet sample_attrs, w_extra := Extra_new\<rparr>) =
        (Inr (''action=dunno'' @ [newline, newline], l1), w1)"
      using step by blast
    obtain l2 w2 where 2: "answer sample_service (w1\<lparr>w_triplet := attrs_triplet sample_attrs, w_extra := Extra_new\<rparr>) =
        (Inr (''action=dunno'' @ [newline, newline], l2), w2)"
      using step by blast
    show ?thesis by (simp only: list.map answers.simps 1 2 prod.case sum.case option.map) simp
  qed
  then obtain w where "answers sample_service (map attrs_triplet [sample_attrs, sample_attrs]) (sv_world sample_server) =
      Some ([''action=dunno'' @ [newline, newline], ''action=dunno'' @ [newline, newline]], w)"
    by (auto simp: sample_server_def)
  from connection_replies [OF _ ok _ _ this, of True "''defer_if_permit later''" "''dunno''" "''dunno''" 0
      "\<lambda>n str. (int (length str), 0)" "\<lambda>n. False" "[]" 5 0 None 0]
  show ?thesis by (auto simp: sample_service_def sample_conn_def sample_server_def)
qed

end
