(* ===== verification/Scheduler.thy ===== *)
theory Scheduler
  imports Prelude "HOL-Library.Multiset"
begin

text \<open>
  \<open>src/src/simplescheduler.h\<close>: the pool of worker threads. One thread calls \<open>schedule\<close> and
  \<open>shutdown\<close> (the accept loop of the server); the workers run \<open>exec\<close> until it returns true.
  The threads interleave, so the operations are cut at the points where another thread can see a
  difference: each change of a counter, of the queue or of the set of threads is one move, and the
  test at the start of \<open>schedule\<close> is one move. A worker's condition variable lets it go on
  when its predicate holds, which is what the waiting loop guarantees, however it is woken.
\<close>

text \<open>Where a worker is: the points of \<open>exec\<close> and the end of the thread.\<close>

datatype 't pc =
    Entering
  | Waiting
  | Popped 't
  | Leaving 't
  | Running 't
  | Finished
  | Checking
  | Stopping
  | Ended

text \<open>Where the calling thread is inside \<open>schedule\<close>.\<close>

datatype 't caller = Idle | Tested 't | Spawned 't

text \<open>
  \<open>sc_accepted\<close>, \<open>sc_started\<close> and \<open>sc_done\<close> record the tasks pushed, taken and completed; the
  program does not read them.
\<close>

record 't SimpleScheduler =
  sc_maxSpare :: "32 word"
  sc_maxWorkers :: "32 word"
  sc_queue :: "'t list"
  sc_active :: int
  sc_waiting :: int
  sc_shutdown :: bool
  sc_threads :: "'t pc list"
  sc_caller :: "'t caller"
  sc_accepted :: "'t list"
  sc_started :: "'t list"
  sc_done :: "'t list"

definition SimpleScheduler_new :: "32 word \<Rightarrow> 32 word \<Rightarrow> 't SimpleScheduler" where
  "SimpleScheduler_new maxSpare maxWorkers =
     \<lparr>sc_maxSpare = maxSpare, sc_maxWorkers = maxWorkers, sc_queue = [], sc_active = 0, sc_waiting = 0,
      sc_shutdown = False, sc_threads = [], sc_caller = Idle, sc_accepted = [], sc_started = [], sc_done = []\<rparr>"

section \<open>schedule\<close>

text \<open>The tests: whether the call goes on, or returns false.\<close>

definition schedule_accepts :: "'t SimpleScheduler \<Rightarrow> bool" where
  "schedule_accepts s \<longleftrightarrow> \<not> sc_shutdown s \<and> \<not> sc_waiting s + sc_active s \<ge> uint (sc_maxWorkers s)"

definition schedule_test :: "'t \<Rightarrow> 't SimpleScheduler \<Rightarrow> 't SimpleScheduler option" where
  "schedule_test t s =
     (if sc_caller s \<noteq> Idle then None
      else if schedule_accepts s then Some (s\<lparr>sc_caller := Tested t\<rparr>) else Some s)"

definition schedule_spawn :: "'t SimpleScheduler \<Rightarrow> 't SimpleScheduler option" where
  "schedule_spawn s =
     (case sc_caller s of
        Tested t \<Rightarrow>
          Some (s\<lparr>sc_caller := Spawned t,
                  sc_threads := (if sc_waiting s = 0 \<or> sc_queue s \<noteq> [] then sc_threads s @ [Entering] else sc_threads s)\<rparr>)
      | _ \<Rightarrow> None)"

definition schedule_push :: "'t SimpleScheduler \<Rightarrow> 't SimpleScheduler option" where
  "schedule_push s =
     (case sc_caller s of
        Spawned t \<Rightarrow> Some (s\<lparr>sc_caller := Idle, sc_queue := sc_queue s @ [t], sc_accepted := sc_accepted s @ [t]\<rparr>)
      | _ \<Rightarrow> None)"

definition shutdown :: "'t SimpleScheduler \<Rightarrow> 't SimpleScheduler" where
  "shutdown s = s\<lparr>sc_shutdown := True\<rparr>"

text \<open>The condition under which the loop of \<open>wait\<close> ends.\<close>

definition wait_returns :: "'t SimpleScheduler \<Rightarrow> bool" where
  "wait_returns s \<longleftrightarrow> \<not> (sc_active s > 0 \<or> sc_waiting s > 0)"

definition sc_size :: "'t SimpleScheduler \<Rightarrow> int" where
  "sc_size s = sc_active s + sc_waiting s"

section \<open>exec\<close>

definition set_pc :: "nat \<Rightarrow> 't pc \<Rightarrow> 't SimpleScheduler \<Rightarrow> 't SimpleScheduler" where
  "set_pc i p s = s\<lparr>sc_threads := (sc_threads s)[i := p]\<rparr>"

text \<open>
  One move of worker \<open>i\<close>. The wait ends when the scheduler is shut down or the queue is not
  empty; the queue is taken from under the lock. \<open>Worker::run\<close> calls \<open>exec\<close> again until it
  returns true.
\<close>

definition exec_move :: "nat \<Rightarrow> 't SimpleScheduler \<Rightarrow> 't SimpleScheduler option" where
  "exec_move i s =
     (if i \<ge> length (sc_threads s) then None
      else case sc_threads s ! i of
        Entering \<Rightarrow> Some (set_pc i Waiting (s\<lparr>sc_waiting := sc_waiting s + 1\<rparr>))
      | Waiting \<Rightarrow>
          if sc_shutdown s then Some (set_pc i Stopping s)
          else (case sc_queue s of
                  [] \<Rightarrow> None
                | t # ts \<Rightarrow> Some (set_pc i (Popped t) (s\<lparr>sc_queue := ts, sc_started := sc_started s @ [t]\<rparr>)))
      | Stopping \<Rightarrow> Some (set_pc i Ended (s\<lparr>sc_waiting := sc_waiting s - 1\<rparr>))
      | Popped t \<Rightarrow> Some (set_pc i (Leaving t) (s\<lparr>sc_waiting := sc_waiting s - 1\<rparr>))
      | Leaving t \<Rightarrow> Some (set_pc i (Running t) (s\<lparr>sc_active := sc_active s + 1\<rparr>))
      | Running t \<Rightarrow> Some (set_pc i Finished (s\<lparr>sc_done := sc_done s @ [t]\<rparr>))
      | Finished \<Rightarrow> Some (set_pc i Checking (s\<lparr>sc_active := sc_active s - 1\<rparr>))
      | Checking \<Rightarrow>
          Some (set_pc i (if sc_waiting s \<ge> uint (sc_maxSpare s) \<or> sc_shutdown s then Ended else Entering) s)
      | Ended \<Rightarrow> None)"

section \<open>Runs\<close>

datatype 't move = Schedule 't | Spawn | Push | Worker nat | Shutdown

fun sched_step :: "'t move \<Rightarrow> 't SimpleScheduler \<Rightarrow> 't SimpleScheduler option" where
  "sched_step (Schedule t) s = schedule_test t s"
| "sched_step Spawn s = schedule_spawn s"
| "sched_step Push s = schedule_push s"
| "sched_step (Worker i) s = exec_move i s"
| "sched_step Shutdown s = (if sc_caller s = Idle then Some (shutdown s) else None)"

fun sched_run :: "'t move list \<Rightarrow> 't SimpleScheduler \<Rightarrow> 't SimpleScheduler option" where
  "sched_run [] s = Some s"
| "sched_run (m # ms) s = (case sched_step m s of None \<Rightarrow> None | Some t \<Rightarrow> sched_run ms t)"

inductive sched_reachable :: "32 word \<Rightarrow> 32 word \<Rightarrow> 't SimpleScheduler \<Rightarrow> bool" for spare workers where
  sched_start: "sched_reachable spare workers (SimpleScheduler_new spare workers)"
| sched_move: "sched_reachable spare workers s \<Longrightarrow> sched_step m s = Some t \<Longrightarrow> sched_reachable spare workers t"

lemma sched_run_append: "sched_run (ms @ ns) s = (case sched_run ms s of None \<Rightarrow> None | Some t \<Rightarrow> sched_run ns t)"
  by (induction ms arbitrary: s) (simp_all split: option.split)

lemma sched_run_reachable: "sched_reachable spare workers s \<Longrightarrow> sched_run ms s = Some t \<Longrightarrow> sched_reachable spare workers t"
  by (induction ms arbitrary: s) (auto split: option.splits intro: sched_move)

section \<open>The invariant\<close>

fun is_waiting :: "'t pc \<Rightarrow> bool" where
  "is_waiting Waiting \<longleftrightarrow> True"
| "is_waiting (Popped t) \<longleftrightarrow> True"
| "is_waiting Stopping \<longleftrightarrow> True"
| "is_waiting _ \<longleftrightarrow> False"

fun is_active :: "'t pc \<Rightarrow> bool" where
  "is_active (Running t) \<longleftrightarrow> True"
| "is_active Finished \<longleftrightarrow> True"
| "is_active _ \<longleftrightarrow> False"

fun held_task :: "'t pc \<Rightarrow> 't multiset" where
  "held_task (Popped t) = {#t#}"
| "held_task (Leaving t) = {#t#}"
| "held_task (Running t) = {#t#}"
| "held_task _ = {#}"

definition held_tasks :: "'t SimpleScheduler \<Rightarrow> 't multiset" where
  "held_tasks s = (\<Sum>p \<leftarrow> sc_threads s. held_task p)"

definition count_pc :: "('t pc \<Rightarrow> bool) \<Rightarrow> 't pc list \<Rightarrow> int" where
  "count_pc P ps = (\<Sum>p \<leftarrow> ps. if P p then 1 else 0)"

definition sched_inv :: "'t SimpleScheduler \<Rightarrow> bool" where
  "sched_inv s \<longleftrightarrow>
     sc_waiting s = count_pc is_waiting (sc_threads s) \<and>
     sc_active s = count_pc is_active (sc_threads s) \<and>
     sc_started s @ sc_queue s = sc_accepted s \<and>
     mset (sc_started s) = held_tasks s + mset (sc_done s)"

lemma sum_list_update_group:
  fixes f :: "'a \<Rightarrow> int"
  shows "i < length xs \<Longrightarrow> (\<Sum>x \<leftarrow> xs[i := y]. f x) = (\<Sum>x \<leftarrow> xs. f x) + f y - f (xs ! i)"
  by (induction xs arbitrary: i) (auto split: nat.split)

lemma sum_list_update_mset:
  fixes f :: "'a \<Rightarrow> 'b multiset"
  shows "i < length xs \<Longrightarrow> (\<Sum>x \<leftarrow> xs[i := y]. f x) + f (xs ! i) = (\<Sum>x \<leftarrow> xs. f x) + f y"
  by (induction xs arbitrary: i) (auto simp: ac_simps split: nat.split)

lemma count_pc_update:
  "i < length ps \<Longrightarrow> count_pc P (ps[i := p]) = count_pc P ps + (if P p then 1 else 0) - (if P (ps ! i) then 1 else 0)"
  by (simp add: count_pc_def sum_list_update_group)

lemma held_tasks_set_pc:
  "i < length (sc_threads s) \<Longrightarrow> held_tasks (set_pc i p s) + held_task (sc_threads s ! i) = held_tasks s + held_task p"
  by (simp add: held_tasks_def set_pc_def sum_list_update_mset)

lemma sched_inv_new: "sched_inv (SimpleScheduler_new a b)"
  by (simp add: sched_inv_def SimpleScheduler_new_def held_tasks_def count_pc_def)

lemma sched_inv_exec:
  assumes "sched_inv s" and "exec_move i s = Some t"
  shows "sched_inv t"
proof -
  have i: "i < length (sc_threads s)" using assms(2) by (auto simp: exec_move_def split: if_splits)
  have frame: "held_tasks (set_pc i p (s\<lparr>sc_waiting := w, sc_active := a, sc_queue := q, sc_started := st, sc_done := d\<rparr>)) + held_task (sc_threads s ! i) =
      held_tasks s + held_task p" for p w a q st d
    using held_tasks_set_pc [of i "s\<lparr>sc_waiting := w, sc_active := a, sc_queue := q, sc_started := st, sc_done := d\<rparr>" p] i
    by (simp add: held_tasks_def)
  note upd = frame [where w = "sc_waiting t" and a = "sc_active t" and q = "sc_queue t" and st = "sc_started t" and d = "sc_done t"]
  have eq: "t = set_pc i (sc_threads t ! i) (s\<lparr>sc_waiting := sc_waiting t, sc_active := sc_active t, sc_queue := sc_queue t,
      sc_started := sc_started t, sc_done := sc_done t\<rparr>)"
    using assms(2) i
    by (cases "sc_threads s ! i") (auto simp: exec_move_def set_pc_def split: if_splits list.splits)
  have held: "held_tasks t + held_task (sc_threads s ! i) = held_tasks s + held_task (sc_threads t ! i)"
    using upd [of "sc_threads t ! i"] eq by simp
  show ?thesis
    using assms i held
    by (cases "sc_threads s ! i")
      (auto simp: exec_move_def set_pc_def sched_inv_def count_pc_update split: if_splits list.splits)
qed

lemma sched_inv_step:
  assumes "sched_inv s" and "sched_step m s = Some t"
  shows "sched_inv t"
proof (cases m)
  case (Worker i)
  with assms sched_inv_exec show ?thesis by auto
next
  case Spawn
  with assms show ?thesis
    by (auto simp: schedule_spawn_def sched_inv_def count_pc_def held_tasks_def split: caller.splits)
qed (use assms in \<open>auto simp: schedule_test_def schedule_push_def shutdown_def sched_inv_def held_tasks_def
        split: caller.splits if_splits\<close>)

lemma sched_reachable_inv: "sched_reachable spare workers s \<Longrightarrow> sched_inv s"
  by (induction rule: sched_reachable.induct) (auto intro: sched_inv_new sched_inv_step)

lemma sched_reachable_limits:
  "sched_reachable spare workers s \<Longrightarrow> sc_maxSpare s = spare \<and> sc_maxWorkers s = workers"
proof (induction rule: sched_reachable.induct)
  case (sched_move s m t)
  then show ?case
    by (cases m) (auto simp: schedule_test_def schedule_spawn_def schedule_push_def shutdown_def exec_move_def set_pc_def
        split: caller.splits if_splits pc.splits list.splits)
qed (simp add: SimpleScheduler_new_def)

text \<open>
  C17 (invariant). In every interleaving of the scheduling thread and the workers, the two
  counters are the numbers of threads between their changes, tasks are taken in the order in which
  they were accepted, and no task is lost or run twice: those taken are the ones some worker
  holds and the ones completed.
\<close>

theorem scheduler_fifo:
  assumes "sched_reachable spare workers s"
  shows "sc_waiting s = count_pc is_waiting (sc_threads s) \<and> sc_active s = count_pc is_active (sc_threads s) \<and>
         sc_started s @ sc_queue s = sc_accepted s \<and> mset (sc_started s) = held_tasks s + mset (sc_done s)"
  using sched_reachable_inv [OF assms] by (simp add: sched_inv_def)

section \<open>No accepted task is stranded while a spare worker is allowed\<close>

definition alive_inv :: "'t SimpleScheduler \<Rightarrow> bool" where
  "alive_inv s \<longleftrightarrow>
     (\<not> sc_shutdown s \<longrightarrow> Stopping \<notin> set (sc_threads s)) \<and>
     (\<not> sc_shutdown s \<and> sc_maxSpare s \<noteq> 0 \<and> sc_threads s \<noteq> [] \<longrightarrow> (\<exists>p \<in> set (sc_threads s). p \<noteq> Ended)) \<and>
     (sc_threads s = [] \<longrightarrow> sc_queue s = [] \<and> (\<forall>t. sc_caller s \<noteq> Spawned t))"

lemma count_pc_pos: "count_pc P ps > 0 \<Longrightarrow> \<exists>j < length ps. P (ps ! j)"
proof -
  assume "count_pc P ps > 0"
  then have "\<exists>p \<in> set ps. P p" by (induction ps) (auto simp: count_pc_def split: if_splits)
  then show ?thesis by (auto simp: in_set_conv_nth)
qed

lemma exec_move_threads:
  assumes "exec_move i s = Some t"
  shows "i < length (sc_threads s)" and "sc_threads t = (sc_threads s)[i := sc_threads t ! i]"
    and "sc_shutdown t = sc_shutdown s" and "sc_maxSpare t = sc_maxSpare s" and "sc_caller t = sc_caller s"
    and "sc_threads t ! i = Stopping \<Longrightarrow> sc_shutdown s"
    and "sc_threads t ! i = Ended \<Longrightarrow> sc_threads s ! i = Stopping \<or>
      sc_threads s ! i = Checking \<and> (sc_waiting s \<ge> uint (sc_maxSpare s) \<or> sc_shutdown s)"
  using assms
  by (auto simp: exec_move_def set_pc_def split: if_splits pc.splits list.splits)

lemma alive_exec:
  assumes "sched_inv s" and "alive_inv s" and "exec_move i s = Some t"
  shows "alive_inv t"
proof -
  note move = exec_move_threads [OF assms(3)]
  have mem: "sc_threads t ! i \<in> set (sc_threads t)"
    using move(1,2) by (metis length_list_update nth_mem)
  have "Stopping \<notin> set (sc_threads t)" if "\<not> sc_shutdown t"
    using that assms(2) move set_update_subset_insert [of "sc_threads s" i "sc_threads t ! i"]
    by (fastforce simp: alive_inv_def)
  moreover have "\<exists>p \<in> set (sc_threads t). p \<noteq> Ended" if live: "\<not> sc_shutdown t" and spare: "sc_maxSpare t \<noteq> 0"
  proof (cases "sc_threads t ! i = Ended")
    case True
    have "sc_threads s ! i \<noteq> Stopping"
      using assms(2) live move(1,3) nth_mem by (fastforce simp: alive_inv_def)
    with True move live have check: "sc_threads s ! i = Checking" "sc_waiting s \<ge> uint (sc_maxSpare s)" by auto
    have "uint (sc_maxSpare s) > 0" using spare move(4) by (simp add: uint_0_iff order_less_le)
    with check assms(1) have "count_pc is_waiting (sc_threads s) > 0" by (simp add: sched_inv_def)
    then obtain j where j: "j < length (sc_threads s)" "is_waiting (sc_threads s ! j)" by (blast dest: count_pc_pos)
    with check have "j \<noteq> i" by auto
    with j move(2) have "sc_threads t ! j = sc_threads s ! j" "j < length (sc_threads t)" by (metis nth_list_update_neq, metis length_list_update)
    with j(2) show ?thesis by (metis is_waiting.simps(9) nth_mem)
  qed (use mem in blast)
  moreover have "sc_threads t \<noteq> []" using mem by auto
  ultimately show ?thesis by (simp add: alive_inv_def)
qed

lemma alive_step:
  assumes "sched_inv s" and "alive_inv s" and "sched_step m s = Some t"
  shows "alive_inv t"
proof (cases m)
  case (Worker i)
  with assms alive_exec show ?thesis by auto
next
  case Spawn
  moreover have "sc_threads s \<noteq> []" if "sc_waiting s \<noteq> 0"
    using that assms(1) by (auto simp: sched_inv_def count_pc_def)
  ultimately show ?thesis
    using assms(2,3) by (auto simp: schedule_spawn_def alive_inv_def split: caller.splits if_splits)
qed (use assms(2,3) in \<open>auto simp: schedule_test_def schedule_push_def shutdown_def alive_inv_def
        split: caller.splits if_splits\<close>)

lemma sched_reachable_alive: "sched_reachable spare workers s \<Longrightarrow> alive_inv s"
proof (induction rule: sched_reachable.induct)
  case sched_start
  show ?case by (simp add: alive_inv_def SimpleScheduler_new_def)
next
  case (sched_move s m t)
  then show ?case using alive_step sched_reachable_inv by blast
qed

fun pc_rank :: "'t pc \<Rightarrow> nat" where
  "pc_rank Entering = 1"
| "pc_rank (Popped t) = 6"
| "pc_rank (Leaving t) = 5"
| "pc_rank (Running t) = 4"
| "pc_rank Finished = 3"
| "pc_rank Checking = 2"
| "pc_rank _ = 0"

lemma sum_list_update_less:
  fixes f :: "'a \<Rightarrow> nat"
  shows "i < length xs \<Longrightarrow> f y < f (xs ! i) \<Longrightarrow> (\<Sum>x \<leftarrow> xs[i := y]. f x) < (\<Sum>x \<leftarrow> xs. f x)"
  by (induction xs arbitrary: i) (auto split: nat.split)

lemma exec_moves_on:
  assumes "i < length (sc_threads s)" and "sc_threads s ! i \<noteq> Waiting" and "sc_threads s ! i \<noteq> Ended" and "sc_threads s ! i \<noteq> Stopping"
  shows "\<exists>t. exec_move i s = Some t \<and> sc_queue t = sc_queue s \<and> sc_started t = sc_started s \<and>
    (\<Sum>p \<leftarrow> sc_threads t. pc_rank p) < (\<Sum>p \<leftarrow> sc_threads s. pc_rank p)"
  using assms
  by (cases "sc_threads s ! i") (auto simp: exec_move_def set_pc_def intro!: sum_list_update_less)

text \<open>
  C18 (liveness). As long as at least one spare worker is allowed and the scheduler is not shut
  down, no accepted task is stranded: whatever state the threads are in, some worker is still
  there, and the workers alone, with no further call of \<open>schedule\<close>, can go on until the first
  task of the queue is taken.
\<close>

theorem queued_task_served:
  assumes "sched_reachable spare workers s" and "spare \<noteq> 0" and "\<not> sc_shutdown s" and "sc_queue s = t # ts"
  shows "\<exists>is u. sched_run (map Worker is) s = Some u \<and> sc_started u = sc_started s @ [t] \<and> sc_queue u = ts"
  using assms
proof (induction "\<Sum>p \<leftarrow> sc_threads s. pc_rank p" arbitrary: s rule: less_induct)
  case less
  have limits: "sc_maxSpare s = spare" and alive: "alive_inv s"
    using less.prems(1) sched_reachable_limits sched_reachable_alive by auto
  then obtain i where i: "i < length (sc_threads s)" "sc_threads s ! i \<noteq> Ended" "sc_threads s ! i \<noteq> Stopping"
    using less.prems by (auto simp: alive_inv_def in_set_conv_nth)
  show ?case
  proof (cases "sc_threads s ! i = Waiting")
    case True
    with i less.prems have "exec_move i s = Some (set_pc i (Popped t) (s\<lparr>sc_queue := ts, sc_started := sc_started s @ [t]\<rparr>))"
      by (simp add: exec_move_def)
    then show ?thesis by (intro exI [of _ "[i]"]) (simp add: set_pc_def)
  next
    case False
    from exec_moves_on [OF i(1) False i(2,3)] obtain v where v: "exec_move i s = Some v" "sc_queue v = sc_queue s"
      "sc_started v = sc_started s" "(\<Sum>p \<leftarrow> sc_threads v. pc_rank p) < (\<Sum>p \<leftarrow> sc_threads s. pc_rank p)"
      by blast
    have "sched_reachable spare workers v" using less.prems(1) v(1) by (auto intro: sched_move [of _ _ s "Worker i"])
    moreover have "\<not> sc_shutdown v" using exec_move_threads(3) [OF v(1)] less.prems(3) by simp
    ultimately obtain "is" u where "sched_run (map Worker is) v = Some u" "sc_started u = sc_started v @ [t]" "sc_queue u = ts"
      using less.hyps [OF v(4)] less.prems(2,4) v(2) by auto
    with v show ?thesis by (intro exI [of _ "i # is"]) simp
  qed
qed

section \<open>What the scheduler does not promise\<close>

lemma sched_run_new: "sched_run ms (SimpleScheduler_new spare workers) = Some s \<Longrightarrow> sched_reachable spare workers s"
  by (rule sched_run_reachable [OF sched_start])

text \<open>The calls of \<open>schedule\<close> of \<open>n\<close> tasks before any new thread gets to run.\<close>

definition burst :: "'t list \<Rightarrow> 't move list" where
  "burst ts = concat (map (\<lambda>t. [Schedule t, Spawn, Push]) ts)"

lemma burst_run:
  assumes "sc_caller s = Idle" and "sc_waiting s = 0" and "sc_active s = 0" and "\<not> sc_shutdown s" and "sc_maxWorkers s \<noteq> 0"
  shows "sched_run (burst ts) s =
    Some (s\<lparr>sc_queue := sc_queue s @ ts, sc_accepted := sc_accepted s @ ts,
            sc_threads := sc_threads s @ replicate (length ts) Entering\<rparr>)"
  using assms
proof (induction ts arbitrary: s)
  case (Cons t ts)
  have "schedule_accepts s" using Cons.prems by (simp add: schedule_accepts_def uint_0_iff order_less_le)
  with Cons.prems have "sched_run [Schedule t, Spawn, Push] s =
      Some (s\<lparr>sc_queue := sc_queue s @ [t], sc_accepted := sc_accepted s @ [t], sc_threads := sc_threads s @ [Entering]\<rparr>)"
    by (simp add: schedule_test_def schedule_spawn_def schedule_push_def)
  moreover have "burst (t # ts) = [Schedule t, Spawn, Push] @ burst ts" by (simp add: burst_def)
  ultimately have "sched_run (burst (t # ts)) s =
      sched_run (burst ts) (s\<lparr>sc_queue := sc_queue s @ [t], sc_accepted := sc_accepted s @ [t], sc_threads := sc_threads s @ [Entering]\<rparr>)"
    by (simp only: sched_run_append option.case)
  with Cons show ?case by (simp add: replicate_append_same [symmetric])
qed (simp add: burst_def)

text \<open>
  \<open>maxthreads\<close> does not bound the number of threads: a thread counts
  only once it runs, so any number of tasks scheduled before that gets a thread each, with the
  limit at 1 as with any other.
\<close>

theorem max_workers_exceeded:
  assumes "workers \<noteq> 0"
  shows "\<exists>s :: 't SimpleScheduler. sched_reachable spare workers s \<and> length (sc_threads s) = n \<and> (\<forall>p \<in> set (sc_threads s). p \<noteq> Ended)"
proof -
  have "sched_run (burst (replicate n (undefined :: 't))) (SimpleScheduler_new spare workers) =
      Some ((SimpleScheduler_new spare workers)\<lparr>sc_queue := replicate n undefined, sc_accepted := replicate n undefined,
        sc_threads := replicate n Entering\<rparr>)"
    using assms by (subst burst_run) (simp_all add: SimpleScheduler_new_def)
  note sched_run_new [OF this]
  then show ?thesis by (intro exI conjI) (assumption, simp_all)
qed

theorem max_workers_exceeded_witness:
  "\<exists>s :: nat SimpleScheduler. sched_reachable 2 1 s \<and> length (sc_threads s) = 150 \<and> (\<forall>p \<in> set (sc_threads s). p \<noteq> Ended)"
  using max_workers_exceeded [of 1 2 150] by simp

text \<open>
  With no spare worker allowed a task can be stranded: a worker that has
  just taken its task still counts as waiting, so the next task gets no thread of its own, and that
  worker ends after its task. The queue then holds a task and no thread is left.
\<close>

theorem task_stranded_without_spare:
  "\<exists>s. sched_reachable 0 150 s \<and> \<not> sc_shutdown s \<and> sc_caller s = Idle \<and> sc_queue s = [2 :: nat] \<and> set (sc_threads s) = {Ended}"
proof -
  let ?run = "[Schedule 1, Spawn, Push, Worker 0, Worker 0, Schedule 2, Spawn, Push,
      Worker 0, Worker 0, Worker 0, Worker 0, Worker 0] :: nat move list"
  have "\<exists>s. sched_run ?run (SimpleScheduler_new 0 150) = Some s \<and> \<not> sc_shutdown s \<and> sc_caller s = Idle \<and>
      sc_queue s = [2 :: nat] \<and> set (sc_threads s) = {Ended}"
    by (simp add: SimpleScheduler_new_def schedule_test_def schedule_accepts_def schedule_spawn_def schedule_push_def
        exec_move_def set_pc_def)
  then show ?thesis using sched_run_new by blast
qed

text \<open>
  \<open>wait\<close> can return too early: between the two counters a worker that
  holds a task is in neither, so after a shutdown the loop of \<open>wait\<close> can see both at zero while
  a task is about to run.
\<close>

theorem wait_returns_early:
  "\<exists>s. sched_reachable 2 150 s \<and> sc_shutdown s \<and> wait_returns s \<and> held_tasks s = {#1 :: nat#}"
proof -
  let ?run = "[Schedule 1, Spawn, Push, Worker 0, Worker 0, Worker 0, Shutdown] :: nat move list"
  have "\<exists>s. sched_run ?run (SimpleScheduler_new 2 150) = Some s \<and> sc_shutdown s \<and> wait_returns s \<and> held_tasks s = {#1 :: nat#}"
    by (simp add: SimpleScheduler_new_def schedule_test_def schedule_accepts_def schedule_spawn_def schedule_push_def
        exec_move_def set_pc_def shutdown_def wait_returns_def held_tasks_def)
  then show ?thesis using sched_run_new by blast
qed

section \<open>Witnesses\<close>

lemma sample_scheduler:
  "sched_run [Schedule 1, Spawn, Push, Worker 0, Worker 0, Schedule 2, Spawn, Push] (SimpleScheduler_new 1 150) =
   Some \<lparr>sc_maxSpare = 1, sc_maxWorkers = 150, sc_queue = [2 :: nat], sc_active = 0, sc_waiting = 1, sc_shutdown = False,
         sc_threads = [Popped 1], sc_caller = Idle, sc_accepted = [1, 2], sc_started = [1], sc_done = []\<rparr>"
  by (simp add: SimpleScheduler_new_def schedule_test_def schedule_accepts_def schedule_spawn_def schedule_push_def
      exec_move_def set_pc_def)

theorem scheduler_fifo_witness:
  "\<exists>s. sched_reachable 1 150 s \<and> sc_started s = [1 :: nat] \<and> sc_started s @ sc_queue s = [1, 2]"
  using scheduler_fifo [OF sched_run_new [OF sample_scheduler]] sched_run_new [OF sample_scheduler] by fastforce

theorem queued_task_served_witness:
  "\<exists>s is u. sched_reachable 1 150 s \<and> sc_queue s = [2 :: nat] \<and> sched_run (map Worker is) s = Some u \<and> sc_started u = [1, 2]"
  using queued_task_served [OF sched_run_new [OF sample_scheduler], of 2 "[]"] sched_run_new [OF sample_scheduler]
  by fastforce

end
