(* ===== verification/Server_Run.thy ===== *)
theory Server_Run
  imports Server Scheduler
begin

text \<open>
  \<open>src/src/server.h\<close> (\<open>run\<close>, \<open>monitor\<close>, \<open>stats\<close>) and the signals of
  \<open>src/src/system.cpp\<close>: the accept loop and the thread that watches the signal flag. Times are
  seconds. What the system and the other threads do is given as sequences: the results of
  \<open>accept\<close>, whether each call of \<open>schedule\<close> succeeds, the readings of the clock, and for the
  monitor what happens while it sleeps.
\<close>

section \<open>Signals\<close>

definition SIGHUP :: int where "SIGHUP = 1"
definition SIGQUIT :: int where "SIGQUIT = 3"
definition SIGUSR2 :: int where "SIGUSR2 = 12"

text \<open>The handler lets the current signal finish: a signal that arrives meanwhile is dropped.\<close>

definition signal_handler :: "int \<Rightarrow> int \<Rightarrow> int" where
  "signal_handler signum g_signal = (if g_signal \<noteq> 0 then g_signal else signum)"

text \<open>The installation: \<open>sigaction signum flags\<close> is the result of the system call.\<close>

definition setupSignalHandlers :: "(int \<Rightarrow> bool \<Rightarrow> int) \<Rightarrow> exn + unit" where
  "setupSignalHandlers sigaction =
     (if sigaction SIGHUP False \<noteq> 0 then Inl (RuntimeError ''Failed to install signal handler SIGHUP'')
      else if sigaction SIGQUIT False \<noteq> 0 then Inl (RuntimeError ''Failed to install signal handler SIGQUIT'')
      else if sigaction SIGUSR2 True \<noteq> 0 then Inl (RuntimeError ''Failed to install signal handler SIGUSR2'')
      else Inr ())"

section \<open>The accept loop\<close>

definition min_date_time :: int where
  "min_date_time = - 17987443200"

record accepting =
  ap_scheduled :: "int list"
  ap_closed :: "int list"
  ap_warnings :: "int list"
  ap_lastWarning :: int
  ap_clock :: nat

definition accepting_start :: accepting where
  "accepting_start = \<lparr>ap_scheduled = [], ap_closed = [], ap_warnings = [], ap_lastWarning = min_date_time, ap_clock = 0\<rparr>"

text \<open>A descriptor the scheduler does not take is closed, with a warning at most every minute.\<close>

definition refuse :: "(nat \<Rightarrow> int) \<Rightarrow> int \<Rightarrow> accepting \<Rightarrow> accepting" where
  "refuse clock fd a =
     (let a1 = a\<lparr>ap_closed := ap_closed a @ [fd], ap_clock := Suc (ap_clock a)\<rparr>;
          now = clock (ap_clock a)
      in if now - ap_lastWarning a > 60
         then a1\<lparr>ap_warnings := ap_warnings a @ [now], ap_lastWarning := clock (ap_clock a1), ap_clock := Suc (ap_clock a1)\<rparr>
         else a1)"

text \<open>
  The loop over the results of \<open>accept\<close> (descriptor and \<open>errno\<close>): the error it ends with, or
  \<^const>\<open>None\<close> while \<open>accept\<close> has not failed. \<open>schedule\<close> is what the calls of \<open>schedule\<close> return.
\<close>

fun accept_loop :: "(nat \<Rightarrow> int) \<Rightarrow> bool list \<Rightarrow> (int \<times> int) list \<Rightarrow> accepting \<Rightarrow> int option \<times> accepting" where
  "accept_loop clock schedule [] a = (None, a)"
| "accept_loop clock schedule ((fd, errno) # rs) a =
     (let error = (if fd = - 1 then (if errno \<noteq> 0 then errno else - 1) else 0)
      in if error \<noteq> 0 then (Some error, a)
         else case schedule of
           [] \<Rightarrow> (None, a)
         | ok # oks \<Rightarrow>
             accept_loop clock oks rs
               (if ok then a\<lparr>ap_scheduled := ap_scheduled a @ [fd]\<rparr> else refuse clock fd a))"

section \<open>The monitor\<close>

record monitor_cfg =
  mc_monitorRefresh :: "32 word"
  mc_cacheRefresh :: "32 word"
  mc_statsevery :: "32 word"

record ('e, 'r) monitor =
  mo_signal :: int
  mo_lastCacheRefresh :: int
  mo_statscounter :: "32 word"
  mo_lasthandled :: int
  mo_world :: "('e, 'r) world"
  mo_refreshes :: nat
  mo_stats :: "(32 word \<times> 32 word) list"
  mo_listener_shut :: bool

text \<open>
  \<open>stats\<close>: the number of requests since the last time, and what it is divided by for the rate
  (the line also shows the counters of the scheduler).
\<close>

definition stats :: "monitor_cfg \<Rightarrow> int \<Rightarrow> ('e, 'r) monitor \<Rightarrow> ('e, 'r) monitor" where
  "stats mc handled m =
     (let numhandled = (of_int (handled - mo_lasthandled m) :: 32 word)
      in m\<lparr>mo_stats := mo_stats m @ [(numhandled, mc_monitorRefresh mc * mc_statsevery mc)], mo_lasthandled := handled\<rparr>)"

text \<open>The first part of the body: the refresh of the caches, with the time before and after it.\<close>

definition monitor_refresh :: "monitor_cfg \<Rightarrow> int \<Rightarrow> int \<Rightarrow> ('e, 'r) monitor \<Rightarrow> ('e, 'r) monitor" where
  "monitor_refresh mc now after m =
     (if mo_signal m = SIGUSR2 \<or> (mc_cacheRefresh mc > 0 \<and> now > mo_lastCacheRefresh m + uint (mc_cacheRefresh mc))
      then m\<lparr>mo_world := CacheRefresh_run (mo_world m), mo_refreshes := Suc (mo_refreshes m),
             mo_signal := (if mo_signal m = SIGUSR2 then 0 else mo_signal m), mo_lastCacheRefresh := after\<rparr>
      else m)"

text \<open>The part after the sleep: the statistics.\<close>

definition monitor_stats :: "monitor_cfg \<Rightarrow> int \<Rightarrow> ('e, 'r) monitor \<Rightarrow> ('e, 'r) monitor" where
  "monitor_stats mc handled m =
     (if mc_statsevery mc > 0
      then let c = mo_statscounter m + 1 in
        if c = mc_statsevery mc then (stats mc handled m)\<lparr>mo_statscounter := 0\<rparr> else m\<lparr>mo_statscounter := c\<rparr>
      else m)"

text \<open>
  What one turn meets: the time before and after the refresh, whether an interruption is pending at the head of
  the loop or hits the sleep (which then throws and ends the thread), the signals that arrive
  during the sleep and the number of requests handled when it ends.
\<close>

record tick =
  tk_now :: int
  tk_after :: int
  tk_pending :: bool
  tk_hit :: bool
  tk_signals :: "int list"
  tk_handled :: int

datatype monitor_end = Shutting | Interrupted | Watching

fun monitor_loop :: "monitor_cfg \<Rightarrow> tick list \<Rightarrow> ('e, 'r) monitor \<Rightarrow> monitor_end \<times> ('e, 'r) monitor" where
  "monitor_loop mc [] m =
     (if mo_signal m = SIGQUIT \<or> mo_signal m = SIGHUP then (Shutting, m\<lparr>mo_listener_shut := True\<rparr>) else (Watching, m))"
| "monitor_loop mc (k # ks) m =
     (if mo_signal m = SIGQUIT \<or> mo_signal m = SIGHUP \<or> tk_pending k
      then (Shutting, if mo_signal m \<noteq> 0 then m\<lparr>mo_listener_shut := True\<rparr> else m)
      else let m1 = monitor_refresh mc (tk_now k) (tk_after k) m in
        if tk_hit k then (Interrupted, m1)
        else monitor_loop mc ks
               (monitor_stats mc (tk_handled k) (m1\<lparr>mo_signal := fold signal_handler (tk_signals k) (mo_signal m1)\<rparr>)))"

section \<open>run\<close>

text \<open>
  The end of \<open>run\<close>, after the accept loop: the monitor is interrupted, the listener closed, the
  scheduler told to stop, and every registered socket shut down; \<open>run\<close> then waits for the
  handlers and the scheduler.
\<close>

definition run_shutdown :: "('t SimpleScheduler \<times> (32 word, bool) stdmap) \<Rightarrow> 't SimpleScheduler \<times> 32 word list" where
  "run_shutdown = (\<lambda>(s, sockets). (Scheduler.shutdown s, map fst sockets))"

definition run_can_return :: "int \<Rightarrow> 't SimpleScheduler \<Rightarrow> bool" where
  "run_can_return busyHandlers s \<longleftrightarrow> \<not> busyHandlers > 0 \<and> wait_returns s"

section \<open>No accepted connection is forgotten\<close>

text \<open>The descriptors accepted before the first error, and the part of them the loop got to.\<close>

fun accepted_fds :: "(int \<times> int) list \<Rightarrow> int list" where
  "accepted_fds [] = []"
| "accepted_fds ((fd, errno) # rs) = (if fd = - 1 then [] else fd # accepted_fds rs)"

lemma accept_loop_error: "fd = - 1 \<Longrightarrow> accept_loop clock schedule ((fd, errno) # rs) a = (Some (if errno \<noteq> 0 then errno else - 1), a)"
  by simp

lemma accept_loop_accepted:
  "fd \<noteq> - 1 \<Longrightarrow> accept_loop clock [] ((fd, errno) # rs) a = (None, a)"
  "fd \<noteq> - 1 \<Longrightarrow> accept_loop clock (ok # oks) ((fd, errno) # rs) a =
     accept_loop clock oks rs (if ok then a\<lparr>ap_scheduled := ap_scheduled a @ [fd]\<rparr> else refuse clock fd a)"
  by simp_all

lemmas accept_loop_cases = accept_loop_error accept_loop_accepted

declare accept_loop.simps(2) [simp del]

lemma refuse_fields [simp]:
  "ap_scheduled (refuse clock fd a) = ap_scheduled a" "ap_closed (refuse clock fd a) = ap_closed a @ [fd]"
  by (simp_all add: refuse_def Let_def)

lemma accept_loop_fds:
  "accept_loop clock schedule rs a = (e, b) \<Longrightarrow>
   mset (ap_scheduled b) + mset (ap_closed b) =
     mset (ap_scheduled a) + mset (ap_closed a) + mset (take (length schedule) (accepted_fds rs)) \<and>
   (\<forall>err. e = Some err \<longrightarrow> err \<noteq> 0)"
proof (induction rs arbitrary: schedule a)
  case (Cons r rs)
  obtain fd errno where r: "r = (fd, errno)" by fastforce
  show ?case
  proof (cases "fd = - 1")
    case True
    with Cons.prems r show ?thesis by (auto simp: accept_loop_cases split: if_splits)
  next
    case False
    show ?thesis
    proof (cases schedule)
      case Nil
      with Cons.prems r False show ?thesis by (auto simp: accept_loop_cases)
    next
      case (Cons ok oks)
      with Cons.prems r False
      have "accept_loop clock oks rs (if ok then a\<lparr>ap_scheduled := ap_scheduled a @ [fd]\<rparr> else refuse clock fd a) = (e, b)"
        by (simp add: accept_loop_cases)
      from Cons.IH [OF this] r False Cons show ?thesis by (cases ok) simp_all
    qed
  qed
qed auto

definition warned :: "(nat \<Rightarrow> int) \<Rightarrow> accepting \<Rightarrow> bool" where
  "warned clock a \<longleftrightarrow>
     sorted_wrt (\<lambda>x y. y - x > 60) (ap_warnings a) \<and> (\<forall>t \<in> set (ap_warnings a). t \<le> ap_lastWarning a) \<and>
     (ap_warnings a \<noteq> [] \<longrightarrow> ap_lastWarning a \<le> clock (ap_clock a))"

lemma warned_refuse:
  assumes "mono clock" and "warned clock a"
  shows "warned clock (refuse clock fd a)"
proof -
  have "clock (ap_clock a) \<le> clock (Suc (ap_clock a))" "clock (Suc (ap_clock a)) \<le> clock (Suc (Suc (ap_clock a)))"
    using assms(1) by (auto intro: monoD)
  with assms(2) show ?thesis by (fastforce simp: warned_def refuse_def Let_def sorted_wrt_append)
qed

lemma accept_loop_warned:
  assumes "mono clock"
  shows "accept_loop clock schedule rs a = (e, b) \<Longrightarrow> warned clock a \<Longrightarrow> warned clock b"
proof (induction rs arbitrary: schedule a)
  case (Cons r rs)
  obtain fd errno where r: "r = (fd, errno)" by fastforce
  have "warned clock (if ok then a\<lparr>ap_scheduled := ap_scheduled a @ [fd]\<rparr> else refuse clock fd a)" for ok
    using Cons.prems(2) warned_refuse [OF assms] by (simp add: warned_def)
  with Cons r show ?case
    by (cases "fd = - 1"; cases schedule) (auto simp: accept_loop_cases)
qed auto

text \<open>
  C19 (safety). Until \<open>accept\<close> fails, every accepted connection is handed to the scheduler or,
  when the scheduler does not take it, closed, exactly once; the loop ends with an error that is
  not zero; and however many connections are refused, two warnings are more than a minute apart.
\<close>

theorem accepted_connections:
  assumes "accept_loop clock schedule rs accepting_start = (e, b)" and "mono clock"
  shows "mset (ap_scheduled b) + mset (ap_closed b) = mset (take (length schedule) (accepted_fds rs)) \<and>
         (\<forall>err. e = Some err \<longrightarrow> err \<noteq> 0) \<and> sorted_wrt (\<lambda>x y. y - x > 60) (ap_warnings b)"
  using accept_loop_fds [OF assms(1)] accept_loop_warned [OF assms(2,1)]
  by (simp add: accepting_start_def warned_def)

theorem accepted_connections_witness:
  "let (e, b) = accept_loop (\<lambda>n. 100 * int n) [True, False, False] [(7, 0), (8, 0), (9, 0), (- 1, 22)] accepting_start
   in e = Some 22 \<and> ap_scheduled b = [7] \<and> ap_closed b = [8, 9] \<and>
      mset (ap_scheduled b) + mset (ap_closed b) = {#7, 8, 9#} \<and> length (ap_warnings b) = 2"
proof -
  let ?l = "accept_loop (\<lambda>n. 100 * int n) [True, False, False] [(7, 0), (8, 0), (9, 0), (- 1, 22)] accepting_start"
  have run: "?l = (Some 22, snd ?l)" "ap_scheduled (snd ?l) = [7]" "ap_closed (snd ?l) = [8, 9]" "length (ap_warnings (snd ?l)) = 2"
    by code_simp+
  have "mono (\<lambda>n. 100 * int n)" by (simp add: mono_def)
  from accepted_connections [OF run(1) this]
  have "mset (ap_scheduled (snd ?l)) + mset (ap_closed (snd ?l)) = {#7, 8, 9#}" by simp
  moreover obtain e b where l: "?l = (e, b)" by fastforce
  ultimately show ?thesis using run unfolding l by simp
qed

section \<open>The monitor\<close>

lemma signal_handler_pending: "g \<noteq> 0 \<Longrightarrow> fold signal_handler sigs g = g"
  by (induction sigs) (simp_all add: signal_handler_def)

lemma monitor_refresh_usr2:
  "mo_signal m = SIGUSR2 \<Longrightarrow>
   monitor_refresh mc now after m =
     m\<lparr>mo_world := CacheRefresh_run (mo_world m), mo_refreshes := Suc (mo_refreshes m), mo_signal := 0, mo_lastCacheRefresh := after\<rparr>"
  by (simp add: monitor_refresh_def)

lemma monitor_stats_world [simp]:
  "mo_world (monitor_stats mc h m) = mo_world m" "mo_signal (monitor_stats mc h m) = mo_signal m"
  "mo_refreshes (monitor_stats mc h m) = mo_refreshes m" "mo_listener_shut (monitor_stats mc h m) = mo_listener_shut m"
  "mo_lastCacheRefresh (monitor_stats mc h m) = mo_lastCacheRefresh m"
  by (simp_all add: monitor_stats_def stats_def Let_def)

text \<open>A turn of the monitor that nothing interrupts.\<close>

definition quiet_tick :: "tick \<Rightarrow> bool" where
  "quiet_tick k \<longleftrightarrow> \<not> tk_pending k \<and> \<not> tk_hit k \<and> tk_signals k = []"

definition stats_inv :: "monitor_cfg \<Rightarrow> nat \<Rightarrow> int \<Rightarrow> ('e, 'r) monitor \<Rightarrow> bool" where
  "stats_inv mc n start m \<longleftrightarrow>
     unat (mo_statscounter m) = n mod unat (mc_statsevery mc) \<and> length (mo_stats m) = n div unat (mc_statsevery mc) \<and>
     (\<Sum>p \<leftarrow> mo_stats m. fst p) = of_int (mo_lasthandled m - start)"

lemma monitor_refresh_stats [simp]:
  "mo_statscounter (monitor_refresh mc now after m) = mo_statscounter m" "mo_stats (monitor_refresh mc now after m) = mo_stats m"
  "mo_lasthandled (monitor_refresh mc now after m) = mo_lasthandled m"
  "mo_signal m = 0 \<Longrightarrow> mo_signal (monitor_refresh mc now after m) = 0"
  by (simp_all add: monitor_refresh_def)

lemma stats_inv_step:
  assumes "mc_statsevery mc > 0" and "stats_inv mc n start m"
  shows "stats_inv mc (Suc n) start (monitor_stats mc h m)"
proof -
  let ?k = "unat (mc_statsevery mc)"
  have k: "?k > 0" using assms(1) by (simp add: unat_gt_0)
  have "unat (mo_statscounter m) < ?k" using assms(2) k by (simp add: stats_inv_def)
  moreover have "?k < 2 ^ 32" by (rule order_less_le_trans [OF unsigned_less]) simp
  ultimately have suc: "unat (mo_statscounter m + 1) = Suc (n mod ?k)"
    using assms(2) by (simp add: stats_inv_def unat_word_ariths)
  then have eq: "mo_statscounter m + 1 = mc_statsevery mc \<longleftrightarrow> Suc (n mod ?k) = ?k"
    by (metis word_unat_eq_iff)
  show ?thesis
  proof (cases "Suc (n mod ?k) = ?k")
    case True
    then have "Suc n mod ?k = 0" "Suc n div ?k = Suc (n div ?k)" by (simp_all add: mod_Suc div_Suc)
    with True eq assms show ?thesis
      by (simp add: monitor_stats_def stats_def stats_inv_def Let_def)
  next
    case False
    then have "Suc n mod ?k = Suc (n mod ?k)" "Suc n div ?k = n div ?k" by (simp_all add: mod_Suc div_Suc)
    with False eq suc assms show ?thesis
      by (simp add: monitor_stats_def stats_inv_def Let_def)
  qed
qed

lemma monitor_stats_run:
  assumes "mc_statsevery mc > 0"
  shows "list_all quiet_tick ks \<Longrightarrow> mo_signal m = 0 \<Longrightarrow> stats_inv mc n start m \<Longrightarrow>
    \<exists>m'. monitor_loop mc ks m = (Watching, m') \<and> stats_inv mc (n + length ks) start m'"
proof (induction ks arbitrary: m n)
  case (Cons k ks)
  let ?m1 = "monitor_refresh mc (tk_now k) (tk_after k) m"
  have "stats_inv mc n start ?m1" using Cons.prems(3) by (simp add: stats_inv_def)
  note step = stats_inv_step [OF assms this, of "tk_handled k"]
  have "monitor_loop mc (k # ks) m = monitor_loop mc ks (monitor_stats mc (tk_handled k) ?m1)"
    using Cons.prems(1,2) by (simp add: quiet_tick_def SIGQUIT_def SIGHUP_def Let_def)
  moreover obtain m' where "monitor_loop mc ks (monitor_stats mc (tk_handled k) ?m1) = (Watching, m')"
    "stats_inv mc (Suc n + length ks) start m'"
    using Cons.IH [OF _ _ step] Cons.prems(1,2) by auto
  ultimately show ?case by auto
qed (simp add: SIGQUIT_def SIGHUP_def)

text \<open>
  The statistics: in a run of the monitor that no signal and no interruption
  disturbs, one line is logged every \<open>statsevery\<close> turns, and the numbers of requests in these
  lines add up, modulo the width of \<open>unsigned\<close>, to all that were handled until the last line.
\<close>

theorem monitor_statistics:
  assumes "mc_statsevery mc > 0" and "list_all quiet_tick ks" and "mo_signal m = 0" and "mo_statscounter m = 0" and "mo_stats m = []"
  shows "\<exists>m'. monitor_loop mc ks m = (Watching, m') \<and> length (mo_stats m') = length ks div unat (mc_statsevery mc) \<and>
           (\<Sum>p \<leftarrow> mo_stats m'. fst p) = of_int (mo_lasthandled m' - mo_lasthandled m)"
  using monitor_stats_run [OF assms(1-3), of 0 "mo_lasthandled m"] assms(4,5) by (auto simp: stats_inv_def)

text \<open>
  C29 (functional). The signals, for a monitor at the head of its loop: \<open>SIGUSR2\<close> empties the
  caches in the next turn and is then done with; \<open>SIGQUIT\<close> and \<open>SIGHUP\<close> shut the listener down,
  which ends the accept loop; but a \<open>SIGQUIT\<close> that arrives while another signal is pending is
  dropped, and the monitor goes on.
\<close>

theorem monitor_signals:
  assumes "refresh_wf (mo_world m)" and "\<not> tk_pending k" and "\<not> tk_hit k"
  shows "(mo_signal m = SIGUSR2 \<longrightarrow> tk_signals k = [] \<longrightarrow>
           (\<exists>m'. monitor_loop mc [k] m = (Watching, m') \<and> mo_signal m' = 0 \<and> mo_refreshes m' = Suc (mo_refreshes m) \<and>
              cache_get (w_exact (mo_world m')) p = None \<and> cache_get (w_pattern (mo_world m')) p = None)) \<and>
         (mo_signal m \<in> {SIGQUIT, SIGHUP} \<longrightarrow> monitor_loop mc (k # ks) m = (Shutting, m\<lparr>mo_listener_shut := True\<rparr>)) \<and>
         (mo_signal m = 0 \<longrightarrow> tk_signals k = [SIGUSR2, SIGQUIT] \<longrightarrow>
           (\<exists>m'. monitor_loop mc [k, k\<lparr>tk_signals := []\<rparr>] m = (Watching, m') \<and> mo_signal m' = 0))"
proof (intro conjI impI)
  assume "mo_signal m = SIGUSR2" "tk_signals k = []"
  with assms CacheRefresh_run_empty [OF assms(1)] show "\<exists>m'. monitor_loop mc [k] m = (Watching, m') \<and> mo_signal m' = 0 \<and>
      mo_refreshes m' = Suc (mo_refreshes m) \<and> cache_get (w_exact (mo_world m')) p = None \<and> cache_get (w_pattern (mo_world m')) p = None"
    by (simp add: monitor_refresh_usr2 SIGUSR2_def SIGQUIT_def SIGHUP_def)
next
  assume "mo_signal m \<in> {SIGQUIT, SIGHUP}"
  then show "monitor_loop mc (k # ks) m = (Shutting, m\<lparr>mo_listener_shut := True\<rparr>)"
    by (auto simp: SIGQUIT_def SIGHUP_def)
next
  assume sig: "mo_signal m = 0" "tk_signals k = [SIGUSR2, SIGQUIT]"
  let ?m1 = "monitor_refresh mc (tk_now k) (tk_after k) m"
  have "fold signal_handler [SIGUSR2, SIGQUIT] (mo_signal ?m1) = SIGUSR2"
    using sig(1) by (simp add: signal_handler_def SIGUSR2_def)
  with sig assms(2,3) show "\<exists>m'. monitor_loop mc [k, k\<lparr>tk_signals := []\<rparr>] m = (Watching, m') \<and> mo_signal m' = 0"
    by (simp add: monitor_refresh_usr2 SIGUSR2_def SIGQUIT_def SIGHUP_def signal_handler_def Let_def)
qed

section \<open>Witnesses\<close>

definition sample_monitor :: "int \<Rightarrow> (nat list, unit) monitor" where
  "sample_monitor sig =
     \<lparr>mo_signal = sig, mo_lastCacheRefresh = 0, mo_statscounter = 0, mo_lasthandled = 0, mo_world = sample_caches,
      mo_refreshes = 0, mo_stats = [], mo_listener_shut = False\<rparr>"

definition sample_tick :: tick where
  "sample_tick = \<lparr>tk_now = 5, tk_after = 5, tk_pending = False, tk_hit = False, tk_signals = [], tk_handled = 9\<rparr>"

definition sample_mc :: monitor_cfg where
  "sample_mc = \<lparr>mc_monitorRefresh = 5, mc_cacheRefresh = 600, mc_statsevery = 2\<rparr>"

theorem monitor_statistics_witness:
  "\<exists>m'. monitor_loop sample_mc (replicate 5 sample_tick) (sample_monitor 0) = (Watching, m') \<and> length (mo_stats m') = 2"
  using monitor_statistics [of sample_mc "replicate 5 sample_tick" "sample_monitor 0"]
  by (auto simp: sample_mc_def sample_monitor_def sample_tick_def quiet_tick_def list_all_length)

theorem monitor_signals_witness:
  "\<exists>m'. monitor_loop sample_mc [sample_tick] (sample_monitor SIGUSR2) = (Watching, m') \<and>
        cache_get (w_exact (mo_world m')) 7 = None"
proof -
  have "refresh_wf (mo_world (sample_monitor SIGUSR2))"
    by (simp add: sample_monitor_def refresh_wf_def sample_caches_def sample_world_def)
  moreover have "\<not> tk_pending sample_tick" "\<not> tk_hit sample_tick" "tk_signals sample_tick = []" "mo_signal (sample_monitor SIGUSR2) = SIGUSR2"
    by (simp_all add: sample_tick_def sample_monitor_def)
  ultimately show ?thesis using monitor_signals [of "sample_monitor SIGUSR2" sample_tick sample_mc 7 "[]"] by blast
qed

end
