(* ===== verification/Listener.thy ===== *)
theory Listener
  imports Utils
begin

text \<open>
  \<open>src/src/filedescriptor.h\<close>, \<open>tcplistener.h\<close> and \<open>tcplistener.cpp\<close>: the listening
  socket. The system calls are a parameter, the record \<open>'n net\<close> on a state \<open>'n\<close> of the system
  that also holds \<open>errno\<close>.
\<close>

record addrinfo =
  ai_family :: int
  ai_socktype :: int
  ai_protocol :: int
  ai_addr :: string
  ai_addrlen :: nat

record 'n net =
  nt_getaddrinfo :: "string option \<Rightarrow> string \<Rightarrow> 'n \<Rightarrow> (int + addrinfo list) \<times> 'n"
  nt_gai_strerror :: "int \<Rightarrow> string"
  nt_socket :: "addrinfo \<Rightarrow> 'n \<Rightarrow> int \<times> 'n"
  nt_setsockopt :: "int \<Rightarrow> 'n \<Rightarrow> 'n"
  nt_bind :: "int \<Rightarrow> addrinfo \<Rightarrow> 'n \<Rightarrow> int \<times> 'n"
  nt_listen :: "int \<Rightarrow> 32 word \<Rightarrow> 'n \<Rightarrow> 'n"
  nt_close :: "int \<Rightarrow> 'n \<Rightarrow> int \<times> 'n"
  nt_errno :: "'n \<Rightarrow> int"
  nt_strerror :: "int \<Rightarrow> string"

record FileDescriptor =
  fd_fd :: int

definition FileDescriptor_new :: FileDescriptor where
  "FileDescriptor_new = \<lparr>fd_fd = - 1\<rparr>"

definition fd_get :: "'m FileDescriptor_scheme \<Rightarrow> int" where
  "fd_get f = fd_fd f"

definition fd_set :: "int \<Rightarrow> 'm FileDescriptor_scheme \<Rightarrow> 'm FileDescriptor_scheme" where
  "fd_set fd f = f\<lparr>fd_fd := fd\<rparr>"

record TCPListener = FileDescriptor +
  li_host :: string
  li_port :: string
  li_backlog :: "32 word"
  li_addrlen :: nat

definition TCPListener_new :: "string \<Rightarrow> string \<Rightarrow> nat \<Rightarrow> TCPListener" where
  "TCPListener_new host port junk =
     FileDescriptor.extend FileDescriptor_new \<lparr>li_host = host, li_port = port, li_backlog = 1024, li_addrlen = junk\<rparr>"

section \<open>open\<close>

text \<open>
  The loop over the addresses: the descriptor that was bound with its address, or \<^const>\<open>None\<close> when the
  list is exhausted; the operation and the error number the error message is built from.
\<close>

fun bind_loop ::
    "'n net \<Rightarrow> addrinfo list \<Rightarrow> string \<Rightarrow> int \<Rightarrow> 'n \<Rightarrow> (int \<times> addrinfo) option \<times> string \<times> int \<times> 'n" where
  "bind_loop nt [] op error s = (None, op, error, s)"
| "bind_loop nt (res # rest) op error s =
     (case nt_socket nt res s of
        (listenfd, s1) \<Rightarrow>
          if listenfd < 0 then bind_loop nt rest ''listen'' (nt_errno nt s1) s1
          else (case nt_bind nt listenfd res (nt_setsockopt nt listenfd s1) of
                  (b, s2) \<Rightarrow>
                    if b = 0 then (Some (listenfd, res), ''bind'', nt_errno nt s2, s2)
                    else (case nt_close nt listenfd s2 of (c, s3) \<Rightarrow> bind_loop nt rest op error s3)))"

definition open_error :: "string \<Rightarrow> TCPListener \<Rightarrow> string \<Rightarrow> int \<Rightarrow> exn" where
  "open_error op l text error =
     RuntimeError (op @ '' error for '' @ li_host l @ '':'' @ li_port l @ '': '' @ text @ ''('' @ StrmConvert_int error @ '')'')"

definition TCPListener_open :: "'n net \<Rightarrow> ('n \<times> TCPListener, unit) prog" where
  "TCPListener_open nt = (\<lambda>(s, l).
     if fd_get l \<noteq> - 1 then (Inl (Undefined ''assert(FileDescriptor::get()==-1)''), s, l)
     else case nt_getaddrinfo nt (if li_host l \<noteq> [] then Some (li_host l) else None) (li_port l) s of
       (Inl n, s1) \<Rightarrow> (Inl (open_error ''tcp_listen getaddrinfo'' l (nt_gai_strerror nt n) n), s1, l)
     | (Inr res, s1) \<Rightarrow>
         if res = [] then (Inl (Undefined ''res->ai_family''), s1, l)
         else case bind_loop nt res ''getaddrinfo'' (nt_errno nt s1) s1 of
           (None, op, error, s2) \<Rightarrow> (Inl (open_error op l (nt_strerror nt error) error), s2, l)
         | (Some (listenfd, ai), op, error, s2) \<Rightarrow>
             (Inr (), nt_listen nt listenfd (li_backlog l) s2, fd_set listenfd (l\<lparr>li_addrlen := ai_addrlen ai\<rparr>)))"

text \<open>\<open>close\<close>, with the line it prints when the system call fails. The descriptor keeps its value.\<close>

definition TCPListener_close :: "'n net \<Rightarrow> 'n \<times> TCPListener \<Rightarrow> string list \<times> 'n \<times> TCPListener" where
  "TCPListener_close nt = (\<lambda>(s, l).
     case nt_close nt (fd_get l) s of
       (c, s') \<Rightarrow> (if c \<noteq> 0 then [''error closing TCP socket descriptor''] else [], s', l))"

section \<open>Which address is taken\<close>

text \<open>
  The laws of the system calls on the set of open descriptors: \<open>socket\<close> opens a new one or
  fails, \<open>close\<close> closes it, the others leave the set alone.
\<close>

definition net_fds :: "'n net \<Rightarrow> ('n \<Rightarrow> int set) \<Rightarrow> bool" where
  "net_fds nt fds \<longleftrightarrow>
     (\<forall>a s. case nt_socket nt a s of (fd, s') \<Rightarrow>
        if fd < 0 then fds s' = fds s else fd \<notin> fds s \<and> fds s' = insert fd (fds s)) \<and>
     (\<forall>fd s. fds (nt_setsockopt nt fd s) = fds s) \<and>
     (\<forall>fd a s. fds (snd (nt_bind nt fd a s)) = fds s) \<and>
     (\<forall>fd b s. fds (nt_listen nt fd b s) = fds s) \<and>
     (\<forall>fd s. fds (snd (nt_close nt fd s)) = fds s - {fd}) \<and>
     (\<forall>h p s. fds (snd (nt_getaddrinfo nt h p s)) = fds s)"

lemma net_fdsD:
  assumes "net_fds nt fds"
  shows "nt_socket nt a s = (fd, s') \<Longrightarrow> fd < 0 \<Longrightarrow> fds s' = fds s"
    and "nt_socket nt a s = (fd, s') \<Longrightarrow> fd \<ge> 0 \<Longrightarrow> fd \<notin> fds s \<and> fds s' = insert fd (fds s)"
    and "fds (nt_setsockopt nt fd s) = fds s"
    and "nt_bind nt fd a s = (b, s') \<Longrightarrow> fds s' = fds s"
    and "fds (nt_listen nt fd n s) = fds s"
    and "nt_close nt fd s = (b, s') \<Longrightarrow> fds s' = fds s - {fd}"
    and "nt_getaddrinfo nt h p s = (g, s') \<Longrightarrow> fds s' = fds s"
proof -
  have socket: "if fst (nt_socket nt a s) < 0 then fds (snd (nt_socket nt a s)) = fds s
      else fst (nt_socket nt a s) \<notin> fds s \<and> fds (snd (nt_socket nt a s)) = insert (fst (nt_socket nt a s)) (fds s)"
    using assms unfolding net_fds_def by (simp add: split_beta)
  show "nt_socket nt a s = (fd, s') \<Longrightarrow> fd < 0 \<Longrightarrow> fds s' = fds s"
    "nt_socket nt a s = (fd, s') \<Longrightarrow> fd \<ge> 0 \<Longrightarrow> fd \<notin> fds s \<and> fds s' = insert fd (fds s)"
    using socket by auto
  have others: "fds (nt_setsockopt nt fd s) = fds s" "fds (nt_listen nt fd n s) = fds s"
    "fds (snd (nt_bind nt fd a s)) = fds s" "fds (snd (nt_close nt fd s)) = fds s - {fd}"
    "fds (snd (nt_getaddrinfo nt h p s)) = fds s"
    using assms by (simp_all add: net_fds_def)
  show "fds (nt_setsockopt nt fd s) = fds s" "fds (nt_listen nt fd n s) = fds s" using others by simp_all
  show "nt_bind nt fd a s = (b, s') \<Longrightarrow> fds s' = fds s" "nt_close nt fd s = (b, s') \<Longrightarrow> fds s' = fds s - {fd}"
    "nt_getaddrinfo nt h p s = (g, s') \<Longrightarrow> fds s' = fds s"
    using others by auto
qed

lemma bind_loop_fds:
  assumes "net_fds nt fds" and "bind_loop nt res op error s = (f, op', error', s')"
  shows "case f of
      None \<Rightarrow> fds s' = fds s
    | Some (fd, ai) \<Rightarrow> fd \<ge> 0 \<and> ai \<in> set res \<and> fd \<notin> fds s \<and> fds s' = insert fd (fds s)"
  using assms(2)
proof (induction res arbitrary: op error s)
  case (Cons a res)
  obtain fd s1 where sock: "nt_socket nt a s = (fd, s1)" by fastforce
  obtain b s2 where bind: "nt_bind nt fd a (nt_setsockopt nt fd s1) = (b, s2)" by fastforce
  obtain c s3 where close: "nt_close nt fd s2 = (c, s3)" by fastforce
  note laws = net_fdsD(1,2) [OF assms(1) sock] net_fdsD(4) [OF assms(1) bind] net_fdsD(3) [OF assms(1), of fd s1]
    net_fdsD(6) [OF assms(1) close]
  show ?case
  proof (cases "fd < 0 \<or> b \<noteq> 0")
    case True
    then have "\<exists>op error v. bind_loop nt res op error v = (f, op', error', s') \<and> fds v = fds s"
      using Cons.prems sock bind close laws by (cases "fd < 0") auto
    then show ?thesis using Cons.IH by (force split: option.splits)
  next
    case False
    with Cons.prems sock bind laws show ?thesis by auto
  qed
qed auto

text \<open>
  C20 (safety). Opening the listener leaks no descriptor: when it succeeds, the only descriptor
  that is open afterwards and was not before is the one it keeps, and it is the one of an address
  of the host; when it throws, the set of open descriptors is the one before.
\<close>

theorem listener_open_no_leak:
  assumes "net_fds nt fds" and "fd_get l = - 1" and "TCPListener_open nt (s, l) = (r, s', l')"
  shows "case r of
           Inl e \<Rightarrow> fds s' = fds s \<and> l' = l
         | Inr _ \<Rightarrow> fd_get l' \<ge> 0 \<and> fd_get l' \<notin> fds s \<and> fds s' = insert (fd_get l') (fds s) \<and>
                   li_host l' = li_host l \<and> li_port l' = li_port l"
proof -
  obtain g s1 where gai: "nt_getaddrinfo nt (if li_host l \<noteq> [] then Some (li_host l) else None) (li_port l) s = (g, s1)"
    by fastforce
  note s1 = net_fdsD(7) [OF assms(1) gai]
  show ?thesis
  proof (cases g)
    case (Inl n)
    with assms(2,3) gai s1 show ?thesis by (simp add: TCPListener_open_def) auto
  next
    case (Inr res)
    obtain f op error s2 where loop: "bind_loop nt res ''getaddrinfo'' (nt_errno nt s1) s1 = (f, op, error, s2)"
      by (metis prod_cases4)
    show ?thesis
    proof (cases f)
      case None
      with assms(2,3) gai s1 Inr loop bind_loop_fds [OF assms(1) loop] show ?thesis
        by (cases "res = []") (simp_all add: TCPListener_open_def, auto)
    next
      case (Some fa)
      obtain fd ai where fa: "fa = (fd, ai)" by fastforce
      have "res \<noteq> []" using loop Some by auto
      with assms(2,3) gai Inr loop Some fa
      have "r = Inr () \<and> s' = nt_listen nt fd (li_backlog l) s2 \<and> l' = fd_set fd (l\<lparr>li_addrlen := ai_addrlen ai\<rparr>)"
        by (simp add: TCPListener_open_def)
      with s1 Some fa bind_loop_fds [OF assms(1) loop] net_fdsD(5) [OF assms(1)] show ?thesis
        by (simp add: fd_get_def fd_set_def)
    qed
  qed
qed

section \<open>What the error message says\<close>

lemma bind_loop_all_refused:
  assumes "\<forall>a s. fst (nt_socket nt a s) \<ge> 0" and "\<forall>fd a s. fst (nt_bind nt fd a s) \<noteq> 0"
  shows "\<exists>s'. bind_loop nt res op error s = (None, op, error, s')"
proof (induction res arbitrary: s)
  case (Cons a res)
  obtain fd s1 where sock: "nt_socket nt a s = (fd, s1)" "fd \<ge> 0" using assms(1) by (metis prod.collapse)
  obtain b s2 where bind: "nt_bind nt fd a (nt_setsockopt nt fd s1) = (b, s2)" "b \<noteq> 0" using assms(2) by (metis prod.collapse)
  show ?case using sock bind Cons.IH by (simp split: prod.split)
qed simp

text \<open>
  When no address can be bound, for example because the port is taken, the
  error is not the one of \<open>bind\<close>: the exception blames \<open>getaddrinfo\<close>, which succeeded, with the
  value \<open>errno\<close> happened to have before the first socket was made.
\<close>

theorem bind_failure_misreported:
  assumes "\<forall>a s. fst (nt_socket nt a s) \<ge> 0" and "\<forall>fd a s. fst (nt_bind nt fd a s) \<noteq> 0" and "fd_get l = - 1"
    and "nt_getaddrinfo nt (if li_host l \<noteq> [] then Some (li_host l) else None) (li_port l) s = (Inr res, s1)" and "res \<noteq> []"
  shows "fst (TCPListener_open nt (s, l)) =
         Inl (RuntimeError (''getaddrinfo error for '' @ li_host l @ '':'' @ li_port l @ '': '' @
                nt_strerror nt (nt_errno nt s1) @ ''('' @ StrmConvert_int (nt_errno nt s1) @ '')''))"
proof -
  obtain s2 where "bind_loop nt res ''getaddrinfo'' (nt_errno nt s1) s1 = (None, ''getaddrinfo'', nt_errno nt s1, s2)"
    using bind_loop_all_refused [OF assms(1,2)] by blast
  with assms(3-5) show ?thesis by (simp add: TCPListener_open_def open_error_def)
qed

section \<open>Witnesses\<close>

text \<open>
  A system whose state is the next descriptor and the open ones; \<open>refuse k\<close> says
  whether \<open>bind\<close> fails after \<open>k\<close> sockets.
\<close>

definition sample_net :: "(int \<Rightarrow> bool) \<Rightarrow> (int \<times> int list) net" where
  "sample_net refuse =
     \<lparr>nt_getaddrinfo = (\<lambda>h p s. (Inr [\<lparr>ai_family = 2, ai_socktype = 1, ai_protocol = 6, ai_addr = ''a'', ai_addrlen = 16\<rparr>,
                                      \<lparr>ai_family = 2, ai_socktype = 1, ai_protocol = 6, ai_addr = ''b'', ai_addrlen = 16\<rparr>], s)),
      nt_gai_strerror = (\<lambda>_. []),
      nt_socket = (\<lambda>a (k, fs). let fd = fold max fs 0 + 1 in (fd, k + 1, fd # fs)),
      nt_setsockopt = (\<lambda>fd s. s),
      nt_bind = (\<lambda>fd a (k, fs). (if refuse k then - 1 else 0, k, fs)),
      nt_listen = (\<lambda>fd b s. s),
      nt_close = (\<lambda>fd (k, fs). (0, k, removeAll fd fs)),
      nt_errno = (\<lambda>_. 0),
      nt_strerror = (\<lambda>_. ''Success'')\<rparr>"

lemma sample_net_fds: "net_fds (sample_net refuse) (\<lambda>s. set (snd s))"
proof -
  have "fold max fs 0 + 1 \<notin> set fs" for fs :: "int list" using fold_max_ge [of "fold max fs 0 + 1" fs 0] by auto
  moreover have "\<not> fold max fs 0 + 1 < (0 :: int)" for fs using fold_max_ge [of 0 fs 0] by auto
  ultimately show ?thesis by (auto simp: net_fds_def sample_net_def Let_def split: prod.split)
qed

theorem listener_open_no_leak_witness:
  "let (r, s, l) = TCPListener_open (sample_net (\<lambda>k. k \<le> 1)) ((0, [5]), TCPListener_new ''h'' ''25'' 0)
   in r = Inr () \<and> fd_get l = 6 \<and> set (snd s) = {5, 6}"
proof -
  let ?o = "TCPListener_open (sample_net (\<lambda>k. k \<le> 1)) ((0, [5]), TCPListener_new ''h'' ''25'' 0)"
  have "?o = (fst ?o, fst (snd ?o), snd (snd ?o))" by simp
  moreover have "fd_get (TCPListener_new ''h'' ''25'' 0) = - 1" by code_simp
  ultimately have "case fst ?o of Inl e \<Rightarrow> True | Inr _ \<Rightarrow> set (snd (fst (snd ?o))) = insert (fd_get (snd (snd ?o))) {5}"
    using listener_open_no_leak [OF sample_net_fds, of "TCPListener_new ''h'' ''25'' 0" "\<lambda>k. k \<le> 1" "(0, [5])"]
    by (fastforce split: sum.splits)
  moreover have "fst ?o = Inr () \<and> fd_get (snd (snd ?o)) = 6" by code_simp
  ultimately show ?thesis by (auto simp: Let_def split_beta)
qed

theorem bind_failure_misreported_witness:
  "fst (TCPListener_open (sample_net (\<lambda>_. True)) ((0, [5]), TCPListener_new ''h'' ''25'' 0)) =
   Inl (RuntimeError ''getaddrinfo error for h:25: Success(0)'')"
proof -
  let ?nt = "sample_net (\<lambda>_. True)" and ?l = "TCPListener_new ''h'' ''25'' 0"
  have "\<forall>a s. fst (nt_socket ?nt a s) \<ge> 0"
    using fold_max_ge [of "0 :: int" _ 0] by (fastforce simp: sample_net_def Let_def split: prod.split)
  moreover have "\<forall>fd a s. fst (nt_bind ?nt fd a s) \<noteq> 0" by (simp add: sample_net_def split: prod.split)
  moreover have "fd_get ?l = - 1" by code_simp
  moreover have "\<exists>res. nt_getaddrinfo ?nt (if li_host ?l \<noteq> [] then Some (li_host ?l) else None) (li_port ?l) (0, [5]) = (Inr res, (0, [5])) \<and> res \<noteq> []"
    by (simp add: sample_net_def)
  ultimately have "fst (TCPListener_open ?nt ((0, [5]), ?l)) =
      Inl (RuntimeError (''getaddrinfo error for '' @ li_host ?l @ '':'' @ li_port ?l @ '': '' @
        nt_strerror ?nt (nt_errno ?nt (0, [5])) @ ''('' @ StrmConvert_int (nt_errno ?nt (0, [5])) @ '')''))"
    using bind_failure_misreported [of ?nt ?l "(0, [5])" _ "(0, [5])"] by blast
  moreover have "StrmConvert_int 0 = ''0''" by code_simp
  ultimately show ?thesis
    by (simp add: sample_net_def TCPListener_new_def TCPListener.defs FileDescriptor.defs FileDescriptor_new_def)
qed

end
