(* ===== verification/Greylist_Store.thy ===== *)
theory Greylist_Store
  imports Greylist
begin

text \<open>
  What the greylisting policy does to its table. The server is a parameter: \<open>greylist_store\<close>
  states what it does with the three statements of one request, and \<open>gl_step\<close> is the
  automaton the policy implements on the row of that request. The main result is that a run of
  the program is a run of the automaton.
\<close>

section \<open>The values of a request\<close>

record Request =
  rq_client_address :: string
  rq_sender :: string
  rq_recipient :: string
  rq_reverse_client_name :: string
  rq_client_name :: string

definition Request_triplet :: "Request \<Rightarrow> Triplet" where
  "Request_triplet q =
     Triplet_new (rq_client_address q) (rq_sender q) (rq_recipient q) (rq_reverse_client_name q) (rq_client_name q)"

definition rq_short :: "Request \<Rightarrow> string" where
  "rq_short q = getShortenedName (lowercase (rq_client_name q))"

definition rq_octets :: "32 word \<Rightarrow> Request \<Rightarrow> 32 word list" where
  "rq_octets junk q = initNumeric_loop junk (rq_client_address q) 0 []"

definition rq_ipv4 :: "Request \<Rightarrow> bool" where
  "rq_ipv4 q \<longleftrightarrow> count_list (rq_client_address q) CHR ''.'' = 3"

definition rq_view :: "('e, 'r) platform \<Rightarrow> Request \<Rightarrow> Triplet \<Rightarrow> bool" where
  "rq_view pf q t \<longleftrightarrow>
     (\<exists>st. triplet_view (pf_resolver pf) (rq_client_address q) (rq_sender q) (rq_recipient q)
        (rq_reverse_client_name q) (rq_client_name q) st t) \<and>
     ip_numeric (tr_client_address t) \<in> {[], rq_octets (pf_junk pf) q}"

lemma rq_view_new: "rq_view pf q (Request_triplet q)"
  unfolding rq_view_def Request_triplet_def
  by (rule conjI, rule exI, rule triplet_view_new) (simp add: Triplet_new_def IPAddress_new_def)

lemma rq_view_simps:
  assumes "rq_view pf q t"
  shows "tr_sender t = lowercase (rq_sender q)" "tr_recipient t = lowercase (rq_recipient q)"
  using assms by (auto simp: rq_view_def triplet_view_def)

lemma rq_view_short:
  assumes "rq_view pf q t"
  shows "\<exists>t'. tr_getShortClientName t = (rq_short q, t') \<and> rq_view pf q t'"
proof -
  let ?ip = "tr_client_address t"
  obtain st where view: "ip_view (pf_resolver pf) (rq_client_address q) (rq_reverse_client_name q) (rq_client_name q) st ?ip"
    using assms by (auto simp: rq_view_def triplet_view_def)
  have "ip_numeric (snd (getShortClientName ?ip)) = ip_numeric ?ip"
    by (simp add: getShortClientName_def Let_def)
  with ip_view_getShortClientName [OF view] assms show ?thesis
    by (auto simp: rq_view_def triplet_view_def tr_getShortClientName_def rq_short_def split: prod.splits)
qed

lemma length_rq_octets: "rq_ipv4 q \<Longrightarrow> length (rq_octets junk q) = 4"
  by (simp add: rq_ipv4_def rq_octets_def length_initNumeric_loop)

lemma rq_view_octet:
  assumes "rq_view pf q t" and "rq_ipv4 q" and "i < 4"
  shows "\<exists>t'. getClientAddressNumericIdx (pf_junk pf) i t = (Inr (rq_octets (pf_junk pf) q ! i), t') \<and>
              rq_view pf q t'"
proof -
  let ?ip = "tr_client_address t" and ?os = "rq_octets (pf_junk pf) q"
  have len: "length ?os = 4" using assms(2) by (rule length_rq_octets)
  have str: "ip_str ?ip = rq_client_address q"
    using assms(1) by (auto simp: rq_view_def triplet_view_def ip_view_def)
  have keep: "rq_view pf q (t\<lparr>tr_client_address := ?ip\<lparr>ip_numeric := ?os\<rparr>\<rparr>)"
    using assms(1) by (auto simp: rq_view_def triplet_view_def ip_view_def)
  show ?thesis
  proof (cases "ip_numeric ?ip = []")
    case True
    then have "initNumeric (pf_junk pf) ?ip = (Inr (), ?ip\<lparr>ip_numeric := ?os\<rparr>)"
      using len str by (simp add: initNumeric_def rq_octets_def Let_def)
    with True len keep assms(3) show ?thesis
      by (simp add: getClientAddressNumericIdx_def getNumericIdx_def)
  next
    case False
    with assms(1) have "ip_numeric ?ip = ?os" by (auto simp: rq_view_def)
    with False len keep assms(1,3) show ?thesis
      by (simp add: getClientAddressNumericIdx_def getNumericIdx_def)
  qed
qed

section \<open>The statements of a request\<close>

fun octet_conds :: "nat \<Rightarrow> 32 word list \<Rightarrow> sql_part list" where
  "octet_conds j [] = []"
| "octet_conds j (v # vs) =
     [Lit ('' AND `ip'' @ show_nat j @ ''`=''), NumArg (StrmConvert_unsigned v)] @ octet_conds (j div 2) vs"

definition client_conds :: "Greylist \<Rightarrow> string \<Rightarrow> 32 word list \<Rightarrow> sql_part list" where
  "client_conds g short os =
     (case (if gl_mode g = Reverse \<and> short = [] then Weak else gl_mode g) of
        Reverse \<Rightarrow> [Lit '' AND `client_address`='', StrArg short]
      | Weak \<Rightarrow> octet_conds 64 (take (unat (gl_weakbytes g)) os)
      | Normal \<Rightarrow> octet_conds 64 os
      | Init \<Rightarrow> [])"

definition select_parts :: "Greylist \<Rightarrow> 32 word \<Rightarrow> Request \<Rightarrow> sql_part list" where
  "select_parts g junk q =
     [Lit (''SELECT `id`,`count`,`uts` FROM `'' @ ds_table (gl_ds g) @ ''` WHERE (`sender`=''),
      StrArg (lowercase (rq_sender q)), Lit '' AND `recipient`='', StrArg (lowercase (rq_recipient q))]
     @ client_conds g (rq_short q) (rq_octets junk q) @ [Lit '')'']"

definition insert_parts :: "Greylist \<Rightarrow> 32 word \<Rightarrow> Request \<Rightarrow> 64 word \<Rightarrow> sql_part list" where
  "insert_parts g junk q now =
     (let os = rq_octets junk q in
      [Lit (''INSERT INTO '' @ ds_table (gl_ds g) @
            '' (`client_address`,`sender`,`recipient`,`ip64`,`ip32`,`ip16`,`ip8`,`count`,`uts`)  VALUES(''),
       StrArg (rq_short q), Lit '','', StrArg (lowercase (rq_sender q)), Lit '','',
       StrArg (lowercase (rq_recipient q)), Lit '','',
       NumArg (StrmConvert_unsigned (os ! 0)), Lit '','', NumArg (StrmConvert_unsigned (os ! 1)), Lit '','',
       NumArg (StrmConvert_unsigned (os ! 2)), Lit '','', NumArg (StrmConvert_unsigned (os ! 3)), Lit '','',
       NumArg ''0'', Lit '','', NumArg (StrmConvert_unsigned now), Lit '')''])"

definition update_parts :: "Greylist \<Rightarrow> 64 word \<Rightarrow> 32 word \<Rightarrow> sql_part list" where
  "update_parts g rid now =
     [Lit (''UPDATE '' @ ds_table (gl_ds g) @ '' SET `count`=`count`+''), NumArg ''1'',
      Lit '',`uts`='', NumArg (StrmConvert_unsigned now), Lit '' WHERE(`id`='', NumArg (StrmConvert_unsigned rid),
      Lit '')'']"

definition table_ok :: "Greylist \<Rightarrow> bool" where
  "table_ok g \<longleftrightarrow> CHR ''%'' \<notin> set (ds_table (gl_ds g))"

section \<open>Symbolic execution of the builders\<close>

lemma StrmConvert_ucast: "StrmConvert_unsigned (ucast (v :: 32 word) :: 64 word) = StrmConvert_unsigned v"
proof -
  have "unat v < 2 ^ 64" using unsigned_less [of v, where ?'a = nat] by simp
  then have "unat (ucast v :: 64 word) = unat v"
    by (simp add: unsigned_ucast_eq take_bit_nat_eq_self)
  then show ?thesis by (simp add: StrmConvert_unsigned_def)
qed

lemma sql_parts_simps [simp]:
  "sql_format [] = []" "sql_format (p # ps) = part_format p @ sql_format ps"
  "sql_format (ps @ ps') = sql_format ps @ sql_format ps'"
  "sql_args [] = []" "sql_args (p # ps) = part_args p @ sql_args ps"
  "sql_args (ps @ ps') = sql_args ps @ sql_args ps'"
  "sql_text f [] = []" "sql_text f (p # ps) = part_text f p @ sql_text f ps"
  "sql_text f (ps @ ps') = sql_text f ps @ sql_text f ps'"
  by (simp_all add: sql_format_def sql_args_def sql_text_def)

definition dq_and :: "sql_part list \<Rightarrow> DBQuery \<Rightarrow> DBQuery" where
  "dq_and cs dq = dq\<lparr>dq_whereClause := dq_whereClause dq @ sql_format cs, dq_args := dq_args dq @ sql_args cs\<rparr>"

lemma dq_and_Nil [simp]: "dq_and [] dq = dq"
  by (simp add: dq_and_def)

lemma dq_and_dq_and [simp]: "dq_and cs (dq_and bs dq) = dq_and (bs @ cs) dq"
  by (simp add: dq_and_def)

lemma dq_and_where [simp]: "dq_whereClause dq \<noteq> [] \<Longrightarrow> dq_whereClause (dq_and cs dq) \<noteq> []"
  by (simp add: dq_and_def)

lemma addWhere_and:
  assumes "dq_whereClause dq \<noteq> []"
  shows "addWhere_str f v ''='' dq = dq_and [Lit ('' AND `'' @ f @ ''`=''), StrArg v] dq"
    and "addWhere_num f n ''='' dq = dq_and [Lit ('' AND `'' @ f @ ''`=''), NumArg (StrmConvert_unsigned n)] dq"
  using assms by (simp_all add: addWhere_str_def addWhere_num_def add_condition_def dq_and_def bquote_def)

lemma on_world_run [simp]: "m s = (r, s') \<Longrightarrow> on_world m (s, dq) = (r, s', dq)"
  by (simp add: on_world_def)

lemma upd_dq_run [simp]: "upd_dq f (s, dq) = (Inr (), s, f dq)"
  by (simp add: upd_dq_def)

lemma on_triplet_run [simp]: "f (w_triplet s) = (x, t) \<Longrightarrow> on_triplet f s = (Inr x, s\<lparr>w_triplet := t\<rparr>)"
  by (simp add: on_triplet_def)

lemma on_triplet_exn_run [simp]: "f (w_triplet s) = (r, t) \<Longrightarrow> on_triplet_exn f s = (r, s\<lparr>w_triplet := t\<rparr>)"
  by (simp add: on_triplet_exn_def)

lemma add_octets_run:
  assumes "rq_ipv4 q" and "rq_view pf q (w_triplet w)" and "dq_whereClause dq \<noteq> []" and "i + n \<le> 4"
  shows "\<exists>t'. add_octets pf n i j (w, dq) =
      (Inr (), w\<lparr>w_triplet := t'\<rparr>, dq_and (octet_conds j (take n (drop i (rq_octets (pf_junk pf) q)))) dq) \<and>
      rq_view pf q t'"
  using assms(2-)
proof (induction n arbitrary: w dq i j)
  case 0
  show ?case by (intro exI [of _ "w_triplet w"]) (simp add: 0)
next
  case (Suc n)
  let ?os = "rq_octets (pf_junk pf) q"
  obtain t where t: "getClientAddressNumericIdx (pf_junk pf) i (w_triplet w) = (Inr (?os ! i), t)" "rq_view pf q t"
    using rq_view_octet [OF Suc.prems(1) assms(1), of i] Suc.prems(3) by auto
  let ?dq = "dq_and [Lit ('' AND `ip'' @ show_nat j @ ''`=''), NumArg (StrmConvert_unsigned (?os ! i))] dq"
  obtain t' where t': "add_octets pf n (Suc i) (j div 2) (w\<lparr>w_triplet := t\<rparr>, ?dq) =
      (Inr (), w\<lparr>w_triplet := t'\<rparr>, dq_and (octet_conds (j div 2) (take n (drop (Suc i) ?os))) ?dq)" "rq_view pf q t'"
    using Suc.IH [of "w\<lparr>w_triplet := t\<rparr>" ?dq "Suc i" "j div 2"] Suc.prems t(2) by auto
  have "drop i ?os = ?os ! i # drop (Suc i) ?os"
    using Suc.prems(3) length_rq_octets [OF assms(1)] by (simp add: Cons_nth_drop_Suc)
  then show ?case
    using t t' Suc.prems(2)
    by (intro exI [of _ t']) (simp add: bindE_def addWhere_and StrmConvert_ucast)
qed

lemma add_client_run:
  assumes "rq_ipv4 q" and "rq_view pf q (w_triplet w)" and "dq_whereClause dq \<noteq> []" and "unat (gl_weakbytes g) \<le> 4"
  shows "\<exists>t'. add_client pf g (w, dq) =
      (Inr (), w\<lparr>w_triplet := t'\<rparr>, dq_and (client_conds g (rq_short q) (rq_octets (pf_junk pf) q)) dq) \<and>
      rq_view pf q t'"
proof -
  let ?os = "rq_octets (pf_junk pf) q"
  obtain t where t: "tr_getShortClientName (w_triplet w) = (rq_short q, t)" "rq_view pf q t"
    using rq_view_short [OF assms(2)] by blast
  obtain t2 where t2: "tr_getShortClientName t = (rq_short q, t2)" "rq_view pf q t2"
    using rq_view_short [OF t(2)] by blast
  have all: "take 4 ?os = ?os" using length_rq_octets [OF assms(1)] by simp
  have octs: "\<exists>t'. add_octets pf n 0 64 (w\<lparr>w_triplet := u\<rparr>, dq) =
      (Inr (), w\<lparr>w_triplet := t'\<rparr>, dq_and (octet_conds 64 (take n ?os)) dq) \<and> rq_view pf q t'"
    if "rq_view pf q u" "n \<le> 4" for n u
    using add_octets_run [OF assms(1), of pf "w\<lparr>w_triplet := u\<rparr>" dq 0 n 64] that assms(3) by simp
  show ?thesis
  proof (cases "gl_mode g")
    case Reverse
    show ?thesis
    proof (cases "rq_short q = []")
      case True
      with Reverse t octs [OF t(2) assms(4)] show ?thesis
        by (simp add: add_client_def bindE_def client_conds_def)
    next
      case False
      with Reverse t t2 assms(3) show ?thesis
        by (intro exI [of _ t2]) (simp add: add_client_def bindE_def client_conds_def addWhere_and)
    qed
  next
    case Weak
    with octs [OF assms(2,4)] show ?thesis by (simp add: add_client_def bindE_def client_conds_def)
  next
    case Normal
    with octs [OF assms(2), of 4] all show ?thesis by (simp add: add_client_def bindE_def client_conds_def)
  next
    case Init
    with assms(2) show ?thesis
      by (intro exI [of _ "w_triplet w"]) (simp add: add_client_def bindE_def client_conds_def)
  qed
qed

section \<open>The server\<close>

text \<open>
  A server that is up: connections can be made, and making, checking and closing them and
  freeing results do not touch the data, of which \<open>rec\<close> is a part.
\<close>

definition dbi_up :: "'e libdbi \<Rightarrow> ('e \<Rightarrow> 'v) \<Rightarrow> bool" where
  "dbi_up lib rec \<longleftrightarrow>
     - 1 \<le> dbi_initialize lib \<and>
     (\<forall>t e. fst (dbi_conn_new lib t e) \<noteq> None \<and> rec (snd (dbi_conn_new lib t e)) = rec e) \<and>
     (\<forall>c k v e. fst (dbi_conn_set_option lib c k v e) = 0 \<and> rec (snd (dbi_conn_set_option lib c k v e)) = rec e) \<and>
     (\<forall>c k v e. fst (dbi_conn_set_option_numeric lib c k v e) = 0 \<and>
                rec (snd (dbi_conn_set_option_numeric lib c k v e)) = rec e) \<and>
     (\<forall>c e. fst (dbi_conn_connect lib c e) = 0 \<and> rec (snd (dbi_conn_connect lib c e)) = rec e) \<and>
     (\<forall>c e. rec (snd (dbi_conn_ping lib c e)) = rec e) \<and>
     (\<forall>c e. rec (dbi_conn_close lib c e) = rec e) \<and>
     (\<forall>r e. rec (dbi_result_free lib r e) = rec e)"

text \<open>
  The row of one request, as (id, count, time), and what the server does with the three
  statements about it: SELECT returns the row or nothing, INSERT adds the row when there is
  none, UPDATE by the id of the row adds one to the count and sets the time.
\<close>

type_synonym row = "64 word \<times> 64 word \<times> 64 word"

definition greylist_store ::
    "'e libdbi \<Rightarrow> (string \<Rightarrow> string) \<Rightarrow> ('e \<Rightarrow> row option) \<Rightarrow> string \<Rightarrow> (64 word \<Rightarrow> string) \<Rightarrow>
     (64 word \<Rightarrow> 32 word \<Rightarrow> string) \<Rightarrow> bool" where
  "greylist_store lib qt rec sel ins upd \<longleftrightarrow>
     dbi_up lib rec \<and>
     (\<forall>c a e. dbi_conn_quote_string_copy lib c a e = Some (qt a)) \<and>
     (\<forall>c e. \<exists>r e'. dbi_conn_query lib c sel e = (Some r, e') \<and> rec e' = rec e \<and>
        dbi_result_get_numfields lib r e' = 3 \<and>
        (\<forall>i. dbi_result_get_field_type_idx lib r i e' = DBI_TYPE_INTEGER lib) \<and>
        (case rec e of
           None \<Rightarrow> dbi_result_get_numrows lib r e' = 0
         | Some (rid, count, uts) \<Rightarrow>
             dbi_result_get_numrows lib r e' \<noteq> 0 \<and>
             (\<exists>e''. dbi_result_next_row lib r e' = (1, e'') \<and> rec e'' = rec e \<and>
                dbi_result_get_ulonglong_idx lib r 1 e'' = rid \<and>
                dbi_result_get_long_idx lib r 2 e'' = count \<and> dbi_result_get_long_idx lib r 3 e'' = uts))) \<and>
     (\<forall>c e now. rec e = None \<longrightarrow>
        (\<exists>r e' rid. dbi_conn_query lib c (ins now) e = (Some r, e') \<and> rec e' = Some (rid, 0, now))) \<and>
     (\<forall>c e rid count uts now. rec e = Some (rid, count, uts) \<longrightarrow>
        (\<exists>r e'. dbi_conn_query lib c (upd rid now) e = (Some r, e') \<and>
                rec e' = Some (rid, count + 1, ucast now)))"

subsection \<open>Connections to a server that is up\<close>

lemma grab_free_up:
  assumes "dbi_up lib rec"
  shows "grab_free lib free e = (c, free', e') \<Longrightarrow> rec e' = rec e"
proof (induction free arbitrary: e)
  case (Cons con free)
  obtain alive e1 where ping: "dbi_conn_ping lib con e = (alive, e1)" by fastforce
  then have "rec e1 = rec e" using assms by (metis dbi_up_def snd_conv)
  moreover have "rec (dbi_conn_close lib con e1) = rec e1" using assms by (simp add: dbi_up_def)
  ultimately show ?case using Cons ping by (auto split: if_splits)
qed simp

lemma set_options_up:
  assumes "dbi_up lib rec"
  shows "\<exists>e'. set_options lib con type ps e = (None, e') \<and> rec e' = rec e"
proof (induction ps arbitrary: e)
  case (Cons p ps)
  obtain k v where p: "p = (k, v)" by fastforce
  obtain rc e1 where set: "(if isNumericOption type k
        then dbi_conn_set_option_numeric lib con k (StrmConvert_to_int v) e
        else dbi_conn_set_option lib con k v e) = (rc, e1)" by fastforce
  have "rc = 0 \<and> rec e1 = rec e"
    using assms set by (auto simp: dbi_up_def split: if_splits) (metis fst_conv snd_conv)+
  with Cons.IH [of e1] Cons.IH [of e] set show ?case by (simp add: p)
qed simp

lemma grabdb_up:
  assumes "dbi_up lib rec"
  shows "\<exists>con h e. grabdb lib i s = (Inr con, s\<lparr>dbs_heap := h, dbs_eng := e\<rparr>) \<and>
           con \<in> set (db_used (h i)) \<and> rec e = rec (dbs_eng s)"
proof -
  obtain c free e where grab: "grab_free lib (db_free (dbs_heap s i)) (dbs_eng s) = (c, free, e)"
    by (metis prod_cases3)
  have rec: "rec e = rec (dbs_eng s)" by (rule grab_free_up [OF assms grab])
  have init: "\<not> dbi_initialize lib < - 1" using assms by (simp add: dbi_up_def)
  define s1 where "s1 = (upd_db i (\<lambda>d. d\<lparr>db_free := free\<rparr>) s)\<lparr>dbs_eng := e\<rparr>"
  show ?thesis
  proof (cases c)
    case (Some con)
    let ?h = "(dbs_heap s)(i := (dbs_heap s i)\<lparr>db_free := free, db_used := insort_insert con (db_used (dbs_heap s i))\<rparr>)"
    have "grabdb lib i s = (Inr con, s\<lparr>dbs_heap := ?h, dbs_eng := e\<rparr>)"
      using grab init Some by (simp add: grabdb_def upd_db_def Let_def)
    moreover have "con \<in> set (db_used (?h i))" by (simp add: set_insort_insert)
    ultimately show ?thesis using rec by blast
  next
    case None
    define s0 where "s0 = upd_db i (\<lambda>d. d\<lparr>db_params := smap_insert ''type'' [] (db_params d)\<rparr>) s1"
    define params where "params = db_params (dbs_heap s0 i)"
    define type where "type = the (smap_find params ''type'')"
    have eng: "dbs_eng s0 = e" by (simp add: s0_def s1_def)
    obtain con e1 where new: "dbi_conn_new lib type e = (Some con, e1)" "rec e1 = rec e"
      using assms unfolding dbi_up_def by (metis option.exhaust prod.collapse snd_conv)
    obtain e2 where opts: "set_options lib con type params e1 = (None, e2)" "rec e2 = rec e1"
      using set_options_up [OF assms] by blast
    obtain e3 where conn: "dbi_conn_connect lib con e2 = (0, e3)" "rec e3 = rec e2"
      using assms unfolding dbi_up_def by (metis prod.collapse snd_conv)
    have "grabdb lib i s = grab_new lib i s1"
      using grab init None by (simp add: grabdb_def s1_def Let_def)
    also have "\<dots> = (Inr con, upd_db i (\<lambda>d. d\<lparr>db_used := insort_insert con (db_used d)\<rparr>) (s0\<lparr>dbs_eng := e3\<rparr>))"
      using new(1) opts(1) conn(1) eng
      by (simp add: grab_new_def s0_def [symmetric] params_def [symmetric] type_def [symmetric] Let_def)
    finally have run: "grabdb lib i s = (Inr con, upd_db i (\<lambda>d. d\<lparr>db_used := insort_insert con (db_used d)\<rparr>) (s0\<lparr>dbs_eng := e3\<rparr>))" .
    let ?d = "dbs_heap s0 i"
    let ?h = "(dbs_heap s0)(i := ?d\<lparr>db_used := insort_insert con (db_used ?d)\<rparr>)"
    have "grabdb lib i s = (Inr con, s\<lparr>dbs_heap := ?h, dbs_eng := e3\<rparr>)"
      unfolding run by (simp add: upd_db_def) (simp add: s0_def s1_def upd_db_def)
    moreover have "con \<in> set (db_used (?h i))" by (simp add: set_insort_insert)
    ultimately show ?thesis using new(2) opts(2) conn(2) rec by metis
  qed
qed

lemma freedb_up:
  assumes "dbi_up lib rec" and "con \<in> set (db_used (dbs_heap s i))"
  shows "\<exists>h e. freedb lib i con s = (Inr (), s\<lparr>dbs_heap := h, dbs_eng := e\<rparr>) \<and> rec e = rec (dbs_eng s)"
proof (cases "length (db_free (dbs_heap s i)) > unat (db_spareconnections (dbs_heap s i))")
  case True
  let ?h = "(dbs_heap s)(i := (dbs_heap s i)\<lparr>db_used := removeAll con (db_used (dbs_heap s i))\<rparr>)"
  let ?e = "dbi_conn_close lib con (dbs_eng s)"
  have "freedb lib i con s = (Inr (), s\<lparr>dbs_heap := ?h, dbs_eng := ?e\<rparr>)"
    using True assms(2) by (simp add: freedb_def Let_def upd_db_def upd_eng_def)
  moreover have "rec ?e = rec (dbs_eng s)" using assms(1) by (simp add: dbi_up_def)
  ultimately show ?thesis by blast
next
  case False
  let ?h = "(dbs_heap s)(i := (dbs_heap s i)\<lparr>db_free := insort_insert con (db_free (dbs_heap s i)),
      db_used := removeAll con (db_used (dbs_heap s i))\<rparr>)"
  have "freedb lib i con s = (Inr (), s\<lparr>dbs_heap := ?h, dbs_eng := dbs_eng s\<rparr>)"
    using False assms(2) by (simp add: freedb_def Let_def upd_db_def)
  then show ?thesis by blast
qed

lemma dq_close_up:
  assumes "dbi_up lib rec"
  shows "\<exists>e. dq_close lib dq s = s\<lparr>dbs_eng := e\<rparr> \<and> rec e = rec (dbs_eng s)"
proof -
  have free: "rec (dbi_result_free lib r e) = rec e" for r e using assms by (simp add: dbi_up_def)
  show ?thesis
  proof (cases "q_res (dq_query dq)")
    case None
    then show ?thesis
      by (intro exI [of _ "dbs_eng s"]) (simp add: dq_close_def free_result_def Let_def)
  next
    case (Some r)
    with free show ?thesis
      by (intro exI [of _ "dbi_result_free lib r (dbs_eng s)"])
        (simp add: dq_close_def free_result_def upd_eng_def Let_def)
  qed
qed

text \<open>The life of a query on a server that is up, in a request.\<close>

lemma with_query_run:
  assumes up: "dbi_up lib rec"
    and body: "\<And>con h e. rec e = rec (dbs_eng w) \<Longrightarrow>
      \<exists>t e' dq. body (w\<lparr>dbs_heap := h, dbs_eng := e\<rparr>, DBQuery_new con (ds_table ds)) =
          (r, w\<lparr>w_triplet := t, dbs_heap := h, dbs_eng := e'\<rparr>, dq) \<and>
        q_con (dq_query dq) = con \<and> V t \<and> P (rec e')"
  shows "\<exists>t h e. with_query lib ds body w = (r, w\<lparr>w_triplet := t, dbs_heap := h, dbs_eng := e\<rparr>) \<and>
           V t \<and> P (rec e)"
proof -
  obtain con h e where grab: "grabdb lib (ds_db ds) w = (Inr con, w\<lparr>dbs_heap := h, dbs_eng := e\<rparr>)"
    "con \<in> set (db_used (h (ds_db ds)))" "rec e = rec (dbs_eng w)"
    using grabdb_up [OF up] by blast
  obtain t e1 dq where b: "body (w\<lparr>dbs_heap := h, dbs_eng := e\<rparr>, DBQuery_new con (ds_table ds)) =
          (r, w\<lparr>w_triplet := t, dbs_heap := h, dbs_eng := e1\<rparr>, dq)"
    "q_con (dq_query dq) = con" "V t" "P (rec e1)"
    using body [OF grab(3), of h con] by blast
  let ?w1 = "w\<lparr>w_triplet := t, dbs_heap := h, dbs_eng := e1\<rparr>"
  obtain e2 where e2: "dq_close lib dq ?w1 = ?w1\<lparr>dbs_eng := e2\<rparr>" "rec e2 = rec e1"
    using dq_close_up [OF up, of dq ?w1] by auto
  have "con \<in> set (db_used (dbs_heap (?w1\<lparr>dbs_eng := e2\<rparr>) (ds_db ds)))" using grab(2) by simp
  from freedb_up [OF up this] obtain h3 e3 where
    "freedb lib (ds_db ds) con (?w1\<lparr>dbs_eng := e2\<rparr>) = (Inr (), ?w1\<lparr>dbs_heap := h3, dbs_eng := e3\<rparr>)" "rec e3 = rec e2"
    by auto
  with grab b e2 show ?thesis
    by (intro exI [of _ t] exI [of _ h3] exI [of _ e3]) (simp add: with_query_def)
qed

subsection \<open>Sending the statements\<close>

lemma executef_run:
  assumes "\<And>c a e. dbi_conn_quote_string_copy lib c a e = Some (qt a)"
    and "list_all (part_ok (\<lambda>a. Some (qt a))) ps" and "q_res q = None"
    and "dbi_conn_query lib (q_con q) (sql_text (\<lambda>a. Some (qt a)) ps) (dbs_eng s) = (Some r, e')"
  shows "executef lib (sql_format ps) (sql_args ps) (s, q) =
    (Inr True, s\<lparr>dbs_eng := e'\<rparr>, q\<lparr>q_last_query := sql_text (\<lambda>a. Some (qt a)) ps, q_res := Some r\<rparr>)"
  using assms format_sql_parts [OF assms(2), of "[]" "[]" "[]"]
  by (simp add: executef_def run_query_def)

lemma client_conds_ok:
  "list_all (part_ok (\<lambda>a. Some (qt a))) (client_conds g short os)"
proof -
  have digits: "CHR ''%'' \<notin> set (show_nat j)" for j
  proof -
    have "\<not> is_digit CHR ''%''" by (simp add: is_digit_def code_of_def)
    then show ?thesis using show_nat_digits by blast
  qed
  have "list_all (part_ok (\<lambda>a. Some (qt a))) (octet_conds j vs)" for j vs
    by (induction j vs rule: octet_conds.induct) (simp_all add: digits)
  then show ?thesis by (simp add: client_conds_def split: ModeType.split)
qed

lemma statements_ok:
  assumes "table_ok g"
  shows "list_all (part_ok (\<lambda>a. Some (qt a))) (select_parts g junk q)"
    and "list_all (part_ok (\<lambda>a. Some (qt a))) (insert_parts g junk q now)"
    and "list_all (part_ok (\<lambda>a. Some (qt a))) (update_parts g rid now32)"
  using assms client_conds_ok
  by (simp_all add: select_parts_def insert_parts_def update_parts_def table_ok_def Let_def)

text \<open>The server for the statements of a request.\<close>

definition serves ::
    "('e, 'r) platform \<Rightarrow> (string \<Rightarrow> string) \<Rightarrow> ('e \<Rightarrow> row option) \<Rightarrow> Greylist \<Rightarrow> Request \<Rightarrow> bool" where
  "serves pf qt rec g q \<longleftrightarrow>
     greylist_store (pf_dbi pf) qt rec
       (sql_text (\<lambda>a. Some (qt a)) (select_parts g (pf_junk pf) q))
       (\<lambda>now. sql_text (\<lambda>a. Some (qt a)) (insert_parts g (pf_junk pf) q now))
       (\<lambda>rid now. sql_text (\<lambda>a. Some (qt a)) (update_parts g rid now))"

lemma serves_up: "serves pf qt rec g q \<Longrightarrow> dbi_up (pf_dbi pf) rec"
  and serves_quote: "serves pf qt rec g q \<Longrightarrow> dbi_conn_quote_string_copy (pf_dbi pf) c a e = Some (qt a)"
  by (simp_all add: serves_def greylist_store_def)

lemmas serves_unfold = serves_def [THEN iffD1, unfolded greylist_store_def, THEN conjunct2, THEN conjunct2]
lemmas serves_select = serves_unfold [THEN conjunct1, rule_format]
lemmas serves_insert = serves_unfold [THEN conjunct2, THEN conjunct1, rule_format]
lemmas serves_update = serves_unfold [THEN conjunct2, THEN conjunct2, rule_format]

lemma lookup_run:
  assumes srv: "serves pf qt rec g q" and tab: "table_ok g"
    and fmt: "lookup_format dq = sql_format (select_parts g (pf_junk pf) q)"
      "dq_args dq = sql_args (select_parts g (pf_junk pf) q)"
    and fresh: "q_res (dq_query dq) = None" "q_tmap (dq_query dq) = []"
  shows "\<exists>e' dq'. find_result pf (s, dq) = (Inr (rec (dbs_eng s)), s\<lparr>dbs_eng := e'\<rparr>, dq') \<and>
      q_con (dq_query dq') = q_con (dq_query dq) \<and> rec e' = rec (dbs_eng s)"
proof -
  let ?lib = "pf_dbi pf" and ?c = "q_con (dq_query dq)"
  obtain r e1 where query: "dbi_conn_query ?lib ?c (sql_text (\<lambda>a. Some (qt a)) (select_parts g (pf_junk pf) q)) (dbs_eng s) = (Some r, e1)"
    and e1: "rec e1 = rec (dbs_eng s)" "dbi_result_get_numfields ?lib r e1 = 3"
      "\<And>i. dbi_result_get_field_type_idx ?lib r i e1 = DBI_TYPE_INTEGER ?lib"
    and res: "case rec (dbs_eng s) of
           None \<Rightarrow> dbi_result_get_numrows ?lib r e1 = 0
         | Some (rid, count, uts) \<Rightarrow>
             dbi_result_get_numrows ?lib r e1 \<noteq> 0 \<and>
             (\<exists>e''. dbi_result_next_row ?lib r e1 = (1, e'') \<and> rec e'' = rec (dbs_eng s) \<and>
                dbi_result_get_ulonglong_idx ?lib r 1 e'' = rid \<and>
                dbi_result_get_long_idx ?lib r 2 e'' = count \<and> dbi_result_get_long_idx ?lib r 3 e'' = uts)"
    using serves_select [OF srv, of ?c "dbs_eng s"] by blast
  define q1 where "q1 = (dq_query dq)\<lparr>q_last_query := sql_text (\<lambda>a. Some (qt a)) (select_parts g (pf_junk pf) q),
      q_res := Some r\<rparr>"
  define q2 where "q2 = read_fields ?lib r e1 [1..<Suc 3] (q1\<lparr>q_num_cols := 3\<rparr>)"
  have q2: "q_con q2 = ?c" "q_res q2 = Some r" "col_type q2 1 = DBI_TYPE_INTEGER ?lib"
    "col_type q2 2 = DBI_TYPE_INTEGER ?lib" "col_type q2 3 = DBI_TYPE_INTEGER ?lib"
    using fresh(2)
    by (simp_all add: q2_def q1_def col_type_def read_fields_types smap_find_set e1(3) upt_conv_Cons del: read_fields.simps)
  define dq2 where "dq2 = dq\<lparr>dq_query := q2, dq_haveResult := True\<rparr>"
  have "executef ?lib (lookup_format dq) (dq_args dq) (s, dq_query dq) = (Inr True, s\<lparr>dbs_eng := e1\<rparr>, q1)"
    unfolding fmt q1_def
    by (rule executef_run [OF serves_quote [OF srv] statements_ok(1) [OF tab] fresh(1) query])
  then have look: "dq_lookup ?lib (s, dq) = (Inr (), s\<lparr>dbs_eng := e1\<rparr>, dq2)"
    using fresh(1) e1(2)
    by (simp add: dq_lookup_def bindE_def on_query_def get_resultf_def load_fields_def dq2_def q2_def
        q1_def Let_def del: read_fields.simps upt_Suc)
  show ?thesis
  proof (cases "rec (dbs_eng s)")
    case None
    with res look e1(1) q2 show ?thesis
      by (intro exI [of _ e1] exI [of _ dq2])
        (simp add: find_result_def bindE_def numRows_def num_rows_def on_query_def dq2_def)
  next
    case (Some row)
    obtain rid count uts where row: "row = (rid, count, uts)" by (metis prod_cases3)
    obtain e2 where e2: "dbi_result_next_row ?lib r e1 = (1, e2)" "rec e2 = rec (dbs_eng s)"
      "dbi_result_get_ulonglong_idx ?lib r 1 e2 = rid" "dbi_result_get_long_idx ?lib r 2 e2 = count"
      "dbi_result_get_long_idx ?lib r 3 e2 = uts" "dbi_result_get_numrows ?lib r e1 \<noteq> 0"
      using res Some row by auto
    have types: "col_type (q2\<lparr>q_rowcount := 1, q_row := 1\<rparr>) i = col_type q2 i" for i
      by (simp add: col_type_def)
    show ?thesis
      using look e2 q2 Some row
      by (intro exI [of _ e2] exI [of _ "dq2\<lparr>dq_query := q2\<lparr>q_rowcount := 1, q_row := 1\<rparr>\<rparr>"])
        (simp add: find_result_def bindE_def numRows_def num_rows_def on_query_def fetchRow_def fetch_row_def
          getBigNumeric_def getNumeric_def getulonglongval_def getlongval_def int_column_def types dq2_def)
  qed
qed

lemmas builder_defs =
  addReturnField_def addWhere_str_def addWhere_num_def add_condition_def addString_def addNumeric_def
  add_column_def addIncrement_def addSet_def add_update_def bquote_def DBQuery_new_def Query_new_def

definition find_query :: "nat \<Rightarrow> Greylist \<Rightarrow> Request \<Rightarrow> DBQuery" where
  "find_query con g q =
     addWhere_str ''recipient'' (lowercase (rq_recipient q)) ''=''
       (addWhere_str ''sender'' (lowercase (rq_sender q)) ''=''
         (addReturnField ''uts'' (addReturnField ''count'' (addReturnField ''id''
           (DBQuery_new con (ds_table (gl_ds g)))))))"

lemma find_query_text:
  defines "dq con g junk q \<equiv> dq_and (client_conds g (rq_short q) (rq_octets junk q)) (find_query con g q)"
  shows "dq_whereClause (find_query con g q) \<noteq> []"
    and "lookup_format (dq con g junk q) = sql_format (select_parts g junk q)"
    and "dq_args (dq con g junk q) = sql_args (select_parts g junk q)"
    and "q_res (dq_query (dq con g junk q)) = None" "q_tmap (dq_query (dq con g junk q)) = []"
      "q_con (dq_query (dq con g junk q)) = con"
  by (simp_all add: dq_def find_query_def builder_defs dq_and_def lookup_format_def select_parts_def)

text \<open>The policy of one request under the hypotheses of this section.\<close>

definition gl_ok :: "('e, 'r) platform \<Rightarrow> (string \<Rightarrow> string) \<Rightarrow> ('e \<Rightarrow> row option) \<Rightarrow> Greylist \<Rightarrow> Request \<Rightarrow> bool" where
  "gl_ok pf qt rec g q \<longleftrightarrow>
     serves pf qt rec g q \<and> table_ok g \<and> rq_ipv4 q \<and> unat (gl_weakbytes g) \<le> 4"

lemma findTriplet_run:
  assumes ok: "gl_ok pf qt rec g q" and view: "rq_view pf q (w_triplet w)"
  shows "\<exists>t h e. findTriplet pf g w =
      (Inr (rec (dbs_eng w)), w\<lparr>w_triplet := t, dbs_heap := h, dbs_eng := e\<rparr>) \<and>
      rq_view pf q t \<and> rec e = rec (dbs_eng w)"
  unfolding findTriplet_def
proof (rule with_query_run [where rec = rec and V = "rq_view pf q" and P = "\<lambda>x. x = rec (dbs_eng w)"])
  have srv: "serves pf qt rec g q" and rest: "table_ok g" "rq_ipv4 q" "unat (gl_weakbytes g) \<le> 4"
    using ok by (simp_all add: gl_ok_def)
  show "dbi_up (pf_dbi pf) rec" by (rule serves_up [OF srv])
  fix con h e
  assume e: "rec e = rec (dbs_eng w)"
  let ?w = "w\<lparr>dbs_heap := h, dbs_eng := e\<rparr>"
  let ?dq = "dq_and (client_conds g (rq_short q) (rq_octets (pf_junk pf) q)) (find_query con g q)"
  obtain t where t: "add_client pf g (?w, find_query con g q) = (Inr (), ?w\<lparr>w_triplet := t\<rparr>, ?dq)" "rq_view pf q t"
    using add_client_run [OF rest(2), of pf ?w "find_query con g q" g] view rest(3) find_query_text(1) by auto
  obtain e' dq' where look: "find_result pf (?w\<lparr>w_triplet := t\<rparr>, ?dq) =
      (Inr (rec e), ?w\<lparr>w_triplet := t, dbs_eng := e'\<rparr>, dq')" "q_con (dq_query dq') = con" "rec e' = rec e"
    using lookup_run [OF srv rest(1) find_query_text(2-5), of "?w\<lparr>w_triplet := t\<rparr>" con]
    by (auto simp: find_query_text(6))
  have "find_body pf g (?w, DBQuery_new con (ds_table (gl_ds g))) = find_result pf (?w\<lparr>w_triplet := t\<rparr>, ?dq)"
    using t rq_view_simps [OF view] by (simp add: find_body_def find_query_def [symmetric])
  with look t(2) e show "\<exists>t e' dq. find_body pf g (?w, DBQuery_new con (ds_table (gl_ds g))) =
      (Inr (rec (dbs_eng w)), w\<lparr>w_triplet := t, dbs_heap := h, dbs_eng := e'\<rparr>, dq) \<and>
      q_con (dq_query dq) = con \<and> rq_view pf q t \<and> rec e' = rec (dbs_eng w)"
    by (intro exI [of _ t] exI [of _ e'] exI [of _ dq']) simp
qed

lemma dq_execute_run:
  assumes "serves pf qt rec g q" and "list_all (part_ok (\<lambda>a. Some (qt a))) ps"
    and "q_res (dq_query dq) = None"
    and "dbi_conn_query (pf_dbi pf) (q_con (dq_query dq)) (sql_text (\<lambda>a. Some (qt a)) ps) (dbs_eng s) = (Some r, e')"
  shows "\<exists>dq'. dq_execute (pf_dbi pf) (sql_format ps) (sql_args ps) (s, dq) = (Inr (), s\<lparr>dbs_eng := e'\<rparr>, dq') \<and>
           q_con (dq_query dq') = q_con (dq_query dq)"
  using executef_run [OF serves_quote [OF assms(1)] assms(2-)]
  by (simp add: dq_execute_def bindE_def on_query_def)

lemma octet_column_run:
  assumes "rq_view pf q (w_triplet w)" and "rq_ipv4 q" and "i < 4"
  shows "\<exists>t. add_octet_column pf f i (w, dq) =
      (Inr (), w\<lparr>w_triplet := t\<rparr>, addNumeric f (ucast (rq_octets (pf_junk pf) q ! i)) dq) \<and> rq_view pf q t"
  using rq_view_octet [OF assms] by (auto simp: add_octet_column_def bindE_def)

definition insert_query :: "nat \<Rightarrow> Greylist \<Rightarrow> 32 word \<Rightarrow> Request \<Rightarrow> 64 word \<Rightarrow> DBQuery" where
  "insert_query con g junk q now =
     (let os = rq_octets junk q in
      addNumeric ''uts'' now (addNumeric ''count'' 0
       (addNumeric ''ip8'' (ucast (os ! 3)) (addNumeric ''ip16'' (ucast (os ! 2))
       (addNumeric ''ip32'' (ucast (os ! 1)) (addNumeric ''ip64'' (ucast (os ! 0))
       (addString ''recipient'' (lowercase (rq_recipient q)) (addString ''sender'' (lowercase (rq_sender q))
       (addString ''client_address'' (rq_short q) (DBQuery_new con (ds_table (gl_ds g))))))))))))"

lemma show_zero: "StrmConvert_unsigned (0 :: 64 word) = ''0''"
  by code_simp

lemma show_one: "StrmConvert_unsigned (1 :: 32 word) = ''1''"
  by code_simp

lemma insert_query_text:
  "insert_format (insert_query con g junk q now) = sql_format (insert_parts g junk q now)"
  "dq_args (insert_query con g junk q now) = sql_args (insert_parts g junk q now)"
  "q_res (dq_query (insert_query con g junk q now)) = None" "q_con (dq_query (insert_query con g junk q now)) = con"
  by (simp_all add: insert_query_def insert_parts_def insert_format_def builder_defs StrmConvert_ucast
      show_zero Let_def)

lemma insert_body_run:
  assumes srv: "serves pf qt rec g q" and tab: "table_ok g" and ip: "rq_ipv4 q"
    and view: "rq_view pf q (w_triplet w)" and none: "rec (dbs_eng w) = None"
  shows "\<exists>t e' dq. insert_body pf now (w, DBQuery_new con (ds_table (gl_ds g))) =
      (Inr (), w\<lparr>w_triplet := t, dbs_eng := e'\<rparr>, dq) \<and> q_con (dq_query dq) = con \<and> rq_view pf q t \<and>
      (\<exists>rid. rec e' = Some (rid, 0, now))"
proof -
  let ?dq = "insert_query con g (pf_junk pf) q now"
  obtain t0 where t0: "tr_getShortClientName (w_triplet w) = (rq_short q, t0)" "rq_view pf q t0"
    using rq_view_short [OF view] by blast
  note col = octet_column_run [OF _ ip, of pf "w\<lparr>w_triplet := t\<rparr>" for t, simplified]
  obtain t1 where t1: "\<And>dq f. add_octet_column pf f 0 (w\<lparr>w_triplet := t0\<rparr>, dq) =
      (Inr (), w\<lparr>w_triplet := t1\<rparr>, addNumeric f (ucast (rq_octets (pf_junk pf) q ! 0)) dq)" "rq_view pf q t1"
    using rq_view_octet [OF t0(2) ip, of 0] by (auto simp: add_octet_column_def bindE_def)
  obtain t2 where t2: "\<And>dq f. add_octet_column pf f 1 (w\<lparr>w_triplet := t1\<rparr>, dq) =
      (Inr (), w\<lparr>w_triplet := t2\<rparr>, addNumeric f (ucast (rq_octets (pf_junk pf) q ! 1)) dq)" "rq_view pf q t2"
    using rq_view_octet [OF t1(2) ip, of 1] by (auto simp: add_octet_column_def bindE_def)
  obtain t3 where t3: "\<And>dq f. add_octet_column pf f 2 (w\<lparr>w_triplet := t2\<rparr>, dq) =
      (Inr (), w\<lparr>w_triplet := t3\<rparr>, addNumeric f (ucast (rq_octets (pf_junk pf) q ! 2)) dq)" "rq_view pf q t3"
    using rq_view_octet [OF t2(2) ip, of 2] by (auto simp: add_octet_column_def bindE_def)
  obtain t4 where t4: "\<And>dq f. add_octet_column pf f 3 (w\<lparr>w_triplet := t3\<rparr>, dq) =
      (Inr (), w\<lparr>w_triplet := t4\<rparr>, addNumeric f (ucast (rq_octets (pf_junk pf) q ! 3)) dq)" "rq_view pf q t4"
    using rq_view_octet [OF t3(2) ip, of 3] by (auto simp: add_octet_column_def bindE_def)
  obtain r e' rid where ins: "dbi_conn_query (pf_dbi pf) con (sql_text (\<lambda>a. Some (qt a)) (insert_parts g (pf_junk pf) q now))
      (dbs_eng w) = (Some r, e')" "rec e' = Some (rid, 0, now)"
    using serves_insert [OF srv none, of con now] by blast
  obtain dq' where run: "dq_execute (pf_dbi pf) (insert_format ?dq) (dq_args ?dq) (w\<lparr>w_triplet := t4\<rparr>, ?dq) =
      (Inr (), w\<lparr>w_triplet := t4, dbs_eng := e'\<rparr>, dq')" "q_con (dq_query dq') = con"
    unfolding insert_query_text
    using dq_execute_run [OF srv statements_ok(2) [OF tab, of qt "pf_junk pf" q now],
        of ?dq "w\<lparr>w_triplet := t4\<rparr>" r e'] ins(1)
    by (auto simp: insert_query_text)
  have "insert_body pf now (w, DBQuery_new con (ds_table (gl_ds g))) = dq_insert (pf_dbi pf) (w\<lparr>w_triplet := t4\<rparr>, ?dq)"
    using t0 t1(1) t2(1) t3(1) t4(1) rq_view_simps [OF t0(2)]
    by (simp add: insert_body_def bindE_def insert_query_def Let_def)
  also have "\<dots> = (Inr (), w\<lparr>w_triplet := t4, dbs_eng := e'\<rparr>, dq')"
    using run(1) by (simp add: dq_insert_def)
  finally show ?thesis using run(2) t4(2) ins(2) by blast
qed

lemma insertTriplet_run:
  assumes ok: "gl_ok pf qt rec g q" and view: "rq_view pf q (w_triplet w)" and none: "rec (dbs_eng w) = None"
  shows "\<exists>t h e. insertTriplet pf g w =
      (Inr (), w\<lparr>w_reads := Suc (w_reads w), w_triplet := t, dbs_heap := h, dbs_eng := e\<rparr>) \<and>
      rq_view pf q t \<and> (\<exists>rid. rec e = Some (rid, 0, w_clock w (w_reads w)))"
proof -
  have srv: "serves pf qt rec g q" and rest: "table_ok g" "rq_ipv4 q" using ok by (simp_all add: gl_ok_def)
  let ?w = "w\<lparr>w_reads := Suc (w_reads w)\<rparr>" and ?now = "w_clock w (w_reads w)"
  have "\<exists>t h e. with_query (pf_dbi pf) (gl_ds g) (insert_body pf ?now) ?w =
      (Inr (), ?w\<lparr>w_triplet := t, dbs_heap := h, dbs_eng := e\<rparr>) \<and> rq_view pf q t \<and> (\<exists>rid. rec e = Some (rid, 0, ?now))"
  proof (rule with_query_run [where rec = rec and V = "rq_view pf q" and P = "\<lambda>x. \<exists>rid. x = Some (rid, 0, ?now)"])
    show "dbi_up (pf_dbi pf) rec" by (rule serves_up [OF srv])
    fix con h e
    assume e: "rec e = rec (dbs_eng ?w)"
    obtain t e' dq where "insert_body pf ?now (?w\<lparr>dbs_heap := h, dbs_eng := e\<rparr>, DBQuery_new con (ds_table (gl_ds g))) =
        (Inr (), ?w\<lparr>dbs_heap := h, w_triplet := t, dbs_eng := e'\<rparr>, dq)" "q_con (dq_query dq) = con"
        "rq_view pf q t" "\<exists>rid. rec e' = Some (rid, 0, ?now)"
      using insert_body_run [OF srv rest, of "?w\<lparr>dbs_heap := h, dbs_eng := e\<rparr>" ?now con] view none e by auto
    then show "\<exists>t e' dq. insert_body pf ?now (?w\<lparr>dbs_heap := h, dbs_eng := e\<rparr>, DBQuery_new con (ds_table (gl_ds g))) =
        (Inr (), ?w\<lparr>w_triplet := t, dbs_heap := h, dbs_eng := e'\<rparr>, dq) \<and> q_con (dq_query dq) = con \<and>
        rq_view pf q t \<and> (\<exists>rid. rec e' = Some (rid, 0, ?now))"
      by (intro exI [of _ t] exI [of _ e'] exI [of _ dq]) simp
  qed
  then show ?thesis by (simp add: insertTriplet_def bindE_def getNow_def)
qed

lemma update_query_text:
  defines "dq con g rid now \<equiv> addWhere_num ''id'' rid ''='' (addSet ''uts'' now (addIncrement ''count'' 1
      (DBQuery_new con (ds_table (gl_ds g)))))"
  shows "update_format (dq con g rid now) = sql_format (update_parts g rid now)"
    and "dq_args (dq con g rid now) = sql_args (update_parts g rid now)"
    and "q_res (dq_query (dq con g rid now)) = None" "q_con (dq_query (dq con g rid now)) = con"
  by (simp_all add: dq_def builder_defs update_format_def update_parts_def show_one)

lemma incrementTriplet_run:
  assumes ok: "gl_ok pf qt rec g q" and some: "rec (dbs_eng w) = Some (rid, count, uts)"
  shows "\<exists>h e. incrementTriplet pf g rid now w = (Inr (), w\<lparr>dbs_heap := h, dbs_eng := e\<rparr>) \<and>
      rec e = Some (rid, count + 1, ucast (ucast now :: 32 word))"
proof -
  have srv: "serves pf qt rec g q" and tab: "table_ok g" using ok by (simp_all add: gl_ok_def)
  have "\<exists>t h e. incrementTriplet pf g rid now w = (Inr (), w\<lparr>w_triplet := t, dbs_heap := h, dbs_eng := e\<rparr>) \<and>
      t = w_triplet w \<and> rec e = Some (rid, count + 1, ucast (ucast now :: 32 word))"
    unfolding incrementTriplet_def
  proof (rule with_query_run [where rec = rec and V = "\<lambda>t. t = w_triplet w"
        and P = "\<lambda>x. x = Some (rid, count + 1, ucast (ucast now :: 32 word))"])
    show "dbi_up (pf_dbi pf) rec" by (rule serves_up [OF srv])
    fix con h e
    assume e: "rec e = rec (dbs_eng w)"
    let ?w = "w\<lparr>dbs_heap := h, dbs_eng := e\<rparr>"
    obtain r e' where upd: "dbi_conn_query (pf_dbi pf) con (sql_text (\<lambda>a. Some (qt a)) (update_parts g rid (ucast now)))
        (dbs_eng ?w) = (Some r, e')" "rec e' = Some (rid, count + 1, ucast (ucast now :: 32 word))"
      using serves_update [OF srv, of e rid count uts con "ucast now"] e some by auto
    let ?dq = "addWhere_num ''id'' rid ''='' (addSet ''uts'' (ucast now) (addIncrement ''count'' 1
      (DBQuery_new con (ds_table (gl_ds g)))))"
    obtain dq' where "dq_execute (pf_dbi pf) (update_format ?dq) (dq_args ?dq) (?w, ?dq) = (Inr (), ?w\<lparr>dbs_eng := e'\<rparr>, dq')"
      "q_con (dq_query dq') = con"
      unfolding update_query_text
      using dq_execute_run [OF srv statements_ok(3) [OF tab, of qt rid "ucast now"], of ?dq ?w r e'] upd(1)
      by (auto simp: update_query_text)
    with upd(2) show "\<exists>t e' dq. bindE (upd_dq (addIncrement ''count'' 1)) (\<lambda>_.
          bindE (upd_dq (addSet ''uts'' (ucast now))) (\<lambda>_.
          bindE (upd_dq (addWhere_num ''id'' rid ''='')) (\<lambda>_. dq_update (pf_dbi pf))))
          (?w, DBQuery_new con (ds_table (gl_ds g))) =
        (Inr (), w\<lparr>w_triplet := t, dbs_heap := h, dbs_eng := e'\<rparr>, dq) \<and> q_con (dq_query dq) = con \<and>
        t = w_triplet w \<and> rec e' = Some (rid, count + 1, ucast (ucast now :: 32 word))"
      by (intro exI [of _ "w_triplet w"] exI [of _ e'] exI [of _ dq']) (simp add: dq_update_def)
  qed
  then show ?thesis by auto
qed

section \<open>The automaton\<close>

text \<open>
  One decision at the time \<open>now\<close> about the row of a request, as (count, time): the action,
  the annotation for the reply, and the row afterwards.
\<close>

definition time_diff :: "64 word \<Rightarrow> 64 word \<Rightarrow> 64 word" where
  "time_diff uts now = (if uts < now then now - uts else 0)"

fun gl_step :: "32 word \<Rightarrow> 64 word \<Rightarrow> (64 word \<times> 64 word) option \<Rightarrow> Extra \<Rightarrow>
    ActionType \<times> Extra \<times> (64 word \<times> 64 word) option" where
  "gl_step timeout now None x = (Defer, setPrefix ''new'' x, Some (0, now))"
| "gl_step timeout now (Some (count, uts)) x =
     (if count > 0 \<or> time_diff uts now > ucast timeout
      then (Dunno, Extra_set ''ok'' count (time_diff uts now) x, Some (count + 1, ucast (ucast now :: 32 word)))
      else (Defer, Extra_set ''wait'' count (time_diff uts now) x, Some (count, uts)))"

definition abs_row :: "row option \<Rightarrow> (64 word \<times> 64 word) option" where
  "abs_row = map_option snd"

lemma abs_row_simps [simp]: "abs_row None = None" "abs_row (Some (i, c, u)) = Some (c, u)"
  by (simp_all add: abs_row_def)

lemma decide_run:
  assumes ok: "gl_ok pf qt rec g q" and view: "rq_view pf q (w_triplet w)"
    and step: "gl_step (gl_timeout g) (w_clock w (w_reads w)) (abs_row (rec (dbs_eng w))) (w_extra w) = (a, x, row')"
  shows "\<exists>t h e. Greylist_decide pf g w =
      (Inr a, w\<lparr>w_reads := Suc (w_reads w), w_triplet := t, w_extra := x, dbs_heap := h, dbs_eng := e\<rparr>) \<and>
      rq_view pf q t \<and> abs_row (rec e) = row'"
proof -
  obtain t1 h1 e1 where find: "findTriplet pf g w =
      (Inr (rec (dbs_eng w)), w\<lparr>w_triplet := t1, dbs_heap := h1, dbs_eng := e1\<rparr>)"
    "rq_view pf q t1" "rec e1 = rec (dbs_eng w)"
    using findTriplet_run [OF ok view] by blast
  let ?w1 = "w\<lparr>w_triplet := t1, dbs_heap := h1, dbs_eng := e1\<rparr>"
  show ?thesis
  proof (cases "rec (dbs_eng w)")
    case None
    obtain t h e rid where ins: "insertTriplet pf g ?w1 =
        (Inr (), ?w1\<lparr>w_reads := Suc (w_reads w), w_triplet := t, dbs_heap := h, dbs_eng := e\<rparr>)"
      "rq_view pf q t" "rec e = Some (rid, 0, w_clock w (w_reads w))"
      using insertTriplet_run [OF ok, of ?w1] find None by auto
    from ins find None step show ?thesis
      by (intro exI [of _ t] exI [of _ h] exI [of _ e]) (auto simp: Greylist_decide_def bindE_def upd_extra_def)
  next
    case (Some row)
    obtain rid count uts where row: "row = (rid, count, uts)" by (metis prod_cases3)
    let ?now = "w_clock w (w_reads w)"
    let ?w2 = "?w1\<lparr>w_reads := Suc (w_reads w)\<rparr>"
    show ?thesis
    proof (cases "count > 0 \<or> time_diff uts ?now > ucast (gl_timeout g)")
      case True
      obtain h e where inc: "incrementTriplet pf g rid ?now ?w2 = (Inr (), ?w2\<lparr>dbs_heap := h, dbs_eng := e\<rparr>)"
        "rec e = Some (rid, count + 1, ucast (ucast ?now :: 32 word))"
        using incrementTriplet_run [OF ok, of ?w2 rid count uts ?now] find Some row by auto
      have "a = Dunno" "x = Extra_set ''ok'' count (time_diff uts ?now) (w_extra w)"
        "row' = Some (count + 1, ucast (ucast ?now :: 32 word))"
        using step Some row True by auto
      with True inc find Some row show ?thesis
        by (intro exI [of _ t1] exI [of _ h] exI [of _ e])
          (simp add: Greylist_decide_def time_diff_def [symmetric] bindE_def upd_extra_def getNow_def Let_def)
    next
      case False
      have "a = Defer" "x = Extra_set ''wait'' count (time_diff uts ?now) (w_extra w)" "row' = Some (count, uts)"
        using step Some row False by auto
      with False find Some row show ?thesis
        by (intro exI [of _ t1] exI [of _ h1] exI [of _ e1])
          (simp add: Greylist_decide_def time_diff_def [symmetric] bindE_def upd_extra_def getNow_def Let_def)
    qed
  qed
qed

section \<open>A sequence of attempts\<close>

text \<open>
  The same request at several times: every attempt is a new request with its own annotations,
  the table stays.
\<close>

definition attempt :: "Request \<Rightarrow> 64 word \<Rightarrow> ('e, 'r) world \<Rightarrow> ('e, 'r) world" where
  "attempt q now w = w\<lparr>w_triplet := Request_triplet q, w_extra := Extra_new, w_clock := (\<lambda>_. now)\<rparr>"

fun session ::
    "('e, 'r) platform \<Rightarrow> Greylist \<Rightarrow> Request \<Rightarrow> 64 word list \<Rightarrow> ('e, 'r) world \<Rightarrow> (exn + ActionType) list" where
  "session pf g q [] w = []"
| "session pf g q (now # ts) w =
     (case Greylist_decide pf g (attempt q now w) of (r, w') \<Rightarrow> r # session pf g q ts w')"

fun gl_run :: "32 word \<Rightarrow> 64 word list \<Rightarrow> (64 word \<times> 64 word) option \<Rightarrow> ActionType list" where
  "gl_run timeout [] row = []"
| "gl_run timeout (now # ts) row =
     (case gl_step timeout now row Extra_new of (a, x, row') \<Rightarrow> a # gl_run timeout ts row')"

lemma session_run:
  assumes "gl_ok pf qt rec g q"
  shows "session pf g q ts w = map Inr (gl_run (gl_timeout g) ts (abs_row (rec (dbs_eng w))))"
proof (induction ts arbitrary: w)
  case (Cons now ts)
  obtain a x row' where step: "gl_step (gl_timeout g) now (abs_row (rec (dbs_eng w))) Extra_new = (a, x, row')"
    by (metis prod_cases3)
  have "rq_view pf q (w_triplet (attempt q now w))" by (simp add: attempt_def rq_view_new)
  from decide_run [OF assms this, of a x row'] step obtain t h e where
    "Greylist_decide pf g (attempt q now w) =
      (Inr a, (attempt q now w)\<lparr>w_reads := Suc (w_reads w), w_triplet := t, w_extra := x, dbs_heap := h, dbs_eng := e\<rparr>)"
    "abs_row (rec e) = row'"
    by (auto simp: attempt_def)
  with step Cons.IH show ?case by simp
qed simp

lemma gl_run_known:
  "0 < k \<Longrightarrow> k + length ts < 2 ^ 64 \<Longrightarrow>
   gl_run timeout ts (Some (of_nat k, u)) = map (\<lambda>_. Dunno) ts"
proof (induction ts arbitrary: k u)
  case (Cons now ts)
  have "of_nat k > (0 :: 64 word)"
    using Cons.prems by (simp add: word_less_nat_alt unat_of_nat)
  moreover have "of_nat k + 1 = (of_nat (Suc k) :: 64 word)" by simp
  ultimately show ?case using Cons.IH [of "Suc k" "ucast (ucast now :: 32 word)"] Cons.prems
    by (simp del: of_nat_Suc)
qed simp

lemma time_diff_mono:
  assumes "u \<le> t" and "t \<le> t'"
  shows "time_diff u t \<le> time_diff u t'"
  using assms by (auto simp: time_diff_def word_le_nat_alt word_less_nat_alt unat_sub)

lemma time_diff_sub: "u \<le> t \<Longrightarrow> time_diff u t = t - u"
  by (auto simp: time_diff_def)

lemma gl_run_waiting:
  assumes "sorted (t0 # ts)" and "length ts < 2 ^ 64"
  shows "gl_run timeout ts (Some (0, t0)) = map (\<lambda>t. if t - t0 > ucast timeout then Dunno else Defer) ts"
  using assms
proof (induction ts)
  case (Cons t ts)
  have le: "t0 \<le> t" "\<forall>t' \<in> set ts. t \<le> t' \<and> t0 \<le> t'" using Cons.prems(1) by auto
  show ?case
  proof (cases "t - t0 > ucast timeout")
    case True
    have "t' - t0 > ucast timeout" if "t' \<in> set ts" for t'
      using True le that time_diff_mono [of t0 t t'] by (auto simp: time_diff_sub)
    then have "map (\<lambda>t. if t - t0 > ucast timeout then Dunno else Defer) ts = map (\<lambda>_. Dunno) ts" by simp
    moreover have "gl_run timeout ts (Some (1, ucast (ucast t :: 32 word))) = map (\<lambda>_. Dunno) ts"
      using gl_run_known [of 1 ts timeout] Cons.prems(2) by simp
    ultimately show ?thesis using True le(1) by (simp add: time_diff_sub)
  next
    case False
    with Cons le(1) show ?thesis by (simp add: time_diff_sub)
  qed
qed simp

section \<open>A server with one row\<close>

text \<open>
  A library with a server that understands the statements of one request: it compares the text
  with the SELECT, and reads the time out of an INSERT or UPDATE that starts as it should.
\<close>

record one_row =
  or_open :: "nat list"
  or_row :: "row option"

definition read_number :: "string \<Rightarrow> string \<Rightarrow> 64 word option" where
  "read_number prefix sql =
     (if take (length prefix) sql = prefix
      then Some (of_nat (digits_val 0 (takeWhile is_digit (drop (length prefix) sql)))) else None)"

definition one_row_query :: "string \<Rightarrow> string \<Rightarrow> string \<Rightarrow> string \<Rightarrow> one_row \<Rightarrow> nat option \<times> one_row" where
  "one_row_query sel ins upd sql e =
     (if sql = sel then (Some 1, e)
      else case read_number ins sql of
        Some now \<Rightarrow> (Some 1, e\<lparr>or_row := Some (7, 0, now)\<rparr>)
      | None \<Rightarrow>
          (case read_number upd sql of
             Some now \<Rightarrow> (Some 1, e\<lparr>or_row := map_option (\<lambda>(i, c, u). (i, c + 1, now)) (or_row e)\<rparr>)
           | None \<Rightarrow> (None, e)))"

definition one_row_dbi :: "string \<Rightarrow> string \<Rightarrow> string \<Rightarrow> one_row libdbi" where
  "one_row_dbi sel ins upd =
     \<lparr>dbi_initialize = 1,
      dbi_conn_new = (\<lambda>t e. let c = Suc (fold max (or_open e) 0) in (Some c, e\<lparr>or_open := c # or_open e\<rparr>)),
      dbi_conn_set_option = (\<lambda>c k v e. (0, e)),
      dbi_conn_set_option_numeric = (\<lambda>c k v e. (0, e)),
      dbi_conn_connect = (\<lambda>c e. (0, e)),
      dbi_conn_ping = (\<lambda>c e. (1, e)),
      dbi_conn_close = (\<lambda>c e. e\<lparr>or_open := removeAll c (or_open e)\<rparr>),
      dbi_conn_error_flag = (\<lambda>c e. 0),
      dbi_conn_error = (\<lambda>c e. (0, [])),
      dbi_conn_quote_string_copy = (\<lambda>c s e. Some ([CHR 0x27] @ s @ [CHR 0x27])),
      dbi_conn_query = (\<lambda>c sql e. one_row_query sel ins upd sql e),
      dbi_conn_sequence_last = (\<lambda>c e. 0),
      dbi_result_free = (\<lambda>r e. e),
      dbi_result_get_numfields = (\<lambda>r e. 3),
      dbi_result_get_field_name = (\<lambda>r i e. None),
      dbi_result_get_field_type_idx = (\<lambda>r i e. 1),
      dbi_result_get_numrows = (\<lambda>r e. if or_row e = None then 0 else 1),
      dbi_result_next_row = (\<lambda>r e. (1, e)),
      dbi_result_get_string_idx = (\<lambda>r i e. None),
      dbi_result_get_int_idx = (\<lambda>r i e. 0),
      dbi_result_get_long_idx = (\<lambda>r i e. case or_row e of None \<Rightarrow> 0 | Some (a, b, c) \<Rightarrow> if i = 2 then b else c),
      dbi_result_get_ulonglong_idx = (\<lambda>r i e. case or_row e of None \<Rightarrow> 0 | Some (a, b, c) \<Rightarrow> a),
      DBI_TYPE_INTEGER = 1,
      DBI_TYPE_STRING = 3\<rparr>"

definition squote :: "string \<Rightarrow> string" where
  "squote s = [CHR 0x27] @ s @ [CHR 0x27]"

definition insert_prefix :: "Greylist \<Rightarrow> 32 word \<Rightarrow> Request \<Rightarrow> string" where
  "insert_prefix g junk q = sql_text (\<lambda>a. Some (squote a)) (butlast (butlast (insert_parts g junk q 0)))"

definition update_prefix :: "Greylist \<Rightarrow> string" where
  "update_prefix g = ''UPDATE '' @ ds_table (gl_ds g) @ '' SET `count`=`count`+1,`uts`=''"

definition one_row_platform :: "Greylist \<Rightarrow> Request \<Rightarrow> (one_row, unit) platform" where
  "one_row_platform g q =
     \<lparr>pf_dbi = one_row_dbi (sql_text (\<lambda>a. Some (squote a)) (select_parts g 0 q)) (insert_prefix g 0 q) (update_prefix g),
      pf_resolver = (\<lambda>_. (0, [], [])), pf_regcomp = (\<lambda>_. Inr ()), pf_regexec = (\<lambda>_ _. 1), pf_junk = 0\<rparr>"

lemma read_number_show:
  assumes "r = [] \<or> \<not> is_digit (hd r)"
  shows "read_number p (p @ show_nat (unat (n :: 'n::len word)) @ r) = Some (of_nat (unat n))"
  using assms show_nat_digits [of "unat n"] by (simp add: read_number_def takeWhile_digits_stop)

lemma read_number_other: "c \<noteq> d \<Longrightarrow> read_number (c # p) (d # sql) = None"
  by (simp add: read_number_def)

lemma insert_text:
  "sql_text (\<lambda>a. Some (squote a)) (insert_parts g junk q now) = insert_prefix g junk q @ show_nat (unat now) @ '')''"
  by (simp add: insert_prefix_def insert_parts_def StrmConvert_unsigned_def Let_def)

lemma update_text:
  "sql_text (\<lambda>a. Some (squote a)) (update_parts g rid now) =
   update_prefix g @ show_nat (unat now) @ '' WHERE(`id`='' @ show_nat (unat rid) @ '')''"
  by (simp add: update_prefix_def update_parts_def StrmConvert_unsigned_def)

lemma statement_heads:
  "\<exists>s. sql_text f (select_parts g junk q) = CHR ''S'' # s" "\<exists>s. insert_prefix g junk q = CHR ''I'' # s"
  "\<exists>s. update_prefix g = CHR ''U'' # s"
  by (simp_all add: select_parts_def insert_prefix_def insert_parts_def update_prefix_def Let_def)

lemma one_row_serves: "serves (one_row_platform g q) squote or_row g q"
proof -
  let ?sel = "sql_text (\<lambda>a. Some (squote a)) (select_parts g 0 q)"
  let ?lib = "one_row_dbi ?sel (insert_prefix g 0 q) (update_prefix g)"
  obtain s i u where heads: "?sel = CHR ''S'' # s" "insert_prefix g 0 q = CHR ''I'' # i" "update_prefix g = CHR ''U'' # u"
    using statement_heads by metis
  have close: "\<not> is_digit CHR '')''" "\<not> is_digit CHR '' ''" by (simp_all add: is_digit_def code_of_def)
  have ins: "one_row_query ?sel (insert_prefix g 0 q) (update_prefix g)
      (sql_text (\<lambda>a. Some (squote a)) (insert_parts g 0 q now)) e = (Some 1, e\<lparr>or_row := Some (7, 0, now)\<rparr>)" for now e
    using read_number_show [of "'')''" "insert_prefix g 0 q" now] close heads
    by (simp add: one_row_query_def insert_text)
  have upd: "one_row_query ?sel (insert_prefix g 0 q) (update_prefix g)
      (sql_text (\<lambda>a. Some (squote a)) (update_parts g rid now)) e =
      (Some 1, e\<lparr>or_row := map_option (\<lambda>(i, c, u). (i, c + 1, ucast now)) (or_row e)\<rparr>)" for rid now e
    using read_number_show [of "'' WHERE(`id`='' @ show_nat (unat rid) @ '')''" "update_prefix g" now] close heads
    by (simp add: one_row_query_def update_text read_number_other)
  have up: "dbi_up ?lib or_row" by (simp add: dbi_up_def one_row_dbi_def Let_def)
  have sel: "one_row_query ?sel (insert_prefix g 0 q) (update_prefix g) ?sel e = (Some 1, e)" for e
    by (simp add: one_row_query_def)
  have pf: "pf_dbi (one_row_platform g q) = ?lib" "pf_junk (one_row_platform g q) = 0"
    by (simp_all add: one_row_platform_def)
  show ?thesis
    unfolding serves_def greylist_store_def pf
  proof (intro conjI allI impI up, goal_cases)
    case 1
    show ?case by (simp add: one_row_dbi_def squote_def)
  next
    case (2 c e)
    show ?case
      by (intro exI [of _ 1] exI [of _ e]) (auto simp: one_row_dbi_def sel split: option.split)
  next
    case (3 c e now)
    show ?case
      by (intro exI [of _ 1] exI [of _ "e\<lparr>or_row := Some (7, 0, now)\<rparr>"] exI [of _ 7])
        (simp add: one_row_dbi_def ins)
  next
    case (4 c e rid count uts now)
    then show ?case
      by (intro exI [of _ 1] exI [of _ "e\<lparr>or_row := map_option (\<lambda>(i, c, u). (i, c + 1, ucast now)) (or_row e)\<rparr>"])
        (simp add: one_row_dbi_def upd)
  qed
qed

definition sample_request :: Request where
  "sample_request = \<lparr>rq_client_address = ''10.1.2.3'', rq_sender = ''Me@Here.org'', rq_recipient = ''you@there'',
     rq_reverse_client_name = [], rq_client_name = ''mx.here.org''\<rparr>"

definition sample_greylist :: Greylist where
  "sample_greylist = \<lparr>gl_ds = \<lparr>ds_ptr = 1, ds_db = 0, ds_table = ''triplet''\<rparr>, gl_mode = Reverse, gl_verbose = True,
     gl_timeout = 300, gl_weakbytes = 3\<rparr>"

definition empty_world :: "'e \<Rightarrow> ('e, 'r) world" where
  "empty_world e = \<lparr>dbs_heap = (\<lambda>_. Database_new [(''type'', ''mysql'')] 10), dbs_eng = e,
     w_triplet = Request_triplet sample_request, w_extra = Extra_new, w_clock = (\<lambda>_. 0), w_reads = 0,
     w_refresh = ([], 0), w_exact = None, w_pattern = None\<rparr>"

lemma sample_gl_ok: "gl_ok (one_row_platform sample_greylist sample_request) squote or_row sample_greylist sample_request"
  by (simp add: gl_ok_def one_row_serves)
    (simp add: sample_greylist_def sample_request_def table_ok_def rq_ipv4_def)

section \<open>Properties\<close>

text \<open>
  C3 (refinement). On a server that executes the three statements, a decision of the policy is
  one step of the automaton on the row of the request: it answers, annotates and changes the row
  as the automaton says, reads the clock once, and changes nothing else of the request.
\<close>

theorem greylist_refines_automaton:
  assumes "gl_ok pf qt rec g q" and "rq_view pf q (w_triplet w)"
    and "gl_step (gl_timeout g) (w_clock w (w_reads w)) (abs_row (rec (dbs_eng w))) (w_extra w) = (a, x, row')"
  shows "\<exists>t h e. Greylist_decide pf g w =
      (Inr a, w\<lparr>w_reads := Suc (w_reads w), w_triplet := t, w_extra := x, dbs_heap := h, dbs_eng := e\<rparr>) \<and>
      rq_view pf q t \<and> abs_row (rec e) = row'"
  by (rule decide_run [OF assms])

theorem greylist_refines_automaton_witness:
  "\<exists>t h e. Greylist_decide (one_row_platform sample_greylist sample_request) sample_greylist
      (empty_world \<lparr>or_open = [], or_row = None\<rparr>) =
      (Inr Defer, (empty_world \<lparr>or_open = [], or_row = None\<rparr>)\<lparr>w_reads := 1, w_triplet := t,
        w_extra := setPrefix ''new'' Extra_new, dbs_heap := h, dbs_eng := e\<rparr>) \<and> abs_row (or_row e) = Some (0, 0)"
proof -
  let ?w = "empty_world \<lparr>or_open = [], or_row = None\<rparr> :: (one_row, unit) world"
  have "rq_view (one_row_platform sample_greylist sample_request) sample_request (w_triplet ?w)"
    by (simp add: empty_world_def rq_view_new)
  from greylist_refines_automaton [OF sample_gl_ok this, of Defer "setPrefix ''new'' Extra_new" "Some (0, 0)"]
  show ?thesis by (auto simp: empty_world_def)
qed

text \<open>
  C2 (functional). A request that is not in the table yet and is tried at the times
  \<open>t0, t1, ...\<close>: the first attempt is deferred, and a later one is accepted exactly when more
  than the timeout has passed since the first; so once accepted it stays accepted.
\<close>

theorem greylist_attempts:
  assumes "gl_ok pf qt rec g q" and "rec (dbs_eng w) = None" and "sorted (t0 # ts)" and "length ts < 2 ^ 64"
  shows "session pf g q (t0 # ts) w =
         Inr Defer # map (\<lambda>t. Inr (if t - t0 > ucast (gl_timeout g) then Dunno else Defer)) ts"
  using session_run [OF assms(1), of "t0 # ts" w] gl_run_waiting [OF assms(3,4)] assms(2) by simp

theorem greylist_attempts_witness:
  "session (one_row_platform sample_greylist sample_request) sample_greylist sample_request
      [1000, 1100, 1300, 1301, 9000] (empty_world \<lparr>or_open = [], or_row = None\<rparr>) =
   [Inr Defer, Inr Defer, Inr Defer, Inr Dunno, Inr Dunno]"
  using greylist_attempts [OF sample_gl_ok, of "empty_world \<lparr>or_open = [], or_row = None\<rparr>" 1000 "[1100, 1300, 1301, 9000]"]
  by (simp add: empty_world_def) (simp add: sample_greylist_def)

end
