(* ===== verification/Daemon.thy ===== *)
theory Daemon
  imports Configuration Server_Run Listener Greylist_Store
begin

text \<open>
  The rest of \<open>src/src/system.h\<close> (\<open>compileConfig\<close>, \<open>run\<close>), the constructor of the server of
  \<open>server.h\<close>, and \<open>src/src/main.cpp\<close>: from a configuration file to a server, and the loop that
  reloads the configuration on a signal. What happens while a server runs is an event: the value
  of the signal flag and the error number it returns with, the files as they are then, and what
  the server did to the descriptors of the process.
\<close>

section \<open>The server a configuration describes\<close>

record ServerObject =
  so_listener :: TCPListener
  so_core :: CoreDef
  so_action :: Action
  so_monitorRefresh :: "32 word"
  so_cacheRefresh :: "32 word"
  so_maxRequests :: "32 word"
  so_statsevery :: "32 word"
  so_spare :: "32 word"
  so_max :: "32 word"

definition Server_new ::
    "TCPListener \<Rightarrow> CoreDef \<Rightarrow> 32 word \<Rightarrow> 32 word \<Rightarrow> 32 word \<Rightarrow> 32 word \<Rightarrow> 32 word \<Rightarrow>
     bool \<Rightarrow> string \<Rightarrow> string \<Rightarrow> string \<Rightarrow> 32 word \<Rightarrow> 32 word \<Rightarrow> ServerObject" where
  "Server_new sockfd core spare maxw mr cacherefresh maxr dws deferText dunno onerror loglevel statsevery =
     \<lparr>so_listener = sockfd, so_core = core, so_action = Action_new dws deferText dunno onerror loglevel,
      so_monitorRefresh = mr, so_cacheRefresh = cacherefresh, so_maxRequests = maxr, so_statsevery = statsevery,
      so_spare = spare, so_max = maxw\<rparr>"

text \<open>
  \<open>settings[i]\<close>: its value, and the entry it leaves when there was none. The arguments of the
  constructor are read in an order that makes no difference.
\<close>

definition setting :: "(nat, string) stdmap \<Rightarrow> ServerTokensType \<Rightarrow> string" where
  "setting settings t = (case smap_find settings (ServerTokensType_idx t) of None \<Rightarrow> [] | Some v \<Rightarrow> v)"

definition touch :: "ServerTokensType list \<Rightarrow> (nat, string) stdmap \<Rightarrow> (nat, string) stdmap" where
  "touch ts settings = fold (\<lambda>t. smap_insert (ServerTokensType_idx t) []) ts settings"

definition int_setting :: "(nat, string) stdmap \<Rightarrow> ServerTokensType \<Rightarrow> 32 word" where
  "int_setting settings t = word_of_int (StrmConvert_to_int (setting settings t))"

definition compile_server :: "(nat, string) stdmap \<Rightarrow> CoreDef \<Rightarrow> TCPListener \<Rightarrow> ServerObject" where
  "compile_server settings core listener =
     (let dws = findToken configBooleanTokens (setting settings ST_deferwithstatus);
          deferwithstatus = (dws \<noteq> int (BooleanTokensType_idx BT_false));
          deferToken = findToken postfixResponseTokens (setting settings ST_defer);
          deferwithstatus' = (deferToken \<noteq> int (PostfixResponseTokensType_idx PFT_dunno));
          level = findToken logTokens (setting settings ST_log);
          loglevel = (if level = - 1 then int (LogTokensType_idx LT_full) else level)
      in Server_new listener core (int_setting settings ST_sparethreads) (int_setting settings ST_maxthreads)
           (int_setting settings ST_poolrefresh) (int_setting settings ST_cacherefresh) (int_setting settings ST_maxrequests)
           deferwithstatus' (setting settings ST_defer) (setting settings ST_dunno) (setting settings ST_onerror)
           (word_of_int loglevel) (int_setting settings ST_statsevery))"

section \<open>compileConfig\<close>

record 'n daemon =
  da_system :: System
  da_reader :: ConfigFileReader
  da_net :: 'n
  da_globalSignal :: int

definition read_config :: "bool \<Rightarrow> 'n daemon \<Rightarrow> ((exn + unit) \<times> 'n daemon) option" where
  "read_config junk d =
     (case ConfigReader_new junk (da_reader d) of
        (reader, strm) \<Rightarrow>
          map_option (\<lambda>(res, r, s). (res, d\<lparr>da_reader := strm, da_system := s\<rparr>))
            (parseConfigurationSections reader (da_system d)))"

definition open_server :: "'n net \<Rightarrow> nat \<Rightarrow> 'n daemon \<Rightarrow> (exn + ServerObject) \<times> 'n daemon" where
  "open_server nt len d =
     (let settings = sy_settings (da_system d);
          settings' = touch [ST_deferwithstatus, ST_defer, ST_log, ST_listen, ST_port] settings;
          settings'' = touch [ST_sparethreads, ST_maxthreads, ST_poolrefresh, ST_cacherefresh, ST_maxrequests,
                              ST_dunno, ST_onerror, ST_statsevery] settings'
      in case TCPListener_open nt (da_net d, TCPListener_new (setting settings ST_listen) (setting settings ST_port) len) of
           (Inl e, n, l) \<Rightarrow> (Inl e, d\<lparr>da_system := (da_system d)\<lparr>sy_settings := settings'\<rparr>, da_net := n\<rparr>)
         | (Inr _, n, l) \<Rightarrow>
             (Inr (compile_server settings (sy_core (da_system d)) l),
              d\<lparr>da_system := (da_system d)\<lparr>sy_settings := settings''\<rparr>, da_net := n\<rparr>))"

definition compileConfig ::
    "'n net \<Rightarrow> bool \<Rightarrow> nat \<Rightarrow> bool \<Rightarrow> 'n daemon \<Rightarrow> ((exn + ServerObject) \<times> 'n daemon) option" where
  "compileConfig nt junk len skipConfig d =
     (case (if skipConfig then Some (Inr (), d) else read_config junk d) of
        None \<Rightarrow> None
      | Some (Inl e, d') \<Rightarrow> Some (Inl e, d')
      | Some (Inr _, d') \<Rightarrow> Some (open_server nt len d'))"

section \<open>run and main\<close>

record 'n event =
  ev_signal :: int
  ev_socketerror :: int
  ev_fs :: file_system
  ev_net :: "'n \<Rightarrow> 'n"
  ev_junk :: bool
  ev_len :: nat

datatype outcome = Returned int | Threw exn | Serving ServerObject

text \<open>The reload: a new core and new settings, put in place of the old ones when all goes well.\<close>

definition reload :: "'n net \<Rightarrow> 'n event \<Rightarrow> 'n daemon \<Rightarrow> ((exn + ServerObject) \<times> 'n daemon) option" where
  "reload nt ev d =
     (case cf_reload (ev_fs ev) (da_reader d) of
        (Inl e, r) \<Rightarrow> Some (Inl e, d\<lparr>da_reader := r\<rparr>)
      | (Inr _, r) \<Rightarrow>
          compileConfig nt (ev_junk ev) (ev_len ev) False
            (d\<lparr>da_reader := r, da_system := (da_system d)\<lparr>sy_core := [], sy_settings := []\<rparr>\<rparr>))"

definition restore :: "System \<Rightarrow> 'n daemon \<Rightarrow> 'n daemon" where
  "restore old d = d\<lparr>da_system := (da_system d)\<lparr>sy_core := sy_core old, sy_settings := sy_settings old\<rparr>\<rparr>"

fun run_loop :: "'n net \<Rightarrow> 'n event list \<Rightarrow> ServerObject \<Rightarrow> 'n daemon \<Rightarrow> (outcome \<times> 'n daemon) option" where
  "run_loop nt [] srv d = Some (Serving srv, d)"
| "run_loop nt (ev # evs) srv d =
     (case TCPListener_close nt (ev_net ev (da_net d), so_listener srv) of
        (lines, n, l) \<Rightarrow>
          let d0 = d\<lparr>da_net := n, da_globalSignal := ev_signal ev\<rparr> in
          if ev_signal ev = 0
          then Some (Threw (RuntimeError (''Got unexepected error: '' @ nt_strerror nt (ev_socketerror ev) @
                 ''('' @ StrmConvert_int (ev_socketerror ev) @ '')'')), d0)
          else if ev_signal ev = SIGQUIT then Some (Returned 0, d0)
          else (case reload nt ev d0 of
                  None \<Rightarrow> None
                | Some (Inr srv', d1) \<Rightarrow> run_loop nt evs srv' (d1\<lparr>da_globalSignal := 0\<rparr>)
                | Some (Inl e, d1) \<Rightarrow>
                    if is_undefined e then Some (Threw e, d1)
                    else (case compileConfig nt (ev_junk ev) (ev_len ev) True (restore (da_system d0) d1) of
                            None \<Rightarrow> None
                          | Some (Inl e', d2) \<Rightarrow> Some (if is_undefined e' then Threw e' else Returned (- 2), d2)
                          | Some (Inr srv', d2) \<Rightarrow> run_loop nt evs srv' (d2\<lparr>da_globalSignal := 0\<rparr>))))"

definition System_run ::
    "'n net \<Rightarrow> (int \<Rightarrow> bool \<Rightarrow> int) \<Rightarrow> bool \<Rightarrow> nat \<Rightarrow> 'n event list \<Rightarrow> 'n daemon \<Rightarrow> (outcome \<times> 'n daemon) option" where
  "System_run nt sigaction junk len evs d =
     (case setupSignalHandlers sigaction of
        Inl e \<Rightarrow> Some (Threw e, d)
      | Inr _ \<Rightarrow>
          (case compileConfig nt junk len False d of
             None \<Rightarrow> None
           | Some (Inl e, d') \<Rightarrow> Some (if is_undefined e then Threw e else Returned (- 1), d')
           | Some (Inr srv, d') \<Rightarrow> run_loop nt evs srv d'))"

text \<open>
  \<open>main\<close>: the numbers of the warning on the stack size, and its exit code (\<^const>\<open>None\<close> while a server runs, and for
  undefined behaviour, which no handler catches).
\<close>

definition stack_warning :: "64 word \<Rightarrow> (64 word \<times> 64 word) option" where
  "stack_warning stacksize =
     (let reasonable_size = 65536 in
      if stacksize > 10 * reasonable_size then Some (stacksize div 1024, (stacksize * 50) div 1024 div 1024) else None)"

definition greylist_main ::
    "'n net \<Rightarrow> (int \<Rightarrow> bool \<Rightarrow> int) \<Rightarrow> file_system \<Rightarrow> bool \<Rightarrow> nat \<Rightarrow> 'n event list \<Rightarrow> 'n \<Rightarrow> int option option" where
  "greylist_main nt sigaction fs junk len evs n =
     (case cf_open fs ''/etc/greylist.cfg'' of
        Inl e \<Rightarrow> Some (Some (- 1))
      | Inr cfgReader \<Rightarrow>
          (case System_run nt sigaction junk len evs
                  \<lparr>da_system = System_new, da_reader = cfgReader, da_net = n, da_globalSignal = 0\<rparr> of
             None \<Rightarrow> None
           | Some (Returned res, d) \<Rightarrow> Some (Some res)
           | Some (Threw e, d) \<Rightarrow> Some (if is_undefined e then None else Some (- 1))
           | Some (Serving srv, d) \<Rightarrow> Some None))"

section \<open>The settings\<close>

lemma setting_touch: "smap_ok settings \<Longrightarrow> smap_ok (touch ts settings) \<and> setting (touch ts settings) = setting settings"
proof (induction ts arbitrary: settings)
  case (Cons t ts)
  have "setting (smap_insert (ServerTokensType_idx t) [] settings) = setting settings"
    using Cons.prems by (auto simp: setting_def smap_find_insert fun_eq_iff split: option.split)
  with Cons.IH [of "smap_insert (ServerTokensType_idx t) [] settings"] Cons.prems show ?case
    by (simp add: touch_def)
qed (simp add: touch_def)

lemma compile_server_cong: "setting s = setting s' \<Longrightarrow> compile_server s core l = compile_server s' core l"
  by (simp add: compile_server_def int_setting_def [abs_def])

lemma so_listener_compile [simp]: "so_listener (compile_server s core l) = l" "so_core (compile_server s core l) = core"
  by (simp_all add: compile_server_def Server_new_def Let_def)

text \<open>
  Whether the status is added to deferred replies does not depend on the setting
  \<open>deferwithstatus\<close>: whatever value it has, the server is the same. It depends on the setting
  \<open>defer\<close> alone: the status is off exactly when that is the reply \<open>dunno\<close>.
\<close>

theorem deferwithstatus_ignored:
  assumes "smap_ok settings"
  shows "compile_server (smap_set (ServerTokensType_idx ST_deferwithstatus) v settings) core l = compile_server settings core l \<and>
    (ac_deferwithstatus (so_action (compile_server settings core l)) \<longleftrightarrow> setting settings ST_defer \<noteq> ''dunno'')"
proof
  have "setting (smap_set (ServerTokensType_idx ST_deferwithstatus) v settings) t = setting settings t"
    if "t \<noteq> ST_deferwithstatus" for t
    using assms that by (cases t) (simp_all add: setting_def smap_find_set)
  then show "compile_server (smap_set (ServerTokensType_idx ST_deferwithstatus) v settings) core l = compile_server settings core l"
    by (simp add: compile_server_def int_setting_def)
  have "tl_map postfixResponseTokens = [(''defer_if_permit'', 1), (''dunno'', 0)]" by code_simp
  then have "findToken postfixResponseTokens x = 0 \<longleftrightarrow> x = ''dunno''" for x
    by (auto simp: findToken_def split: option.splits if_splits)
  then show "ac_deferwithstatus (so_action (compile_server settings core l)) \<longleftrightarrow> setting settings ST_defer \<noteq> ''dunno''"
    by (simp add: compile_server_def Server_new_def Action_new_def Let_def)
qed

theorem deferwithstatus_ignored_witness:
  "compile_server [(7, ''false''), (8, ''defer_if_permit'')] [] (TCPListener_new [] [] 0) =
   compile_server [(7, ''true''), (8, ''defer_if_permit'')] [] (TCPListener_new [] [] 0)"
  using deferwithstatus_ignored [of "[(7, ''true''), (8, ''defer_if_permit'')]" "''false''" "[]" "TCPListener_new [] [] 0"] by simp

section \<open>Compiling and reloading\<close>

text \<open>
  The state between two events: the containers and the core are in order, and the server is the one
  the present settings and core describe.
\<close>

definition serves_config :: "'n daemon \<Rightarrow> ServerObject \<Rightarrow> bool" where
  "serves_config d srv \<longleftrightarrow>
     config_inv [] (da_system d) \<and>
     srv = compile_server (sy_settings (da_system d)) (sy_core (da_system d)) (so_listener srv)"

lemma config_inv_update:
  "config_inv old s \<Longrightarrow> smap_ok (sy_settings s)"
  "config_inv old s \<Longrightarrow> smap_ok t \<Longrightarrow> config_inv old (s\<lparr>sy_settings := t\<rparr>)"
  "config_inv old s \<Longrightarrow> config_inv [] s"
  "config_inv [] s \<Longrightarrow> config_inv (sy_core s) s"
  "config_inv old s \<Longrightarrow> config_inv old (s\<lparr>sy_core := [], sy_settings := []\<rparr>)"
  "config_inv old s \<Longrightarrow> smap_ok t \<Longrightarrow> config_inv [] (s\<lparr>sy_core := old, sy_settings := t\<rparr>)"
  by (simp_all add: config_inv_def core_ok_def)

lemma open_server_cases:
  assumes "config_inv old (da_system d)" and "open_server nt len d = (r, d')"
  shows "config_inv old (da_system d')" and "da_globalSignal d' = da_globalSignal d" and "da_reader d' = da_reader d"
    and "sy_core (da_system d') = sy_core (da_system d)"
    and "setting (sy_settings (da_system d')) = setting (sy_settings (da_system d))"
    and "r = Inr srv \<Longrightarrow> serves_config d' srv"
proof -
  note touched = setting_touch [OF config_inv_update(1) [OF assms(1)]]
  note both = touched setting_touch [OF touched [THEN conjunct1]]
  show inv: "config_inv old (da_system d')" and "da_globalSignal d' = da_globalSignal d" and "da_reader d' = da_reader d"
    and core: "sy_core (da_system d') = sy_core (da_system d)"
    and set: "setting (sy_settings (da_system d')) = setting (sy_settings (da_system d))"
    using assms both by (auto simp: open_server_def Let_def config_inv_update split: prod.splits sum.splits)
  assume "r = Inr srv"
  then have "srv = compile_server (sy_settings (da_system d)) (sy_core (da_system d)) (so_listener srv)"
    using assms by (auto simp: open_server_def Let_def split: prod.splits sum.splits)
  then show "serves_config d' srv"
    using compile_server_cong [OF set] core config_inv_update(3) [OF inv] by (simp add: serves_config_def)
qed

lemma read_config_returns:
  assumes "config_inv old (da_system d)"
  shows "\<exists>r d'. read_config junk d = Some (r, d') \<and> config_inv old (da_system d')"
  using configuration_returns [OF assms, of junk "da_reader d"]
  by (cases "ConfigReader_new junk (da_reader d)") (auto simp: read_config_def)

lemma compileConfig_returns:
  assumes "config_inv old (da_system d)"
  shows "\<exists>r d'. compileConfig nt junk len skip d = Some (r, d') \<and> config_inv old (da_system d') \<and>
    (\<forall>srv. r = Inr srv \<longrightarrow> serves_config d' srv)"
proof -
  obtain r d1 where read: "(if skip then Some (Inr (), d) else read_config junk d) = Some (r, d1)" "config_inv old (da_system d1)"
    using assms read_config_returns [OF assms, of junk] by (cases skip) auto
  show ?thesis
  proof (cases r)
    case (Inl e)
    with read show ?thesis by (simp add: compileConfig_def)
  next
    case (Inr u)
    obtain res d2 where "open_server nt len d1 = (res, d2)" by fastforce
    with open_server_cases [OF read(2) this] read Inr show ?thesis by (simp add: compileConfig_def)
  qed
qed

lemma reload_returns:
  assumes "config_inv [] (da_system d)"
  shows "\<exists>r d'. reload nt ev d = Some (r, d') \<and> config_inv (sy_core (da_system d)) (da_system d') \<and>
    (\<forall>srv. r = Inr srv \<longrightarrow> serves_config d' srv)"
proof -
  note inv = config_inv_update(4) [OF assms]
  obtain rl rd where rl: "cf_reload (ev_fs ev) (da_reader d) = (rl, rd)" by fastforce
  let ?d = "d\<lparr>da_reader := rd, da_system := (da_system d)\<lparr>sy_core := [], sy_settings := []\<rparr>\<rparr>"
  have "config_inv (sy_core (da_system d)) (da_system ?d)" using config_inv_update(5) [OF inv] by simp
  from compileConfig_returns [OF this, of nt "ev_junk ev" "ev_len ev" False] rl inv show ?thesis
    by (cases rl) (auto simp: reload_def)
qed

lemma restore_inv:
  assumes "config_inv (sy_core old) (da_system d)" and "config_inv [] old"
  shows "config_inv [] (da_system (restore old d))"
  using config_inv_update(6) [OF assms(1) config_inv_update(1) [OF assms(2)]] by (simp add: restore_def)

section \<open>The life of the daemon\<close>

fun outcome_ok :: "'n event list \<Rightarrow> outcome \<Rightarrow> 'n daemon \<Rightarrow> bool" where
  "outcome_ok evs (Serving srv) d \<longleftrightarrow> serves_config d srv \<and> (\<forall>ev \<in> set evs. ev_signal ev \<notin> {0, SIGQUIT})"
| "outcome_ok evs (Returned n) d \<longleftrightarrow> (n = 0 \<and> (\<exists>ev \<in> set evs. ev_signal ev = SIGQUIT)) \<or> (n = - 2 \<and> evs \<noteq> [])"
| "outcome_ok evs (Threw e) d \<longleftrightarrow> is_undefined e \<or> (\<exists>ev \<in> set evs. ev_signal ev = 0)"

lemma outcome_ok_Cons: "outcome_ok evs out d \<Longrightarrow> ev_signal ev \<notin> {0, SIGQUIT} \<Longrightarrow> outcome_ok (ev # evs) out d"
  by (cases out) auto

lemma run_loop_returns:
  assumes "serves_config d srv"
  shows "\<exists>out d'. run_loop nt evs srv d = Some (out, d') \<and> outcome_ok evs out d'"
  using assms
proof (induction evs arbitrary: srv d)
  case (Cons ev evs)
  obtain lines n l where close: "TCPListener_close nt (ev_net ev (da_net d), so_listener srv) = (lines, n, l)"
    by (metis prod_cases3)
  let ?d = "d\<lparr>da_net := n, da_globalSignal := ev_signal ev\<rparr>"
  have next_run: "\<exists>out d''. run_loop nt evs srv' (d'\<lparr>da_globalSignal := 0\<rparr>) = Some (out, d'') \<and> outcome_ok (ev # evs) out d''"
    if "serves_config d' srv'" "ev_signal ev \<notin> {0, SIGQUIT}" for srv' d'
    using Cons.IH [of "d'\<lparr>da_globalSignal := 0\<rparr>" srv'] that(1) outcome_ok_Cons [OF _ that(2)]
    by (fastforce simp: serves_config_def)
  have inv: "config_inv [] (da_system ?d)" using Cons.prems by (simp add: serves_config_def)
  obtain r d1 where reload: "reload nt ev ?d = Some (r, d1)" "config_inv (sy_core (da_system ?d)) (da_system d1)"
    "\<And>s. r = Inr s \<Longrightarrow> serves_config d1 s"
    using reload_returns [OF inv, of nt ev] by blast
  obtain r2 d2 where again: "compileConfig nt (ev_junk ev) (ev_len ev) True (restore (da_system ?d) d1) = Some (r2, d2)"
    "\<And>s. r2 = Inr s \<Longrightarrow> serves_config d2 s"
    using compileConfig_returns [OF restore_inv [OF reload(2) inv], of nt "ev_junk ev" "ev_len ev" True] by blast
  show ?case
  proof (cases "ev_signal ev \<in> {0, SIGQUIT}")
    case True
    with close show ?thesis by (auto simp: Let_def SIGQUIT_def)
  next
    case False
    then show ?thesis
      using close reload(1) again(1) next_run [OF reload(3)] next_run [OF again(2)]
      by (cases r; cases r2) (auto simp: Let_def)
  qed
qed simp

text \<open>
  C10 (termination). Start-up and every reload return, whatever the configuration file holds. The
  daemon ends with 0 only when a server returned after SIGQUIT, with -1 or -2 otherwise, or it
  is still serving; and then no server has ended without a signal or with SIGQUIT.
\<close>

theorem daemon_exit:
  "\<exists>out. greylist_main nt sigaction fs junk len evs n = Some out \<and>
     (case out of
        None \<Rightarrow> True
      | Some code \<Rightarrow> code \<in> {0, - 1, - 2} \<and> (code = 0 \<longrightarrow> (\<exists>ev \<in> set evs. ev_signal ev = SIGQUIT)) \<and>
          (code = - 2 \<longrightarrow> evs \<noteq> []))"
proof (cases "cf_open fs ''/etc/greylist.cfg''")
  case (Inl e)
  then show ?thesis by (simp add: greylist_main_def)
next
  case (Inr rd)
  let ?d = "\<lparr>da_system = System_new, da_reader = rd, da_net = n, da_globalSignal = 0\<rparr>"
  obtain r d' where comp: "compileConfig nt junk len False ?d = Some (r, d')" "\<And>s. r = Inr s \<Longrightarrow> serves_config d' s"
    using compileConfig_returns [of "[]" ?d nt junk len False] config_inv_new by auto
  have run: "\<exists>out d''. System_run nt sigaction junk len evs ?d = Some (out, d'') \<and>
      (outcome_ok evs out d'' \<or> out = Returned (- 1) \<or> (\<exists>e. out = Threw e))"
    using comp(1) run_loop_returns [OF comp(2), of _ nt evs]
    by (cases "setupSignalHandlers sigaction"; cases r) (auto simp: System_run_def)
  then obtain out d'' where "System_run nt sigaction junk len evs ?d = Some (out, d'')"
    "outcome_ok evs out d'' \<or> out = Returned (- 1) \<or> (\<exists>e. out = Threw e)"
    by blast
  with Inr show ?thesis by (cases out) (auto simp: greylist_main_def)
qed

text \<open>
  C9 (error). A reload that fails costs no service: when the file cannot be opened or its
  sections do not parse, and the old address can be listened on again, the next server is the
  old one, with the same core, replies and limits, on a new socket, and the signal is cleared.
\<close>

theorem reload_error_keeps_service:
  assumes "serves_config d srv" and "ev_signal ev \<notin> {0, SIGQUIT}"
    and "TCPListener_close nt (ev_net ev (da_net d), so_listener srv) = (lines, n, l)"
    and "reload nt ev (d\<lparr>da_net := n, da_globalSignal := ev_signal ev\<rparr>) = Some (Inl e, d1)" and "\<not> is_undefined e"
    and "TCPListener_open nt (da_net d1, TCPListener_new (setting (sy_settings (da_system d)) ST_listen)
           (setting (sy_settings (da_system d)) ST_port) (ev_len ev)) = (Inr (), n', l')"
  shows "\<exists>d'. run_loop nt (ev # evs) srv d = run_loop nt evs (srv\<lparr>so_listener := l'\<rparr>) d' \<and>
    serves_config d' (srv\<lparr>so_listener := l'\<rparr>) \<and> sy_core (da_system d') = sy_core (da_system d) \<and> da_globalSignal d' = 0"
proof -
  let ?d = "d\<lparr>da_net := n, da_globalSignal := ev_signal ev\<rparr>" and ?s = "da_system d"
  let ?r = "restore (da_system ?d) d1"
  have inv: "config_inv [] (da_system ?d)" using assms(1) by (simp add: serves_config_def)
  have "config_inv (sy_core (da_system ?d)) (da_system d1)" using reload_returns [OF inv, of nt ev] assms(4) by auto
  note rest = restore_inv [OF this inv]
  have old: "sy_settings (da_system ?r) = sy_settings ?s" "sy_core (da_system ?r) = sy_core ?s" "da_net ?r = da_net d1"
    by (simp_all add: restore_def)
  have "fst (open_server nt (ev_len ev) ?r) = Inr (compile_server (sy_settings ?s) (sy_core ?s) l')"
    using assms(6) old by (simp add: open_server_def Let_def)
  moreover have "compile_server (sy_settings ?s) (sy_core ?s) l' = srv\<lparr>so_listener := l'\<rparr>"
  proof -
    have "srv = compile_server (sy_settings ?s) (sy_core ?s) (so_listener srv)" using assms(1) by (simp add: serves_config_def)
    then have "srv\<lparr>so_listener := l'\<rparr> = (compile_server (sy_settings ?s) (sy_core ?s) (so_listener srv))\<lparr>so_listener := l'\<rparr>" by simp
    then show ?thesis by (simp add: compile_server_def Server_new_def Let_def)
  qed
  ultimately obtain d2 where opened: "open_server nt (ev_len ev) ?r = (Inr (srv\<lparr>so_listener := l'\<rparr>), d2)"
    by (metis prod.collapse)
  note d2 = open_server_cases [OF rest opened]
  have "run_loop nt (ev # evs) srv d = run_loop nt evs (srv\<lparr>so_listener := l'\<rparr>) (d2\<lparr>da_globalSignal := 0\<rparr>)"
    using assms(2,3,4,5) opened by (simp add: compileConfig_def)
  moreover have "serves_config (d2\<lparr>da_globalSignal := 0\<rparr>) (srv\<lparr>so_listener := l'\<rparr>)"
    using d2(6) [OF refl] by (simp add: serves_config_def)
  ultimately show ?thesis using d2(4) old(2) by (intro exI [of _ "d2\<lparr>da_globalSignal := 0\<rparr>"]) simp
qed

section \<open>Witnesses\<close>

definition sample_start :: "(int \<times> int list) daemon" where
  "sample_start = \<lparr>da_system = System_new, da_reader = config_file sample_sections, da_net = (0, []), da_globalSignal = 0\<rparr>"

definition sample_event :: "int \<Rightarrow> (int \<times> int list) event" where
  "sample_event signal = \<lparr>ev_signal = signal, ev_socketerror = 22, ev_fs = (\<lambda>_. Inl 2), ev_net = id, ev_junk = False, ev_len = 0\<rparr>"

lemma sample_start_compiles:
  "\<exists>srv d. compileConfig (sample_net (\<lambda>_. False)) False 0 False sample_start = Some (Inr srv, d) \<and> serves_config d srv"
proof -
  have "case compileConfig (sample_net (\<lambda>_. False)) False 0 False sample_start of Some (Inr srv, d) \<Rightarrow> True | _ \<Rightarrow> False"
    by code_simp
  then show ?thesis
    using compileConfig_returns [of "[]" sample_start "sample_net (\<lambda>_. False)" False 0 False] config_inv_new
    by (auto simp: sample_start_def split: option.splits sum.splits)
qed

lemma sample_net_opens: "\<exists>n l. TCPListener_open (sample_net (\<lambda>_. False)) (s, TCPListener_new h p len) = (Inr (), n, l)"
proof -
  have "\<not> fold max fs 0 + 1 < (0 :: int)" for fs using fold_max_ge [of "0 :: int" fs 0] by auto
  then show ?thesis
    by (cases s) (simp add: TCPListener_open_def sample_net_def Let_def TCPListener_new_def FileDescriptor_new_def
        FileDescriptor.defs TCPListener.defs fd_get_def)
qed

theorem daemon_exit_witness:
  "greylist_main (sample_net (\<lambda>_. False)) (\<lambda>_ _. 0) (\<lambda>_. Inr (config_text sample_sections)) False 0 [sample_event SIGQUIT] (0, []) =
     Some (Some 0) \<and> (\<exists>ev \<in> set [sample_event SIGQUIT]. ev_signal ev = SIGQUIT)"
proof
  show main: "greylist_main (sample_net (\<lambda>_. False)) (\<lambda>_ _. 0) (\<lambda>_. Inr (config_text sample_sections)) False 0 [sample_event SIGQUIT]
      (0, []) = Some (Some 0)"
    by code_simp
  show "\<exists>ev \<in> set [sample_event SIGQUIT]. ev_signal ev = SIGQUIT"
    using daemon_exit [of "sample_net (\<lambda>_. False)" "\<lambda>_ _. 0" "\<lambda>_. Inr (config_text sample_sections)" False 0 "[sample_event SIGQUIT]"
        "(0, [])"] main by simp
qed

theorem reload_error_keeps_service_witness:
  "\<exists>srv d l' d'. compileConfig (sample_net (\<lambda>_. False)) False 0 False sample_start = Some (Inr srv, d) \<and>
     run_loop (sample_net (\<lambda>_. False)) [sample_event SIGHUP] srv d = Some (Serving (srv\<lparr>so_listener := l'\<rparr>), d') \<and>
     sy_core (da_system d') = sy_core (da_system d)"
proof -
  let ?nt = "sample_net (\<lambda>_. False)" and ?ev = "sample_event SIGHUP"
  obtain srv d where d: "compileConfig ?nt False 0 False sample_start = Some (Inr srv, d)" "serves_config d srv"
    using sample_start_compiles by blast
  obtain lines n l where close: "TCPListener_close ?nt (ev_net ?ev (da_net d), so_listener srv) = (lines, n, l)"
    by (metis prod_cases3)
  obtain e d1 where reload: "reload ?nt ?ev (d\<lparr>da_net := n, da_globalSignal := ev_signal ?ev\<rparr>) = Some (Inl e, d1)" "\<not> is_undefined e"
    by (simp add: reload_def cf_reload_def sample_event_def cf_error_def)
  obtain n' l' where opened: "TCPListener_open ?nt (da_net d1, TCPListener_new (setting (sy_settings (da_system d)) ST_listen)
           (setting (sy_settings (da_system d)) ST_port) (ev_len ?ev)) = (Inr (), n', l')"
    using sample_net_opens by blast
  have "ev_signal ?ev \<notin> {0, SIGQUIT}" by (simp add: sample_event_def SIGHUP_def SIGQUIT_def)
  from reload_error_keeps_service [OF d(2) this close reload opened, of "[]"] d(1) show ?thesis by auto
qed

section \<open>Handlers of a configured server\<close>

definition service_of :: "('e, 'r) platform \<Rightarrow> ServerObject \<Rightarrow> ('e, 'r) service" where
  "service_of pf srv = \<lparr>se_core = chain_of pf (so_core srv), se_action = so_action srv, se_maxRequests = so_maxRequests srv\<rparr>"

lemma keeps_chain_of:
  assumes "dbi_handles (pf_dbi pf) live"
  shows "keeps (balanced live held) (process (chain_of pf core))"
proof (rule keeps_process)
  have matcher: "keeps (balanced live held) (matcher_of pf m)" for m
    using assms by (cases m) (auto intro!: keeps_intros)
  have policy: "keeps (balanced live held) (policy_of pf p)" for p
    using assms by (cases p) (auto intro!: keeps_intros)
  fix m p assume "(m, p) \<in> set (chain_of pf core)"
  then show "keeps (balanced live held) m \<and> keeps (balanced live held) p"
    using matcher policy by (auto simp: chain_of_def)
qed

text \<open>
  C7 (safety). A handler gives back every database connection it took from a pool: whatever the core of a server is made
  of, whatever a peer sends and whatever errors the database library reports, the handler returns with the same connections of
  every pool in use as before, every pool in order, the descriptor closed and the table of sockets as it was. (A connection
  that could not be opened never was in a pool; its handle is lost, \<open>grabdb_failed_connect_leaks\<close>.)
\<close>

theorem configured_handler_balanced:
  assumes "dbi_handles (pf_dbi pf) live" and "balanced live held (sv_world c)" and "smap_ok (sv_sockets c)"
  shows "\<exists>r c'. handle (service_of pf srv) fd close_errno c = Some (r, c') \<and> balanced live held (sv_world c') \<and>
    sv_sockets c' = sv_sockets c \<and> sr_fd (cn_reader c') < 0 \<and> (r = Inr () \<longrightarrow> sv_busyHandlers c' = sv_busyHandlers c)"
proof -
  have "keeps (balanced live held) (process (se_core (service_of pf srv)))"
    using keeps_chain_of [OF assms(1)] by (simp add: service_of_def)
  from handle_returns [OF request_inv_balanced this assms(2,3), of fd close_errno] show ?thesis by auto
qed

theorem configured_handler_balanced_witness:
  "\<exists>r c'. handle (service_of sample_platform (compile_server [] [(AllMatchMatcher, GreylistPolicy sample_greylist)] (TCPListener_new [] [] 0)))
      5 0 (sample_conn (request_text sample_attrs)) = Some (r, c') \<and>
    balanced set (db_held sample_pool) (sv_world c') \<and> sv_sockets c' = []"
proof -
  have "balanced set (db_held sample_pool) (sv_world (sample_conn (request_text sample_attrs)))"
    "sv_sockets (sample_conn (request_text sample_attrs)) = []"
    using sample_world_balanced by (simp_all add: sample_conn_def conn_open_def sample_server_def server.defs)
  with configured_handler_balanced [OF sample_platform_handles, of "db_held sample_pool" "sample_conn (request_text sample_attrs)"]
  show ?thesis by fastforce
qed

section \<open>From the bytes of a peer to the greylist\<close>

definition replies_with :: "string \<Rightarrow> string \<Rightarrow> string \<Rightarrow> string \<Rightarrow> ActionType \<Rightarrow> bool" where
  "replies_with deferText dunno onerror str a \<longleftrightarrow>
     (\<exists>status. str = ''action='' @ reply_text deferText dunno onerror a @ status @ [newline, newline])"

lemma answer_greylist:
  assumes ok: "gl_ok pf qt rec g q" and sv: "se_core sv = chain_of pf [(AllMatchMatcher, GreylistPolicy g)]"
    and ac: "se_action sv = Action_new dws deferText dunno onerror ll"
    and step: "gl_step (gl_timeout g) (w_clock w (w_reads w)) (abs_row (rec (dbs_eng w))) Extra_new = (a, x, row')"
  shows "\<exists>str log w'. answer sv (w\<lparr>w_triplet := Request_triplet q, w_extra := Extra_new\<rparr>) = (Inr (str, log), w') \<and>
    replies_with deferText dunno onerror str a \<and> w_clock w' = w_clock w \<and> w_reads w' = Suc (w_reads w) \<and>
    abs_row (rec (dbs_eng w')) = row'"
proof -
  let ?w = "w\<lparr>w_triplet := Request_triplet q, w_extra := Extra_new\<rparr>"
  have "rq_view pf q (w_triplet ?w)" by (simp add: rq_view_new)
  from decide_run [OF ok this, of a x row'] step obtain t h e where
    dec: "Greylist_decide pf g ?w = (Inr a, ?w\<lparr>w_reads := Suc (w_reads w), w_triplet := t, w_extra := x, dbs_heap := h, dbs_eng := e\<rparr>)"
    and row: "abs_row (rec e) = row'"
    by auto
  have a: "a \<noteq> Cont" using step by (cases "abs_row (rec (dbs_eng w))") (auto split: if_splits)
  obtain str log where "Action_process (se_action sv) a t x = (Inr str, log)"
    and str: "replies_with deferText dunno onerror str a"
    using Action_process_eq [OF a, of dws deferText dunno onerror ll t x] ac
    by (cases "Action_process (se_action sv) a t x") (auto simp: replies_with_def)
  then show ?thesis
    using dec row a sv
    by (auto simp: answer_def chain_of_def AllMatch_match_def catchE_def bindE_def reply_def)
qed

lemma answers_greylist:
  assumes ok: "gl_ok pf qt rec g q" and sv: "se_core sv = chain_of pf [(AllMatchMatcher, GreylistPolicy g)]"
    and ac: "se_action sv = Action_new dws deferText dunno onerror ll"
    and clock: "\<forall>i < length ts. w_clock w (w_reads w + i) = ts ! i"
  shows "\<exists>replies w'. answers sv (replicate (length ts) (Request_triplet q)) w = Some (replies, w') \<and>
    list_all2 (replies_with deferText dunno onerror) replies (gl_run (gl_timeout g) ts (abs_row (rec (dbs_eng w))))"
  using clock
proof (induction ts arbitrary: w)
  case (Cons now ts)
  obtain a x row' where step: "gl_step (gl_timeout g) now (abs_row (rec (dbs_eng w))) Extra_new = (a, x, row')"
    by (metis prod_cases3)
  have now: "w_clock w (w_reads w) = now" using Cons.prems by (auto dest: spec [of _ 0])
  obtain str log w' where ans: "answer sv (w\<lparr>w_triplet := Request_triplet q, w_extra := Extra_new\<rparr>) = (Inr (str, log), w')"
    "replies_with deferText dunno onerror str a" "w_clock w' = w_clock w" "w_reads w' = Suc (w_reads w)"
    "abs_row (rec (dbs_eng w')) = row'"
    using answer_greylist [OF ok sv ac] step now by blast
  have "\<forall>i < length ts. w_clock w' (w_reads w' + i) = ts ! i"
    using ans(3,4) Cons.prems [rule_format, of "Suc _"] by simp
  from Cons.IH [OF this] ans step show ?case by auto
qed simp

text \<open>
  C1 (functional). The protocol the daemon is for, from the bytes on the socket to the bytes back:
  a server whose core is a greylist for everything, on a database that executes its statements,
  gets the same request at the times \<open>t0, t1, ...\<close> over a connection. When the table does not
  have it yet, the first reply is the text configured for \<open>defer\<close>, and a later one is the one for
  \<open>dunno\<close> exactly when more than the timeout has passed since the first.
\<close>

theorem greylist_connection:
  assumes "gl_ok pf qt rec g q" and "so_core srv = [(AllMatchMatcher, GreylistPolicy g)]" and "so_maxRequests srv = 0"
    and "so_action srv = Action_new dws deferText dunno onerror ll"
    and "request_ok rq" and "attrs_triplet rq = Request_triplet q"
    and "\<forall>i < Suc (length ts). w_clock (sv_world s) (w_reads (sv_world s) + i) = (t0 # ts) ! i"
    and "sorted (t0 # ts)" and "length ts < 2 ^ 64" and "rec (dbs_eng (sv_world s)) = None"
    and "\<forall>n str. fst (writes n str) = int (length str)" and "\<forall>n. \<not> interrupts n"
  shows "\<exists>c replies. handle (service_of pf srv) fd close_errno
        (conn_open s fd (concat (replicate (Suc (length ts)) (request_text rq))) ending junk writes interrupts) = Some (Inr (), c) \<and>
      cn_sent c = concat replies \<and>
      list_all2 (replies_with deferText dunno onerror) replies
        (Defer # map (\<lambda>t. if t - t0 > ucast (gl_timeout g) then Dunno else Defer) ts)"
proof -
  let ?sv = "service_of pf srv" and ?rqs = "replicate (Suc (length ts)) rq"
  have sv: "se_core ?sv = chain_of pf [(AllMatchMatcher, GreylistPolicy g)]" "se_action ?sv = Action_new dws deferText dunno onerror ll"
    "se_maxRequests ?sv = 0"
    using assms(2,3,4) by (simp_all add: service_of_def)
  have "gl_run (gl_timeout g) (t0 # ts) (abs_row (rec (dbs_eng (sv_world s)))) =
      Defer # map (\<lambda>t. if t - t0 > ucast (gl_timeout g) then Dunno else Defer) ts"
    using gl_run_waiting [OF assms(8,9)] assms(10) by simp
  with answers_greylist [OF assms(1) sv(1,2), of "t0 # ts" "sv_world s"] assms(7) obtain replies w where
    "answers ?sv (map attrs_triplet ?rqs) (sv_world s) = Some (replies, w)"
    "list_all2 (replies_with deferText dunno onerror) replies
        (Defer # map (\<lambda>t. if t - t0 > ucast (gl_timeout g) then Dunno else Defer) ts)"
    using assms(6) by (auto simp del: replicate_Suc)
  moreover have "list_all request_ok ?rqs" using assms(5) by (auto simp: list_all_iff)
  ultimately show ?thesis
    using connection_served [OF sv(2) _ assms(11,12), where rqs = ?rqs and rest = "[]" and s = s] sv(3)
    by (fastforce simp: map_replicate)
qed

definition greylist_attrs :: "(string \<times> string) list" where
  "greylist_attrs =
     [(''client_address'', rq_client_address sample_request), (''sender'', rq_sender sample_request),
      (''recipient'', rq_recipient sample_request), (''reverse_client_name'', rq_reverse_client_name sample_request),
      (''client_name'', rq_client_name sample_request)]"

definition greylist_times :: "nat \<Rightarrow> 64 word" where
  "greylist_times i = (if i = 0 then 1000 else if i = 1 then 1300 else 1301)"

definition greylist_srv :: ServerObject where
  "greylist_srv = compile_server [(8, ''defer_if_permit later''), (9, ''dunno''), (10, ''dunno'')]
     [(AllMatchMatcher, GreylistPolicy sample_greylist)] (TCPListener_new [] [] 0)"

theorem greylist_connection_witness:
  "\<exists>c replies. handle (service_of (one_row_platform sample_greylist sample_request) greylist_srv) 5 0
       (conn_open \<lparr>sv_world = (empty_world \<lparr>or_open = [], or_row = None\<rparr>)\<lparr>w_clock := greylist_times\<rparr>, sv_sockets = [],
            sv_busyHandlers = 0, sv_handled = 0, sv_signal = 0, sv_syslog = []\<rparr> 5
          (concat (replicate 3 (request_text greylist_attrs))) None 0 (\<lambda>n str. (int (length str), 0)) (\<lambda>n. False)) = Some (Inr (), c) \<and>
     cn_sent c = concat replies \<and>
     list_all2 (replies_with ''defer_if_permit later'' ''dunno'' ''dunno'') replies [Defer, Defer, Dunno]"
proof -
  let ?s = "\<lparr>sv_world = (empty_world \<lparr>or_open = [], or_row = None\<rparr>)\<lparr>w_clock := greylist_times\<rparr>, sv_sockets = [],
    sv_busyHandlers = 0, sv_handled = 0, sv_signal = 0, sv_syslog = []\<rparr> :: (one_row, unit) server"
  have srv: "so_core greylist_srv = [(AllMatchMatcher, GreylistPolicy sample_greylist)]" "so_maxRequests greylist_srv = 0"
    "so_action greylist_srv = Action_new True ''defer_if_permit later'' ''dunno'' ''dunno'' 1"
    by code_simp+
  have rq: "request_ok greylist_attrs" "attrs_triplet greylist_attrs = Request_triplet sample_request" by code_simp+
  have "\<forall>i < Suc (length [1300 :: 64 word, 1301]). w_clock (sv_world ?s) (w_reads (sv_world ?s) + i) = [1000, 1300, 1301] ! i"
    by (auto simp: greylist_times_def empty_world_def less_Suc_eq)
  from greylist_connection [OF sample_gl_ok srv rq this, of "\<lambda>n str. (int (length str), 0)" "\<lambda>n. False" 5 0 None 0]
  show ?thesis by (simp add: empty_world_def numeral_3_eq_3) (simp add: sample_greylist_def)
qed

end
