(* ===== verification/Cache_Locks.thy ===== *)
theory Cache_Locks
  imports Matchers
begin

text \<open>
  The caches under concurrent requests: the read-write lock of \<open>src/src/readwriteable.h\<close> and the operations
  of \<open>cachehandler.h\<close> as the threads of \<open>cachedexactmatch.h\<close> and \<open>cachedpatternmatch.h\<close> run them, next to the
  refresh of \<open>cacherefresh.h\<close>. The operations are cut where a lock is taken or given back, and where the
  factory reads the table. The theorems hold for every interleaving.

  \<open>boost::shared_mutex\<close> is a parameter: \<open>grant\<close> says whether it grants a request, given who owns what. What is relied on
  is the meaning of shared, upgrade and unique ownership, and for progress that a request nobody stands in the
  way of is granted. The lock of a cache itself is only ever taken shared, after the cache was built, and nobody waits for it.
\<close>

section \<open>RWLockable\<close>

datatype request = Shared nat | Upgrade nat | Upgrade_to_unique nat

record ownership =
  own_shared :: "nat set"
  own_upgrade :: "nat option"
  own_unique :: "nat option"

type_synonym shared_mutex = "ownership \<Rightarrow> request \<Rightarrow> bool"

fun may_own :: "ownership \<Rightarrow> request \<Rightarrow> bool" where
  "may_own l (Shared t) \<longleftrightarrow> own_unique l = None"
| "may_own l (Upgrade t) \<longleftrightarrow> own_upgrade l = None \<and> own_unique l = None"
| "may_own l (Upgrade_to_unique t) \<longleftrightarrow> own_upgrade l = Some t \<and> own_unique l = None \<and> own_shared l = {}"

fun must_own :: "ownership \<Rightarrow> request \<Rightarrow> bool" where
  "must_own l (Shared t) \<longleftrightarrow> own_unique l = None \<and> own_upgrade l = None"
| "must_own l (Upgrade t) \<longleftrightarrow> own_upgrade l = None \<and> own_unique l = None \<and> own_shared l = {}"
| "must_own l (Upgrade_to_unique t) \<longleftrightarrow> own_upgrade l = Some t \<and> own_unique l = None \<and> own_shared l = {}"

definition shared_mutex_ok :: "shared_mutex \<Rightarrow> bool" where
  "shared_mutex_ok grant \<longleftrightarrow> (\<forall>l r. (grant l r \<longrightarrow> may_own l r) \<and> (must_own l r \<longrightarrow> grant l r))"

text \<open>
  The constructors of \<open>RLock\<close> and \<open>WLock\<close>, \<^const>\<open>None\<close> while they wait, and the destructors. A \<open>WLock\<close> takes an
  \<open>upgrade_lock\<close> and turns it into a unique one; its members are destroyed in the reverse order.
\<close>

definition RLock_new :: "shared_mutex \<Rightarrow> nat \<Rightarrow> ownership \<Rightarrow> ownership option" where
  "RLock_new grant t l = (if grant l (Shared t) then Some (l\<lparr>own_shared := insert t (own_shared l)\<rparr>) else None)"

definition RLock_delete :: "nat \<Rightarrow> ownership \<Rightarrow> ownership" where
  "RLock_delete t l = l\<lparr>own_shared := own_shared l - {t}\<rparr>"

definition WLock_uglock :: "shared_mutex \<Rightarrow> nat \<Rightarrow> ownership \<Rightarrow> ownership option" where
  "WLock_uglock grant t l = (if grant l (Upgrade t) then Some (l\<lparr>own_upgrade := Some t\<rparr>) else None)"

definition WLock_unLock :: "shared_mutex \<Rightarrow> nat \<Rightarrow> ownership \<Rightarrow> ownership option" where
  "WLock_unLock grant t l = (if grant l (Upgrade_to_unique t) then Some (l\<lparr>own_unique := Some t\<rparr>) else None)"

definition WLock_delete_unLock :: "ownership \<Rightarrow> ownership" where
  "WLock_delete_unLock l = l\<lparr>own_unique := None\<rparr>"

definition WLock_delete_uglock :: "ownership \<Rightarrow> ownership" where
  "WLock_delete_uglock l = l\<lparr>own_upgrade := None\<rparr>"

section \<open>Threads\<close>

text \<open>
  Where a thread is. In a match: in \<open>get\<close> (waiting for the lock, reading, having read), in \<open>create\<close> (waiting twice,
  looking again, in the factory, with the new cache, giving the lock back), and using the cache. In a refresh: in \<open>clear\<close>.
  A cache is kept with the number of refreshes before it was built, and a match with the number
  before it began; the program does not have these numbers.
\<close>

datatype 'c thread_pc =
    P_Idle
  | P_Get nat nat
  | P_Reading nat nat
  | P_Read nat nat "(nat \<times> 'c) option"
  | P_Missed nat nat
  | P_Upgraded nat nat
  | P_Writing nat nat
  | P_Loading nat nat
  | P_Loaded nat nat 'c
  | P_Unlocking nat nat "(nat \<times> 'c) option"
  | P_Unlocked nat nat "(nat \<times> 'c) option"
  | P_Use nat nat "nat \<times> 'c"
  | C_Wait
  | C_Upgraded
  | C_Writing
  | C_Unlocking
  | C_Unlocked

record ('d, 'c) caches =
  ca_lock :: ownership
  ca_map :: "nat \<Rightarrow> (nat \<times> 'c) option"
  ca_table :: "nat \<Rightarrow> 'd"
  ca_pc :: "nat \<Rightarrow> 'c thread_pc"
  ca_refreshes :: nat
  ca_history :: "(nat \<times> (nat \<Rightarrow> 'd)) list"
  ca_built :: "nat \<Rightarrow> nat \<Rightarrow> 'c option"

definition caches_new :: "(nat \<Rightarrow> 'd) \<Rightarrow> ('d, 'c) caches" where
  "caches_new T =
     \<lparr>ca_lock = \<lparr>own_shared = {}, own_upgrade = None, own_unique = None\<rparr>, ca_map = (\<lambda>_. None), ca_table = T,
      ca_pc = (\<lambda>_. P_Idle), ca_refreshes = 0, ca_history = [(0, T)], ca_built = (\<lambda>_ _. None)\<rparr>"

definition goto :: "nat \<Rightarrow> 'c thread_pc \<Rightarrow> ('d, 'c) caches \<Rightarrow> ('d, 'c) caches" where
  "goto t p s = s\<lparr>ca_pc := (ca_pc s)(t := p)\<rparr>"

definition with_lock :: "ownership \<Rightarrow> ('d, 'c) caches \<Rightarrow> ('d, 'c) caches" where
  "with_lock l s = s\<lparr>ca_lock := l\<rparr>"

text \<open>The next step of a thread; \<open>build\<close> is what the factory makes of the rows of a table.\<close>

definition get_step :: "shared_mutex \<Rightarrow> nat \<Rightarrow> ('d, 'c) caches \<Rightarrow> ('d, 'c) caches option" where
  "get_step grant t s =
     (case ca_pc s t of
        P_Get ds e0 \<Rightarrow> map_option (\<lambda>l. goto t (P_Reading ds e0) (with_lock l s)) (RLock_new grant t (ca_lock s))
      | P_Reading ds e0 \<Rightarrow> Some (goto t (P_Read ds e0 (ca_map s ds)) s)
      | P_Read ds e0 found \<Rightarrow>
          Some (goto t (case found of None \<Rightarrow> P_Missed ds e0 | Some c \<Rightarrow> P_Use ds e0 c)
                  (with_lock (RLock_delete t (ca_lock s)) s))
      | _ \<Rightarrow> None)"

definition create_step :: "shared_mutex \<Rightarrow> ('d \<Rightarrow> 'c) \<Rightarrow> nat \<Rightarrow> ('d, 'c) caches \<Rightarrow> ('d, 'c) caches option" where
  "create_step grant build t s =
     (case ca_pc s t of
        P_Missed ds e0 \<Rightarrow> map_option (\<lambda>l. goto t (P_Upgraded ds e0) (with_lock l s)) (WLock_uglock grant t (ca_lock s))
      | P_Upgraded ds e0 \<Rightarrow> map_option (\<lambda>l. goto t (P_Writing ds e0) (with_lock l s)) (WLock_unLock grant t (ca_lock s))
      | P_Writing ds e0 \<Rightarrow>
          Some (goto t (case ca_map s ds of None \<Rightarrow> P_Loading ds e0 | Some c \<Rightarrow> P_Unlocking ds e0 (Some c)) s)
      | P_Loading ds e0 \<Rightarrow> Some (goto t (P_Loaded ds e0 (build (ca_table s ds))) s)
      | P_Loaded ds e0 c \<Rightarrow>
          Some (goto t (P_Unlocking ds e0 (Some (ca_refreshes s, c)))
                  (s\<lparr>ca_map := (ca_map s)(ds := Some (ca_refreshes s, c)),
                     ca_built := (ca_built s)(ca_refreshes s := (ca_built s (ca_refreshes s))(ds := Some c))\<rparr>))
      | P_Unlocking ds e0 r \<Rightarrow> Some (goto t (P_Unlocked ds e0 r) (with_lock (WLock_delete_unLock (ca_lock s)) s))
      | P_Unlocked ds e0 r \<Rightarrow>
          Some (goto t (case r of None \<Rightarrow> P_Idle | Some c \<Rightarrow> P_Use ds e0 c) (with_lock (WLock_delete_uglock (ca_lock s)) s))
      | _ \<Rightarrow> None)"

text \<open>The factory may throw while it loads the table: the lock is given back and the match ends with the exception.\<close>

definition create_throw :: "nat \<Rightarrow> ('d, 'c) caches \<Rightarrow> ('d, 'c) caches option" where
  "create_throw t s = (case ca_pc s t of P_Loading ds e0 \<Rightarrow> Some (goto t (P_Unlocking ds e0 None) s) | _ \<Rightarrow> None)"

definition clear_step :: "shared_mutex \<Rightarrow> nat \<Rightarrow> ('d, 'c) caches \<Rightarrow> ('d, 'c) caches option" where
  "clear_step grant t s =
     (case ca_pc s t of
        C_Wait \<Rightarrow> map_option (\<lambda>l. goto t C_Upgraded (with_lock l s)) (WLock_uglock grant t (ca_lock s))
      | C_Upgraded \<Rightarrow> map_option (\<lambda>l. goto t C_Writing (with_lock l s)) (WLock_unLock grant t (ca_lock s))
      | C_Writing \<Rightarrow>
          Some (goto t C_Unlocking
                  (s\<lparr>ca_map := (\<lambda>_. None), ca_refreshes := ca_refreshes s + 1,
                     ca_history := (ca_refreshes s + 1, ca_table s) # ca_history s\<rparr>))
      | C_Unlocking \<Rightarrow> Some (goto t C_Unlocked (with_lock (WLock_delete_unLock (ca_lock s)) s))
      | C_Unlocked \<Rightarrow> Some (goto t P_Idle (with_lock (WLock_delete_uglock (ca_lock s)) s))
      | _ \<Rightarrow> None)"

text \<open>A match is over when it has looked the member up in its cache.\<close>

definition use_step :: "nat \<Rightarrow> ('d, 'c) caches \<Rightarrow> ('d, 'c) caches option" where
  "use_step t s = (case ca_pc s t of P_Use ds e0 c \<Rightarrow> Some (goto t P_Idle s) | _ \<Rightarrow> None)"

definition start_match :: "nat \<Rightarrow> nat \<Rightarrow> ('d, 'c) caches \<Rightarrow> ('d, 'c) caches option" where
  "start_match t ds s = (case ca_pc s t of P_Idle \<Rightarrow> Some (goto t (P_Get ds (ca_refreshes s)) s) | _ \<Rightarrow> None)"

definition start_clear :: "nat \<Rightarrow> ('d, 'c) caches \<Rightarrow> ('d, 'c) caches option" where
  "start_clear t s = (case ca_pc s t of P_Idle \<Rightarrow> Some (goto t C_Wait s) | _ \<Rightarrow> None)"

text \<open>The tables change at any time.\<close>

definition table_update :: "nat \<Rightarrow> 'd \<Rightarrow> ('d, 'c) caches \<Rightarrow> ('d, 'c) caches" where
  "table_update ds d s =
     s\<lparr>ca_table := (ca_table s)(ds := d), ca_history := (ca_refreshes s, (ca_table s)(ds := d)) # ca_history s\<rparr>"

datatype 'd cache_move =
    CM_Match nat nat
  | CM_Refresh nat
  | CM_Get nat
  | CM_Create nat
  | CM_Throw nat
  | CM_Clear nat
  | CM_Use nat
  | CM_Update nat 'd

fun cache_step :: "shared_mutex \<Rightarrow> ('d \<Rightarrow> 'c) \<Rightarrow> 'd cache_move \<Rightarrow> ('d, 'c) caches \<Rightarrow> ('d, 'c) caches option" where
  "cache_step grant build (CM_Match t ds) s = start_match t ds s"
| "cache_step grant build (CM_Refresh t) s = start_clear t s"
| "cache_step grant build (CM_Get t) s = get_step grant t s"
| "cache_step grant build (CM_Create t) s = create_step grant build t s"
| "cache_step grant build (CM_Throw t) s = create_throw t s"
| "cache_step grant build (CM_Clear t) s = clear_step grant t s"
| "cache_step grant build (CM_Use t) s = use_step t s"
| "cache_step grant build (CM_Update ds d) s = Some (table_update ds d s)"

inductive cache_reachable :: "shared_mutex \<Rightarrow> ('d \<Rightarrow> 'c) \<Rightarrow> (nat \<Rightarrow> 'd) \<Rightarrow> ('d, 'c) caches \<Rightarrow> bool" for grant build T where
  cache_start: "cache_reachable grant build T (caches_new T)"
| cache_move: "cache_reachable grant build T s \<Longrightarrow> cache_step grant build m s = Some s1 \<Longrightarrow> cache_reachable grant build T s1"


section \<open>The invariant\<close>

fun holds_shared :: "'c thread_pc \<Rightarrow> bool" where
  "holds_shared (P_Reading ds e0) \<longleftrightarrow> True"
| "holds_shared (P_Read ds e0 r) \<longleftrightarrow> True"
| "holds_shared p \<longleftrightarrow> False"

fun holds_unique :: "'c thread_pc \<Rightarrow> bool" where
  "holds_unique (P_Writing ds e0) \<longleftrightarrow> True"
| "holds_unique (P_Loading ds e0) \<longleftrightarrow> True"
| "holds_unique (P_Loaded ds e0 c) \<longleftrightarrow> True"
| "holds_unique (P_Unlocking ds e0 r) \<longleftrightarrow> True"
| "holds_unique C_Writing \<longleftrightarrow> True"
| "holds_unique C_Unlocking \<longleftrightarrow> True"
| "holds_unique p \<longleftrightarrow> False"

fun holds_upgrade :: "'c thread_pc \<Rightarrow> bool" where
  "holds_upgrade (P_Upgraded ds e0) \<longleftrightarrow> True"
| "holds_upgrade (P_Unlocked ds e0 r) \<longleftrightarrow> True"
| "holds_upgrade C_Upgraded \<longleftrightarrow> True"
| "holds_upgrade C_Unlocked \<longleftrightarrow> True"
| "holds_upgrade p \<longleftrightarrow> holds_unique p"

text \<open>Who owns the lock is seen from where the threads are, and a writer is alone.\<close>

definition lock_inv :: "ownership \<Rightarrow> (nat \<Rightarrow> 'c thread_pc) \<Rightarrow> bool" where
  "lock_inv l thread_pc \<longleftrightarrow>
     own_shared l = {t. holds_shared (thread_pc t)} \<and> (\<forall>t. own_upgrade l = Some t \<longleftrightarrow> holds_upgrade (thread_pc t)) \<and>
     (\<forall>t. own_unique l = Some t \<longleftrightarrow> holds_unique (thread_pc t)) \<and> (own_unique l \<noteq> None \<longrightarrow> own_shared l = {})"

text \<open>A cache is what was built, once, from a table as it was after the refresh it is numbered with.\<close>

definition entry_ok :: "('d \<Rightarrow> 'c) \<Rightarrow> ('d, 'c) caches \<Rightarrow> nat \<Rightarrow> nat \<times> 'c \<Rightarrow> bool" where
  "entry_ok build s ds ec \<longleftrightarrow>
     fst ec \<le> ca_refreshes s \<and> ca_built s (fst ec) ds = Some (snd ec) \<and>
     (\<exists>T. (fst ec, T) \<in> set (ca_history s) \<and> snd ec = build (T ds))"

definition result_ok :: "('d \<Rightarrow> 'c) \<Rightarrow> ('d, 'c) caches \<Rightarrow> nat \<Rightarrow> nat \<Rightarrow> (nat \<times> 'c) option \<Rightarrow> bool" where
  "result_ok build s ds e0 r \<longleftrightarrow> (\<forall>ec. r = Some ec \<longrightarrow> e0 \<le> fst ec \<and> entry_ok build s ds ec)"

fun pc_ok :: "('d \<Rightarrow> 'c) \<Rightarrow> ('d, 'c) caches \<Rightarrow> 'c thread_pc \<Rightarrow> bool" where
  "pc_ok build s (P_Get ds e0) \<longleftrightarrow> e0 \<le> ca_refreshes s"
| "pc_ok build s (P_Reading ds e0) \<longleftrightarrow> e0 \<le> ca_refreshes s"
| "pc_ok build s (P_Missed ds e0) \<longleftrightarrow> e0 \<le> ca_refreshes s"
| "pc_ok build s (P_Upgraded ds e0) \<longleftrightarrow> e0 \<le> ca_refreshes s"
| "pc_ok build s (P_Writing ds e0) \<longleftrightarrow> e0 \<le> ca_refreshes s"
| "pc_ok build s (P_Loading ds e0) \<longleftrightarrow> e0 \<le> ca_refreshes s \<and> ca_map s ds = None"
| "pc_ok build s (P_Loaded ds e0 c) \<longleftrightarrow>
     e0 \<le> ca_refreshes s \<and> ca_map s ds = None \<and> (\<exists>T. (ca_refreshes s, T) \<in> set (ca_history s) \<and> c = build (T ds))"
| "pc_ok build s (P_Read ds e0 r) \<longleftrightarrow> e0 \<le> ca_refreshes s \<and> result_ok build s ds e0 r"
| "pc_ok build s (P_Unlocking ds e0 r) \<longleftrightarrow> result_ok build s ds e0 r"
| "pc_ok build s (P_Unlocked ds e0 r) \<longleftrightarrow> result_ok build s ds e0 r"
| "pc_ok build s (P_Use ds e0 ec) \<longleftrightarrow> result_ok build s ds e0 (Some ec)"
| "pc_ok build s p \<longleftrightarrow> True"

definition map_ok :: "('d \<Rightarrow> 'c) \<Rightarrow> ('d, 'c) caches \<Rightarrow> bool" where
  "map_ok build s \<longleftrightarrow>
     (\<forall>ds ec. ca_map s ds = Some ec \<longrightarrow> fst ec = ca_refreshes s \<and> entry_ok build s ds ec) \<and>
     (\<forall>ds. ca_map s ds = None \<longrightarrow> ca_built s (ca_refreshes s) ds = None) \<and>
     (\<forall>e ds. ca_refreshes s < e \<longrightarrow> ca_built s e ds = None) \<and>
     (ca_refreshes s, ca_table s) \<in> set (ca_history s)"

definition cache_inv :: "('d \<Rightarrow> 'c) \<Rightarrow> ('d, 'c) caches \<Rightarrow> bool" where
  "cache_inv build s \<longleftrightarrow> lock_inv (ca_lock s) (ca_pc s) \<and> (\<forall>t. pc_ok build s (ca_pc s t)) \<and> map_ok build s"

lemma grant_may: "shared_mutex_ok grant \<Longrightarrow> grant l r \<Longrightarrow> may_own l r"
  by (simp add: shared_mutex_ok_def)

lemma grant_must: "shared_mutex_ok grant \<Longrightarrow> must_own l r \<Longrightarrow> grant l r"
  by (simp add: shared_mutex_ok_def)

named_theorems lock_intros \<open>the lock and the places of the threads after a step\<close>

lemma lock_same [lock_intros]:
  "lock_inv l thread_pc \<Longrightarrow> holds_shared p = holds_shared (thread_pc t) \<Longrightarrow> holds_upgrade p = holds_upgrade (thread_pc t) \<Longrightarrow>
   holds_unique p = holds_unique (thread_pc t) \<Longrightarrow> lock_inv l (thread_pc(t := p))"
  by (auto simp: lock_inv_def)

lemma lock_RLock_new [lock_intros]:
  assumes "shared_mutex_ok grant" "lock_inv l thread_pc" "RLock_new grant t l = Some l1"
    "\<not> holds_shared (thread_pc t)" "\<not> holds_upgrade (thread_pc t)" "\<not> holds_unique (thread_pc t)"
    "holds_shared p" "\<not> holds_upgrade p" "\<not> holds_unique p"
  shows "lock_inv l1 (thread_pc(t := p))"
proof -
  have "may_own l (Shared t)" "l1 = l\<lparr>own_shared := insert t (own_shared l)\<rparr>"
    using assms(3) grant_may [OF assms(1)] by (auto simp: RLock_new_def simp del: may_own.simps split: if_splits)
  then show ?thesis using assms by (auto simp: lock_inv_def)
qed

lemma lock_RLock_delete [lock_intros]:
  assumes "lock_inv l thread_pc" "holds_shared (thread_pc t)" "\<not> holds_upgrade (thread_pc t)" "\<not> holds_unique (thread_pc t)"
    "\<not> holds_shared p" "\<not> holds_upgrade p" "\<not> holds_unique p"
  shows "lock_inv (RLock_delete t l) (thread_pc(t := p))"
  using assms by (auto simp: lock_inv_def RLock_delete_def)

lemma lock_uglock [lock_intros]:
  assumes "shared_mutex_ok grant" "lock_inv l thread_pc" "WLock_uglock grant t l = Some l1"
    "\<not> holds_shared (thread_pc t)" "\<not> holds_unique (thread_pc t)" "\<not> holds_shared p" "holds_upgrade p" "\<not> holds_unique p"
  shows "lock_inv l1 (thread_pc(t := p))"
proof -
  have "may_own l (Upgrade t)" "l1 = l\<lparr>own_upgrade := Some t\<rparr>"
    using assms(3) grant_may [OF assms(1)] by (auto simp: WLock_uglock_def simp del: may_own.simps split: if_splits)
  then show ?thesis using assms by (auto simp: lock_inv_def)
qed

lemma lock_unLock [lock_intros]:
  assumes "shared_mutex_ok grant" "lock_inv l thread_pc" "WLock_unLock grant t l = Some l1"
    "\<not> holds_shared (thread_pc t)" "holds_upgrade (thread_pc t)" "\<not> holds_shared p" "holds_upgrade p" "holds_unique p"
  shows "lock_inv l1 (thread_pc(t := p))"
proof -
  have "may_own l (Upgrade_to_unique t)" "l1 = l\<lparr>own_unique := Some t\<rparr>"
    using assms(3) grant_may [OF assms(1)] by (auto simp: WLock_unLock_def simp del: may_own.simps split: if_splits)
  then show ?thesis using assms by (auto simp: lock_inv_def)
qed

lemma lock_delete_unLock [lock_intros]:
  assumes "lock_inv l thread_pc" "\<not> holds_shared (thread_pc t)" "holds_unique (thread_pc t)" "holds_upgrade (thread_pc t)"
    "\<not> holds_shared p" "holds_upgrade p" "\<not> holds_unique p"
  shows "lock_inv (WLock_delete_unLock l) (thread_pc(t := p))"
proof -
  have "own_unique l = Some t" using assms(1,3) by (simp add: lock_inv_def)
  then show ?thesis using assms by (auto simp: lock_inv_def WLock_delete_unLock_def)
qed

lemma lock_delete_uglock [lock_intros]:
  assumes "lock_inv l thread_pc" "\<not> holds_shared (thread_pc t)" "\<not> holds_unique (thread_pc t)" "holds_upgrade (thread_pc t)"
    "\<not> holds_shared p" "\<not> holds_upgrade p" "\<not> holds_unique p"
  shows "lock_inv (WLock_delete_uglock l) (thread_pc(t := p))"
proof -
  have "own_upgrade l = Some t" using assms(1,4) by (simp add: lock_inv_def)
  then show ?thesis using assms by (auto simp: lock_inv_def WLock_delete_uglock_def)
qed

lemma entry_ok_same [simp]:
  "entry_ok build (goto t p s) = entry_ok build s" "entry_ok build (with_lock l s) = entry_ok build s"
  by (simp_all add: fun_eq_iff entry_ok_def goto_def with_lock_def)

lemma result_ok_same [simp]:
  "result_ok build (goto t p s) = result_ok build s" "result_ok build (with_lock l s) = result_ok build s"
  by (simp_all add: fun_eq_iff result_ok_def)

lemma pc_ok_same [simp]: "pc_ok build (goto t p s) q = pc_ok build s q" "pc_ok build (with_lock l s) q = pc_ok build s q"
  by (cases q; simp; simp add: goto_def with_lock_def)+

lemma map_ok_same [simp]: "map_ok build (goto t p s) = map_ok build s" "map_ok build (with_lock l s) = map_ok build s"
  by (simp_all add: map_ok_def) (simp_all add: goto_def with_lock_def)

lemma goto_simps [simp]:
  "ca_pc (goto t p s) = (ca_pc s)(t := p)" "ca_lock (goto t p s) = ca_lock s" "ca_refreshes (goto t p s) = ca_refreshes s"
  "ca_pc (with_lock l s) = ca_pc s" "ca_lock (with_lock l s) = l" "ca_refreshes (with_lock l s) = ca_refreshes s"
  by (simp_all add: goto_def with_lock_def)

lemma cache_inv_goto:
  "cache_inv build s \<Longrightarrow> lock_inv (ca_lock s) ((ca_pc s)(t := p)) \<Longrightarrow> pc_ok build s p \<Longrightarrow> cache_inv build (goto t p s)"
  by (auto simp: cache_inv_def)

lemma cache_inv_goto_lock:
  "cache_inv build s \<Longrightarrow> lock_inv l ((ca_pc s)(t := p)) \<Longrightarrow> pc_ok build s p \<Longrightarrow> cache_inv build (goto t p (with_lock l s))"
  by (auto simp: cache_inv_def)


section \<open>Every step keeps it\<close>

lemma cache_invD:
  assumes "cache_inv build s"
  shows "lock_inv (ca_lock s) (ca_pc s)" "pc_ok build s (ca_pc s t)" "map_ok build s"
  using assms by (simp_all add: cache_inv_def)

lemma map_entry: "map_ok build s \<Longrightarrow> e0 \<le> ca_refreshes s \<Longrightarrow> result_ok build s ds e0 (ca_map s ds)"
  by (auto simp: map_ok_def result_ok_def)

lemma result_ok_None [simp]: "result_ok build s ds e0 None"
  by (simp add: result_ok_def)

lemma get_step_inv:
  assumes "shared_mutex_ok grant" and inv: "cache_inv build s" and "get_step grant t s = Some s1"
  shows "cache_inv build s1"
proof (cases "ca_pc s t")
  case (P_Get ds e0)
  then obtain l where l: "RLock_new grant t (ca_lock s) = Some l" "s1 = goto t (P_Reading ds e0) (with_lock l s)"
    using assms(3) by (auto simp: get_step_def)
  then show ?thesis
    using P_Get cache_invD(1) [OF inv] cache_invD(2) [OF inv, of t] by (auto intro!: cache_inv_goto_lock [OF inv] lock_RLock_new [OF assms(1)])
next
  case (P_Reading ds e0)
  then show ?thesis
    using assms(3) cache_invD(1,3) [OF inv] cache_invD(2) [OF inv, of t]
    by (auto simp: get_step_def map_entry intro!: cache_inv_goto [OF inv] lock_same)
next
  case (P_Read ds e0 r)
  then show ?thesis
    using assms(3) cache_invD(1,3) [OF inv] cache_invD(2) [OF inv, of t]
    by (auto simp: get_step_def split: option.splits intro!: cache_inv_goto_lock [OF inv] lock_RLock_delete)
qed (use assms(3) in \<open>simp_all add: get_step_def\<close>)

lemma goto_lock_inv:
  assumes inv: "cache_inv build s" and l: "map_option (\<lambda>l. goto t p (with_lock l s)) r = Some s1"
    and "\<And>l. r = Some l \<Longrightarrow> lock_inv l ((ca_pc s)(t := p))" and "pc_ok build s p"
  shows "cache_inv build s1"
  using assms by (auto intro!: cache_inv_goto_lock [OF inv])

text \<open>The steps that change what is kept are made by the owner of the unique lock.\<close>

lemma others_not_unique:
  assumes "lock_inv l thread_pc" and "holds_unique (thread_pc t)" and "t' \<noteq> t"
  shows "\<not> holds_unique (thread_pc t') \<and> \<not> holds_shared (thread_pc t')"
proof -
  have "own_unique l = Some t" using assms(1,2) by (simp add: lock_inv_def)
  then show ?thesis using assms(1,3) by (auto simp: lock_inv_def)
qed

lemma insert_inv:
  assumes inv: "cache_inv build s" and thread_pc: "ca_pc s t = P_Loaded ds e0 c"
  shows "cache_inv build (goto t (P_Unlocking ds e0 (Some (ca_refreshes s, c)))
    (s\<lparr>ca_map := (ca_map s)(ds := Some (ca_refreshes s, c)),
       ca_built := (ca_built s)(ca_refreshes s := (ca_built s (ca_refreshes s))(ds := Some c))\<rparr>))"
    (is "cache_inv build (goto t ?p ?s)")
proof -
  note D = cache_invD [OF inv]
  have p: "e0 \<le> ca_refreshes s" "ca_map s ds = None" "\<exists>T. (ca_refreshes s, T) \<in> set (ca_history s) \<and> c = build (T ds)"
    using D(2) [of t] thread_pc by auto
  have fresh: "ca_built s (ca_refreshes s) ds = None" using D(3) p(2) by (simp add: map_ok_def)
  have entry: "entry_ok build ?s d ec" if "entry_ok build s d ec" for d ec
    using that fresh by (auto simp: entry_ok_def)
  then have result: "result_ok build ?s d e r" if "result_ok build s d e r" for d e r
    using that by (auto simp: result_ok_def)
  have new: "entry_ok build ?s ds (ca_refreshes s, c)" using p(3) by (auto simp: entry_ok_def)
  have "pc_ok build ?s (ca_pc s t')" if "t' \<noteq> t" for t'
    using D(2) [of t'] others_not_unique [OF D(1) _ that] thread_pc result by (cases "ca_pc s t'") auto
  moreover have "pc_ok build ?s ?p" using new p(1) by (simp add: result_ok_def)
  moreover have "map_ok build ?s" using D(3) entry new by (auto simp: map_ok_def)
  moreover have "lock_inv (ca_lock s) ((ca_pc s)(t := ?p))" using D(1) thread_pc by (auto intro!: lock_same)
  ultimately show ?thesis by (auto simp: cache_inv_def)
qed

lemma clear_inv:
  assumes inv: "cache_inv build s" and thread_pc: "ca_pc s t = C_Writing"
  shows "cache_inv build (goto t C_Unlocking
    (s\<lparr>ca_map := (\<lambda>_. None), ca_refreshes := ca_refreshes s + 1, ca_history := (ca_refreshes s + 1, ca_table s) # ca_history s\<rparr>))"
    (is "cache_inv build (goto t ?p ?s)")
proof -
  note D = cache_invD [OF inv]
  have "result_ok build ?s d e r" if "result_ok build s d e r" for d e r
    using that by (auto simp: result_ok_def entry_ok_def)
  then have "pc_ok build ?s (ca_pc s t')" if "t' \<noteq> t" for t'
    using D(2) [of t'] others_not_unique [OF D(1) _ that] thread_pc by (cases "ca_pc s t'") auto
  moreover have "map_ok build ?s" using D(3) by (auto simp: map_ok_def)
  moreover have "lock_inv (ca_lock s) ((ca_pc s)(t := ?p))" using D(1) thread_pc by (auto intro!: lock_same)
  ultimately show ?thesis by (auto simp: cache_inv_def)
qed

lemma update_inv:
  assumes inv: "cache_inv build s"
  shows "cache_inv build (table_update ds d s)"
proof -
  note D = cache_invD [OF inv]
  have entry: "entry_ok build (table_update ds d s) x ec" if "entry_ok build s x ec" for x ec
    using that by (auto simp: entry_ok_def table_update_def)
  then have "result_ok build (table_update ds d s) x e r" if "result_ok build s x e r" for x e r
    using that by (auto simp: result_ok_def)
  then have "pc_ok build (table_update ds d s) (ca_pc s t)" for t
    using D(2) [of t] by (cases "ca_pc s t") (auto simp: table_update_def)
  moreover have "map_ok build (table_update ds d s)"
    using D(3) entry by (auto simp: map_ok_def) (auto simp: table_update_def)
  ultimately show ?thesis using D(1) by (auto simp: cache_inv_def table_update_def)
qed


lemma create_step_inv:
  assumes ok: "shared_mutex_ok grant" and inv: "cache_inv build s" and "create_step grant build t s = Some s1"
  shows "cache_inv build s1"
proof (cases "ca_pc s t")
  case (P_Missed ds e0)
  show ?thesis
  proof (rule goto_lock_inv [OF inv])
    show "map_option (\<lambda>l. goto t (P_Upgraded ds e0) (with_lock l s)) (WLock_uglock grant t (ca_lock s)) = Some s1"
      using assms(3) P_Missed by (simp add: create_step_def)
  qed (use P_Missed cache_invD(1) [OF inv] cache_invD(2) [OF inv, of t] in \<open>auto intro!: lock_uglock [OF ok]\<close>)
next
  case (P_Upgraded ds e0)
  show ?thesis
  proof (rule goto_lock_inv [OF inv])
    show "map_option (\<lambda>l. goto t (P_Writing ds e0) (with_lock l s)) (WLock_unLock grant t (ca_lock s)) = Some s1"
      using assms(3) P_Upgraded by (simp add: create_step_def)
  qed (use P_Upgraded cache_invD(1) [OF inv] cache_invD(2) [OF inv, of t] in \<open>auto intro!: lock_unLock [OF ok]\<close>)
next
  case (P_Writing ds e0)
  then show ?thesis
    using assms(3) cache_invD(1,3) [OF inv] cache_invD(2) [OF inv, of t] map_entry [of build s e0 ds]
    by (auto simp: create_step_def split: option.splits intro!: cache_inv_goto [OF inv] lock_same)
next
  case (P_Loading ds e0)
  then show ?thesis
    using assms(3) cache_invD(1,3) [OF inv] cache_invD(2) [OF inv, of t]
    by (auto simp: create_step_def map_ok_def intro!: cache_inv_goto [OF inv] lock_same)
next
  case (P_Loaded ds e0 c)
  then show ?thesis using assms(3) insert_inv [OF inv P_Loaded] by (simp add: create_step_def)
next
  case (P_Unlocking ds e0 r)
  then show ?thesis
    using assms(3) cache_invD(1) [OF inv] cache_invD(2) [OF inv, of t]
    by (auto simp: create_step_def intro!: cache_inv_goto_lock [OF inv] lock_delete_unLock)
next
  case (P_Unlocked ds e0 r)
  then show ?thesis
    using assms(3) cache_invD(1) [OF inv] cache_invD(2) [OF inv, of t]
    by (auto simp: create_step_def split: option.splits intro!: cache_inv_goto_lock [OF inv] lock_delete_uglock)
qed (use assms(3) in \<open>simp_all add: create_step_def\<close>)

lemma clear_step_inv:
  assumes ok: "shared_mutex_ok grant" and inv: "cache_inv build s" and "clear_step grant t s = Some s1"
  shows "cache_inv build s1"
proof (cases "ca_pc s t")
  case C_Wait
  show ?thesis
  proof (rule goto_lock_inv [OF inv])
    show "map_option (\<lambda>l. goto t C_Upgraded (with_lock l s)) (WLock_uglock grant t (ca_lock s)) = Some s1"
      using assms(3) C_Wait by (simp add: clear_step_def)
  qed (use C_Wait cache_invD(1) [OF inv] in \<open>auto intro!: lock_uglock [OF ok]\<close>)
next
  case C_Upgraded
  show ?thesis
  proof (rule goto_lock_inv [OF inv])
    show "map_option (\<lambda>l. goto t C_Writing (with_lock l s)) (WLock_unLock grant t (ca_lock s)) = Some s1"
      using assms(3) C_Upgraded by (simp add: clear_step_def)
  qed (use C_Upgraded cache_invD(1) [OF inv] in \<open>auto intro!: lock_unLock [OF ok]\<close>)
next
  case C_Writing
  then show ?thesis using assms(3) clear_inv [OF inv C_Writing] by (simp add: clear_step_def)
next
  case C_Unlocking
  then show ?thesis
    using assms(3) cache_invD(1) [OF inv]
    by (auto simp: clear_step_def intro!: cache_inv_goto_lock [OF inv] lock_delete_unLock)
next
  case C_Unlocked
  then show ?thesis
    using assms(3) cache_invD(1) [OF inv]
    by (auto simp: clear_step_def intro!: cache_inv_goto_lock [OF inv] lock_delete_uglock)
qed (use assms(3) in \<open>simp_all add: clear_step_def\<close>)

lemma cache_step_inv:
  assumes ok: "shared_mutex_ok grant" and inv: "cache_inv build s" and step: "cache_step grant build m s = Some s1"
  shows "cache_inv build s1"
proof (cases m)
  case (CM_Get t)
  then show ?thesis using get_step_inv [OF ok inv] step by simp
next
  case (CM_Create t)
  then show ?thesis using create_step_inv [OF ok inv] step by simp
next
  case (CM_Clear t)
  then show ?thesis using clear_step_inv [OF ok inv] step by simp
next
  case (CM_Update ds d)
  then show ?thesis using update_inv [OF inv] step by auto
qed (use step cache_invD(1) [OF inv] in
    \<open>auto simp: start_match_def start_clear_def create_throw_def use_step_def split: thread_pc.splits intro!: cache_inv_goto [OF inv] lock_same\<close>)

lemma cache_new_inv: "cache_inv build (caches_new T)"
  by (simp add: cache_inv_def caches_new_def lock_inv_def map_ok_def)

lemma cache_reachable_inv: "cache_reachable grant build T s \<Longrightarrow> shared_mutex_ok grant \<Longrightarrow> cache_inv build s"
  by (induction rule: cache_reachable.induct) (simp_all add: cache_new_inv cache_step_inv)

section \<open>Somebody can go on\<close>

definition thread_step :: "shared_mutex \<Rightarrow> ('d \<Rightarrow> 'c) \<Rightarrow> nat \<Rightarrow> ('d, 'c) caches \<Rightarrow> ('d, 'c) caches option" where
  "thread_step grant build t s =
     (case get_step grant t s of
        Some s1 \<Rightarrow> Some s1
      | None \<Rightarrow>
          (case create_step grant build t s of
             Some s1 \<Rightarrow> Some s1
           | None \<Rightarrow> (case clear_step grant t s of Some s1 \<Rightarrow> Some s1 | None \<Rightarrow> use_step t s)))"

lemma holder_goes_on:
  assumes "holds_unique (ca_pc s t) \<or> holds_shared (ca_pc s t)"
  shows "thread_step grant build t s \<noteq> None"
  using assms by (cases "ca_pc s t") (auto simp: thread_step_def get_step_def create_step_def clear_step_def split: option.splits)

lemma somebody_goes_on:
  assumes ok: "shared_mutex_ok grant" and inv: "cache_inv build s" and busy: "ca_pc s t \<noteq> P_Idle"
  shows "\<exists>u. ca_pc s u \<noteq> P_Idle \<and> thread_step grant build u s \<noteq> None"
proof -
  note L = cache_invD(1) [OF inv, unfolded lock_inv_def]
  consider (holder) u where "holds_unique (ca_pc s u) \<or> holds_shared (ca_pc s u)"
    | (upgrader) u where "holds_upgrade (ca_pc s u)" "\<forall>v. \<not> holds_unique (ca_pc s v) \<and> \<not> holds_shared (ca_pc s v)"
    | (free) "\<forall>v. \<not> holds_unique (ca_pc s v) \<and> \<not> holds_shared (ca_pc s v) \<and> \<not> holds_upgrade (ca_pc s v)"
    by blast
  then show ?thesis
  proof cases
    case holder
    then have "ca_pc s u \<noteq> P_Idle" by auto
    then show ?thesis using holder_goes_on [OF holder] by blast
  next
    case upgrader
    have "own_unique (ca_lock s) = None" using L upgrader(2) by (cases "own_unique (ca_lock s)") auto
    moreover have "own_shared (ca_lock s) = {}" using L upgrader(2) by simp
    ultimately have "grant (ca_lock s) (Upgrade_to_unique u)" using L upgrader(1) by (intro grant_must [OF ok]) simp
    then have "thread_step grant build u s \<noteq> None"
      using upgrader
      by (cases "ca_pc s u")
        (auto simp: thread_step_def get_step_def create_step_def clear_step_def WLock_unLock_def split: option.splits)
    moreover have "ca_pc s u \<noteq> P_Idle" using upgrader(1) by auto
    ultimately show ?thesis by blast
  next
    case free
    have l: "own_unique (ca_lock s) = None" "own_upgrade (ca_lock s) = None" "own_shared (ca_lock s) = {}"
      using L free by (cases "own_unique (ca_lock s)"; cases "own_upgrade (ca_lock s)"; auto)+
    then have g: "grant (ca_lock s) (Shared t)" "grant (ca_lock s) (Upgrade t)" by (auto intro!: grant_must [OF ok])
    have "thread_step grant build t s \<noteq> None"
      using busy spec [OF free, of t] g
      by (cases "ca_pc s t")
        (auto simp: thread_step_def get_step_def create_step_def clear_step_def use_step_def RLock_new_def WLock_uglock_def
          split: option.splits)
    then show ?thesis using busy by blast
  qed
qed


section \<open>What a match sees\<close>

fun cache_run :: "shared_mutex \<Rightarrow> ('d \<Rightarrow> 'c) \<Rightarrow> 'd cache_move list \<Rightarrow> ('d, 'c) caches \<Rightarrow> ('d, 'c) caches option" where
  "cache_run grant build [] s = Some s"
| "cache_run grant build (m # ms) s = Option.bind (cache_step grant build m s) (cache_run grant build ms)"

lemma cache_run_reachable:
  "cache_reachable grant build T s \<Longrightarrow> cache_run grant build ms s = Some s1 \<Longrightarrow> cache_reachable grant build T s1"
  by (induction ms arbitrary: s) (auto simp: bind_eq_Some_conv intro: cache_move)

text \<open>
  C21 (safety). No stale cache: in every interleaving of matches, refreshes and changes of the tables, the cache a match looks its member up in
  was built from its table as it was at some moment after every refresh that had been completed when the match
  began. Between two refreshes a table is loaded into a cache once, so all matches on it then see the same rows; and while a
  cache is added or the caches are cleared nobody else reads or writes them.
\<close>

theorem caches_fresh:
  assumes grant: "shared_mutex_ok grant" and s: "cache_reachable grant exact_cache_of T s" and use: "ca_pc s t = P_Use ds e0 (e, c)"
  shows "e0 \<le> e \<and> e \<le> ca_refreshes s \<and> (\<exists>T1. (e, T1) \<in> set (ca_history s) \<and> c = exact_cache_of (T1 ds)) \<and>
    (\<forall>u e1 c1. ca_pc s u = P_Use ds e1 (e, c1) \<longrightarrow> c1 = c) \<and>
    (\<forall>u v. own_unique (ca_lock s) = Some u \<and> holds_shared (ca_pc s v) \<longrightarrow> False) \<and>
    (\<forall>u v. holds_unique (ca_pc s u) \<and> holds_unique (ca_pc s v) \<longrightarrow> u = v)"
proof -
  note inv = cache_reachable_inv [OF s grant]
  have r: "e0 \<le> e" "entry_ok exact_cache_of s ds (e, c)"
    using cache_invD(2) [OF inv, of t] use by (simp_all add: result_ok_def)
  have "c1 = c" if "ca_pc s u = P_Use ds e1 (e, c1)" for u e1 c1
    using cache_invD(2) [OF inv, of u] that r(2) by (simp add: result_ok_def entry_ok_def)
  moreover have "\<not> holds_shared (ca_pc s v)" if "own_unique (ca_lock s) = Some u" for u v
    using cache_invD(1) [OF inv] that by (auto simp: lock_inv_def)
  moreover have "u = v" if "holds_unique (ca_pc s u)" "holds_unique (ca_pc s v)" for u v
    using others_not_unique [OF cache_invD(1) [OF inv] that(1), of v] that(2) by auto
  ultimately show ?thesis using r by (auto simp: entry_ok_def)
qed

definition same_row :: "nat \<Rightarrow> (string \<times> string) list" where
  "same_row ds = [(''10.0.0.1'', ''ok'')]"

lemmas cache_eval =
  caches_new_def start_match_def start_clear_def get_step_def create_step_def clear_step_def use_step_def goto_def with_lock_def
  table_update_def RLock_new_def RLock_delete_def WLock_uglock_def WLock_unLock_def WLock_delete_unLock_def WLock_delete_uglock_def

lemma may_own_ok: "shared_mutex_ok may_own"
  unfolding shared_mutex_ok_def by (intro allI) (rename_tac l r, case_tac r; simp)

theorem caches_fresh_witness:
  "\<exists>s. cache_reachable may_own exact_cache_of same_row s \<and> ca_pc s 0 = P_Use 7 1 (1, exact_cache_of (same_row 7)) \<and> ca_refreshes s = 1 \<and>
     (\<exists>T1. (1, T1) \<in> set (ca_history s) \<and> exact_cache_of (same_row 7) = exact_cache_of (T1 7))"
proof -
  let ?ms = "[CM_Refresh 1, CM_Clear 1, CM_Clear 1, CM_Clear 1, CM_Clear 1, CM_Clear 1, CM_Match 0 7, CM_Get 0, CM_Get 0, CM_Get 0,
    CM_Create 0, CM_Create 0, CM_Create 0, CM_Create 0, CM_Create 0, CM_Create 0, CM_Create 0] :: (string \<times> string) list cache_move list"
  have "\<exists>s. cache_run may_own exact_cache_of ?ms (caches_new same_row) = Some s \<and>
      ca_pc s 0 = P_Use 7 1 (1, exact_cache_of (same_row 7)) \<and> ca_refreshes s = 1"
    by (simp add: cache_eval)
  then obtain s where r: "cache_reachable may_own exact_cache_of same_row s"
      and u: "ca_pc s 0 = P_Use 7 1 (1, exact_cache_of (same_row 7))" and e: "ca_refreshes s = 1"
    using cache_run_reachable [OF cache_start] by blast
  from caches_fresh [OF may_own_ok r u] r u e show ?thesis by blast
qed

text \<open>
  C22 (liveness). No deadlock on the caches: in every state that can be reached, if some thread is in a match or a refresh, then some such thread can take its next step;
  nobody waits for a lock that nobody will give back.
\<close>

theorem caches_no_deadlock:
  assumes "shared_mutex_ok grant" and "cache_reachable grant build T s" and "ca_pc s t \<noteq> P_Idle"
  shows "\<exists>u. ca_pc s u \<noteq> P_Idle \<and> thread_step grant build u s \<noteq> None"
  using somebody_goes_on [OF assms(1) cache_reachable_inv [OF assms(2,1)] assms(3)] .

theorem caches_no_deadlock_witness:
  "\<exists>s. cache_reachable may_own exact_cache_of same_row s \<and> ca_pc s 0 = P_Get 7 0 \<and>
     (\<exists>u. ca_pc s u \<noteq> P_Idle \<and> thread_step may_own exact_cache_of u s \<noteq> None)"
proof -
  have "\<exists>s. cache_run may_own exact_cache_of [CM_Match 0 7] (caches_new same_row) = Some s \<and> ca_pc s 0 = P_Get 7 0"
    by (simp add: cache_eval)
  then obtain s where r: "cache_reachable may_own exact_cache_of same_row s" and g: "ca_pc s 0 = P_Get 7 0"
    using cache_run_reachable [OF cache_start] by blast
  have "ca_pc s 0 \<noteq> P_Idle" using g by simp
  from caches_no_deadlock [OF may_own_ok r this] r g show ?thesis by blast
qed

end
