(* ===== verification/Enum_Set.thy ===== *)
theory Enum_Set
  imports Std_Map Utils
begin

unbundle bit_operations_syntax

text \<open>
  \<open>src/src/dbiwrapped-0.0.1/enum_t.cpp\<close> and \<open>set_t.cpp\<close>: the values of ENUM and SET columns.
  Both refer to a map from names to numbers that belongs to the caller; reading a name that it
  does not have with \<open>operator[]\<close> adds it with the number 0, so the map is part of the state.
\<close>

definition smap_at :: "'k::linorder \<Rightarrow> 'v \<Rightarrow> ('k, 'v) stdmap \<Rightarrow> 'v \<times> ('k, 'v) stdmap" where
  "smap_at k d m = (case smap_find m k of None \<Rightarrow> (d, smap_insert k d m) | Some v \<Rightarrow> (v, m))"

text \<open>\<open>strcasecmp\<close> of two C strings is 0.\<close>

definition strcasecmp_eq :: "string \<Rightarrow> string \<Rightarrow> bool" where
  "strcasecmp_eq a b \<longleftrightarrow> map tolower (c_str a) = map tolower (c_str b)"

section \<open>enum_t\<close>

record enum_t =
  en_mmap :: "(string, 64 word) stdmap"
  en_vmap :: "(16 word, string) stdmap"
  en_value :: "16 word"

definition fill_vmap :: "(string, 64 word) stdmap \<Rightarrow> (16 word, string) stdmap \<Rightarrow> (16 word, string) stdmap" where
  "fill_vmap ref vmap = fold (\<lambda>(str, val) m. smap_set (ucast val) str m) ref vmap"

definition enum_new :: "(string, 64 word) stdmap \<Rightarrow> enum_t" where
  "enum_new ref = \<lparr>en_mmap = ref, en_vmap = fill_vmap ref [], en_value = 0\<rparr>"

definition enum_assign :: "string \<Rightarrow> enum_t \<Rightarrow> enum_t" where
  "enum_assign str e = (case smap_at str 0 (en_mmap e) of (v, m) \<Rightarrow> e\<lparr>en_mmap := m, en_value := ucast v\<rparr>)"

definition enum_assign_num :: "16 word \<Rightarrow> enum_t \<Rightarrow> enum_t" where
  "enum_assign_num s e = e\<lparr>en_value := s\<rparr>"

definition enum_String :: "enum_t \<Rightarrow> string \<times> enum_t" where
  "enum_String e =
     (let vmap = (if length (en_vmap e) \<noteq> length (en_mmap e) then fill_vmap (en_mmap e) (en_vmap e) else en_vmap e)
      in case smap_at (en_value e) [] vmap of (str, vmap') \<Rightarrow> (str, e\<lparr>en_vmap := vmap'\<rparr>))"

definition enum_Value :: "enum_t \<Rightarrow> 16 word" where
  "enum_Value e = en_value e"

definition enum_eq :: "enum_t \<Rightarrow> string \<Rightarrow> bool \<times> enum_t" where
  "enum_eq e str = (case enum_String e of (s, e') \<Rightarrow> (strcasecmp_eq s str, e'))"

definition enum_eq_num :: "enum_t \<Rightarrow> 16 word \<Rightarrow> bool" where
  "enum_eq_num e s \<longleftrightarrow> en_value e = s"

definition enum_ne :: "enum_t \<Rightarrow> string \<Rightarrow> bool \<times> enum_t" where
  "enum_ne e str = (case enum_String e of (s, e') \<Rightarrow> (\<not> strcasecmp_eq s str, e'))"

section \<open>set_t\<close>

record set_t =
  st_mmap :: "(string, 64 word) stdmap"
  st_value :: "64 word"
  st_strvalue :: string

definition set_new :: "(string, 64 word) stdmap \<Rightarrow> set_t" where
  "set_new ref = \<lparr>st_mmap = ref, st_value = 0, st_strvalue = []\<rparr>"

text \<open>
  The loop over a list of names that \<open>operator=\<close>, \<open>operator+=\<close> and \<open>operator-=\<close> share; \<open>piece\<close> is
  the part since the last comma.
\<close>

definition set_piece :: "(64 word \<Rightarrow> 64 word \<Rightarrow> 64 word) \<Rightarrow> string \<Rightarrow> set_t \<Rightarrow> set_t" where
  "set_piece f piece s = (case smap_at piece 0 (st_mmap s) of (b, m) \<Rightarrow> s\<lparr>st_mmap := m, st_value := f (st_value s) b\<rparr>)"

fun set_loop :: "(64 word \<Rightarrow> 64 word \<Rightarrow> 64 word) \<Rightarrow> string \<Rightarrow> string \<Rightarrow> set_t \<Rightarrow> set_t" where
  "set_loop f [] piece s = set_piece f piece s"
| "set_loop f (c # cs) piece s =
     (if c = CHR '','' then set_loop f cs [] (set_piece f piece s) else set_loop f cs (piece @ [c]) s)"

definition set_assign :: "string \<Rightarrow> set_t \<Rightarrow> set_t" where
  "set_assign str s = set_loop (OR) str [] (s\<lparr>st_value := 0\<rparr>)"

definition set_assign_num :: "64 word \<Rightarrow> set_t \<Rightarrow> set_t" where
  "set_assign_num v s = s\<lparr>st_value := v\<rparr>"

definition set_or :: "64 word \<Rightarrow> set_t \<Rightarrow> set_t" where
  "set_or v s = s\<lparr>st_value := st_value s OR v\<rparr>"

definition set_and :: "64 word \<Rightarrow> set_t \<Rightarrow> set_t" where
  "set_and v s = s\<lparr>st_value := st_value s AND v\<rparr>"

definition set_String :: "set_t \<Rightarrow> string \<times> set_t" where
  "set_String s =
     (let str = fold (\<lambda>(tmp, b) str. if st_value s AND b \<noteq> 0 then (if str \<noteq> [] then str @ '','' else str) @ tmp else str)
                  (st_mmap s) []
      in (str, s\<lparr>st_strvalue := str\<rparr>))"

definition set_Value :: "set_t \<Rightarrow> 64 word" where
  "set_Value s = st_value s"

definition in_set :: "string \<Rightarrow> set_t \<Rightarrow> bool \<times> set_t" where
  "in_set str s = (case smap_at str 0 (st_mmap s) of (b, m) \<Rightarrow> (st_value s AND b \<noteq> 0, s\<lparr>st_mmap := m\<rparr>))"

definition set_add :: "string \<Rightarrow> set_t \<Rightarrow> set_t" where
  "set_add str s = set_loop (OR) str [] s"

definition set_remove :: "string \<Rightarrow> set_t \<Rightarrow> set_t" where
  "set_remove str s = set_loop (\<lambda>v b. v AND NOT b) str [] s"

section \<open>A name of an ENUM comes back\<close>

lemma smap_at_find: "smap_find m k = Some v \<Longrightarrow> smap_at k d m = (v, m)"
  by (simp add: smap_at_def)

lemma fill_vmap_find:
  assumes "smap_ok vmap" and "distinct (map (\<lambda>(n, v). ucast v :: 16 word) ref)"
  shows "smap_ok (fill_vmap ref vmap) \<and> smap_find (fill_vmap ref vmap) = smap_find vmap ++ map_of (map (\<lambda>(n, v). (ucast v, n)) ref)"
  using assms
proof (induction ref arbitrary: vmap)
  case (Cons e ref)
  obtain n v where e: "e = (n, v)" by fastforce
  have "(ucast v :: 16 word) \<notin> dom (map_of (map (\<lambda>(n, v). (ucast v, n)) ref))"
    using Cons.prems(2) by (simp add: e dom_map_of_conv_image_fst image_image split_def)
  with Cons.IH [of "smap_set (ucast v) n vmap"] Cons.prems show ?case
    by (auto simp: e fill_vmap_def smap_find_set fun_eq_iff map_add_def domIff split: option.split)
qed (simp add: fill_vmap_def)

lemma enum_new_String:
  assumes "smap_ok ref" and "distinct (map (\<lambda>(n, v). ucast v :: 16 word) ref)" and "(str, val) \<in> set ref"
  shows "enum_String ((enum_new ref)\<lparr>en_value := ucast val\<rparr>) = (str, (enum_new ref)\<lparr>en_value := ucast val\<rparr>)"
proof -
  have fill: "smap_ok (fill_vmap ref m) \<and> smap_find (fill_vmap ref m) (ucast val) = Some str" if "smap_ok m" for m
  proof -
    have "map_of (map (\<lambda>(n, v). (ucast v :: 16 word, n)) ref) (ucast val) = Some str"
      using assms(2,3) by (intro map_of_is_SomeI) (force simp: comp_def split_def)+
    with fill_vmap_find [OF that assms(2)] show ?thesis by (simp add: map_add_def)
  qed
  have same: "fill_vmap ref (fill_vmap ref []) = fill_vmap ref []" if "length (fill_vmap ref []) \<noteq> length ref"
  proof -
    have "set (map fst (fill_vmap ref [])) = dom (smap_find (fill_vmap ref []))" by (simp add: dom_map_of_conv_image_fst)
    also have "\<dots> = (\<lambda>(n, v). ucast v) ` set ref"
      using fill_vmap_find [of "[]" ref] assms(2) by (force simp: dom_map_of_conv_image_fst)
    finally have "card (set (map fst (fill_vmap ref []))) = card ((\<lambda>(n, v). ucast v :: 16 word) ` set ref)" by simp
    moreover have "card ((\<lambda>(n, v). ucast v :: 16 word) ` set ref) = length ref"
      using distinct_card [OF assms(2)] by simp
    moreover have "distinct (map fst (fill_vmap ref []))"
      using fill [of "[]"] by (simp add: smap_ok_def strict_sorted_iff)
    ultimately have "length (fill_vmap ref []) = length ref" using distinct_card [of "map fst (fill_vmap ref [])"] by simp
    with that show ?thesis by simp
  qed
  show ?thesis
    using fill [of "[]"] same by (auto simp: enum_String_def enum_new_def smap_at_def Let_def)
qed

text \<open>
  A name of an ENUM assigned to a value is the text of the value, and compares equal
  to it, as long as the numbers of the names differ in the 16 bits the value has.
\<close>

theorem enum_roundtrip:
  assumes "smap_ok ref" and "distinct (map (\<lambda>(n, v). ucast v :: 16 word) ref)" and "str \<in> set (map fst ref)"
  shows "fst (enum_String (enum_assign str (enum_new ref))) = str \<and> fst (enum_eq (enum_assign str (enum_new ref)) str) \<and>
    en_mmap (enum_assign str (enum_new ref)) = ref"
proof -
  obtain val where val: "(str, val) \<in> set ref" using assms(3) by auto
  then have "smap_find ref str = Some val" using smap_find_iff_mem [OF assms(1)] by simp
  then have "enum_assign str (enum_new ref) = (enum_new ref)\<lparr>en_value := ucast val\<rparr>"
    by (simp add: enum_assign_def smap_at_find enum_new_def)
  with enum_new_String [OF assms(1,2) val] show ?thesis by (simp add: enum_eq_def strcasecmp_eq_def) (simp add: enum_new_def)
qed

theorem enum_roundtrip_witness: "fst (enum_String (enum_assign ''b'' (enum_new [(''a'', 1), (''b'', 2)]))) = ''b''"
  using enum_roundtrip [of "[(''a'', 1), (''b'', 2)]" "''b''"] by simp

section \<open>The text of a SET comes back\<close>

fun join_names :: "string list \<Rightarrow> string" where
  "join_names [] = []"
| "join_names [n] = n"
| "join_names (n # ns) = n @ '','' @ join_names ns"

lemma join_names_Cons: "join_names (n # ns) = n @ concat (map (\<lambda>m. '','' @ m) ns)"
  by (induction ns arbitrary: n) auto

lemma set_String_join:
  assumes "\<forall>n \<in> set (map fst (st_mmap s)). n \<noteq> []"
  shows "fst (set_String s) = join_names (map fst (filter (\<lambda>(n, b). st_value s AND b \<noteq> 0) (st_mmap s)))"
proof -
  define step where "step = (\<lambda>(tmp, b) str. if st_value s AND b \<noteq> 0 then (if str \<noteq> [] then str @ '','' else str) @ tmp else str)"
  have more: "fold step m str = str @ concat (map (\<lambda>n. '','' @ n) (map fst (filter (\<lambda>(n, b). st_value s AND b \<noteq> 0) m)))"
    if "str \<noteq> []" for m str
    using that by (induction m arbitrary: str) (auto simp: step_def)
  have "fold step m [] = join_names (map fst (filter (\<lambda>(n, b). st_value s AND b \<noteq> 0) m))"
    if "\<forall>n \<in> set (map fst m). n \<noteq> []" for m
    using that
  proof (induction m)
    case (Cons e m)
    obtain n b where e: "e = (n, b)" by fastforce
    show ?case
    proof (cases "st_value s AND b \<noteq> 0")
      case True
      have "n \<noteq> []" using Cons.prems by (simp add: e)
      with True have "fold step (e # m) [] = fold step m n" by (simp add: e step_def)
      with more [OF \<open>n \<noteq> []\<close>, of m] True show ?thesis by (simp add: e join_names_Cons)
    next
      case False
      with Cons show ?thesis by (simp add: e step_def)
    qed
  qed simp
  then show ?thesis using assms by (simp add: set_String_def step_def [symmetric] Let_def)
qed

lemma set_loop_name: "CHR '','' \<notin> set n \<Longrightarrow> set_loop f (n @ cs) piece s = set_loop f cs (piece @ n) s"
  by (induction n arbitrary: piece) auto

lemma set_loop_names:
  assumes "list_all (\<lambda>n. CHR '','' \<notin> set n \<and> smap_find (st_mmap s) n \<noteq> None) (n # ns)"
  shows "set_loop f (join_names (n # ns)) [] s = s\<lparr>st_value := fold (\<lambda>n v. f v (the (smap_find (st_mmap s) n))) (n # ns) (st_value s)\<rparr>"
  using assms
proof (induction ns arbitrary: n s)
  case Nil
  then show ?case using set_loop_name [of n f "[]" "[]" s] by (auto simp: set_piece_def smap_at_def)
next
  case (Cons m ns)
  obtain b where b: "smap_find (st_mmap s) n = Some b" using Cons.prems by auto
  have "set_loop f (join_names (n # m # ns)) [] s = set_loop f (join_names (m # ns)) [] (set_piece f n s)"
    using set_loop_name [of n f "CHR '','' # join_names (m # ns)" "[]" s] Cons.prems by simp
  also have "set_piece f n s = s\<lparr>st_value := f (st_value s) b\<rparr>" using b by (simp add: set_piece_def smap_at_find)
  finally show ?case using Cons.IH [of "s\<lparr>st_value := f (st_value s) b\<rparr>" m] Cons.prems b by simp
qed

lemma fold_or_bit: "bit (fold (\<lambda>n v. v OR g n) ns x) i \<longleftrightarrow> bit (x :: 64 word) i \<or> (\<exists>n \<in> set ns. bit (g n) i)"
  by (induction ns arbitrary: x) (auto simp: bit_or_iff)

text \<open>A SET whose names are not empty, hold no comma and stand for one bit each, and a value with no other bits.\<close>

definition set_ok :: "set_t \<Rightarrow> bool" where
  "set_ok s \<longleftrightarrow> smap_ok (st_mmap s) \<and>
     list_all (\<lambda>(n, b). n \<noteq> [] \<and> CHR '','' \<notin> set n \<and> b \<in> set (map (\<lambda>i. 2 ^ i) [0..<64])) (st_mmap s) \<and>
     st_value s AND NOT (fold (\<lambda>(n, b) v. v OR b) (st_mmap s) 0) = 0"

lemma single_bit: "bit (2 ^ i :: 64 word) j \<longleftrightarrow> i = j \<and> j < 64"
  by (auto simp: bit_exp_iff)

lemma and_single_bit: "(v :: 64 word) AND 2 ^ i = 0 \<longleftrightarrow> \<not> (bit v i \<and> i < 64)"
  by (auto simp: bit_eq_iff [where 'a = "64 word"] bit_and_iff single_bit)

lemma set_value_names:
  assumes "set_ok s"
  defines "on \<equiv> map fst (filter (\<lambda>(n, b). st_value s AND b \<noteq> 0) (st_mmap s))"
  shows "fold (\<lambda>n v. v OR the (smap_find (st_mmap s) n)) on 0 = st_value s"
proof (rule bit_eqI)
  fix i
  have find: "(n, b) \<in> set (st_mmap s) \<Longrightarrow> smap_find (st_mmap s) n = Some b" for n b
    using assms(1) smap_find_iff_mem [of "st_mmap s"] by (auto simp: set_ok_def)
  have one: "\<exists>k < 64. b = 2 ^ k" if "(n, b) \<in> set (st_mmap s)" for n b
    using assms(1) that by (fastforce simp: set_ok_def list_all_iff)
  have all: "\<exists>(n, b) \<in> set (st_mmap s). bit b i" if "bit (st_value s) i"
  proof -
    have "\<not> bit (st_value s AND NOT (fold (\<lambda>(n, b) v. v OR b) (st_mmap s) 0)) i" using assms(1) by (simp add: set_ok_def)
    with that have "bit (fold (\<lambda>(n, b) v. v OR b) (st_mmap s) (0 :: 64 word)) i"
      by (auto simp: bit_and_iff bit_not_iff dest: bit_imp_le_length)
    then show ?thesis using fold_or_bit [of snd "st_mmap s" 0 i] by (auto simp: split_def)
  qed
  have "bit (fold (\<lambda>n v. v OR the (smap_find (st_mmap s) n)) on 0) i \<longleftrightarrow> (\<exists>n \<in> set on. bit (the (smap_find (st_mmap s) n)) i)"
    by (simp add: fold_or_bit)
  also have "\<dots> \<longleftrightarrow> (\<exists>(n, b) \<in> set (st_mmap s). st_value s AND b \<noteq> 0 \<and> bit b i)"
    using find by (force simp: on_def)
  also have "\<dots> \<longleftrightarrow> bit (st_value s) i"
  proof
    assume "\<exists>(n, b) \<in> set (st_mmap s). st_value s AND b \<noteq> 0 \<and> bit b i"
    then obtain n b where b: "(n, b) \<in> set (st_mmap s)" "st_value s AND b \<noteq> 0" "bit b i" by auto
    with one [OF b(1)] show "bit (st_value s) i" by (auto simp: and_single_bit single_bit)
  next
    assume v: "bit (st_value s) i"
    then obtain n b where b: "(n, b) \<in> set (st_mmap s)" "bit b i" using all by auto
    with one [OF b(1)] v show "\<exists>(n, b) \<in> set (st_mmap s). st_value s AND b \<noteq> 0 \<and> bit b i"
      by (intro bexI [OF _ b(1)]) (auto simp: and_single_bit single_bit)
  qed
  finally show "bit (fold (\<lambda>n v. v OR the (smap_find (st_mmap s) n)) on 0) i \<longleftrightarrow> bit (st_value s) i" .
qed

text \<open>
  The text of a SET, assigned to a SET over the same names, gives its value
  back; and the names stay as they are, unless the value is empty: reading the empty text then
  adds an empty name.
\<close>

theorem set_roundtrip:
  assumes "set_ok s" and "st_mmap s' = st_mmap s"
  shows "st_value (set_assign (fst (set_String s)) s') = st_value s \<and>
    (st_value s \<noteq> 0 \<longrightarrow> st_mmap (set_assign (fst (set_String s)) s') = st_mmap s) \<and>
    (st_value s = 0 \<longrightarrow> smap_find (st_mmap (set_assign (fst (set_String s)) s')) [] = Some 0)"
proof -
  let ?on = "map fst (filter (\<lambda>(n, b). st_value s AND b \<noteq> 0) (st_mmap s))"
  have shown: "fst (set_String s) = join_names ?on"
    using assms(1) by (intro set_String_join) (auto simp: set_ok_def list_all_iff)
  have names: "list_all (\<lambda>n. CHR '','' \<notin> set n \<and> smap_find (st_mmap (s'\<lparr>st_value := 0\<rparr>)) n \<noteq> None) ?on"
    using assms by (force simp: set_ok_def list_all_iff map_of_eq_None_iff)
  note v = set_value_names [OF assms(1)]
  show ?thesis
  proof (cases ?on)
    case Nil
    with v have zero: "st_value s = 0" by simp
    have "[] \<notin> set (map fst (st_mmap s))" using assms(1) by (auto simp: set_ok_def list_all_iff)
    then have "smap_find (st_mmap s) [] = None" by (simp add: map_of_eq_None_iff)
    with zero assms show ?thesis
      by (simp add: shown Nil set_assign_def set_piece_def smap_at_def set_ok_def smap_find_insert)
  next
    case (Cons n ns)
    have "set_assign (fst (set_String s)) s' = s'\<lparr>st_value := st_value s\<rparr>"
      using set_loop_names [OF names [unfolded Cons], of "(OR)"] v assms(2)
      by (simp add: shown Cons set_assign_def)
    moreover have "st_value s \<noteq> 0" using Cons by (metis (mono_tags, lifting) and_zero_eq case_prod_unfold filter_False list.distinct(1) map_is_Nil_conv zero_and_eq)
    ultimately show ?thesis using assms(2) by simp
  qed
qed

theorem set_roundtrip_witness:
  "st_value (set_assign ''a,c'' (set_new [(''a'', 1), (''b'', 2), (''c'', 4)])) = 5"
proof -
  let ?s = "(set_new [(''a'', 1), (''b'', 2), (''c'', 4)])\<lparr>st_value := 5\<rparr>"
  have "smap_ok [(''a'', 1), (''b'', 2), (''c'', 4 :: 64 word)]" by code_simp
  moreover have "2 ^ i \<in> (^) (2 :: 64 word) ` {0..<64 :: nat}" if "i < 64" for i using that by simp
  from this [of 0] this [of 1] this [of 2] have "{1, 2, 4} \<subseteq> (^) (2 :: 64 word) ` {0..<64 :: nat}" by simp
  ultimately have "set_ok ?s" by (simp add: set_ok_def set_new_def)
  moreover have "fst (set_String ?s) = ''a,c''" by (simp add: set_String_def set_new_def Let_def)
  ultimately show ?thesis using set_roundtrip [of ?s "set_new [(''a'', 1), (''b'', 2), (''c'', 4)]"] by (simp add: set_new_def)
qed

text \<open>
  Adding a name makes it a member, removing it ends that, when the name stands for some bit.
\<close>

theorem set_add_remove:
  assumes "CHR '','' \<notin> set n" and "smap_find (st_mmap s) n = Some b" and "b \<noteq> 0"
  shows "fst (in_set n (set_add n s)) \<and> \<not> fst (in_set n (set_remove n s))"
proof -
  have "set_loop f n [] s = s\<lparr>st_value := f (st_value s) b\<rparr>" for f
    using set_loop_name [of n f "[]" "[]" s] assms(1,2) by (simp add: set_piece_def smap_at_find)
  then show ?thesis
    using assms(3)
    by (simp add: set_add_def set_remove_def in_set_def smap_at_find [OF assms(2)] bit_eq_iff bit_simps) blast
qed

end
