(* ===== verification/Cache_Table.thy ===== *)
theory Cache_Table
  imports Std_Map
begin

text \<open>
  \<open>src/src/cache.h\<close>: an earlier cache, a data source that reads the whole table of another once and
  answers from memory. The query on the source below is a parameter: the rows it delivers, the
  number of its columns, and the number of rows it announces.
\<close>

type_synonym Row = "string list"
type_synonym Index = "(string, 32 word) stdmap"

datatype StateType = Init | First | Iterating | End

record source_result =
  src_rows :: "Row list"
  src_cols :: nat
  src_numRows :: nat

record Cache =
  ca_tablename :: string
  ca_index :: "Index option"
  ca_data :: "Row list option"
  ca_returnfields :: "string list"
  ca_whereclauses :: "(string \<times> string) list"

definition Cache_new :: "string \<Rightarrow> Cache" where
  "Cache_new table = \<lparr>ca_tablename = table, ca_index = None, ca_data = None, ca_returnfields = [], ca_whereclauses = []\<rparr>"

definition cache_addReturnField :: "string \<Rightarrow> Cache \<Rightarrow> Cache" where
  "cache_addReturnField f c = c\<lparr>ca_returnfields := ca_returnfields c @ [f]\<rparr>"

definition cache_addWhere :: "string \<Rightarrow> string \<Rightarrow> string \<Rightarrow> Cache \<Rightarrow> Cache" where
  "cache_addWhere field val op c = c\<lparr>ca_whereclauses := ca_whereclauses c @ [(field, val)]\<rparr>"

section \<open>Reading the table\<close>

text \<open>
  The loop over the rows: the index has the text of column \<open>indexIdx\<close>, when there is an index; the
  number of the row is its count. \<open>getString(i + 1)\<close> beyond the columns of a row is not defined.
\<close>

fun init_rows :: "nat \<Rightarrow> nat \<Rightarrow> nat \<Rightarrow> nat \<Rightarrow> Row list \<Rightarrow> Index option \<Rightarrow> Row list \<Rightarrow> exn + Index option \<times> Row list" where
  "init_rows numRows cols indexIdx count [] index data = Inr (index, data)"
| "init_rows numRows cols indexIdx count (r # rows) index data =
     (if \<not> count < numRows then Inl (Undefined ''assert(count < query->numRows())'')
      else if length r < cols then Inl (Undefined ''getString'')
      else init_rows numRows cols indexIdx (count + 1) rows
             (if indexIdx < cols then map_option (smap_insert (r ! indexIdx) (of_nat count)) index else index)
             (data @ [take cols r]))"

definition initCache :: "source_result \<Rightarrow> Cache \<Rightarrow> exn + Cache" where
  "initCache src c =
     (if ca_data c \<noteq> None then Inr c
      else let nowhere = ca_whereclauses c = [] in
        case init_rows (src_numRows src) (src_cols src) (if nowhere then src_cols src else 0) 0 (src_rows src)
               (if nowhere then None else Some []) [] of
          Inl e \<Rightarrow> Inl e
        | Inr (index, data) \<Rightarrow> Inr (c\<lparr>ca_index := index, ca_data := Some data\<rparr>))"

section \<open>The query\<close>

record CacheQuery =
  cq_row :: "32 word"
  cq_num :: "32 word"
  cq_state :: StateType

definition CacheQuery_new :: CacheQuery where
  "CacheQuery_new = \<lparr>cq_row = 0, cq_num = 0, cq_state = Init\<rparr>"

text \<open>A value that is not in the index gives the end iterator, which is then read.\<close>

definition cache_lookup :: "Cache \<Rightarrow> exn + CacheQuery" where
  "cache_lookup c =
     (case (ca_index c, ca_whereclauses c) of
        (Some index, w # ws) \<Rightarrow>
          (case smap_find index (snd w) of
             None \<Rightarrow> Inl (Undefined ''(*itr).second at end'')
           | Some row \<Rightarrow> Inr \<lparr>cq_row = row, cq_num = 1, cq_state = First\<rparr>)
      | _ \<Rightarrow>
          (case ca_data c of
             None \<Rightarrow> Inl (Undefined ''_data->size()'')
           | Some data \<Rightarrow> Inr \<lparr>cq_row = 0, cq_num = of_nat (length data), cq_state = First\<rparr>))"

text \<open>In the state \<^const>\<open>Init\<close> and after a step over the rows the function ends without a value.\<close>

definition cache_fetchRow :: "CacheQuery \<Rightarrow> (exn + bool) \<times> CacheQuery" where
  "cache_fetchRow q =
     (case cq_state q of
        End \<Rightarrow> (Inr False, q)
      | First \<Rightarrow> (Inr True, q\<lparr>cq_state := Iterating\<rparr>)
      | Iterating \<Rightarrow>
          if cq_num q = 1 then (Inr True, q\<lparr>cq_state := End\<rparr>)
          else (Inl (Undefined ''_fetchRow''),
                if cq_row q < cq_num q - 1 then q\<lparr>cq_row := cq_row q + 1\<rparr> else q\<lparr>cq_state := End\<rparr>)
      | Init \<Rightarrow> (Inl (Undefined ''_fetchRow''), q))"

definition cache_getString :: "Cache \<Rightarrow> 32 word \<Rightarrow> 32 word \<Rightarrow> exn + string" where
  "cache_getString c row idx =
     (case ca_data c of
        None \<Rightarrow> Inl (Undefined ''_data->at'')
      | Some data \<Rightarrow>
          if \<not> unat row < length data then Inl (OutOfRange ''vector'')
          else if \<not> unat (idx - 1) < length (data ! unat row) then Inl (Undefined ''operator[]'')
          else Inr (data ! unat row ! unat (idx - 1)))"

definition CacheQuery_lookup :: "source_result \<Rightarrow> Cache \<Rightarrow> exn + Cache \<times> CacheQuery" where
  "CacheQuery_lookup src c =
     (case initCache src c of
        Inl e \<Rightarrow> Inl e
      | Inr c1 \<Rightarrow> (case cache_lookup c1 of Inl e \<Rightarrow> Inl e | Inr q \<Rightarrow> Inr (c1, q)))"

section \<open>What a lookup finds\<close>

definition source_ok :: "source_result \<Rightarrow> bool" where
  "source_ok src \<longleftrightarrow>
     0 < src_cols src \<and> (\<forall>r \<in> set (src_rows src). src_cols src \<le> length r) \<and>
     src_numRows src = length (src_rows src) \<and> length (src_rows src) < 2 ^ 32"

lemma init_rows_index:
  "\<forall>r \<in> set rows. cols \<le> length r \<Longrightarrow> count + length rows \<le> numRows \<Longrightarrow> i < cols \<Longrightarrow>
   init_rows numRows cols i count rows (Some m) data =
     Inr (Some (smap.insert_all (zip (map (\<lambda>r. r ! i) rows) (map of_nat [count..<count + length rows])) m), data @ map (take cols) rows)"
  by (induction rows arbitrary: count m data) (auto simp: smap.insert_all_def upt_conv_Cons simp del: upt_Suc)

lemma map_of_zip_first:
  "map_of (zip xs (map f [n..<n + length xs])) v = Some y \<Longrightarrow> \<exists>i < length xs. xs ! i = v \<and> y = f (n + i) \<and> (\<forall>j < i. xs ! j \<noteq> v)"
proof (induction xs arbitrary: n)
  case (Cons x xs)
  show ?case
  proof (cases "x = v")
    case True
    with Cons.prems show ?thesis by (auto simp: upt_conv_Cons simp del: upt_Suc intro!: exI [of _ 0])
  next
    case False
    have "map_of (zip xs (map f [Suc n..<Suc n + length xs])) v = Some y"
      using Cons.prems False by (simp add: upt_conv_Cons del: upt_Suc)
    from Cons.IH [OF this] obtain i where "i < length xs" "xs ! i = v" "y = f (Suc n + i)" "\<forall>j < i. xs ! j \<noteq> v" by blast
    then have "Suc i < length (x # xs) \<and> (x # xs) ! Suc i = v \<and> y = f (n + Suc i) \<and> (\<forall>j < Suc i. (x # xs) ! j \<noteq> v)"
      using False by (auto simp: less_Suc_eq_0_disj)
    then show ?thesis by blast
  qed
qed simp

lemma init_where:
  assumes "source_ok src" and "ca_data c = None" and "ca_whereclauses c \<noteq> []"
  shows "initCache src c =
    Inr (c\<lparr>ca_index := Some (smap.insert_all (zip (map (\<lambda>r. r ! 0) (src_rows src)) (map of_nat [0..<length (src_rows src)])) []),
           ca_data := Some (map (take (src_cols src)) (src_rows src))\<rparr>)"
  using assms init_rows_index [of "src_rows src" "src_cols src" 0 "src_numRows src" 0 "[]" "[]"]
  by (simp add: initCache_def source_ok_def Let_def)

text \<open>
  The first lookup of a fresh cache for a value of the first column finds the first row that has
  it, and the query reads the columns of that row.
\<close>

lemma cache_hit:
  assumes "source_ok src" and "ca_data c = None" and "ca_whereclauses c = (field, val) # ws" and "val \<in> (\<lambda>r. r ! 0) ` set (src_rows src)"
  shows "\<exists>c1 q i. CacheQuery_lookup src c = Inr (c1, q) \<and> i < length (src_rows src) \<and> src_rows src ! i ! 0 = val \<and>
    (\<forall>j < i. src_rows src ! j ! 0 \<noteq> val) \<and> fst (cache_fetchRow q) = Inr True \<and>
    (\<forall>idx. 0 < idx \<and> unat idx \<le> src_cols src \<longrightarrow> cache_getString c1 (cq_row q) idx = Inr (src_rows src ! i ! (unat idx - 1)))"
proof -
  let ?rows = "src_rows src"
  let ?es = "zip (map (\<lambda>r. r ! 0) ?rows) (map of_nat [0..<length ?rows])"
  have "val \<in> fst ` set ?es" using assms(4) by (simp flip: set_map add: image_image)
  then obtain row where row: "map_of ?es val = Some (row :: 32 word)"
    by (metis (no_types, lifting) map_of_eq_None_iff option.exhaust)
  from map_of_zip_first [of "map (\<lambda>r. r ! 0) ?rows" of_nat 0 val row] row
  obtain i where i: "i < length ?rows" "?rows ! i ! 0 = val" "row = of_nat i" "\<forall>j < i. ?rows ! j ! 0 \<noteq> val"
    by (metis (no_types, lifting) add_0 length_map nth_map order.strict_trans)
  define c1 where "c1 = c\<lparr>ca_index := Some (smap.insert_all ?es []), ca_data := Some (map (take (src_cols src)) ?rows)\<rparr>"
  have c1: "initCache src c = Inr c1" using init_where [OF assms(1,2)] assms(3) by (simp add: c1_def)
  have q: "cache_lookup c1 = Inr \<lparr>cq_row = row, cq_num = 1, cq_state = First\<rparr>"
    using row assms(3) by (simp add: cache_lookup_def c1_def smap.first_insert_wins)
  have ui: "unat row = i" using i(1,3) assms(1) by (simp add: source_ok_def unat_of_nat)
  have "cache_getString c1 row idx = Inr (?rows ! i ! (unat idx - 1))" if "0 < idx \<and> unat idx \<le> src_cols src" for idx
  proof -
    have u: "unat (idx - 1) = unat idx - 1" using that by (simp add: unat_minus_one word_greater_zero_iff)
    have "0 < unat idx" using that by (simp add: unat_gt_0 word_greater_zero_iff)
    moreover have "src_cols src \<le> length (?rows ! i)" using i(1) assms(1) by (auto simp: source_ok_def)
    moreover have "unat idx - Suc 0 < src_cols src" using that calculation(1) by linarith
    ultimately show ?thesis using that i(1) ui by (simp add: cache_getString_def c1_def u)
  qed
  with i c1 q show ?thesis by (auto simp: CacheQuery_lookup_def cache_fetchRow_def)
qed

text \<open>
  The rest does not hold: the value of the first query is looked up by every later one, a value that
  is not in the table reads the end iterator, a single row is fetched twice, and the second row of
  a full select is never delivered.
\<close>

lemma first_where_wins:
  "ca_whereclauses c = w # ws \<Longrightarrow> cache_lookup (cache_addWhere field val op c) = cache_lookup c"
  by (auto simp: cache_lookup_def cache_addWhere_def split: option.split)

lemma cache_miss_undefined:
  assumes "source_ok src" and "ca_data c = None" and "ca_whereclauses c = (field, val) # ws" and "val \<notin> (\<lambda>r. r ! 0) ` set (src_rows src)"
  shows "CacheQuery_lookup src c = Inl (Undefined ''(*itr).second at end'')"
proof -
  have "map_of (zip (map (\<lambda>r. r ! 0) (src_rows src)) (map of_nat [0..<length (src_rows src)])) val = (None :: 32 word option)"
    using assms(4) by (simp add: map_of_eq_None_iff flip: set_map)
  with init_where [OF assms(1,2)] assms(3) show ?thesis
    by (simp add: CacheQuery_lookup_def cache_lookup_def smap.first_insert_wins del: map_of_zip_is_None)
qed

lemma single_row_fetched_twice:
  "cq_num q = 1 \<Longrightarrow> cq_state q = First \<Longrightarrow>
   fst (cache_fetchRow q) = Inr True \<and> fst (cache_fetchRow (snd (cache_fetchRow q))) = Inr True \<and>
   fst (cache_fetchRow (snd (cache_fetchRow (snd (cache_fetchRow q))))) = Inr False"
  by (simp add: cache_fetchRow_def)

lemma second_row_undefined:
  "cq_num q \<noteq> 1 \<Longrightarrow> cq_state q = First \<Longrightarrow> fst (cache_fetchRow (snd (cache_fetchRow q))) = Inl (Undefined ''_fetchRow'')"
  by (simp add: cache_fetchRow_def)

end
