(* ===== verification/Accept_Pool.thy ===== *)
theory Accept_Pool
  imports Listener Std_Map
begin

text \<open>
  The two earlier servers kept beside the present one: \<open>src/src/singleacceptthreadpool.h\<close>, which
  accepts in one thread and hands the connections to a pool, and the monitor that adapts the size
  of the pool to the load, with its older form in \<open>src/src/sharedmutexthreadpool.h\<close>. What the
  other threads do in between is given as a sequence of events.
\<close>

section \<open>ClientSocket\<close>

record ClientSocket = FileDescriptor +
  cs_error :: int

definition ClientSocket_new :: "int \<Rightarrow> int \<Rightarrow> ClientSocket" where
  "ClientSocket_new fd e = FileDescriptor.extend \<lparr>fd_fd = fd\<rparr> \<lparr>cs_error = e\<rparr>"

definition isOpen :: "ClientSocket \<Rightarrow> bool" where
  "isOpen c \<longleftrightarrow> fd_get c \<ge> 0"

text \<open>\<open>close\<close>, with the result and the \<open>errno\<close> of the system call. The older form has no test.\<close>

definition ClientSocket_close :: "int \<Rightarrow> int \<Rightarrow> ClientSocket \<Rightarrow> ClientSocket" where
  "ClientSocket_close res errno c =
     (if fd_get c \<ge> 0 then fd_set (- 1) (c\<lparr>cs_error := (if res = 0 then 0 else errno)\<rparr>) else c)"

definition ClientSocket_close_old :: "int \<Rightarrow> int \<Rightarrow> ClientSocket \<Rightarrow> ClientSocket" where
  "ClientSocket_close_old res errno c = fd_set (- 1) (c\<lparr>cs_error := (if res = 0 then 0 else errno)\<rparr>)"

definition ClientSocket_destroy :: "ClientSocket \<Rightarrow> exn + unit" where
  "ClientSocket_destroy c = (if fd_get c \<noteq> - 1 then Inl (LogicError ''forgot to close client socket'') else Inr ())"

definition getErrno :: "ClientSocket \<Rightarrow> int" where
  "getErrno c = cs_error c"

section \<open>The monitor\<close>

record Monitor =
  mn_defMinHandlers :: "32 word"
  mn_defMaxHandlers :: "32 word"
  mn_sleep :: "32 word"
  mn_busyHandlers :: "32 word"
  mn_maxBusyHandlers :: "32 word"
  mn_countHandlers :: "64 word"
  mn_allTimeMaxBusyHandlers :: "32 word"

definition Monitor_new :: "32 word \<Rightarrow> 32 word \<Rightarrow> 32 word \<Rightarrow> Monitor" where
  "Monitor_new minh maxh sleep =
     \<lparr>mn_defMinHandlers = minh, mn_defMaxHandlers = maxh, mn_sleep = sleep, mn_busyHandlers = 0, mn_maxBusyHandlers = 0,
      mn_countHandlers = 0, mn_allTimeMaxBusyHandlers = 0\<rparr>"

definition addHandler :: "Monitor \<Rightarrow> Monitor" where
  "addHandler m =
     (let busy = mn_busyHandlers m + 1
      in m\<lparr>mn_busyHandlers := busy, mn_maxBusyHandlers := max busy (mn_maxBusyHandlers m), mn_countHandlers := mn_countHandlers m + 1\<rparr>)"

definition removeHandler :: "Monitor \<Rightarrow> Monitor" where
  "removeHandler m = m\<lparr>mn_busyHandlers := mn_busyHandlers m - 1\<rparr>"

datatype handler_event = Add | Remove

fun handler_step :: "handler_event \<Rightarrow> Monitor \<Rightarrow> Monitor" where
  "handler_step Add m = addHandler m"
| "handler_step Remove m = removeHandler m"

text \<open>
  The local variables of \<open>run\<close>, the size of the pool, and the lines printed: the values shown, with
  the number of requests since the last line (its first value is not initialised).
\<close>

record run_state =
  rs_monitor :: Monitor
  rs_lastcountHandlers :: "64 word"
  rs_lastMaxBusyHandlers :: "32 word"
  rs_lastsize :: "32 word"
  rs_poolsize :: "32 word"
  rs_shut :: bool
  rs_lines :: "(32 word \<times> 32 word \<times> 32 word \<times> 64 word) list"

definition run_start :: "64 word \<Rightarrow> 32 word \<Rightarrow> Monitor \<Rightarrow> run_state" where
  "run_start junk poolsize m =
     \<lparr>rs_monitor = m, rs_lastcountHandlers = junk, rs_lastMaxBusyHandlers = mn_maxBusyHandlers m, rs_lastsize = poolsize,
      rs_poolsize = poolsize, rs_shut = False, rs_lines = []\<rparr>"

definition newsize :: "32 word \<Rightarrow> 32 word \<Rightarrow> 32 word \<Rightarrow> 32 word \<Rightarrow> 32 word" where
  "newsize minh maxh curren lastsize =
     (if curren > (lastsize * 8) div 10 then min maxh (lastsize + (lastsize * 8) div 10)
      else if curren < (lastsize * 5) div 10 then max minh (lastsize - (lastsize * 5) div 10)
      else 0)"

text \<open>The part of a turn after the lock is released.\<close>

definition resize :: "32 word \<Rightarrow> run_state \<Rightarrow> run_state" where
  "resize curren r =
     (if rs_lastMaxBusyHandlers r = curren then r
      else let m = rs_monitor r; n = newsize (mn_defMinHandlers m) (mn_defMaxHandlers m) curren (rs_lastsize r) in
        if n = 0 then r
        else let r1 = r\<lparr>rs_lastMaxBusyHandlers := curren\<rparr> in
          if n = rs_lastsize r then r1
          else r1\<lparr>rs_monitor := m\<lparr>mn_allTimeMaxBusyHandlers := max (mn_maxBusyHandlers m) (mn_allTimeMaxBusyHandlers m)\<rparr>,
                  rs_poolsize := n, rs_lastsize := n\<rparr>)"

text \<open>
  A turn after the sleep: the listener is shut down, the counters are read and the maximum is reset
  under the lock; other threads may then go on (\<open>later\<close>) before the rest.
\<close>

definition monitor_turn :: "handler_event list \<Rightarrow> run_state \<Rightarrow> run_state" where
  "monitor_turn later r =
     (let m = rs_monitor r; curren = mn_maxBusyHandlers m;
          r1 = r\<lparr>rs_shut := True,
                 rs_lines := rs_lines r @ [(rs_lastMaxBusyHandlers r, curren, rs_lastsize r, mn_countHandlers m - rs_lastcountHandlers r)],
                 rs_lastcountHandlers := mn_countHandlers m,
                 rs_monitor := fold handler_step later (m\<lparr>mn_maxBusyHandlers := 0\<rparr>)\<rparr>
      in resize curren r1)"

definition Monitor_run :: "(handler_event list \<times> handler_event list) list \<Rightarrow> run_state \<Rightarrow> run_state" where
  "Monitor_run turns r =
     fold (\<lambda>(asleep, later) r. monitor_turn later (r\<lparr>rs_monitor := fold handler_step asleep (rs_monitor r)\<rparr>)) turns r"

text \<open>
  The older form, which has its own text of the same rules: it leaves the listener alone, prints without the count and
  computes the new size in place.
\<close>

definition resizer_size :: "32 word \<Rightarrow> run_state \<Rightarrow> run_state" where
  "resizer_size curren r =
     (let lastsize = rs_lastsize r; minh = mn_defMinHandlers (rs_monitor r); maxh = mn_defMaxHandlers (rs_monitor r) in
      if rs_lastMaxBusyHandlers r = curren then r
      else if curren > (lastsize * 8) div 10
      then (let n = min maxh (lastsize + (lastsize * 8) div 10) in
            if n = 0 then r else if n = lastsize then r\<lparr>rs_lastMaxBusyHandlers := curren\<rparr>
            else r\<lparr>rs_lastMaxBusyHandlers := curren, rs_poolsize := n, rs_lastsize := n,
                   rs_monitor := (rs_monitor r)\<lparr>mn_allTimeMaxBusyHandlers :=
                     max (mn_maxBusyHandlers (rs_monitor r)) (mn_allTimeMaxBusyHandlers (rs_monitor r))\<rparr>\<rparr>)
      else if curren < (lastsize * 5) div 10
      then (let n = max minh (lastsize - (lastsize * 5) div 10) in
            if n = 0 then r else if n = lastsize then r\<lparr>rs_lastMaxBusyHandlers := curren\<rparr>
            else r\<lparr>rs_lastMaxBusyHandlers := curren, rs_poolsize := n, rs_lastsize := n,
                   rs_monitor := (rs_monitor r)\<lparr>mn_allTimeMaxBusyHandlers :=
                     max (mn_maxBusyHandlers (rs_monitor r)) (mn_allTimeMaxBusyHandlers (rs_monitor r))\<rparr>\<rparr>)
      else r)"

definition resizer_turn :: "handler_event list \<Rightarrow> run_state \<Rightarrow> run_state" where
  "resizer_turn later r =
     (let m = rs_monitor r; curren = mn_maxBusyHandlers m;
          r1 = r\<lparr>rs_lines := rs_lines r @ [(rs_lastMaxBusyHandlers r, curren, rs_lastsize r, 0)],
                 rs_monitor := fold handler_step later (m\<lparr>mn_maxBusyHandlers := 0\<rparr>)\<rparr>
      in resizer_size curren r1)"

definition DynamicResizer_run :: "(handler_event list \<times> handler_event list) list \<Rightarrow> run_state \<Rightarrow> run_state" where
  "DynamicResizer_run turns r =
     fold (\<lambda>(asleep, later) r. resizer_turn later (r\<lparr>rs_monitor := fold handler_step asleep (rs_monitor r)\<rparr>)) turns r"

section \<open>The accept loop\<close>

text \<open>
  \<open>run\<close> after the listener is open. The events are the results of \<open>accept\<close>, an \<open>errno\<close> or a
  descriptor, and, between them, the handlers closing their connections, given by the position of
  the \<open>ClientSocket\<close> in the order of creation. The loop ends with the error that \<open>run\<close> throws again
  and the descriptors that are shut down on the way out, or it still waits in \<open>accept\<close>. The end
  of the monitor and the wait for the pool that follow are not part of it.
\<close>

datatype pool_event = Accepted "int + int" | HandlerCloses nat int int

record accept_pool =
  ap_sockets :: "(32 word, nat) stdmap"
  ap_objects :: "ClientSocket list"
  ap_scheduled :: "nat list"

definition accept_pool_new :: accept_pool where
  "accept_pool_new = \<lparr>ap_sockets = [], ap_objects = [], ap_scheduled = []\<rparr>"

definition accept_fd :: "int \<Rightarrow> accept_pool \<Rightarrow> accept_pool" where
  "accept_fd fd p =
     (let n = length (ap_objects p)
      in p\<lparr>ap_objects := ap_objects p @ [ClientSocket_new fd 0], ap_sockets := smap_insert (of_int fd) n (ap_sockets p),
           ap_scheduled := ap_scheduled p @ [n]\<rparr>)"

definition shut_sockets :: "accept_pool \<Rightarrow> int list" where
  "shut_sockets p = map fd_get (filter isOpen (map (\<lambda>(k, n). ap_objects p ! n) (ap_sockets p)))"

fun pool_accept_loop :: "pool_event list \<Rightarrow> accept_pool \<Rightarrow> accept_pool + int \<times> int list \<times> accept_pool" where
  "pool_accept_loop [] p = Inl p"
| "pool_accept_loop (Accepted (Inl e) # evs) p = Inr (e, shut_sockets p, p\<lparr>ap_sockets := []\<rparr>)"
| "pool_accept_loop (Accepted (Inr fd) # evs) p = pool_accept_loop evs (accept_fd fd p)"
| "pool_accept_loop (HandlerCloses i res errno # evs) p =
     pool_accept_loop evs (p\<lparr>ap_objects := (ap_objects p)[i := ClientSocket_close res errno (ap_objects p ! i)]\<rparr>)"

section \<open>The size of the pool\<close>

definition size_ok :: "run_state \<Rightarrow> bool" where
  "size_ok r \<longleftrightarrow>
     0 < mn_defMinHandlers (rs_monitor r) \<and> mn_defMinHandlers (rs_monitor r) \<le> rs_lastsize r \<and>
     rs_lastsize r \<le> mn_defMaxHandlers (rs_monitor r) \<and> mn_defMaxHandlers (rs_monitor r) < 2 ^ 29 \<and>
     rs_poolsize r = rs_lastsize r"

lemma word_size_arith:
  assumes "(n :: 32 word) < 2 ^ 29"
  shows "unat (n * 8) = unat n * 8" and "unat (n * 5) = unat n * 5" and "unat (n + n * 8 div 10) = unat n + unat n * 8 div 10"
    and "unat (n - n * 5 div 10) = unat n - unat n * 5 div 10"
proof -
  have n: "unat n < 2 ^ 29" using assms by (simp add: word_less_nat_alt)
  show m8: "unat (n * 8) = unat n * 8" and m5: "unat (n * 5) = unat n * 5" using n by (simp_all add: unat_word_ariths)
  have d: "unat (n * 8 div 10) = unat n * 8 div 10" "unat (n * 5 div 10) = unat n * 5 div 10"
    using m8 m5 by (simp_all add: unat_div)
  show "unat (n + n * 8 div 10) = unat n + unat n * 8 div 10" using d(1) n by (simp add: unat_word_ariths)
  have "n * 5 div 10 \<le> n" using d(2) by (simp add: word_le_nat_alt)
  then show "unat (n - n * 5 div 10) = unat n - unat n * 5 div 10" using d(2) by (simp add: unat_sub)
qed

lemma newsize_bounds:
  assumes "minh \<le> n" and "n \<le> maxh" and "maxh < 2 ^ 29" and "newsize minh maxh curren n \<noteq> 0"
  shows "minh \<le> newsize minh maxh curren n \<and> newsize minh maxh curren n \<le> maxh"
proof -
  have n: "n < 2 ^ 29" using assms(2,3) by simp
  note u = word_size_arith [OF n]
  have up: "n \<le> n + n * 8 div 10" using u(3) by (simp add: word_le_nat_alt)
  have down: "n - n * 5 div 10 \<le> n" using u(4) by (simp add: word_le_nat_alt)
  show ?thesis
    using assms(1,2,4) up down order_trans [OF assms(1) up] order_trans [OF down assms(2)] order_trans [OF assms(1,2)]
    by (auto simp: newsize_def min_def max_def split: if_splits)
qed

lemma handler_steps_frame:
  "mn_defMinHandlers (fold handler_step evs m) = mn_defMinHandlers m \<and> mn_defMaxHandlers (fold handler_step evs m) = mn_defMaxHandlers m"
proof (induction evs arbitrary: m)
  case (Cons e evs)
  then show ?case by (cases e) (simp_all add: addHandler_def removeHandler_def Let_def)
qed simp

lemma size_ok_resize: "size_ok r \<Longrightarrow> size_ok (resize curren r)"
  using newsize_bounds [of "mn_defMinHandlers (rs_monitor r)" "rs_lastsize r" "mn_defMaxHandlers (rs_monitor r)" curren]
  by (simp add: size_ok_def resize_def Let_def)

lemma size_ok_turn: "size_ok r \<Longrightarrow> size_ok (monitor_turn later (r\<lparr>rs_monitor := fold handler_step asleep (rs_monitor r)\<rparr>))"
  unfolding monitor_turn_def Let_def
  by (rule size_ok_resize) (simp add: size_ok_def handler_steps_frame)

lemma size_ok_run: "size_ok r \<Longrightarrow> size_ok (Monitor_run turns r)"
  unfolding Monitor_run_def by (induction turns arbitrary: r) (auto simp: size_ok_turn split: prod.split)

text \<open>The two monitors do the same to the pool.\<close>

definition pool_view :: "run_state \<Rightarrow> Monitor \<times> 32 word \<times> 32 word \<times> 32 word" where
  "pool_view r = (rs_monitor r, rs_lastMaxBusyHandlers r, rs_lastsize r, rs_poolsize r)"

lemma resizer_size_eq: "resizer_size curren r = resize curren r"
  by (simp add: resizer_size_def resize_def newsize_def Let_def)

lemma pool_view_turns:
  assumes "pool_view r = pool_view s"
  shows "pool_view (monitor_turn later (r\<lparr>rs_monitor := fold handler_step asleep (rs_monitor r)\<rparr>)) =
    pool_view (resizer_turn later (s\<lparr>rs_monitor := fold handler_step asleep (rs_monitor s)\<rparr>))"
  using assms by (simp add: pool_view_def monitor_turn_def resizer_turn_def resizer_size_eq resize_def Let_def)

lemma pool_view_runs: "pool_view r = pool_view s \<Longrightarrow> pool_view (Monitor_run turns r) = pool_view (DynamicResizer_run turns s)"
proof (induction turns arbitrary: r s)
  case (Cons turn turns)
  obtain asleep later where turn: "turn = (asleep, later)" by (cases turn)
  from Cons.IH [OF pool_view_turns [OF Cons.prems, of later asleep]] show ?case
    by (simp add: turn Monitor_run_def DynamicResizer_run_def)
qed (simp add: Monitor_run_def DynamicResizer_run_def)

lemma run_limits:
  "mn_defMinHandlers (rs_monitor (Monitor_run turns r)) = mn_defMinHandlers (rs_monitor r) \<and>
   mn_defMaxHandlers (rs_monitor (Monitor_run turns r)) = mn_defMaxHandlers (rs_monitor r)"
  unfolding Monitor_run_def
  by (induction turns arbitrary: r) (auto simp: monitor_turn_def resize_def Let_def handler_steps_frame split: prod.split)

text \<open>
  C33 (bounds). The pool never leaves its limits: as long as it starts between them and the upper
  limit is below \<open>2 ^ 29\<close>, so that the sizes computed on the way fit the 32 bits of \<open>unsigned\<close>, its
  size stays between them, whatever load the handlers report and whenever they do. The older
  monitor sets the same sizes at every turn.
\<close>

theorem pool_size_bounds:
  assumes "0 < minh" and "minh \<le> poolsize" and "poolsize \<le> maxh" and "maxh < 2 ^ 29"
  shows "minh \<le> rs_poolsize (Monitor_run turns (run_start junk poolsize (Monitor_new minh maxh sleep))) \<and>
    rs_poolsize (Monitor_run turns (run_start junk poolsize (Monitor_new minh maxh sleep))) \<le> maxh \<and>
    rs_poolsize (DynamicResizer_run turns (run_start junk poolsize (Monitor_new minh maxh sleep))) =
      rs_poolsize (Monitor_run turns (run_start junk poolsize (Monitor_new minh maxh sleep)))"
proof -
  let ?r = "run_start junk poolsize (Monitor_new minh maxh sleep)"
  have start: "mn_defMinHandlers (rs_monitor ?r) = minh" "mn_defMaxHandlers (rs_monitor ?r) = maxh"
    by (simp_all add: run_start_def Monitor_new_def)
  have "size_ok ?r" using assms by (simp add: size_ok_def run_start_def Monitor_new_def)
  then have ok: "size_ok (Monitor_run turns ?r)" by (rule size_ok_run)
  have "rs_poolsize (DynamicResizer_run turns ?r) = rs_poolsize (Monitor_run turns ?r)"
    using pool_view_runs [of ?r ?r turns] by (simp add: pool_view_def)
  with ok show ?thesis by (simp add: size_ok_def run_limits start)
qed

theorem pool_size_bounds_witness:
  "rs_poolsize (Monitor_run [([Add, Add, Add, Add, Add, Add, Add, Add, Add], []), ([], [Remove])]
      (run_start 7 10 (Monitor_new 5 15 1000))) \<le> 15"
  using pool_size_bounds [of 5 10 15 "[([Add, Add, Add, Add, Add, Add, Add, Add, Add], []), ([], [Remove])]" 7 1000] by simp

section \<open>What the accept loop shuts down\<close>

fun accepted :: "pool_event list \<Rightarrow> 32 word list" where
  "accepted [] = []"
| "accepted (Accepted (Inr fd) # evs) = of_int fd # accepted evs"
| "accepted (_ # evs) = accepted evs"

definition accept_inv :: "accept_pool \<Rightarrow> bool" where
  "accept_inv p \<longleftrightarrow>
     smap_ok (ap_sockets p) \<and> (\<forall>n \<in> ran (smap_find (ap_sockets p)). n < length (ap_objects p)) \<and>
     (\<forall>n < length (ap_objects p). isOpen (ap_objects p ! n) \<longrightarrow> smap_find (ap_sockets p) (of_int (fd_get (ap_objects p ! n))) = Some n)"

lemma closed_not_open [simp]: "\<not> isOpen (ClientSocket_close res errno c)"
  by (simp add: isOpen_def ClientSocket_close_def fd_get_def fd_set_def)

lemma accept_inv_close:
  "accept_inv p \<Longrightarrow> accept_inv (p\<lparr>ap_objects := (ap_objects p)[i := ClientSocket_close res errno (ap_objects p ! i)]\<rparr>)"
  by (cases "i < length (ap_objects p)") (auto simp: accept_inv_def nth_list_update list_update_beyond)

lemma accept_inv_fd: "accept_inv p \<Longrightarrow> smap_find (ap_sockets p) (of_int fd) = None \<Longrightarrow> accept_inv (accept_fd fd p)"
  by (auto simp: accept_inv_def accept_fd_def Let_def smap_find_insert ran_def nth_append ClientSocket_new_def fd_get_def
      FileDescriptor.defs less_Suc_eq split: if_splits)

lemma shut_sockets_open:
  assumes "accept_inv p"
  shows "set (shut_sockets p) = fd_get ` {c \<in> set (ap_objects p). isOpen c}"
proof -
  have d: "distinct (map fst (ap_sockets p))"
    using assms by (simp add: accept_inv_def smap_ok_def strict_sorted_iff)
  have "\<exists>k. (k, n) \<in> set (ap_sockets p)" if "n < length (ap_objects p)" "isOpen (ap_objects p ! n)" for n
    using assms that by (auto simp: accept_inv_def dest: map_of_SomeD)
  moreover have "n < length (ap_objects p)" if "(k, n) \<in> set (ap_sockets p)" for k n
    using assms that d by (auto simp: accept_inv_def ran_def)
  ultimately show ?thesis
    by (fastforce simp: shut_sockets_def in_set_conv_nth image_iff)
qed

text \<open>
  When no descriptor number comes back, every connection that is open when \<open>accept\<close> fails is shut
  down. A number that comes back is not entered again, since the map keeps the closed
  \<open>ClientSocket\<close> it has: that connection is left, and the wait for its handler goes on.
\<close>

lemma accept_exit:
  assumes "pool_accept_loop evs p = Inr (e, shut, q)" and "accept_inv p" and "distinct (accepted evs)"
    and "\<forall>k \<in> set (accepted evs). smap_find (ap_sockets p) k = None"
  shows "set shut = fd_get ` {c \<in> set (ap_objects q). isOpen c}"
  using assms
proof (induction evs p rule: pool_accept_loop.induct)
  case (3 fd evs p)
  have "\<forall>k \<in> set (accepted evs). smap_find (ap_sockets (accept_fd fd p)) k = None"
    using 3 by (auto simp: accept_fd_def Let_def accept_inv_def smap_find_insert)
  with 3 show ?case by (simp add: accept_inv_fd)
next
  case (4 i res errno evs p)
  then show ?case by (simp add: accept_inv_close)
qed (auto simp: shut_sockets_open)

lemma all_open_shut:
  "pool_accept_loop evs accept_pool_new = Inr (e, shut, q) \<Longrightarrow> distinct (accepted evs) \<Longrightarrow>
   set shut = fd_get ` {c \<in> set (ap_objects q). isOpen c}"
  by (rule accept_exit) (auto simp: accept_pool_new_def accept_inv_def)

lemma reused_descriptor_left_open:
  "\<exists>q. pool_accept_loop [Accepted (Inr 5), HandlerCloses 0 0 0, Accepted (Inr 5), Accepted (Inl 22)] accept_pool_new = Inr (22, [], q) \<and>
     isOpen (ap_objects q ! 1)"
  by (simp add: accept_pool_new_def accept_fd_def shut_sockets_def ClientSocket_new_def ClientSocket_close_def isOpen_def fd_get_def
      fd_set_def FileDescriptor.defs)

end
