(* ===== verification/Request_Handler.thy ===== *)
theory Request_Handler
  imports Accept_Pool Socket_Reader
begin

text \<open>
  \<open>src/src/requesthandler.cpp\<close>, the handler the accepting pool was measured with: every line of the
  client is a number, and that many bytes go back. The system calls on the connection are a
  parameter, the record \<open>'k conn_io\<close> on a state \<open>'k\<close> that also holds \<open>errno\<close>.
\<close>

record 'k conn_io =
  io_read :: "int \<Rightarrow> 'k \<Rightarrow> int \<times> char \<times> 'k"
  io_write :: "int \<Rightarrow> string \<Rightarrow> 'k \<Rightarrow> int \<times> 'k"
  io_close :: "int \<Rightarrow> 'k \<Rightarrow> int \<times> 'k"
  io_errno :: "'k \<Rightarrow> int"
  io_strerror :: "int \<Rightarrow> string"

definition EINTR :: int where
  "EINTR = 4"

definition MAXLINE :: nat where
  "MAXLINE = 4096"

definition MAXN :: nat where
  "MAXN = 16384"

section \<open>readline and writen\<close>

text \<open>
  \<open>readline\<close> fills the buffer from \<open>ptr\<close>; \<open>n\<close> is the counter of the loop, and what is returned. A
  buffer is the list of its bytes.
\<close>

function readline_loop :: "'k conn_io \<Rightarrow> int \<Rightarrow> nat \<Rightarrow> nat \<Rightarrow> nat \<Rightarrow> string \<Rightarrow> 'k \<Rightarrow> int \<times> string \<times> 'k" where
  "readline_loop io fd maxlen n ptr buf k =
     (if n < maxlen then
        (case io_read io fd k of
           (rc, c, k1) \<Rightarrow>
             if rc = 1 then
               if c = newline then (int n, (buf[ptr := c])[ptr + 1 := CHR 0x00], k1)
               else readline_loop io fd maxlen (n + 1) (ptr + 1) (buf[ptr := c]) k1
             else if rc = 0 then
               if n = 1 then (0, buf, k1) else (int n, buf[ptr := CHR 0x00], k1)
             else (- 1, buf, k1))
      else (int n, buf[ptr := CHR 0x00], k))"
  by pat_completeness auto

termination
  by (relation "measure (\<lambda>(io, fd, maxlen, n, ptr, buf, k). maxlen - n)") auto

declare readline_loop.simps [simp del]

definition readline :: "'k conn_io \<Rightarrow> int \<Rightarrow> nat \<Rightarrow> string \<Rightarrow> 'k \<Rightarrow> int \<times> string \<times> 'k" where
  "readline io fd maxlen buf k = readline_loop io fd maxlen 1 0 buf k"

text \<open>
  The loop of \<open>writen\<close> on the bytes that are left; \<open>write\<close> takes at most as many as it is given. A
  call that is interrupted every time never returns.
\<close>

partial_function (option) writen_loop :: "'k conn_io \<Rightarrow> int \<Rightarrow> string \<Rightarrow> 'k \<Rightarrow> (bool \<times> 'k) option" where
  "writen_loop io fd left k =
     (if left = [] then Some (True, k)
      else case io_write io fd left k of
        (nwritten, k1) \<Rightarrow>
          if nwritten \<le> 0 then
            if nwritten < 0 \<and> io_errno io k1 = EINTR then writen_loop io fd left k1 else Some (False, k1)
          else writen_loop io fd (drop (nat nwritten) left) k1)"

declare writen_loop.simps [code]

definition writen :: "'k conn_io \<Rightarrow> int \<Rightarrow> string \<Rightarrow> 'k \<Rightarrow> (int \<times> 'k) option" where
  "writen io fd buf k = map_option (\<lambda>(ok, k1). (if ok then int (length buf) else - 1, k1)) (writen_loop io fd buf k)"

section \<open>run\<close>

text \<open>\<open>atol\<close> and the conversion of its value to \<open>int\<close>.\<close>

definition atol :: "string \<Rightarrow> exn + int" where
  "atol s = c_number 64 s"

definition int_of_long :: "int \<Rightarrow> int" where
  "int_of_long v = (v + 2 ^ 31) mod 2 ^ 32 - 2 ^ 31"

text \<open>
  The loop. The return value of \<open>writen\<close> is not looked at, and only 0 ends the loop: an error of
  \<open>readline\<close> goes on with what the buffer has. More bytes than \<open>result\<close> has are read past its end.
\<close>

partial_function (option) echo_loop ::
    "'k conn_io \<Rightarrow> int \<Rightarrow> string \<Rightarrow> string \<Rightarrow> string list \<Rightarrow> 'k \<Rightarrow> ((exn + unit) \<times> string list \<times> 'k) option" where
  "echo_loop io fd result line out k =
     (case readline io fd MAXLINE line k of
        (nread, line1, k1) \<Rightarrow>
          if nread = 0 then Some (Inr (), out, k1)
          else case atol line1 of
            Inl e \<Rightarrow> Some (Inl e, out, k1)
          | Inr v \<Rightarrow>
              let ntowrite = int_of_long v;
                  out1 = (if ntowrite \<le> 0 \<or> int MAXN < ntowrite then out @ [''client request for '' @ show_int ntowrite @ '' bytes''] else out)
              in if ntowrite < 0 \<or> int MAXN < ntowrite then Some (Inl (Undefined ''write past result''), out1, k1)
                 else Option.bind (writen io fd (take (nat ntowrite) result) k1) (\<lambda>(w, k2). echo_loop io fd result line1 out1 k2))"

declare echo_loop.simps [code]

text \<open>The callbacks of the pool: the set of its handlers and the monitor.\<close>

record callbacks =
  cb_handlers :: "nat set"
  cb_monitor :: Monitor

definition pool_addHandler :: "nat \<Rightarrow> callbacks \<Rightarrow> callbacks" where
  "pool_addHandler p cb = cb\<lparr>cb_handlers := insert p (cb_handlers cb), cb_monitor := addHandler (cb_monitor cb)\<rparr>"

definition pool_removeHandler :: "nat \<Rightarrow> callbacks \<Rightarrow> callbacks" where
  "pool_removeHandler p cb = cb\<lparr>cb_handlers := cb_handlers cb - {p}, cb_monitor := removeHandler (cb_monitor cb)\<rparr>"

definition errno_line :: "'k conn_io \<Rightarrow> ClientSocket \<Rightarrow> string list" where
  "errno_line io c =
     (if getErrno c \<noteq> 0 then [''got errno '' @ show_int (getErrno c) @ '' error: '' @ io_strerror io (getErrno c)] else [])"

text \<open>
  \<open>run\<close>, with the buffers as they are found on the stack. The connection is given back closed, as it
  is when \<open>zap\<close> destroys it.
\<close>

definition TestRequestHandler_run ::
    "'k conn_io \<Rightarrow> nat \<Rightarrow> string \<Rightarrow> string \<Rightarrow> ClientSocket \<Rightarrow> callbacks \<Rightarrow> 'k \<Rightarrow>
     ((exn + ClientSocket) \<times> string list \<times> callbacks \<times> 'k) option" where
  "TestRequestHandler_run io this line result c cb k =
     (let cb1 = pool_addHandler this cb
      in Option.bind (echo_loop io (fd_get c) result line (errno_line io c) k) (\<lambda>(r, out, k1).
           case r of
             Inl e \<Rightarrow> Some (Inl e, out, cb1, k1)
           | Inr _ \<Rightarrow>
               (case if isOpen c then io_close io (fd_get c) k1 else (0, k1) of
                  (res, k2) \<Rightarrow>
                    let c1 = ClientSocket_close res (io_errno io k2) c
                    in Some (Inr c1, out @ errno_line io c1, pool_removeHandler this cb1, k2))))"

section \<open>What the client receives\<close>

text \<open>
  What is relied on of \<open>write\<close>: it takes at most the bytes it is given, those it takes are the next
  the client receives, and it is not interrupted for ever.
\<close>

definition write_ok :: "'k conn_io \<Rightarrow> int \<Rightarrow> ('k \<Rightarrow> string) \<Rightarrow> ('k \<Rightarrow> nat) \<Rightarrow> bool" where
  "write_ok io fd recv intr \<longleftrightarrow>
     (\<forall>data k nw k1. data \<noteq> [] \<longrightarrow> io_write io fd data k = (nw, k1) \<longrightarrow>
        nw \<le> int (length data) \<and> recv k1 = recv k @ take (nat nw) data \<and>
        (if nw < 0 \<and> io_errno io k1 = EINTR then intr k1 < intr k else intr k1 \<le> intr k))"

lemma write_okD:
  assumes "write_ok io fd recv intr" and "data \<noteq> []" and "io_write io fd data k = (nw, k1)"
  shows "nw \<le> int (length data)" and "recv k1 = recv k @ take (nat nw) data" and "intr k1 \<le> intr k"
    and "nw < 0 \<Longrightarrow> io_errno io k1 = EINTR \<Longrightarrow> intr k1 < intr k"
proof -
  have "nw \<le> int (length data) \<and> recv k1 = recv k @ take (nat nw) data \<and>
      (if nw < 0 \<and> io_errno io k1 = EINTR then intr k1 < intr k else intr k1 \<le> intr k)"
    using assms unfolding write_ok_def by blast
  then show "nw \<le> int (length data)" and "recv k1 = recv k @ take (nat nw) data" and "intr k1 \<le> intr k"
    and "nw < 0 \<Longrightarrow> io_errno io k1 = EINTR \<Longrightarrow> intr k1 < intr k"
    by (auto split: if_splits)
qed

lemma writen_loop_sends:
  assumes "write_ok io fd recv intr"
  shows "\<exists>ok k1 n. writen_loop io fd left k = Some (ok, k1) \<and> recv k1 = recv k @ take n left \<and>
    (if ok then n = length left else n < length left)"
proof (induction "length left + intr k" arbitrary: left k rule: less_induct)
  case less
  show ?case
  proof (cases "left = []")
    case False
    obtain nw k1 where w: "io_write io fd left k = (nw, k1)" by fastforce
    note ok = write_okD [OF assms False w]
    consider "nw < 0" "io_errno io k1 = EINTR" | "nw \<le> 0" "\<not> (nw < 0 \<and> io_errno io k1 = EINTR)" | "0 < nw" by linarith
    then show ?thesis
    proof cases
      case 1
      with ok less [of left k1] show ?thesis by (subst writen_loop.simps) (simp add: w False)
    next
      case 2
      with ok show ?thesis by (subst writen_loop.simps) (auto simp: w False intro!: exI [of _ 0])
    next
      case 3
      then have "length (drop (nat nw) left) + intr k1 < length left + intr k" using ok(1,3) False by simp
      from less [OF this] obtain b k2 n where IH: "writen_loop io fd (drop (nat nw) left) k1 = Some (b, k2)"
          "recv k2 = recv k1 @ take n (drop (nat nw) left)"
          "if b then n = length (drop (nat nw) left) else n < length (drop (nat nw) left)"
        by blast
      have "recv k2 = recv k @ take (nat nw + n) left" using IH(2) ok(2) by (simp add: take_add)
      moreover have "if b then nat nw + n = length left else nat nw + n < length left" using IH(3) ok(1) 3 by (auto split: if_splits)
      moreover have "writen_loop io fd left k = Some (b, k2)" using IH(1) 3 by (subst writen_loop.simps) (simp add: w False)
      ultimately show ?thesis by blast
    qed
  qed (subst writen_loop.simps, auto)
qed

text \<open>
  \<open>writen\<close> always returns, over partial writes and interrupted calls: either the whole text was
  received, in order and once, and its length is returned, or \<open>-1\<close> is and a proper prefix was received.
\<close>

lemma writen_sends:
  assumes "write_ok io fd recv intr"
  shows "\<exists>w k1. writen io fd buf k = Some (w, k1) \<and>
    (w = int (length buf) \<and> recv k1 = recv k @ buf \<or> w = - 1 \<and> (\<exists>n < length buf. recv k1 = recv k @ take n buf))"
proof -
  from writen_loop_sends [OF assms, of buf k] obtain ok k1 n where "writen_loop io fd buf k = Some (ok, k1)"
      "recv k1 = recv k @ take n buf" "if ok then n = length buf else n < length buf" by blast
  then show ?thesis by (cases ok) (auto simp: writen_def)
qed

text \<open>
  A client that sends the lines \<open>inp\<close> and then closes its side, and reads all it is sent.
\<close>

definition client_ok :: "'k conn_io \<Rightarrow> int \<Rightarrow> ('k \<Rightarrow> string) \<Rightarrow> ('k \<Rightarrow> string) \<Rightarrow> ('k \<Rightarrow> nat) \<Rightarrow> bool" where
  "client_ok io fd inp recv intr \<longleftrightarrow>
     write_ok io fd recv intr \<and>
     (\<forall>data k nw k1. data \<noteq> [] \<longrightarrow> io_write io fd data k = (nw, k1) \<longrightarrow> inp k1 = inp k \<and> (0 < nw \<or> nw < 0 \<and> io_errno io k1 = EINTR)) \<and>
     (\<forall>k rc c k1. io_read io fd k = (rc, c, k1) \<longrightarrow>
        recv k1 = recv k \<and> (case inp k of [] \<Rightarrow> rc = 0 \<and> inp k1 = [] | x # xs \<Rightarrow> rc = 1 \<and> c = x \<and> inp k1 = xs)) \<and>
     (\<forall>k res k1. io_close io fd k = (res, k1) \<longrightarrow> recv k1 = recv k)"

lemma client_write:
  "client_ok io fd inp recv intr \<Longrightarrow> data \<noteq> [] \<Longrightarrow> io_write io fd data k = (nw, k1) \<Longrightarrow>
   inp k1 = inp k \<and> (0 < nw \<or> nw < 0 \<and> io_errno io k1 = EINTR)"
  unfolding client_ok_def by blast

lemma client_read:
  "client_ok io fd inp recv intr \<Longrightarrow> io_read io fd k = (rc, c, k1) \<Longrightarrow>
   recv k1 = recv k \<and> (case inp k of [] \<Rightarrow> rc = 0 \<and> inp k1 = [] | x # xs \<Rightarrow> rc = 1 \<and> c = x \<and> inp k1 = xs)"
  unfolding client_ok_def by blast

lemma readline_end:
  assumes "client_ok io fd inp recv intr" and "inp k = []" and "1 < maxlen"
  obtains k1 where "readline io fd maxlen buf k = (0, buf, k1)" and "recv k1 = recv k"
proof -
  obtain rc c k1 where r: "io_read io fd k = (rc, c, k1)" by (metis prod_cases3)
  with client_read [OF assms(1) r] assms(2,3) show thesis
    using that by (auto simp: readline_def readline_loop.simps)
qed

lemma readline_loop_line:
  assumes "client_ok io fd inp recv intr"
  shows "inp k = s @ newline # rest \<Longrightarrow> newline \<notin> set s \<Longrightarrow> n + length s < maxlen \<Longrightarrow> ptr + length s + 1 < length buf \<Longrightarrow>
    \<exists>k1. readline_loop io fd maxlen n ptr buf k =
        (int (n + length s), take ptr buf @ s @ newline # CHR 0x00 # drop (ptr + length s + 2) buf, k1) \<and>
      inp k1 = rest \<and> recv k1 = recv k"
proof (induction s arbitrary: k n ptr buf)
  case Nil
  obtain rc c k1 where r: "io_read io fd k = (rc, c, k1)" by (metis prod_cases3)
  with client_read [OF assms r] Nil show ?case
    by (simp add: readline_loop.simps upd_conv_take_nth_drop take_Suc_conv_app_nth Suc_diff_le)
next
  case (Cons x s)
  obtain rc c k1 where r: "io_read io fd k = (rc, c, k1)" by (metis prod_cases3)
  have k1: "rc = 1" "c = x" "inp k1 = s @ newline # rest" "recv k1 = recv k" using client_read [OF assms r] Cons.prems(1) by simp_all
  have "\<exists>k2. readline_loop io fd maxlen (n + 1) (ptr + 1) (buf[ptr := x]) k1 =
      (int (n + 1 + length s), take (ptr + 1) (buf[ptr := x]) @ s @ newline # CHR 0x00 # drop (ptr + 1 + length s + 2) (buf[ptr := x]), k2) \<and>
      inp k2 = rest \<and> recv k2 = recv k1"
    by (rule Cons.IH) (use Cons.prems k1 in auto)
  then show ?case using r k1 Cons.prems
    by (subst readline_loop.simps) (auto simp: take_Suc_conv_app_nth)
qed

lemma show_nat_length: "n < 10 ^ d \<Longrightarrow> 0 < d \<Longrightarrow> length (show_nat n) \<le> d"
proof (induction d arbitrary: n)
  case (Suc d)
  show ?case
  proof (cases "n < 10")
    case False
    with Suc.prems have "n div 10 < 10 ^ d" "0 < d" by (auto intro!: Nat.gr0I)
    from Suc.IH [OF this] False show ?thesis by (subst show_nat.simps) simp
  qed (subst show_nat.simps, simp)
qed simp

lemma atol_line: "n < 2 ^ 63 \<Longrightarrow> atol (show_nat n @ newline # rest) = Inr (int n)"
  using c_number_show [of n 64 "newline # rest"] by (simp add: atol_def is_digit_def code_of_def)

lemma show_nat_no_newline: "newline \<notin> set (show_nat n)"
  by (simp add: show_nat_no is_digit_def code_of_def)

lemma writen_loop_client:
  assumes "writen_loop io fd left k = Some r" and "client_ok io fd inp recv intr"
  shows "fst r \<and> inp (snd r) = inp k"
proof -
  have "client_ok io fd inp recv intr \<longrightarrow> fst r \<and> inp (snd r) = inp k"
    by (rule writen_loop.raw_induct [OF _ assms(1)])
      (fastforce split: if_splits prod.splits dest: client_write)
  with assms(2) show ?thesis by blast
qed

lemma writen_client:
  assumes "client_ok io fd inp recv intr"
  shows "\<exists>k1. writen io fd buf k = Some (int (length buf), k1) \<and> recv k1 = recv k @ buf \<and> inp k1 = inp k"
proof -
  have w: "write_ok io fd recv intr" using assms by (simp add: client_ok_def)
  from writen_loop_sends [OF w, of buf k] obtain ok k1 n where r: "writen_loop io fd buf k = Some (ok, k1)"
      "recv k1 = recv k @ take n buf" "if ok then n = length buf else n < length buf" by blast
  from writen_loop_client [OF r(1) assms] r show ?thesis by (auto simp: writen_def)
qed

lemma int_of_long_small: "0 \<le> v \<Longrightarrow> v < 2 ^ 31 \<Longrightarrow> int_of_long v = v"
  by (simp add: int_of_long_def)

lemma echo_loop_client:
  assumes c: "client_ok io fd inp recv intr"
  shows "inp k = concat (map (\<lambda>n. show_nat n @ [newline]) ns) \<Longrightarrow> \<forall>n \<in> set ns. n \<le> MAXN \<Longrightarrow> length result = MAXN \<Longrightarrow> length line = MAXLINE \<Longrightarrow>
    \<exists>out1 k1. echo_loop io fd result line out k = Some (Inr (), out1, k1) \<and> recv k1 = recv k @ concat (map (\<lambda>n. take n result) ns)"
proof (induction ns arbitrary: line out k)
  case Nil
  obtain k1 where "readline io fd MAXLINE line k = (0, line, k1)" and "recv k1 = recv k"
    by (rule readline_end [OF c, of k MAXLINE line]) (use Nil in \<open>simp_all add: MAXLINE_def\<close>)
  then show ?case by (subst echo_loop.simps) simp
next
  case (Cons n ns)
  let ?rest = "concat (map (\<lambda>n. show_nat n @ [newline]) ns)"
  have n: "n \<le> 16384" using Cons.prems(2) by (simp add: MAXN_def)
  then have len: "length (show_nat n) \<le> 5" by (intro show_nat_length) simp_all
  let ?line = "show_nat n @ newline # CHR 0x00 # drop (Suc (Suc (length (show_nat n)))) line"
  have "\<exists>k1. readline_loop io fd MAXLINE 1 0 line k =
      (int (1 + length (show_nat n)), take 0 line @ show_nat n @ newline # CHR 0x00 # drop (0 + length (show_nat n) + 2) line, k1) \<and>
      inp k1 = ?rest \<and> recv k1 = recv k"
    by (rule readline_loop_line [OF c]) (use Cons.prems len show_nat_no_newline in \<open>auto simp: MAXLINE_def\<close>)
  then obtain k1 where r: "readline io fd MAXLINE line k = (int (1 + length (show_nat n)), ?line, k1)"
      and k1: "inp k1 = ?rest" "recv k1 = recv k" by (auto simp: readline_def)
  have a: "atol ?line = Inr (int n)" "int_of_long (int n) = int n" using n by (simp_all add: atol_line int_of_long_small)
  obtain k2 where w: "writen io fd (take n result) k1 = Some (int (length (take n result)), k2)"
      "recv k2 = recv k1 @ take n result" "inp k2 = inp k1" using writen_client [OF c] by blast
  have "\<exists>out1 k3. echo_loop io fd result ?line out' k2 = Some (Inr (), out1, k3) \<and>
      recv k3 = recv k2 @ concat (map (\<lambda>n. take n result) ns)" for out'
    by (rule Cons.IH) (use Cons.prems k1 w len in \<open>auto simp: MAXLINE_def\<close>)
  then obtain out1 k3 where "echo_loop io fd result ?line (if n = 0 then out @ [''client request for '' @ show_int (int n) @ '' bytes''] else out) k2 = Some (Inr (), out1, k3)"
      "recv k3 = recv k2 @ concat (map (\<lambda>n. take n result) ns)" by blast
  then show ?case using w k1 n by (subst echo_loop.simps) (simp add: r a MAXN_def)
qed

text \<open>
  C34 (liveness). A client that asks for \<open>n\<close> bytes in each of its lines and closes its side is
  served to the end, over whatever split its writes are made in: \<open>run\<close> returns, the client has
  received the first \<open>n\<close> bytes of the result for each line, in order, the connection is closed, and the
  pool counts no busy handler more than before and one request more.
\<close>

theorem echo_served:
  assumes "client_ok io (fd_get c) inp recv intr" and "inp k = concat (map (\<lambda>n. show_nat n @ [newline]) ns)"
    and "\<forall>n \<in> set ns. n \<le> MAXN" and "length result = MAXN" and "length line = MAXLINE" and "this \<notin> cb_handlers cb"
  shows "\<exists>c1 out cb1 k1. TestRequestHandler_run io this line result c cb k = Some (Inr c1, out, cb1, k1) \<and>
    recv k1 = recv k @ concat (map (\<lambda>n. take n result) ns) \<and> \<not> isOpen c1 \<and> cb_handlers cb1 = cb_handlers cb \<and>
    mn_busyHandlers (cb_monitor cb1) = mn_busyHandlers (cb_monitor cb) \<and>
    mn_countHandlers (cb_monitor cb1) = mn_countHandlers (cb_monitor cb) + 1"
proof -
  obtain out1 k1 where e: "echo_loop io (fd_get c) result line (errno_line io c) k = Some (Inr (), out1, k1)"
      and recv: "recv k1 = recv k @ concat (map (\<lambda>n. take n result) ns)"
    using echo_loop_client [OF assms(1-5)] by blast
  obtain res k2 where cl: "io_close io (fd_get c) k1 = (res, k2)" by fastforce
  have "recv k2 = recv k1" using assms(1) cl unfolding client_ok_def by blast
  with e recv cl assms(6) show ?thesis
    by (auto simp: TestRequestHandler_run_def Let_def pool_addHandler_def pool_removeHandler_def addHandler_def removeHandler_def)
qed

text \<open>
  A client whose script is its input, the text received, and the sizes in which its system takes
  the writes, 0 for an interrupted call.
\<close>

type_synonym script = "string \<times> string \<times> nat list"

definition script_io :: "script conn_io" where
  "script_io =
     \<lparr>io_read = (\<lambda>fd (inp, recv, ws). case inp of [] \<Rightarrow> (0, CHR 0x00, inp, recv, ws) | c # cs \<Rightarrow> (1, c, cs, recv, ws)),
      io_write = (\<lambda>fd data (inp, recv, ws).
        case ws of
          [] \<Rightarrow> (int (length data), inp, recv @ data, [])
        | w # ws \<Rightarrow> if w = 0 then (- 1, inp, recv, ws) else (int (min w (length data)), inp, recv @ take w data, ws)),
      io_close = (\<lambda>fd k. (0, k)), io_errno = (\<lambda>k. EINTR), io_strerror = (\<lambda>e. [])\<rparr>"

lemma script_client: "client_ok script_io fd fst (fst \<circ> snd) (\<lambda>(inp, recv, ws). length ws)"
  by (auto simp: client_ok_def write_ok_def script_io_def EINTR_def min_def split: list.splits if_splits)

theorem echo_served_witness:
  "\<exists>c1 out cb1 k1. TestRequestHandler_run script_io 1 (replicate MAXLINE CHR ''x'') (replicate MAXN CHR ''r'')
      (ClientSocket_new 7 0) \<lparr>cb_handlers = {}, cb_monitor = Monitor_new 5 15 1000\<rparr>
      (show_nat 12 @ [newline] @ show_nat 0 @ [newline] @ show_nat 300 @ [newline], [], [5, 0, 4, 100]) = Some (Inr c1, out, cb1, k1) \<and>
    length (fst (snd k1)) = 312"
proof -
  let ?k = "(show_nat 12 @ [newline] @ show_nat 0 @ [newline] @ show_nat 300 @ [newline], [], [5, 0, 4, 100 :: nat]) :: script"
  have "\<forall>n \<in> set [12, 0, 300]. n \<le> MAXN" by (simp add: MAXN_def)
  with echo_served [OF script_client, of ?k "[12, 0, 300]" "replicate MAXN CHR ''r''" "replicate MAXLINE CHR ''x''" 1
      "\<lparr>cb_handlers = {}, cb_monitor = Monitor_new 5 15 1000\<rparr>" "ClientSocket_new 7 0"]
  obtain c1 out cb1 k1 where "TestRequestHandler_run script_io 1 (replicate MAXLINE CHR ''x'') (replicate MAXN CHR ''r'')
      (ClientSocket_new 7 0) \<lparr>cb_handlers = {}, cb_monitor = Monitor_new 5 15 1000\<rparr> ?k = Some (Inr c1, out, cb1, k1)"
      "fst (snd k1) = concat (map (\<lambda>n. take n (replicate MAXN CHR ''r'')) [12, 0, 300])"
    by (auto simp del: replicate.simps)
  then show ?thesis by (intro exI conjI) (assumption, simp add: MAXN_def)
qed

text \<open>
  A connection that fails is not left: when every \<open>read\<close> fails, \<open>run\<close> never returns, and its thread
  answers the last line over and over.
\<close>

lemma failed_read_never_ends:
  assumes "\<And>k. \<exists>k1. io_read io fd k = (- 1, c, k1)" and "atol line = Inr 0"
  shows "echo_loop io fd result line out k = None"
proof (rule ccontr)
  assume "echo_loop io fd result line out k \<noteq> None"
  then obtain r where "echo_loop io fd result line out k = Some r" by auto
  then have "(\<forall>k. \<exists>k1. io_read io fd k = (- 1, c, k1)) \<and> atol line = Inr 0 \<longrightarrow> False"
  proof (rule echo_loop.raw_induct [rotated], goal_cases)
    case (1 el io fd result line out k r)
    show ?case
    proof
      assume h: "(\<forall>k. \<exists>k1. io_read io fd k = (- 1, c, k1)) \<and> atol line = Inr 0"
      then obtain k1 where "io_read io fd k = (- 1, c, k1)" by blast
      then have rl: "readline io fd MAXLINE line k = (- 1, line, k1)" by (simp add: readline_def readline_loop.simps MAXLINE_def)
      have w: "writen io fd [] k1 = Some (0, k1)" by (simp add: writen_def writen_loop.simps)
      from 1(2) h rl w have "\<exists>out1. el io fd result line out1 k1 = Some r" by (auto simp: int_of_long_small MAXN_def)
      with 1(1) h show False by blast
    qed
  qed
  with assms show False by blast
qed

end
