(* ===== verification/Base64.thy ===== *)
theory Base64
  imports Prelude
begin

unbundle bit_operations_syntax

text \<open>
  \<open>src/src/Sockets-2.3.5/Base64.cpp\<close>: encoding and decoding. The encoder exists three times, for
  plain \<open>char\<close> (signed here), for \<open>unsigned char\<close> and for a file read in blocks of three bytes. The
  decoder indexes a table of 128 entries with a signed \<open>char\<close> and looks up to three characters
  ahead without a check; outside of the table and past the terminating zero its behaviour is
  undefined.
\<close>

definition uchar :: "char \<Rightarrow> int" where
  "uchar c = int (code_of c)"

definition bstr :: string where
  "bstr = ''ABCDEFGHIJKLMNOPQRSTUVWXYZabcdefghijklmnopqrstuvwxyz0123456789+/''"

definition rstr :: "int list" where
  "rstr =
     [0, 0, 0, 0, 0, 0, 0, 0, 0, 0, 0, 0, 0, 0, 0, 0,
      0, 0, 0, 0, 0, 0, 0, 0, 0, 0, 0, 0, 0, 0, 0, 0,
      0, 0, 0, 0, 0, 0, 0, 0, 0, 0, 0, 62, 0, 0, 0, 63,
      52, 53, 54, 55, 56, 57, 58, 59, 60, 61, 0, 0, 0, 0, 0, 0,
      0, 0, 1, 2, 3, 4, 5, 6, 7, 8, 9, 10, 11, 12, 13, 14,
      15, 16, 17, 18, 19, 20, 21, 22, 23, 24, 25, 0, 0, 0, 0, 0,
      0, 26, 27, 28, 29, 30, 31, 32, 33, 34, 35, 36, 37, 38, 39, 40,
      41, 42, 43, 44, 45, 46, 47, 48, 49, 50, 51, 0, 0, 0, 0, 0]"

section \<open>Encoding\<close>

definition bstr_at :: "int \<Rightarrow> char" where
  "bstr_at i = bstr ! nat i"

text \<open>The four characters of one turn, for one, two and three bytes.\<close>

definition group1 :: "int \<Rightarrow> string" where
  "group1 a = [bstr_at (drop_bit 2 a AND 0x3f), bstr_at (push_bit 4 a AND 0x30)] @ ''==''"

definition group2 :: "int \<Rightarrow> int \<Rightarrow> string" where
  "group2 a b =
     [bstr_at (drop_bit 2 a AND 0x3f), bstr_at ((push_bit 4 a AND 0x30) + (drop_bit 4 b AND 0x0f)),
      bstr_at (push_bit 2 b AND 0x3c)] @ ''=''"

definition group3 :: "int \<Rightarrow> int \<Rightarrow> int \<Rightarrow> string" where
  "group3 a b c =
     [bstr_at (drop_bit 2 a AND 0x3f), bstr_at ((push_bit 4 a AND 0x30) + (drop_bit 4 b AND 0x0f)),
      bstr_at ((push_bit 2 b AND 0x3c) + (drop_bit 6 c AND 0x03)), bstr_at (c AND 0x3f)]"

definition line_break :: "bool \<Rightarrow> nat \<Rightarrow> string" where
  "line_break add_crlf n = (if add_crlf \<and> n \<noteq> 0 \<and> n mod 76 = 0 then [CHR 0x0A] else [])"

fun encode_chars :: "bool \<Rightarrow> nat \<Rightarrow> string \<Rightarrow> string" where
  "encode_chars add_crlf n [] = []"
| "encode_chars add_crlf n [a] = line_break add_crlf n @ group1 (schar a)"
| "encode_chars add_crlf n [a, b] = line_break add_crlf n @ group2 (schar a) (schar b)"
| "encode_chars add_crlf n (a # b # c # rest) =
     line_break add_crlf n @ group3 (schar a) (schar b) (schar c) @ encode_chars add_crlf (n + 4) rest"

fun encode_uchars :: "bool \<Rightarrow> nat \<Rightarrow> string \<Rightarrow> string" where
  "encode_uchars add_crlf n [] = []"
| "encode_uchars add_crlf n [a] = line_break add_crlf n @ group1 (uchar a)"
| "encode_uchars add_crlf n [a, b] = line_break add_crlf n @ group2 (uchar a) (uchar b)"
| "encode_uchars add_crlf n (a # b # c # rest) =
     line_break add_crlf n @ group3 (uchar a) (uchar b) (uchar c) @ encode_uchars add_crlf (n + 4) rest"

text \<open>A file: \<open>fread\<close> fills the buffer with the next three bytes, or with what is left.\<close>

function encode_file :: "bool \<Rightarrow> nat \<Rightarrow> string \<Rightarrow> string" where
  "encode_file add_crlf n file =
     (let input = take 3 file; remain = length input in
      if remain = 0 then []
      else line_break add_crlf n @
           (if remain = 1 then group1 (schar (input ! 0))
            else if remain = 2 then group2 (schar (input ! 0)) (schar (input ! 1))
            else group3 (schar (input ! 0)) (schar (input ! 1)) (schar (input ! 2))) @
           encode_file add_crlf (n + 4) (drop 3 file))"
  by pat_completeness auto
termination
  by (relation "measure (\<lambda>(_, _, file). length file)") auto

declare encode_file.simps [simp del]

definition Base64_encode :: "string \<Rightarrow> bool \<Rightarrow> string" where
  "Base64_encode str add_crlf = encode_chars add_crlf 0 str"

section \<open>Decoding\<close>

definition str_at :: "string \<Rightarrow> nat \<Rightarrow> exn + char" where
  "str_at s i = (if i < length s then Inr (s ! i) else if i = length s then Inr (CHR 0x00) else Inl (Undefined ''operator[]''))"

definition rstr_at :: "char \<Rightarrow> exn + int" where
  "rstr_at c = (if schar c < 0 then Inl (Undefined ''rstr'') else Inr (rstr ! nat (schar c)))"

definition to_char :: "int \<Rightarrow> char" where
  "to_char i = char_of (nat (i mod 256))"

text \<open>The bytes of one turn, at the start of \<open>s\<close>.\<close>

definition quad :: "string \<Rightarrow> exn + string" where
  "quad s =
     bindX (str_at s 0) (\<lambda>c0. bindX (str_at s 1) (\<lambda>c1. bindX (rstr_at c0) (\<lambda>r0. bindX (rstr_at c1) (\<lambda>r1.
     bindX (str_at s 2) (\<lambda>c2.
     bindX (if c2 \<noteq> CHR ''=''
            then bindX (rstr_at c2) (\<lambda>r2. Inr [to_char ((push_bit 4 r1 AND 0xf0) + (drop_bit 2 r2 AND 0x0f))])
            else Inr []) (\<lambda>b2.
     bindX (str_at s 3) (\<lambda>c3.
     bindX (if c3 \<noteq> CHR ''=''
            then bindX (rstr_at c2) (\<lambda>r2. bindX (rstr_at c3) (\<lambda>r3. Inr [to_char ((push_bit 6 r2 AND 0xc0) + r3)]))
            else Inr []) (\<lambda>b3.
     Inr (to_char ((push_bit 2 r0 AND 0xfc) + (drop_bit 4 r1 AND 0x03)) # b2 @ b3)))))))))"

definition is_crlf :: "char \<Rightarrow> bool" where
  "is_crlf c \<longleftrightarrow> code_of c = 13 \<or> code_of c = 10"

function Base64_decode :: "string \<Rightarrow> exn + string" where
  "Base64_decode input =
     (let t = dropWhile is_crlf input in
      if t = [] then Inr []
      else bindX (quad t) (\<lambda>bs. bindX (Base64_decode (drop 4 t)) (\<lambda>out. Inr (bs @ out))))"
  by pat_completeness auto
termination
proof (relation "measure length")
  fix input :: string and t bs
  assume "t = dropWhile is_crlf input" "t \<noteq> []"
  then have "0 < length t" "length t \<le> length input" by (simp_all only: length_greater_0_conv length_dropWhile_le simp_thms)
  then show "(drop 4 t, input) \<in> measure length" by (cases t) auto
qed simp

declare Base64_decode.simps [simp del]

text \<open>
  The second decoder writes through a pointer when there is one, and counts: the bytes it has
  written from the start of the buffer, and \<open>sz\<close>.
\<close>

function decode_buffer :: "bool \<Rightarrow> string \<Rightarrow> string \<Rightarrow> nat \<Rightarrow> exn + string \<times> nat" where
  "decode_buffer have_outputut input outp j =
     (let t = dropWhile is_crlf input in
      if t = [] then Inr (outp, j)
      else bindX (quad t) (\<lambda>bs.
           decode_buffer have_outputut (drop 4 t) (if have_outputut then outp @ bs else outp) (j + length bs)))"
  by pat_completeness auto
termination
proof (relation "measure (\<lambda>(_, input, _). length input)")
  fix have_outputut :: bool and input outp :: string and j :: nat and t bs
  assume "t = dropWhile is_crlf input" "t \<noteq> []"
  then have "0 < length t" "length t \<le> length input" by (simp_all only: length_greater_0_conv length_dropWhile_le simp_thms)
  then show "((have_outputut, drop 4 t, if have_outputut then outp @ bs else outp, j + length bs), have_outputut, input, outp, j)
      \<in> measure (\<lambda>(_, input, _). length input)"
    by (cases t) auto
qed simp

declare decode_buffer.simps [simp del]

definition decode_length :: "string \<Rightarrow> nat" where
  "decode_length str64 =
     (if length str64 = 0 \<or> length str64 mod 4 \<noteq> 0 then 0
      else 3 * (length str64 div 4 - 1) + 1 + (if str64 ! (length str64 - 2) \<noteq> CHR ''='' then 1 else 0) +
           (if str64 ! (length str64 - 1) \<noteq> CHR ''='' then 1 else 0))"

section \<open>The bit patterns as arithmetic\<close>

lemma drop_and_mask: "drop_bit n (a :: int) AND (2 ^ m - 1) = a div 2 ^ n mod 2 ^ m"
  by (simp add: drop_bit_eq_div mask_eq_exp_minus_1 [symmetric] take_bit_eq_mask [symmetric] take_bit_eq_mod)

lemma push_and_mask: "push_bit n (a :: int) AND push_bit n (2 ^ m - 1) = a mod 2 ^ m * 2 ^ n"
  unfolding push_bit_and [symmetric]
  by (simp add: mask_eq_exp_minus_1 [symmetric] take_bit_eq_mask [symmetric] take_bit_eq_mod push_bit_eq_mult)

lemmas sextet_bits =
  drop_and_mask [of 2 _ 6, simplified] drop_and_mask [of 4 _ 4, simplified] drop_and_mask [of 6 _ 2, simplified]
  drop_and_mask [of 4 _ 2, simplified] drop_and_mask [of 2 _ 4, simplified]
  push_and_mask [of 4 _ 2, simplified] push_and_mask [of 2 _ 4, simplified]
  push_and_mask [of 2 _ 6, simplified] push_and_mask [of 4 _ 4, simplified] push_and_mask [of 6 _ 2, simplified]

definition sextets :: "(char \<Rightarrow> int) \<Rightarrow> char \<Rightarrow> bool" where
  "sextets val c \<longleftrightarrow>
     drop_bit 2 (val c) AND 0x3f = int (code_of c div 4) \<and> push_bit 4 (val c) AND 0x30 = int (code_of c mod 4 * 16) \<and>
     drop_bit 4 (val c) AND 0x0f = int (code_of c div 16) \<and> push_bit 2 (val c) AND 0x3c = int (code_of c mod 16 * 4) \<and>
     drop_bit 6 (val c) AND 0x03 = int (code_of c div 64) \<and> val c AND 0x3f = int (code_of c mod 64)"

lemma div_mod_mult:
  assumes "0 < d" and "0 \<le> m"
  shows "(v :: int) div d mod m = v mod (d * m) div d"
  using assms by (simp add: zmod_zmult2_eq)

lemma sextets_mod:
  assumes "val c mod 256 = int (code_of c)"
  shows "sextets val c"
proof -
  let ?x = "int (code_of c)"
  have "val c AND 0x3f = val c mod 64" using drop_and_mask [of 0 "val c" 6] by simp
  moreover have "val c mod k = ?x mod k" if "k dvd 256" for k
    using mod_mod_cancel [OF that, of "val c"] assms by argo
  then have "val c mod 64 = ?x mod 64" "val c mod 16 = ?x mod 16" "val c mod 4 = ?x mod 4" by simp_all
  moreover have "val c div 4 mod 64 = ?x div 4" "val c div 16 mod 16 = ?x div 16" "val c div 64 mod 4 = ?x div 64"
    using assms by (simp_all add: div_mod_mult)
  ultimately show ?thesis
    unfolding sextets_def sextet_bits zdiv_int zmod_int of_nat_mult of_nat_numeral by (intro conjI) argo+
qed

lemma sextets_char: "sextets uchar c" "sextets schar c"
  by (rule sextets_mod; simp add: uchar_def schar_def)+

definition sext :: "nat \<Rightarrow> char" where
  "sext x = bstr ! x"

lemma sext_props:
  assumes "x < 64"
  shows "rstr_at (sext x) = Inr (int x)" and "sext x \<noteq> CHR ''=''" and "\<not> is_crlf (sext x)"
proof -
  have "list_all (\<lambda>x. rstr_at (sext x) = Inr (int x) \<and> sext x \<noteq> CHR ''='' \<and> \<not> is_crlf (sext x)) [0..<64]"
    by (simp add: sext_def bstr_def rstr_at_def rstr_def schar_def code_of_def is_crlf_def upt_rec)
  with assms show "rstr_at (sext x) = Inr (int x)" "sext x \<noteq> CHR ''=''" "\<not> is_crlf (sext x)"
    by (auto simp: list_all_iff)
qed

lemma groups:
  assumes "sextets val a" and "sextets val b" and "sextets val c"
  shows "group1 (val a) = [sext (code_of a div 4), sext (code_of a mod 4 * 16)] @ ''==''"
    and "group2 (val a) (val b) =
      [sext (code_of a div 4), sext (code_of a mod 4 * 16 + code_of b div 16), sext (code_of b mod 16 * 4)] @ ''=''"
    and "group3 (val a) (val b) (val c) =
      [sext (code_of a div 4), sext (code_of a mod 4 * 16 + code_of b div 16), sext (code_of b mod 16 * 4 + code_of c div 64),
       sext (code_of c mod 64)]"
  using assms
  by (simp_all only: sextets_def group1_def group2_def group3_def bstr_at_def sext_def of_nat_add [symmetric] nat_int)

lemma quad_decode:
  assumes "x < 64" and "y < 64"
  shows "quad ([sext x, sext y] @ ''=='' @ rest) = Inr [to_char (int (x * 4 + y div 16))]"
    and "z < 64 \<Longrightarrow> quad ([sext x, sext y, sext z] @ ''='' @ rest) =
      Inr [to_char (int (x * 4 + y div 16)), to_char (int (y mod 16 * 16 + z div 4))]"
    and "z < 64 \<Longrightarrow> w < 64 \<Longrightarrow> quad ([sext x, sext y, sext z, sext w] @ rest) =
      Inr [to_char (int (x * 4 + y div 16)), to_char (int (y mod 16 * 16 + z div 4)), to_char (int (z mod 4 * 64 + w))]"
proof -
  have bits: "push_bit 2 (int x) AND 0xfc = int (x * 4)" "drop_bit 4 (int y) AND 0x03 = int (y div 16)"
    "push_bit 4 (int y) AND 0xf0 = int (y mod 16 * 16)" "drop_bit 2 (int z) AND 0x0f = int (z div 4)"
    "push_bit 6 (int z) AND 0xc0 = int (z mod 4 * 64)" if "z < 64" for z
  proof -
    have "z div 4 < 16" using that by simp
    then show "push_bit 2 (int x) AND 0xfc = int (x * 4)" "drop_bit 4 (int y) AND 0x03 = int (y div 16)"
      "push_bit 4 (int y) AND 0xf0 = int (y mod 16 * 16)" "drop_bit 2 (int z) AND 0x0f = int (z div 4)"
      "push_bit 6 (int z) AND 0xc0 = int (z mod 4 * 64)"
      using assms by (simp_all add: sextet_bits flip: zdiv_int zmod_int) (simp_all add: zmod_int)
  qed
  note run = quad_def bindX_def str_at_def sext_props
  show "quad ([sext x, sext y] @ ''=='' @ rest) = Inr [to_char (int (x * 4 + y div 16))]"
    using assms bits(1,2) [of 0] by (simp add: run nth_Cons')
  show "z < 64 \<Longrightarrow> quad ([sext x, sext y, sext z] @ ''='' @ rest) =
      Inr [to_char (int (x * 4 + y div 16)), to_char (int (y mod 16 * 16 + z div 4))]"
    using assms bits by (simp add: run nth_Cons')
  show "z < 64 \<Longrightarrow> w < 64 \<Longrightarrow> quad ([sext x, sext y, sext z, sext w] @ rest) =
      Inr [to_char (int (x * 4 + y div 16)), to_char (int (y mod 16 * 16 + z div 4)), to_char (int (z mod 4 * 64 + w))]"
    using assms bits by (simp add: run nth_Cons')
qed

section \<open>Round trip\<close>

lemma to_char_code [simp]: "to_char (int (code_of c)) = c"
  by (simp add: to_char_def code_of_def)

lemma sextet_less: "code_of a div 4 < 64" "code_of a mod 4 * 16 + code_of b div 16 < 64" "code_of b mod 16 * 4 + code_of c div 64 < 64"
  "code_of a mod 4 * 16 < 64" "code_of b mod 16 * 4 < 64" "code_of c mod 64 < 64"
proof -
  have "code_of b div 16 < 16" "code_of c div 64 < 4" by (simp_all add: less_mult_imp_div_less)
  moreover have "code_of a mod 4 \<le> 3" "code_of b mod 16 \<le> 15" by auto
  ultimately show "code_of a mod 4 * 16 + code_of b div 16 < 64" "code_of b mod 16 * 4 + code_of c div 64 < 64"
    "code_of a mod 4 * 16 < 64" "code_of b mod 16 * 4 < 64" by linarith+
  show "code_of a div 4 < 64" "code_of c mod 64 < 64" by (simp_all add: less_mult_imp_div_less)
qed

lemma octet_sums:
  assumes "b < 256" and "c < 256"
  shows "a div 4 * 4 + (a mod 4 * 16 + b div 16) div 16 = (a :: nat)"
    and "(a mod 4 * 16 + b div 16) mod 16 * 16 + (b mod 16 * 4 + c div 64) div 4 = b"
    and "(b mod 16 * 4 + c div 64) mod 4 * 64 + c mod 64 = c"
proof -
  have "b div 16 < 16" "c div 64 < 4" using assms by (simp_all add: less_mult_imp_div_less)
  then show "a div 4 * 4 + (a mod 4 * 16 + b div 16) div 16 = a"
    and "(a mod 4 * 16 + b div 16) mod 16 * 16 + (b mod 16 * 4 + c div 64) div 4 = b"
    and "(b mod 16 * 4 + c div 64) mod 4 * 64 + c mod 64 = c"
    by (simp_all add: mod_mult_self3 div_mult_mod_eq)
qed

lemmas char_groups = groups [of schar, OF sextets_char(2) sextets_char(2) sextets_char(2)]

lemma group_quad:
  "quad (group1 (schar a) @ rest) = Inr [a]" "quad (group2 (schar a) (schar b) @ rest) = Inr [a, b]"
  "quad (group3 (schar a) (schar b) (schar c) @ rest) = Inr [a, b, c]"
proof -
  have "code_of a div 4 * 4 + code_of a mod 4 * 16 div 16 = code_of a" by simp
  with quad_decode(1) [OF sextet_less(1) [of a] sextet_less(4) [of a], of rest] show "quad (group1 (schar a) @ rest) = Inr [a]"
    by (simp add: char_groups(1) flip: of_nat_add of_nat_mult)
  show "quad (group2 (schar a) (schar b) @ rest) = Inr [a, b]"
    using quad_decode(2) [OF sextet_less(1) [of a] sextet_less(2) [of a b] sextet_less(5) [of b], of rest] octet_sums(1,2) [of "code_of b" 0 "code_of a"]
    by (simp only: char_groups(2) append_assoc) simp
  show "quad (group3 (schar a) (schar b) (schar c) @ rest) = Inr [a, b, c]"
    using quad_decode(3) [OF sextet_less(1) [of a] sextet_less(2) [of a b] sextet_less(3) [of b c] sextet_less(6) [of c], of rest] octet_sums(1,2) [of "code_of b" "code_of c" "code_of a"]
      octet_sums(3) [of "code_of b" "code_of c"]
    by (simp only: char_groups(3)) simp
qed

lemma group_shape:
  "length (group1 x) = 4" "length (group2 x y) = 4" "length (group3 x y z) = 4"
  by (simp_all add: group1_def group2_def group3_def)

lemma group_hd:
  "\<not> is_crlf (hd (group1 (schar a) @ r))" "\<not> is_crlf (hd (group2 (schar a) (schar b) @ r))"
  "\<not> is_crlf (hd (group3 (schar a) (schar b) (schar c) @ r))"
  by (simp_all add: char_groups sext_props sextet_less)

lemma decode_step:
  assumes "length g = 4" and "\<not> is_crlf (hd (g @ r))" and "quad (g @ r) = Inr bs"
  shows "Base64_decode (line_break nl n @ g @ r) = bindX (Base64_decode r) (\<lambda>out. Inr (bs @ out))"
proof -
  obtain x xs where g: "g = x # xs" using assms(1) by (cases g) auto
  have "is_crlf (CHR 0x0A)" by code_simp
  then have "dropWhile is_crlf (line_break nl n @ g @ r) = g @ r" using assms(2) by (simp add: g line_break_def)
  with assms show ?thesis by (subst Base64_decode.simps) (simp add: bindX_def g)
qed

lemma decode_encode: "Base64_decode (encode_chars nl n s) = Inr s"
proof (induction nl n s rule: encode_chars.induct)
  case (1 nl n)
  show ?case by (simp add: Base64_decode.simps)
next
  case (2 nl n a)
  show ?case using decode_step [OF group_shape(1) group_hd(1) group_quad(1), of nl n a "[]"] by (simp add: Base64_decode.simps bindX_def)
next
  case (3 nl n a b)
  show ?case using decode_step [OF group_shape(2) group_hd(2) group_quad(2), of nl n a b "[]"] by (simp add: Base64_decode.simps bindX_def)
next
  case (4 nl n a b c rest)
  then show ?case using decode_step [OF group_shape(3) group_hd(3) group_quad(3), of nl n a b c] by (simp add: bindX_def)
qed

section \<open>The variants agree\<close>

lemma encode_uchars_eq: "encode_uchars nl n s = encode_chars nl n s"
proof -
  note uchar_groups = groups [of uchar, OF sextets_char(1) sextets_char(1) sextets_char(1)]
  show ?thesis by (induction nl n s rule: encode_chars.induct) (simp_all add: char_groups uchar_groups)
qed

lemma encode_file_eq: "encode_file nl n s = encode_chars nl n s"
  by (induction nl n s rule: encode_chars.induct) (subst encode_file.simps; simp add: encode_file.simps [of _ _ "[]"])+

lemma decode_buffer_eq:
  "decode_buffer have_output s outp j =
     bindX (Base64_decode s) (\<lambda>bs. Inr (if have_output then outp @ bs else outp, j + length bs))"
proof (induction s arbitrary: outp j rule: Base64_decode.induct)
  case (1 s)
  show ?case
  proof (cases "dropWhile is_crlf s = []")
    case True
    then show ?thesis by (subst decode_buffer.simps, subst Base64_decode.simps) (simp add: bindX_def)
  next
    case False
    define t where "t = dropWhile is_crlf s"
    have "Base64_decode s = bindX (quad t) (\<lambda>bs. bindX (Base64_decode (drop 4 t)) (\<lambda>out. Inr (bs @ out)))"
      using False by (subst Base64_decode.simps) (simp only: Let_def t_def if_False)
    moreover have "decode_buffer have_output s outp j = bindX (quad t) (\<lambda>bs.
        decode_buffer have_output (drop 4 t) (if have_output then outp @ bs else outp) (j + length bs))"
      using False by (subst decode_buffer.simps) (simp only: Let_def t_def if_False)
    ultimately show ?thesis
      using "1" [OF t_def] False by (cases "quad t"; cases "Base64_decode (drop 4 t)") (simp_all add: bindX_def t_def [symmetric])
  qed
qed

text \<open>The last group of an encoded text, and what comes before it.\<close>

definition last_group :: "nat \<Rightarrow> string \<Rightarrow> bool" where
  "last_group n g \<longleftrightarrow>
     length g = 4 \<and> (g ! 2 \<noteq> CHR ''='' \<longleftrightarrow> n mod 3 \<noteq> 1) \<and> (g ! 3 \<noteq> CHR ''='' \<longleftrightarrow> n mod 3 = 0)"

lemma last_groups:
  "last_group 1 (group1 (schar a))" "last_group 2 (group2 (schar a) (schar b))"
  "last_group 3 (group3 (schar a) (schar b) (schar c))"
  by (simp_all add: last_group_def char_groups sext_props sextet_less)

lemma last_group_add: "last_group (n + 3) g \<longleftrightarrow> last_group n g"
  by (simp add: last_group_def)

lemma encode_last:
  assumes "s \<noteq> []" and "\<not> nl"
  shows "\<exists>pre g. encode_chars nl n s = pre @ g \<and> length pre = 4 * ((length s - 1) div 3) \<and> last_group (length s) g"
  using assms
proof (induction nl n s rule: encode_chars.induct)
  case (2 nl n a)
  then have "encode_chars nl n [a] = [] @ group1 (schar a)" by (simp add: line_break_def)
  moreover have "length [a] = 1" by simp
  ultimately show ?case using last_groups(1) [of a] by fastforce
next
  case (3 nl n a b)
  then have "encode_chars nl n [a, b] = [] @ group2 (schar a) (schar b)" by (simp add: line_break_def)
  moreover have len: "length [a, b] = 2" by simp
  ultimately show ?case using last_groups(2) [of a b] unfolding len
    by - (rule exI [of _ "[]"], rule exI [of _ "group2 (schar a) (schar b)"], simp)
next
  case (4 nl n a b c rest)
  have len: "length (a # b # c # rest) = length rest + 3" by simp
  have enc: "encode_chars nl n (a # b # c # rest) = group3 (schar a) (schar b) (schar c) @ encode_chars nl (n + 4) rest"
    using "4.prems" by (simp add: line_break_def)
  show ?case
  proof (cases rest)
    case Nil
    have "encode_chars nl n (a # b # c # rest) = [] @ group3 (schar a) (schar b) (schar c)" using enc Nil by simp
    moreover have "last_group (length rest + 3) (group3 (schar a) (schar b) (schar c))" using last_groups(3) Nil by simp
    ultimately show ?thesis unfolding len
      by - (rule exI [of _ "[]"], rule exI [of _ "group3 (schar a) (schar b) (schar c)"], simp add: Nil)
  next
    case (Cons d ds)
    then have "rest \<noteq> []" by simp
    from "4.IH" [OF this "4.prems"(2)] obtain pre g where IH: "encode_chars nl (n + 4) rest = pre @ g"
      "length pre = 4 * ((length rest - 1) div 3)" "last_group (length rest) g"
      by blast
    have "encode_chars nl n (a # b # c # rest) = (group3 (schar a) (schar b) (schar c) @ pre) @ g" using enc IH(1) by simp
    moreover have "length (group3 (schar a) (schar b) (schar c) @ pre) = 4 * ((length rest + 3 - 1) div 3)"
    proof -
      have "length rest + 3 - 1 = length rest - 1 + 3" by (simp add: Cons)
      then show ?thesis using IH(2) by (simp only: div_add_self2) (simp add: group_shape)
    qed
    moreover have "last_group (length rest + 3) g" using IH(3) by (simp only: last_group_add)
    ultimately show ?thesis unfolding len by blast
  qed
qed simp

lemma thirds: "0 < n \<Longrightarrow> 3 * ((n - 1) div 3) + 1 + (if n mod 3 \<noteq> 1 then 1 else 0) + (if n mod 3 = 0 then 1 else 0) = (n :: nat)"
proof -
  assume "0 < n"
  obtain q r where q: "n - 1 = 3 * q + r" "r < 3" by (metis mod_less_divisor mult_div_mod_eq zero_less_numeral)
  then have n: "n = Suc (3 * q + r)" using \<open>0 < n\<close> by simp
  have "r = 0 \<or> r = 1 \<or> r = 2" using q(2) by auto
  then show ?thesis by (elim disjE) (simp_all add: n div_Suc mod_Suc)
qed

lemma decode_length_encode: "s \<noteq> [] \<Longrightarrow> decode_length (encode_chars False 0 s) = length s"
proof -
  assume ne: "s \<noteq> []"
  from encode_last [OF this, of False 0] obtain pre g where e: "encode_chars False 0 s = pre @ g"
    "length pre = 4 * ((length s - 1) div 3)" and g: "last_group (length s) g"
    by auto
  define k where "k = (length s - 1) div 3"
  have len: "length (pre @ g) = 4 * k + 4" using e(2) g by (simp add: k_def last_group_def)
  have last2: "(pre @ g) ! (length (pre @ g) - 2) = g ! 2" "(pre @ g) ! (length (pre @ g) - 1) = g ! 3"
    using g by (simp_all add: nth_append last_group_def)
  have "decode_length (pre @ g) = 3 * k + 1 + (if g ! 2 \<noteq> CHR ''='' then 1 else 0) + (if g ! 3 \<noteq> CHR ''='' then 1 else 0)"
    unfolding decode_length_def last2 by (simp add: len del: length_append)
  also have "\<dots> = 3 * k + 1 + (if length s mod 3 \<noteq> 1 then 1 else 0) + (if length s mod 3 = 0 then 1 else 0)"
    using g by (simp only: last_group_def)
  also have "\<dots> = length s" unfolding k_def by (rule thirds) (simp add: ne)
  finally show ?thesis by (simp only: e(1))
qed

text \<open>
  C32 (roundtrip). Decoding gives back every text that was encoded, with or without line breaks,
  and never looks outside of its table or its input; the three encoders produce the same text, the
  decoder into a buffer writes as many bytes as it counts, and the length computed in advance for a
  text without line breaks is the length.
\<close>

theorem base64_roundtrip:
  "Base64_decode (Base64_encode s nl) = Inr s \<and>
   encode_uchars nl 0 s = Base64_encode s nl \<and> encode_file nl 0 s = Base64_encode s nl \<and>
   decode_buffer True (Base64_encode s nl) [] 0 = Inr (s, length s) \<and>
   decode_length (Base64_encode s False) = length s"
proof -
  have "decode_length (Base64_encode s False) = length s"
    using decode_length_encode [of s] by (cases "s = []") (simp_all add: Base64_encode_def decode_length_def)
  then show ?thesis
    by (simp add: Base64_encode_def decode_encode encode_uchars_eq encode_file_eq decode_buffer_eq bindX_def)
qed

end
