(* ===== verification/Utility.thy ===== *)
theory Utility
  imports Base64
begin

text \<open>
  \<open>src/src/Sockets-2.3.5/Utility.cpp\<close>, the functions on text of the vendored socket library: numbers,
  URL encoding, addresses, letter case, UTF-8 and the parts of a URL. A \<open>char\<close> is signed; the
  classification functions are those of the \<open>C\<close> locale, in which no byte above 127 is a letter.
\<close>

definition isalnum :: "char \<Rightarrow> bool" where
  "isalnum c \<longleftrightarrow> is_digit c \<or> 65 \<le> code_of c \<and> code_of c \<le> 90 \<or> 97 \<le> code_of c \<and> code_of c \<le> 122"

definition isxdigit :: "char \<Rightarrow> bool" where
  "isxdigit c \<longleftrightarrow> is_digit c \<or> 65 \<le> code_of c \<and> code_of c \<le> 70 \<or> 97 \<le> code_of c \<and> code_of c \<le> 102"

section \<open>base64 and numbers\<close>

definition base64 :: "string \<Rightarrow> string" where
  "base64 str_in = Base64_encode str_in False"

definition base64d :: "string \<Rightarrow> exn + string" where
  "base64d str_in = Base64_decode str_in"

definition l2string :: "int \<Rightarrow> string" where
  "l2string l = show_int l"

function bigint_loop :: "64 word \<Rightarrow> string \<Rightarrow> string" where
  "bigint_loop tmp str =
     (if tmp = 0 then str
      else bigint_loop (tmp div 10) (to_char (uint (tmp mod 10) + 48) # str))"
  by pat_completeness auto

termination
  by (relation "measure (\<lambda>(tmp, str). unat tmp)") (auto simp: unat_div unat_gt_0)

declare bigint_loop.simps [simp del]

definition bigint2string :: "64 word \<Rightarrow> string" where
  "bigint2string l = (let str = bigint_loop l [] in if str = [] then ''0'' else str)"

definition atoi64 :: "string \<Rightarrow> 64 word" where
  "atoi64 str = fold (\<lambda>c l. l * 10 + of_int (schar c) - 48) str 0"

text \<open>The value of a hexadecimal digit, as \<open>hex2unsigned\<close> and \<open>rfc1738_decode\<close> both compute it.\<close>

definition hex_value :: "char \<Rightarrow> int" where
  "hex_value c = schar c - 48 - (if schar c \<ge> 65 then 7 else 0) - (if schar c \<ge> 97 then 32 else 0)"

definition hex2unsigned :: "string \<Rightarrow> 32 word" where
  "hex2unsigned str = fold (\<lambda>c r. r * 16 + of_int (hex_value c)) str 0"

section \<open>URL encoding\<close>

definition hex :: "nat \<Rightarrow> char" where
  "hex n = ''0123456789ABCDEF'' ! n"

definition encode_char :: "char \<Rightarrow> string" where
  "encode_char c =
     (if isalnum c then [c]
      else if c = CHR '' '' then ''+''
      else [CHR ''%'', hex (code_of c div 16), hex (code_of c mod 16)])"

definition rfc1738_encode :: "string \<Rightarrow> string" where
  "rfc1738_encode src = concat (map encode_char src)"

text \<open>The two characters after a percent sign; past the end the text has its terminating zero.\<close>

fun rfc1738_decode :: "string \<Rightarrow> string" where
  "rfc1738_decode [] = []"
| "rfc1738_decode (c # c1 # c2 # src) =
     (if c = CHR ''%'' \<and> isxdigit c1 \<and> isxdigit c2 then to_char (hex_value c1 * 16 + hex_value c2) # rfc1738_decode src
      else (if c = CHR ''+'' then CHR '' '' else c) # rfc1738_decode (c1 # c2 # src))"
| "rfc1738_decode (c # src) = (if c = CHR ''+'' then CHR '' '' else c) # rfc1738_decode src"

section \<open>Addresses\<close>

fun isipv4_loop :: "int \<Rightarrow> string \<Rightarrow> bool" where
  "isipv4_loop dots [] \<longleftrightarrow> dots = 3"
| "isipv4_loop dots (c # str) \<longleftrightarrow>
     (if c = CHR ''.'' then isipv4_loop (dots + 1) str else if \<not> is_digit c then False else isipv4_loop dots str)"

definition isipv4 :: "string \<Rightarrow> bool" where
  "isipv4 str = isipv4_loop 0 str"

text \<open>An \<open>in6_addr\<close> is the list of its 16 bytes.\<close>

fun in6_addr_compare :: "8 word list \<Rightarrow> 8 word list \<Rightarrow> int" where
  "in6_addr_compare (x # a) (y # b) = (if x < y then - 1 else if x > y then 1 else in6_addr_compare a b)"
| "in6_addr_compare _ _ = 0"

section \<open>Letters and UTF-8\<close>

definition ToLower :: "string \<Rightarrow> string" where
  "ToLower str = map (\<lambda>c. if 65 \<le> schar c \<and> schar c \<le> 90 then to_char (schar c OR 32) else c) str"

definition ToUpper :: "string \<Rightarrow> string" where
  "ToUpper str = map (\<lambda>c. if 97 \<le> schar c \<and> schar c \<le> 122 then to_char (schar c - 32) else c) str"

definition utf8_lead :: "char \<Rightarrow> bool" where
  "utf8_lead c \<longleftrightarrow> schar c AND 0xe0 = 0xc0"

definition utf8_next :: "char \<Rightarrow> bool" where
  "utf8_next c \<longleftrightarrow> schar c AND 0xc0 = 0x80"

fun FromUtf8 :: "string \<Rightarrow> string" where
  "FromUtf8 [] = []"
| "FromUtf8 [c] = [c]"
| "FromUtf8 (c # d # str) =
     (if utf8_lead c \<and> utf8_next d then to_char (push_bit 6 (schar c AND 0x1f) + (schar d AND 0x3f)) # FromUtf8 str
      else c # FromUtf8 (d # str))"

section \<open>The parts of a URL\<close>

fun find_str :: "string \<Rightarrow> string \<Rightarrow> nat option" where
  "find_str p [] = (if p = [] then Some 0 else None)"
| "find_str p (c # s) = (if take (length p) (c # s) = p then Some 0 else map_option Suc (find_str p s))"

definition atoi :: "string \<Rightarrow> exn + int" where
  "atoi s = c_number 32 s"

record Uri =
  m_url :: string
  m_uri :: string
  m_query_string :: string
  m_protocol :: string
  m_host :: string
  m_port :: int
  m_path :: string
  m_ext :: string

text \<open>The first part of the constructor: protocol, host, port and path.\<close>

definition uri_authority :: "string \<Rightarrow> exn + Uri" where
  "uri_authority url =
     (let u0 = \<lparr>m_url = url, m_uri = [], m_query_string = [], m_protocol = [], m_host = [], m_port = 0, m_path = url, m_ext = []\<rparr> in
      case find_str ''://'' url of
        None \<Rightarrow> Inr u0
      | Some pos \<Rightarrow>
          let protocol = ToLower (substr url 0 (Some pos));
              port = (if protocol = ''http'' then 80 else if protocol = ''https'' then 443 else 0);
              host = substr url (pos + 3) None;
              (host1, path) = (case find_char CHR ''/'' host of None \<Rightarrow> (host, url) | Some p \<Rightarrow> (substr host 0 (Some p), substr host p None))
          in case find_char CHR '':'' host1 of
               None \<Rightarrow> Inr (u0\<lparr>m_protocol := protocol, m_port := port, m_host := host1, m_path := path\<rparr>)
             | Some p \<Rightarrow>
                 (case atoi (substr host1 (p + 1) None) of
                    Inl e \<Rightarrow> Inl e
                  | Inr n \<Rightarrow> Inr (u0\<lparr>m_protocol := protocol, m_port := n, m_host := substr host1 0 (Some p), m_path := path\<rparr>)))"

definition Uri_new :: "string \<Rightarrow> exn + Uri" where
  "Uri_new url =
     (case uri_authority url of
        Inl e \<Rightarrow> Inl e
      | Inr u \<Rightarrow>
          let (uri, query) = (case find_char CHR ''?'' (m_path u) of
                                None \<Rightarrow> (m_path u, [])
                              | Some pos \<Rightarrow> (substr (m_path u) 0 (Some pos), substr (m_path u) (pos + 1) None));
              ext = (case rfind_char CHR ''.'' uri of None \<Rightarrow> [] | Some pos \<Rightarrow> substr uri (pos + 1) None)
          in Inr (u\<lparr>m_uri := uri, m_query_string := query, m_ext := ext\<rparr>))"

section \<open>The random number generator\<close>

text \<open>
  \<open>unsigned long\<close> has 64 bits. When the table is used up its elements are recomputed, the first
  \<open>TWIST_IB\<close> of them by the first loop; the second loop starts again at 0, where it reads the element
  with index \<open>-TWIST_IB\<close>.
\<close>

definition TWIST_LEN :: nat where
  "TWIST_LEN = 624"

record Rng =
  m_value :: nat
  m_tmp :: "64 word list"

fun seed_loop :: "nat \<Rightarrow> 64 word \<Rightarrow> nat \<Rightarrow> 64 word list" where
  "seed_loop i prev 0 = []"
| "seed_loop i prev (Suc n) =
     (let x = 1812433253 * (prev XOR drop_bit 30 prev) + of_nat i in x # seed_loop (i + 1) x n)"

definition Rng_new :: "64 word \<Rightarrow> Rng" where
  "Rng_new seed =
     (let s = seed AND 0xffffffff in \<lparr>m_value = 0, m_tmp = s # seed_loop 1 s (TWIST_LEN - 1)\<rparr>)"

definition twist :: "64 word list \<Rightarrow> nat \<Rightarrow> nat \<Rightarrow> 64 word" where
  "twist b i j = (b ! i AND 0x80000000) OR (b ! j AND 0x7FFFFFFF)"

definition magic_twist :: "64 word \<Rightarrow> 64 word" where
  "magic_twist s = (s AND 1) * 0x9908B0DF"

definition TWIST_IA :: nat where
  "TWIST_IA = 397"

definition TWIST_IB :: nat where
  "TWIST_IB = TWIST_LEN - TWIST_IA"

definition twist_first :: "64 word list \<Rightarrow> 64 word list" where
  "twist_first tmp =
     fold (\<lambda>i tmp. let s = twist tmp i (i + 1) in tmp[i := tmp ! (i + TWIST_IA) XOR drop_bit 1 s XOR magic_twist s]) [0..<TWIST_IB] tmp"

definition Rng_Get :: "Rng \<Rightarrow> (exn + 64 word) \<times> Rng" where
  "Rng_Get r =
     (let val = m_tmp r ! m_value r; r1 = r\<lparr>m_value := m_value r + 1\<rparr>
      in if m_value r1 = TWIST_LEN
         then (Inl (Undefined ''m_tmp[i - TWIST_IB]''), r1\<lparr>m_tmp := twist_first (m_tmp r1)\<rparr>)
         else (Inr val, r1))"

section \<open>Numbers\<close>

lemma digit_byte: "to_char (uint (tmp mod 10) + 48) = digit_char (unat (tmp :: 64 word) mod 10)"
proof -
  have "uint (tmp mod 10) = int (unat tmp mod 10)" by (simp add: uint_mod zmod_int)
  then show ?thesis by (simp add: to_char_def digit_char_def nat_add_distrib nat_mod_distrib add.commute)
qed

lemma bigint_loop_show: "bigint_loop tmp str = (if tmp = 0 then str else show_nat (unat tmp) @ str)"
proof (induction tmp str rule: bigint_loop.induct)
  case (1 tmp str)
  show ?case
  proof (cases "tmp = 0")
    case False
    have d: "unat (tmp div 10) = unat tmp div 10" by (simp add: unat_div)
    have z: "tmp div 10 = 0 \<longleftrightarrow> unat tmp < 10" by (simp add: d div_eq_0_iff flip: unat_eq_0)
    have "bigint_loop tmp str = bigint_loop (tmp div 10) (digit_char (unat tmp mod 10) # str)"
      using False by (subst bigint_loop.simps) (simp add: digit_byte)
    also have "\<dots> = (if unat tmp < 10 then [] else show_nat (unat tmp div 10)) @ digit_char (unat tmp mod 10) # str"
      using 1 [OF False] by (simp add: z d digit_byte)
    also have "\<dots> = show_nat (unat tmp) @ str" by (subst show_nat.simps [of "unat tmp"]) simp
    finally show ?thesis using False by simp
  qed (simp add: bigint_loop.simps)
qed

lemma show_nat_0: "show_nat 0 = ''0''"
  by code_simp

lemma bigint2string_show: "bigint2string l = show_nat (unat l)"
  by (simp add: bigint2string_def bigint_loop_show Let_def show_nat_0)

lemma schar_digit: "is_digit c \<Longrightarrow> schar c = 48 + int (digit_val c)"
  by (auto simp: is_digit_def schar_def digit_val_def)

lemma atoi64_digits:
  "\<forall>c \<in> set ds. is_digit c \<Longrightarrow> fold (\<lambda>c l. l * 10 + of_int (schar c) - 48) ds (of_nat v :: 64 word) = of_nat (digits_val v ds)"
proof (induction ds arbitrary: v)
  case (Cons c ds)
  have "(of_nat v :: 64 word) * 10 + of_int (schar c) - 48 = of_nat (10 * v + digit_val c)"
    using Cons.prems by (simp add: schar_digit)
  moreover have "\<forall>c \<in> set ds. is_digit c" using Cons.prems by simp
  ultimately show ?case using Cons.IH by (simp only: fold_simps digits_val.simps)
qed simp

lemma bigint_roundtrip: "atoi64 (bigint2string l) = l"
  using atoi64_digits [of "show_nat (unat l)" 0] show_nat_digits [of "unat l"] by (simp add: atoi64_def bigint2string_show)

section \<open>URL encoding\<close>

lemma hex_table: "\<forall>n \<in> set [0..<16]. isxdigit (hex n) \<and> hex_value (hex n) = int n \<and> hex n \<noteq> CHR ''%''"
  by code_simp

lemma hex_props:
  assumes "n < 16"
  shows "isxdigit (hex n)" and "hex_value (hex n) = int n" and "hex n \<noteq> CHR ''%''"
  using hex_table assms by (simp_all del: upt.simps)

lemma to_char_nibbles: "to_char (int (code_of c div 16) * 16 + int (code_of c mod 16)) = c"
proof -
  have "int (code_of c div 16) * 16 + int (code_of c mod 16) = int (code_of c)"
    by (metis div_mult_mod_eq of_nat_add of_nat_mult of_nat_numeral)
  then show ?thesis by (simp add: to_char_def code_of_def flip: of_nat_mod nat_int_add)
qed

lemma decode_plain: "c \<noteq> CHR ''%'' \<Longrightarrow> rfc1738_decode (c # s) = (if c = CHR ''+'' then CHR '' '' else c) # rfc1738_decode s"
  by (cases s rule: rfc1738_decode.cases) auto

lemma decode_encode_char: "rfc1738_decode (encode_char c @ s) = c # rfc1738_decode s"
proof (cases "isalnum c \<or> c = CHR '' ''")
  case True
  have "isalnum c \<Longrightarrow> c \<noteq> CHR ''%'' \<and> c \<noteq> CHR ''+''" by (auto simp: isalnum_def is_digit_def code_of_def)
  with True show ?thesis by (auto simp: encode_char_def decode_plain)
next
  case False
  have "code_of c div 16 < 16" using code_of_less [of c] by linarith
  with False show ?thesis by (simp add: encode_char_def hex_props to_char_nibbles)
qed

lemma decode_encode_url: "rfc1738_decode (rfc1738_encode s) = s"
  by (induction s) (simp_all add: rfc1738_encode_def decode_encode_char)

definition url_safe :: "char \<Rightarrow> bool" where
  "url_safe c \<longleftrightarrow> isalnum c \<or> c = CHR ''+'' \<or> c = CHR ''%''"

lemma hex_safe: "n < 16 \<Longrightarrow> url_safe (hex n)"
  using hex_props(1) [of n] by (auto simp: url_safe_def isxdigit_def isalnum_def)

lemma encode_char_safe: "x \<in> set (encode_char c) \<Longrightarrow> url_safe x"
proof -
  have "code_of c div 16 < 16" using code_of_less [of c] by linarith
  then have "url_safe (hex (code_of c div 16))" "url_safe (hex (code_of c mod 16))" by (simp_all add: hex_safe)
  moreover have "url_safe (CHR ''%'')" "url_safe (CHR ''+'')" "isalnum c \<Longrightarrow> url_safe c" by (simp_all add: url_safe_def)
  moreover assume "x \<in> set (encode_char c)"
  ultimately show ?thesis by (auto simp: encode_char_def split: if_splits)
qed

lemma encode_safe: "\<forall>c \<in> set (rfc1738_encode s). url_safe c"
  by (auto simp: rfc1738_encode_def intro: encode_char_safe)

lemma hex2unsigned_byte:
  assumes "n < 256"
  shows "hex2unsigned [hex (n div 16), hex (n mod 16)] = of_nat n"
proof -
  have h: "hex_value (hex (n div 16)) = int (n div 16)" "hex_value (hex (n mod 16)) = int (n mod 16)" using assms by (simp_all add: hex_props)
  have "(of_nat (n div 16) :: 32 word) * 16 + of_nat (n mod 16) = of_nat (n div 16 * 16 + n mod 16)" by (simp only: of_nat_add of_nat_mult of_nat_numeral)
  then show ?thesis by (simp only: hex2unsigned_def h fold_simps id_apply comp_apply mult_zero_left add_0 of_int_of_nat_eq div_mult_mod_eq)
qed

text \<open>
  Every text comes back from its URL encoding, which consists of letters, digits,
  the plus and the percent sign only; a number of 64 bits comes back from its decimal text, which
  has no leading zeros.
\<close>

theorem url_roundtrip:
  "rfc1738_decode (rfc1738_encode s) = s \<and> list_all url_safe (rfc1738_encode s) \<and>
   atoi64 (bigint2string l) = l \<and> bigint2string l = show_nat (unat l)"
  using encode_safe [of s] bigint_roundtrip [of l] by (simp add: decode_encode_url bigint2string_show list_all_iff)

section \<open>Addresses\<close>

lemma isipv4_loop_iff: "isipv4_loop d s \<longleftrightarrow> (\<forall>c \<in> set s. c = CHR ''.'' \<or> is_digit c) \<and> d + int (count_list s CHR ''.'') = 3"
  by (induction d s rule: isipv4_loop.induct) auto

text \<open>\<open>isipv4\<close> counts the dots: any digits between three dots are accepted, and none as well.\<close>

lemma isipv4_iff: "isipv4 s \<longleftrightarrow> (\<forall>c \<in> set s. c = CHR ''.'' \<or> is_digit c) \<and> count_list s CHR ''.'' = 3"
  by (auto simp: isipv4_def isipv4_loop_iff)

lemma isipv4_accepts_no_address: "isipv4 ''...'' \<and> isipv4 ''999.1.1.1''"
  by code_simp

lemma in6_addr_compare_eq: "length a = length b \<Longrightarrow> in6_addr_compare a b = 0 \<longleftrightarrow> a = b"
  by (induction a b rule: list_induct2) auto

lemma in6_addr_compare_swap: "length a = length b \<Longrightarrow> in6_addr_compare b a = - in6_addr_compare a b"
  by (induction a b rule: list_induct2) auto

lemma in6_addr_compare_trans:
  "length a = length b \<Longrightarrow> length b = length c \<Longrightarrow> in6_addr_compare a b < 0 \<Longrightarrow> in6_addr_compare b c < 0 \<Longrightarrow> in6_addr_compare a c < 0"
  by (induction a b c rule: list_induct3) (auto split: if_splits)

section \<open>Letters and UTF-8\<close>

lemma schar_range: "n \<le> schar c \<and> schar c \<le> m \<longleftrightarrow> nat n \<le> code_of c \<and> code_of c \<le> nat m" if "0 < n" "m < 128"
  using that code_of_less [of c] by (auto simp: schar_def simp del: code_of_less)

lemma upper_table: "\<forall>n \<in> set [65..<91]. to_char (int n OR 32) = char_of (n + 32)"
  by (simp add: to_char_def)

lemma ToLower_tolower: "ToLower s = map tolower s"
proof -
  have "(if 65 \<le> schar c \<and> schar c \<le> 90 then to_char (schar c OR 32) else c) = tolower c" for c
  proof (cases "65 \<le> code_of c \<and> code_of c \<le> 90")
    case True
    then have "code_of c \<in> set [65..<91]" by (simp only: set_upt atLeastLessThan_iff) simp
    with upper_table have "to_char (int (code_of c) OR 32) = char_of (code_of c + 32)" by blast
    with True show ?thesis by (simp add: tolower_def schar_def)
  qed (use schar_range [of 65 90 c] in \<open>auto simp: tolower_def\<close>)
  then show ?thesis by (simp add: ToLower_def)
qed

lemma lower_table: "\<forall>n \<in> set [97..<123]. to_char (int n - 32) = char_of (n - 32)"
  by (simp add: to_char_def)

lemma ToUpper_char:
  "(if 97 \<le> schar c \<and> schar c \<le> 122 then to_char (schar c - 32) else c) =
   (if 97 \<le> code_of c \<and> code_of c \<le> 122 then char_of (code_of c - 32) else c)"
proof (cases "97 \<le> code_of c \<and> code_of c \<le> 122")
  case True
  then have "code_of c \<in> set [97..<123]" by (simp only: set_upt atLeastLessThan_iff) simp
  with lower_table have "to_char (int (code_of c) - 32) = char_of (code_of c - 32)" by blast
  with True show ?thesis by (simp add: schar_def)
qed (use schar_range [of 97 122 c] in auto)

text \<open>The two conversions undo each other on the text the other gives.\<close>

lemma lower_upper: "ToLower (ToUpper s) = ToLower s \<and> ToUpper (ToLower s) = ToUpper s"
proof -
  have "tolower (if 97 \<le> code_of c \<and> code_of c \<le> 122 then char_of (code_of c - 32) else c) = tolower c" for c
    by (auto simp: tolower_def code_of_def)
  moreover have "(if 97 \<le> code_of (tolower c) \<and> code_of (tolower c) \<le> 122 then char_of (code_of (tolower c) - 32) else tolower c) =
      (if 97 \<le> code_of c \<and> code_of c \<le> 122 then char_of (code_of c - 32) else c)" for c
    by (auto simp: tolower_def code_of_def)
  ultimately show ?thesis unfolding ToLower_tolower ToUpper_def ToUpper_char by simp
qed

text \<open>A text of bytes is read back from its UTF-8 form.\<close>

definition utf8_char :: "char \<Rightarrow> string" where
  "utf8_char c = (if code_of c < 128 then [c] else [char_of (192 + code_of c div 64), char_of (128 + code_of c mod 64)])"

lemma utf8_lead_table: "\<forall>q \<in> set [2, 3]. utf8_lead (char_of (192 + q)) \<and> schar (char_of (192 + q)) AND 0x1f = int q"
  by code_simp

lemma and_push_bit: "x AND push_bit n y = push_bit n (drop_bit n x AND y)" for x y :: int
  by (rule bit_eqI) (auto simp: bit_simps)

lemma utf8_next_byte:
  assumes "m < 64"
  shows "utf8_next (char_of (128 + m))" and "schar (char_of (128 + m)) AND 0x3f = int m"
proof -
  have s: "schar (char_of (128 + m)) = int m - 128" using assms by (simp add: schar_def)
  have "(int m - 128) AND 0x3f = take_bit 6 (int m - 128)" by (simp add: take_bit_eq_mask mask_numeral)
  also have "\<dots> = (int m + (- 2) * 64) mod 64" by (simp add: take_bit_eq_mod)
  also have "\<dots> = int m" using assms by (simp only: mod_mult_self1) simp
  finally show "schar (char_of (128 + m)) AND 0x3f = int m" by (simp add: s)
  have d: "drop_bit 6 (int m - 128) = - 2" using assms by (simp add: drop_bit_eq_div)
  have "(int m - 128) AND 0xc0 = push_bit 6 (drop_bit 6 (int m - 128) AND 3)" using and_push_bit [of "int m - 128" 6 3] by simp
  also have "\<dots> = 0x80" by (simp add: d)
  finally show "utf8_next (char_of (128 + m))" by (simp add: utf8_next_def s)
qed

lemma utf8_plain: "code_of c < 128 \<Longrightarrow> \<not> utf8_lead c"
proof
  assume "code_of c < 128" and "utf8_lead c"
  moreover have "int (code_of c) AND 0xe0 \<le> int (code_of c)" by (rule AND_upper1) simp
  ultimately show False by (simp add: utf8_lead_def schar_def)
qed

lemma utf8_pair:
  assumes "\<not> code_of c < 128"
  shows "FromUtf8 (utf8_char c @ s) = c # FromUtf8 s"
proof -
  let ?q = "code_of c div 64" and ?m = "code_of c mod 64"
  have "?q < 4" using code_of_less [of c] by linarith
  moreover have "2 \<le> ?q" using assms by linarith
  ultimately have "?q \<in> set [2, 3]" by auto
  with utf8_lead_table have q: "utf8_lead (char_of (192 + ?q))" "schar (char_of (192 + ?q)) AND 0x1f = int ?q" by blast+
  have m: "utf8_next (char_of (128 + ?m))" "schar (char_of (128 + ?m)) AND 0x3f = int ?m" by (simp_all add: utf8_next_byte)
  have "push_bit 6 (int ?q) + int ?m = int (code_of c)" 
    by (simp add: push_bit_eq_mult) (metis div_mult_mod_eq of_nat_add of_nat_mult of_nat_numeral)
  then have "to_char (push_bit 6 (int ?q) + int ?m) = c" by (simp add: to_char_def code_of_def flip: of_nat_mod)
  with assms q m show ?thesis by (simp add: utf8_char_def)
qed

lemma FromUtf8_plain: "\<not> utf8_lead c \<Longrightarrow> FromUtf8 (c # s) = c # FromUtf8 s"
  by (cases s) auto

lemma utf8_roundtrip: "FromUtf8 (concat (map utf8_char s)) = s"
proof (induction s)
  case (Cons c s)
  show ?case
  proof (cases "code_of c < 128")
    case True
    then have "utf8_char c = [c]" by (simp add: utf8_char_def)
    with True Cons.IH show ?thesis by (simp add: FromUtf8_plain utf8_plain)
  qed (use Cons.IH in \<open>simp add: utf8_pair\<close>)
qed simp

section \<open>The parts of a URL\<close>

lemma find_str_protocol: "CHR '':'' \<notin> set p \<Longrightarrow> find_str ''://'' (p @ ''://'' @ r) = Some (length p)"
  by (induction p) auto

lemma atoi_show: "n < 2 ^ 31 \<Longrightarrow> atoi (show_nat n) = Inr (int n)"
  using c_number_show [of n 32 "[]"] by (simp add: atoi_def)

text \<open>A URL that is put together from its parts is taken apart into them.\<close>

lemma uri_parts:
  assumes "CHR '':'' \<notin> set protocol" and "CHR ''/'' \<notin> set host" and "CHR '':'' \<notin> set host" and "port < 2 ^ 31"
    and "CHR ''?'' \<notin> set path" and "CHR ''.'' \<notin> set ext" and "CHR ''?'' \<notin> set ext"
  shows "Uri_new (protocol @ ''://'' @ host @ '':'' @ show_nat port @ ''/'' @ path @ ''.'' @ ext @ ''?'' @ query) =
    Inr \<lparr>m_url = protocol @ ''://'' @ host @ '':'' @ show_nat port @ ''/'' @ path @ ''.'' @ ext @ ''?'' @ query,
         m_uri = ''/'' @ path @ ''.'' @ ext, m_query_string = query, m_protocol = ToLower protocol, m_host = host,
         m_port = int port, m_path = ''/'' @ path @ ''.'' @ ext @ ''?'' @ query, m_ext = ext\<rparr>"
proof -
  let ?path = "''/'' @ path @ ''.'' @ ext @ ''?'' @ query"
  let ?auth = "host @ '':'' @ show_nat port"
  let ?url = "protocol @ ''://'' @ ?auth @ ?path"
  have 1: "find_str ''://'' ?url = Some (length protocol)" by (rule find_str_protocol [OF assms(1)])
  have "CHR ''/'' \<notin> set ?auth" using assms(2) show_nat_no [of "CHR ''/''" port] by (simp add: is_digit_def code_of_def)
  then have 2: "find_char CHR ''/'' (?auth @ ?path) = Some (length ?auth)"
    using find_char_append [of "CHR ''/''" ?auth "path @ ''.'' @ ext @ ''?'' @ query"] by simp
  have 3: "find_char CHR '':'' ?auth = Some (length host)" using find_char_append [OF assms(3)] by simp
  have a: "uri_authority ?url = Inr \<lparr>m_url = ?url, m_uri = [], m_query_string = [], m_protocol = ToLower protocol, m_host = host,
      m_port = int port, m_path = ?path, m_ext = []\<rparr>"
    using 1 2 3 atoi_show [OF assms(4)] by (simp add: uri_authority_def Let_def)
  have "CHR ''?'' \<notin> set (''/'' @ path @ ''.'' @ ext)" using assms(5,7) by simp
  then have 4: "find_char CHR ''?'' ?path = Some (length (''/'' @ path @ ''.'' @ ext))"
    using find_char_append [of "CHR ''?''" "''/'' @ path @ ''.'' @ ext" query] by simp
  have 5: "rfind_char CHR ''.'' (''/'' @ path @ ''.'' @ ext) = Some (length (''/'' @ path))"
    using rfind_char_append [OF assms(6), of "''/'' @ path"] by simp
  show ?thesis using a 4 5 by (simp add: Uri_new_def Let_def)
qed

section \<open>The random number generator\<close>

fun rng_calls :: "nat \<Rightarrow> Rng \<Rightarrow> (exn + 64 word) list" where
  "rng_calls 0 r = []"
| "rng_calls (Suc n) r = fst (Rng_Get r) # rng_calls n (snd (Rng_Get r))"

lemma rng_calls_table:
  "m_value r + n < TWIST_LEN \<Longrightarrow> length (m_tmp r) = TWIST_LEN \<Longrightarrow> rng_calls n r = map Inr (take n (drop (m_value r) (m_tmp r)))"
proof (induction n arbitrary: r)
  case (Suc n)
  then have "drop (m_value r) (m_tmp r) = m_tmp r ! m_value r # drop (Suc (m_value r)) (m_tmp r)"
    by (simp add: Cons_nth_drop_Suc)
  with Suc show ?case by (simp add: Rng_Get_def Let_def)
qed simp

text \<open>The generator gives the 623 first numbers of its table; the call after them is not defined.\<close>

lemma rng_runs_out:
  assumes "m_value r = 0" and "length (m_tmp r) = TWIST_LEN"
  shows "rng_calls 623 r = map Inr (take 623 (m_tmp r))"
    and "m_value r' = 623 \<Longrightarrow> fst (Rng_Get r') = Inl (Undefined ''m_tmp[i - TWIST_IB]'')"
  using rng_calls_table [of r 623] assms by (simp_all add: TWIST_LEN_def Rng_Get_def Let_def)

end
