(* ===== verification/Parse_Words.thy ===== *)
theory Parse_Words
  imports Prelude
begin

text \<open>
  \<open>src/src/Sockets-2.3.5/Parse.cpp\<close>, the tokenizer of the vendored socket library, and \<open>isipv6\<close> of
  \<open>Utility.cpp\<close>, which uses it. A pointer walks over the text; past the end, and at a zero byte, the
  current character reads as zero.
\<close>

abbreviation NUL :: char where
  "NUL \<equiv> CHR 0x00"

record Parse =
  pa_the_str :: string
  pa_splits :: string
  pa_ord :: string
  pa_the_ptr :: nat
  pa_breakchar :: char
  pa_enable :: char
  pa_disable :: char
  pa_nospace :: bool
  pa_quote :: bool

definition Parse_new :: "string \<Rightarrow> string \<Rightarrow> bool \<Rightarrow> Parse" where
  "Parse_new s sp nospace =
     \<lparr>pa_the_str = s, pa_splits = sp, pa_ord = [], pa_the_ptr = 0, pa_breakchar = NUL, pa_enable = NUL, pa_disable = NUL,
      pa_nospace = nospace, pa_quote = False\<rparr>"

definition cur :: "string \<Rightarrow> nat \<Rightarrow> char" where
  "cur s i = (if i < length s then s ! i else NUL)"

definition issplit :: "Parse \<Rightarrow> char \<Rightarrow> bool" where
  "issplit p c \<longleftrightarrow> c \<in> set (pa_splits p)"

text \<open>\<open>while (C && cond) pa_the_ptr++\<close>.\<close>

function skip_while :: "(char \<Rightarrow> bool) \<Rightarrow> string \<Rightarrow> nat \<Rightarrow> nat" where
  "skip_while cond s i = (if cur s i \<noteq> NUL \<and> cond (cur s i) then skip_while cond s (i + 1) else i)"
  by pat_completeness auto

termination
  by (relation "measure (\<lambda>(cond, s, i). length s - i)") (auto simp: cur_def split: if_splits)

declare skip_while.simps [simp del]

definition isblank4 :: "char \<Rightarrow> bool" where
  "isblank4 c \<longleftrightarrow> c = CHR '' '' \<or> code_of c = 9 \<or> code_of c = 13 \<or> code_of c = 10"

definition isblank2 :: "char \<Rightarrow> bool" where
  "isblank2 c \<longleftrightarrow> c = CHR '' '' \<or> code_of c = 9"

definition piece :: "string \<Rightarrow> nat \<Rightarrow> nat \<Rightarrow> string" where
  "piece s x n = (if x < length s then substr s x (Some n) else [])"

section \<open>Words\<close>

definition getsplit :: "Parse \<Rightarrow> Parse" where
  "getsplit p =
     (let s = pa_the_str p;
          (x, i) = (if cur s (pa_the_ptr p) = CHR ''='' then (pa_the_ptr p, pa_the_ptr p + 1)
                    else let x = skip_while (issplit p) s (pa_the_ptr p)
                         in (x, skip_while (\<lambda>c. \<not> issplit p c \<and> c \<noteq> CHR ''='') s x));
          i = (if x = i \<and> cur s i = CHR ''='' then i + 1 else i)
      in p\<lparr>pa_the_ptr := i, pa_ord := piece s x (i - x)\<rparr>)"

definition is_break :: "Parse \<Rightarrow> char \<Rightarrow> bool" where
  "is_break p c \<longleftrightarrow> pa_breakchar p \<noteq> NUL \<and> c = pa_breakchar p"

text \<open>The flag after the current character: a break character counts unless it is disabled.\<close>

definition disable :: "Parse \<Rightarrow> char \<Rightarrow> bool \<Rightarrow> bool" where
  "disable p c disabled =
     (let d = (if pa_breakchar p \<noteq> NUL \<and> c = pa_disable p then True else disabled)
      in if pa_breakchar p \<noteq> NUL \<and> c = pa_enable p then False else d)"

definition not_quote :: "char \<Rightarrow> bool" where
  "not_quote c \<longleftrightarrow> c \<noteq> CHR 0x22"

text \<open>Over the text after a quotation mark, and over the mark that ends it.\<close>

definition past_quote :: "Parse \<Rightarrow> bool \<Rightarrow> nat \<Rightarrow> nat" where
  "past_quote p quoted i =
     (let s = pa_the_str p; j = (if quoted then skip_while not_quote s i else i)
      in if pa_quote p \<and> cur s j = CHR 0x22 then j + 1 else j)"

lemma skip_while_ge: "i \<le> skip_while cond s i"
  by (induction cond s i rule: skip_while.induct) (subst skip_while.simps, force)

lemma past_quote_ge: "i \<le> past_quote p quoted i"
  using skip_while_ge [of i not_quote "pa_the_str p"] by (auto simp: past_quote_def Let_def)

text \<open>
  The loops over a word, without and with blanks as separators. In the first the mark after any
  character is skipped, in the second only the mark that ends a quotation.
\<close>

function word_nospace :: "Parse \<Rightarrow> bool \<Rightarrow> nat \<Rightarrow> nat" where
  "word_nospace p disabled i =
     (let c = cur (pa_the_str p) i in
      if c \<noteq> NUL \<and> \<not> issplit p c \<and> (\<not> is_break p c \<or> disabled)
      then word_nospace p (disable p c disabled) (past_quote p (pa_quote p \<and> c = CHR 0x22) (i + 1))
      else i)"
  by pat_completeness auto

termination
proof (relation "measure (\<lambda>(p, d, i). length (pa_the_str p) - i)", goal_cases)
  case (2 p d i c)
  then have "i < length (pa_the_str p)" by (auto simp: cur_def split: if_splits)
  moreover have "i + 1 \<le> past_quote p (pa_quote p \<and> c = CHR 0x22) (i + 1)" by (rule past_quote_ge)
  ultimately show ?case by simp
qed simp

function word_space :: "Parse \<Rightarrow> bool \<Rightarrow> nat \<Rightarrow> nat" where
  "word_space p disabled i =
     (let c = cur (pa_the_str p) i in
      if c \<noteq> NUL \<and> \<not> isblank4 c \<and> \<not> issplit p c \<and> (\<not> is_break p c \<or> disabled)
      then word_space p (disable p c disabled) (if pa_quote p \<and> c = CHR 0x22 then past_quote p True (i + 1) else i + 1)
      else i)"
  by pat_completeness auto

termination
proof (relation "measure (\<lambda>(p, d, i). length (pa_the_str p) - i)", goal_cases)
  case (2 p d i c)
  then have "i < length (pa_the_str p)" by (auto simp: cur_def split: if_splits)
  moreover have "i + 1 \<le> past_quote p True (i + 1)" by (rule past_quote_ge)
  ultimately show ?case by auto
qed simp

declare word_nospace.simps [simp del] word_space.simps [simp del]

definition getword :: "Parse \<Rightarrow> Parse" where
  "getword p =
     (let s = pa_the_str p in
      if pa_nospace p then
        let x = skip_while (issplit p) s (pa_the_ptr p); i = word_nospace p False x
        in p\<lparr>pa_the_ptr := i, pa_ord := piece s x (i - x)\<rparr>
      else
        let (x, i) = (if is_break p (cur s (pa_the_ptr p)) then (pa_the_ptr p, pa_the_ptr p + 1)
                      else let x = skip_while (\<lambda>c. isblank4 c \<or> issplit p c) s (pa_the_ptr p)
                           in (x, word_space p False x + 1));
            j = (if x = i \<and> is_break p (cur s i) then i + 1 else i)
        in p\<lparr>pa_the_ptr := j, pa_ord := piece s x (j - x - 1)\<rparr>)"

text \<open>
  The variant that fills the word up to a length on the left; \<open>l\<close> is converted to \<open>size_t\<close>.
\<close>

partial_function (option) fill_loop :: "string \<Rightarrow> nat \<Rightarrow> nat \<Rightarrow> string \<Rightarrow> string option" where
  "fill_loop fill n l s = (if length s + n < l then fill_loop fill n l (s @ fill) else Some s)"

declare fill_loop.simps [code]

definition getword_fill :: "string \<Rightarrow> int \<Rightarrow> Parse \<Rightarrow> (string \<times> Parse) option" where
  "getword_fill fill l p =
     (let p1 = getword p
      in map_option (\<lambda>s. (s @ pa_ord p1, p1)) (fill_loop fill (length (pa_ord p1)) (unat (of_int l :: 64 word)) []))"

definition getrest :: "Parse \<Rightarrow> string \<times> Parse" where
  "getrest p =
     (let i = skip_while (\<lambda>c. isblank2 c \<or> issplit p c) (pa_the_str p) (pa_the_ptr p)
      in (if i < length (pa_the_str p) then substr (pa_the_str p) i None else [], p\<lparr>pa_the_ptr := i\<rparr>))"

definition getvalue :: "Parse \<Rightarrow> (exn + int) \<times> Parse" where
  "getvalue p = (let p1 = getword p in (c_number 64 (pa_ord p1), p1))"

definition setbreak :: "char \<Rightarrow> Parse \<Rightarrow> Parse" where
  "setbreak c p = p\<lparr>pa_breakchar := c\<rparr>"

text \<open>The lengths of the next word and of the rest; the pointer is put back.\<close>

definition getwordlen :: "Parse \<Rightarrow> nat" where
  "getwordlen p =
     (let s = pa_the_str p;
          (x, i) = (if is_break p (cur s (pa_the_ptr p)) then (pa_the_ptr p, pa_the_ptr p + 1)
                    else let x = skip_while (\<lambda>c. isblank4 c \<or> issplit p c) s (pa_the_ptr p)
                         in (x, skip_while (\<lambda>c. \<not> isblank4 c \<and> \<not> issplit p c \<and> \<not> is_break p c) s x))
      in (if x = i \<and> is_break p (cur s i) then i + 1 else i) - x)"

definition getrestlen :: "Parse \<Rightarrow> exn + nat" where
  "getrestlen p =
     (let i = skip_while (\<lambda>c. isblank2 c \<or> issplit p c) (pa_the_str p) (pa_the_ptr p)
      in if i \<le> length (pa_the_str p) then Inr (length (c_str (drop i (pa_the_str p)))) else Inl (Undefined ''strlen''))"

definition Parse_getline :: "Parse \<Rightarrow> Parse" where
  "Parse_getline p =
     (let s = pa_the_str p; x = pa_the_ptr p; i = skip_while (\<lambda>c. code_of c \<noteq> 13 \<and> code_of c \<noteq> 10) s x;
          j = (if code_of (cur s i) = 13 then i + 1 else i); k = (if code_of (cur s j) = 10 then j + 1 else j)
      in p\<lparr>pa_the_ptr := k, pa_ord := piece s x (i - x)\<rparr>)"

section \<open>isipv6\<close>

definition ipv6_char :: "char \<Rightarrow> bool" where
  "ipv6_char c \<longleftrightarrow> \<not> (schar c < 48 \<or> (schar c > 57 \<and> schar c < 65) \<or> (schar c > 70 \<and> schar c < 97) \<or> schar c > 102)"

lemma word_space_ge: "i \<le> word_space q d i"
proof (induction q d i rule: word_space.induct)
  case (1 q d i)
  have "i + 1 \<le> past_quote q True (i + 1)" by (rule past_quote_ge)
  with 1 show ?case by (subst word_space.simps) (force simp: Let_def)
qed

lemma getword_str [simp]: "pa_the_str (getword p) = pa_the_str p"
  by (simp add: getword_def Let_def split: prod.split)

lemma getword_moves:
  assumes "pa_ord (getword p) \<noteq> []"
  shows "pa_the_ptr p < pa_the_ptr (getword p) \<and> pa_the_ptr p < length (pa_the_str p)"
proof (cases "pa_nospace p")
  case True
  let ?x = "skip_while (issplit p) (pa_the_str p) (pa_the_ptr p)"
  have "pa_the_ptr p \<le> ?x" by (rule skip_while_ge)
  with True assms show ?thesis by (auto simp: getword_def Let_def piece_def split: if_splits)
next
  case False
  let ?x = "skip_while (\<lambda>c. isblank4 c \<or> issplit p c) (pa_the_str p) (pa_the_ptr p)"
  have "pa_the_ptr p \<le> ?x" by (rule skip_while_ge)
  moreover have "?x \<le> word_space p False ?x" by (rule word_space_ge)
  ultimately show ?thesis using False assms by (auto simp: getword_def Let_def piece_def split: if_splits)
qed

function ipv6_words :: "Parse \<Rightarrow> bool" where
  "ipv6_words p =
     (let p1 = getword p; tmp = pa_ord p1 in
      if tmp = [] then True
      else if length tmp > 4 then False
      else if \<not> list_all ipv6_char tmp then False
      else ipv6_words p1)"
  by pat_completeness auto

termination
proof (relation "measure (\<lambda>p. length (pa_the_str p) - pa_the_ptr p)", goal_cases)
  case (2 p p1 tmp)
  then show ?case using getword_moves [of p] by auto
qed simp

declare ipv6_words.simps [simp del]

definition isipv6 :: "string \<Rightarrow> bool" where
  "isipv6 str =
     (let qc = count_list str CHR '':''; qd = count_list str CHR ''.'' in
      if qc > 7 then False
      else if qd \<noteq> 0 \<and> qd \<noteq> 3 then False
      else ipv6_words (Parse_new str '':.'' False))"

section \<open>What the words are\<close>

lemma skip_while_eq: "NUL \<notin> set s \<Longrightarrow> skip_while cond s i = i + length (takeWhile cond (drop i s))"
proof (induction cond s i rule: skip_while.induct)
  case (1 cond s i)
  show ?case
  proof (cases "i < length s")
    case True
    then have d: "drop i s = s ! i # drop (Suc i) s" by (simp add: Cons_nth_drop_Suc)
    have "s ! i \<noteq> NUL" using True 1(2) by (metis nth_mem)
    with d True 1 show ?thesis by (subst skip_while.simps) (simp add: cur_def)
  qed (subst skip_while.simps, simp add: cur_def)
qed

definition sep :: "Parse \<Rightarrow> char \<Rightarrow> bool" where
  "sep p c \<longleftrightarrow> isblank4 c \<or> issplit p c"

text \<open>A tokenizer without break characters and quotation marks, on a text without a zero byte.\<close>

definition plain :: "Parse \<Rightarrow> bool" where
  "plain p \<longleftrightarrow> NUL \<notin> set (pa_the_str p) \<and> pa_breakchar p = NUL \<and> \<not> pa_quote p \<and> \<not> pa_nospace p"

lemma word_space_plain: "plain p \<Longrightarrow> word_space p d i = skip_while (\<lambda>c. \<not> sep p c) (pa_the_str p) i"
proof (induction p d i rule: word_space.induct)
  case (1 p d i)
  then show ?case
    by (subst word_space.simps, subst skip_while.simps) (auto simp: Let_def plain_def is_break_def sep_def)
qed

function words_of :: "(char \<Rightarrow> bool) \<Rightarrow> string \<Rightarrow> string list" where
  "words_of P s =
     (let t = dropWhile P s
      in if t = [] then [] else takeWhile (\<lambda>c. \<not> P c) t # words_of P (dropWhile (\<lambda>c. \<not> P c) t))"
  by pat_completeness auto

termination
proof (relation "measure (\<lambda>(P, s). length s)", goal_cases)
  case (2 P s t)
  then obtain c u where t: "t = c # u" by (metis neq_Nil_conv)
  then have "\<not> P c" using 2 hd_dropWhile [of P s] by (metis list.distinct(1) list.sel(1))
  then have "length (dropWhile (\<lambda>c. \<not> P c) t) < length t" using length_dropWhile_le [of "\<lambda>c. \<not> P c" u] by (simp add: t)
  also have "length t \<le> length s" using 2(1) by (simp add: length_dropWhile_le)
  finally show ?case by simp
qed simp

declare words_of.simps [simp del]

lemma words_of_sep: "P c \<Longrightarrow> words_of P (c # s) = words_of P s"
  by (subst (1 2) words_of.simps) simp

lemma getword_plain:
  assumes "plain p"
  shows "pa_ord (getword p) = takeWhile (\<lambda>c. \<not> sep p c) (dropWhile (sep p) (drop (pa_the_ptr p) (pa_the_str p)))"
    and "drop (pa_the_ptr (getword p)) (pa_the_str p) =
      drop 1 (dropWhile (\<lambda>c. \<not> sep p c) (dropWhile (sep p) (drop (pa_the_ptr p) (pa_the_str p))))"
    and "plain (getword p)" and "sep (getword p) = sep p"
proof -
  let ?s = "pa_the_str p" and ?i = "pa_the_ptr p"
  have nul: "NUL \<notin> set ?s" using assms by (simp add: plain_def)
  let ?r = "drop ?i ?s"
  let ?x = "?i + length (takeWhile (sep p) ?r)"
  let ?t = "dropWhile (sep p) ?r"
  have t: "drop ?x ?s = ?t" by (metis add.commute drop_drop dropWhile_eq_drop)
  have x: "skip_while (\<lambda>c. isblank4 c \<or> issplit p c) ?s ?i = ?x"
    using skip_while_eq [OF nul, of "sep p" ?i] by (simp add: sep_def [abs_def])
  have w: "word_space p False ?x = ?x + length (takeWhile (\<lambda>c. \<not> sep p c) ?t)"
    using skip_while_eq [OF nul, of "\<lambda>c. \<not> sep p c" ?x] by (simp add: word_space_plain [OF assms] t)
  have g: "getword p = p\<lparr>pa_the_ptr := ?x + length (takeWhile (\<lambda>c. \<not> sep p c) ?t) + 1,
      pa_ord := piece ?s ?x (length (takeWhile (\<lambda>c. \<not> sep p c) ?t))\<rparr>"
    using assms x w by (simp add: getword_def plain_def is_break_def Let_def)
  show "pa_ord (getword p) = takeWhile (\<lambda>c. \<not> sep p c) ?t"
    using t by (auto simp: g piece_def takeWhile_eq_take [symmetric])
  have "drop (?x + length (takeWhile (\<lambda>c. \<not> sep p c) ?t)) ?s = dropWhile (\<lambda>c. \<not> sep p c) ?t"
    by (metis add.commute drop_drop dropWhile_eq_drop t)
  then show "drop (pa_the_ptr (getword p)) ?s = drop 1 (dropWhile (\<lambda>c. \<not> sep p c) ?t)"
    by (simp add: g) (metis One_nat_def drop_drop plus_1_eq_Suc)
  show "plain (getword p)" "sep (getword p) = sep p" using assms by (simp_all add: g plain_def sep_def [abs_def] issplit_def)
qed

text \<open>One word after the other, until an empty one.\<close>

function all_words :: "Parse \<Rightarrow> string list" where
  "all_words p = (if pa_ord (getword p) = [] then [] else pa_ord (getword p) # all_words (getword p))"
  by pat_completeness auto

termination
  by (relation "measure (\<lambda>p. length (pa_the_str p) - pa_the_ptr p)") (auto dest: getword_moves)

declare all_words.simps [simp del]

lemma words_after_word:
  "words_of P (drop 1 (dropWhile (\<lambda>c. \<not> P c) t)) = words_of P (dropWhile (\<lambda>c. \<not> P c) t)"
proof (cases "dropWhile (\<lambda>c. \<not> P c) t")
  case (Cons c u)
  then have "P c" using hd_dropWhile [of "\<lambda>c. \<not> P c" t] by auto
  with Cons show ?thesis by (simp add: words_of_sep)
next
  case Nil
  show ?thesis unfolding Nil by simp
qed

text \<open>
  Repeated calls deliver the words of the text: the longest runs without a separator, in order, and
  none of the characters between separators is lost.
\<close>

lemma all_words_plain: "plain p \<Longrightarrow> all_words p = words_of (sep p) (drop (pa_the_ptr p) (pa_the_str p))"
proof (induction p rule: all_words.induct)
  case (1 p)
  let ?t = "dropWhile (sep p) (drop (pa_the_ptr p) (pa_the_str p))"
  note g = getword_plain [OF "1.prems"]
  have e: "takeWhile (\<lambda>c. \<not> sep p c) ?t = [] \<longleftrightarrow> ?t = []"
  proof (cases ?t)
    case Nil
    then show ?thesis by (simp only: takeWhile.simps)
  next
    case (Cons c u)
    then have "\<not> sep p c" using hd_dropWhile [of "sep p" "drop (pa_the_ptr p) (pa_the_str p)"] by (metis list.distinct(1) list.sel(1))
    then show ?thesis unfolding Cons by simp
  qed
  have w: "words_of (sep p) (drop (pa_the_ptr p) (pa_the_str p)) =
      (if ?t = [] then [] else takeWhile (\<lambda>c. \<not> sep p c) ?t # words_of (sep p) (dropWhile (\<lambda>c. \<not> sep p c) ?t))"
    by (subst words_of.simps) (simp add: Let_def)
  show ?case
  proof (cases "?t = []")
    case True
    then have "pa_ord (getword p) = []" unfolding g(1) e .
    then show ?thesis using True by (subst all_words.simps) (simp only: w simp_thms if_True)
  next
    case False
    then have ne: "pa_ord (getword p) \<noteq> []" by (simp only: g(1) e) simp
    from "1.IH" [OF ne g(3)] have "all_words (getword p) = words_of (sep p) (dropWhile (\<lambda>c. \<not> sep p c) ?t)"
      by (simp only: g(2,4) getword_str words_after_word)
    then show ?thesis using False ne by (subst all_words.simps) (simp only: w g(1) if_False)
  qed
qed

lemma ipv6_words_all: "ipv6_words p \<longleftrightarrow> list_all (\<lambda>w. length w \<le> 4 \<and> list_all ipv6_char w) (all_words p)"
proof (induction p rule: ipv6_words.induct)
  case (1 p)
  show ?case
    by (subst ipv6_words.simps, subst all_words.simps) (use 1 in \<open>auto simp: Let_def\<close>)
qed

text \<open>
  \<open>isipv6\<close> accepts a text of at most seven colons and no or three dots whose words, blanks being
  separators as well, are of at most four hexadecimal digits: the empty text is one.
\<close>

lemma isipv6_iff:
  assumes "NUL \<notin> set s"
  shows "isipv6 s \<longleftrightarrow> count_list s CHR '':'' \<le> 7 \<and> count_list s CHR ''.'' \<in> {0, 3} \<and>
    list_all (\<lambda>w. length w \<le> 4 \<and> list_all ipv6_char w) (words_of (\<lambda>c. isblank4 c \<or> c = CHR '':'' \<or> c = CHR ''.'') s)"
proof -
  let ?p = "Parse_new s '':.'' False"
  have "plain ?p" using assms by (simp add: plain_def Parse_new_def)
  moreover have "sep ?p = (\<lambda>c. isblank4 c \<or> c = CHR '':'' \<or> c = CHR ''.'')" by (auto simp: sep_def issplit_def Parse_new_def)
  moreover have "pa_the_ptr ?p = 0" "pa_the_str ?p = s" by (simp_all add: Parse_new_def)
  ultimately show ?thesis using ipv6_words_all [of ?p] all_words_plain [of ?p]
    by (auto simp: isipv6_def Let_def)
qed

lemma isipv6_accepts_no_address: "isipv6 [] \<and> isipv6 ''1 2''"
  by code_simp

lemma empty_fill_never_ends:
  assumes "n < l"
  shows "fill_loop [] n l [] = None"
proof (rule ccontr)
  assume "fill_loop [] n l [] \<noteq> None"
  then obtain r where "fill_loop [] n l [] = Some r" by auto
  from fill_loop.raw_induct [OF _ this, of "\<lambda>fill n l s r. \<not> (fill = [] \<and> s = [] \<and> n < l)"] assms show False
    by (force split: if_splits)
qed

end
