(* ===== verification/Circular_Buffer.thy ===== *)
theory Circular_Buffer
  imports Prelude
begin

text \<open>
  The buffers of \<open>TcpSocket\<close> in the vendored socket library (\<open>src/src/Sockets-2.3.5/TcpSocket.cpp\<close>):
  the circular buffer for the input and one block of the output. Memory is the list of its bytes, and
  a copy that leaves it is \<^const>\<open>Undefined\<close>. The locale \<open>byte_channel\<close> is the contract of everything that
  takes bytes at one end and gives them back in order at the other.
\<close>

section \<open>Channels\<close>

text \<open>
  A step of a channel takes some bytes in and gives some bytes out; a run collects both.
\<close>

fun channel_run ::
    "('op \<Rightarrow> 'q \<Rightarrow> exn + ('a list \<times> 'a list \<times> 'q)) \<Rightarrow> 'op list \<Rightarrow> 'q \<Rightarrow> exn + ('a list \<times> 'a list \<times> 'q)" where
  "channel_run step [] q = Inr ([], [], q)"
| "channel_run step (x # xs) q =
     (case step x q of
        Inl e \<Rightarrow> Inl e
      | Inr (i, out, q1) \<Rightarrow>
          (case channel_run step xs q1 of
             Inl e \<Rightarrow> Inl e
           | Inr (is, outs, q2) \<Rightarrow> Inr (i @ is, out @ outs, q2)))"

locale byte_channel =
  fixes step :: "'op \<Rightarrow> 'q \<Rightarrow> exn + ('a list \<times> 'a list \<times> 'q)"
    and inv :: "'q \<Rightarrow> bool"
    and pending :: "'q \<Rightarrow> 'a list"
    and ok :: "'op \<Rightarrow> bool"
  assumes step_law:
    "inv q \<Longrightarrow> ok x \<Longrightarrow> \<exists>i out q1. step x q = Inr (i, out, q1) \<and> inv q1 \<and> pending q @ i = out @ pending q1"
begin

lemma run_law:
  "inv q \<Longrightarrow> list_all ok xs \<Longrightarrow>
   \<exists>is outs q1. channel_run step xs q = Inr (is, outs, q1) \<and> inv q1 \<and> pending q @ is = outs @ pending q1"
proof (induction xs arbitrary: q)
  case Nil
  then show ?case by simp
next
  case (Cons x xs)
  then obtain i out q1 where s: "step x q = Inr (i, out, q1)" "inv q1" "pending q @ i = out @ pending q1"
    using step_law [of q x] by auto
  have "list_all ok xs" using Cons.prems by simp
  from Cons.IH [OF s(2) this] obtain ins outs q2 where
    r: "channel_run step xs q1 = Inr (ins, outs, q2)" "inv q2" "pending q1 @ ins = outs @ pending q2"
    by blast
  have "pending q @ i @ ins = (pending q @ i) @ ins" by simp
  also have "\<dots> = out @ pending q1 @ ins" by (simp add: s(3))
  also have "\<dots> = (out @ outs) @ pending q2" by (simp add: r(3))
  finally have "pending q @ i @ ins = (out @ outs) @ pending q2" .
  with s r show ?case by simp
qed

lemma run_observed:
  assumes "\<And>q x i out q1. inv q \<Longrightarrow> ok x \<Longrightarrow> step x q = Inr (i, out, q1) \<Longrightarrow> obs q1 = obs q @ out"
  shows "inv q \<Longrightarrow> list_all ok xs \<Longrightarrow> channel_run step xs q = Inr (ins, outs, q1) \<Longrightarrow> obs q1 = obs q @ outs"
proof (induction xs arbitrary: q ins outs)
  case Nil
  then show ?case by simp
next
  case (Cons x xs)
  then obtain i out q2 where s: "step x q = Inr (i, out, q2)" "inv q2" using step_law [of q x] by auto
  with Cons.prems obtain ins2 outs2 where r: "channel_run step xs q2 = Inr (ins2, outs2, q1)" "outs = out @ outs2"
    by (auto split: sum.splits)
  have "obs q1 = obs q2 @ outs2" using Cons.IH [OF s(2) _ r(1)] Cons.prems by simp
  moreover have "obs q2 = obs q @ out" using assms [OF _ _ s(1)] Cons.prems by simp
  ultimately show ?case using r(2) by simp
qed

lemma run_fifo:
  assumes "inv q" and "pending q = []" and "list_all ok xs"
  shows "\<exists>is outs q1. channel_run step xs q = Inr (is, outs, q1) \<and> inv q1 \<and> is = outs @ pending q1"
  using run_law [OF assms(1,3)] assms(2) by simp

end

section \<open>Memory\<close>

definition memcpy :: "nat \<Rightarrow> string \<Rightarrow> string \<Rightarrow> exn + string" where
  "memcpy off s m =
     (if off + length s \<le> length m then Inr (take off m @ s @ drop (off + length s) m)
      else Inl (Undefined ''memcpy past the end''))"

definition memread :: "nat \<Rightarrow> nat \<Rightarrow> string \<Rightarrow> exn + string" where
  "memread off n m =
     (if off + n \<le> length m then Inr (take n (drop off m)) else Inl (Undefined ''memcpy from past the end''))"

lemma memcpy_Inr:
  "off + length s \<le> length m \<Longrightarrow> memcpy off s m = Inr (take off m @ s @ drop (off + length s) m)"
  by (simp add: memcpy_def)

lemma memread_Inr: "off + n \<le> length m \<Longrightarrow> memread off n m = Inr (take n (drop off m))"
  by (simp add: memread_def)

lemma copied_length: "off + length s \<le> length m \<Longrightarrow> length (take off m @ s @ drop (off + length s) m) = length m"
  by simp

lemma copied_nth:
  "off + length s \<le> length m \<Longrightarrow> i < length m \<Longrightarrow>
   (take off m @ s @ drop (off + length s) m) ! i = (if off \<le> i \<and> i < off + length s then s ! (i - off) else m ! i)"
  by (auto simp: nth_append)

section \<open>CircularBuffer\<close>

text \<open>
  The sizes are \<open>size_t\<close>; a block that exists has fewer bytes than the type can count, so the sums the
  code compares do not wrap around. The counter is an \<open>unsigned long\<close> and does.
\<close>

record CircularBuffer =
  cb_buf :: string
  cb_max :: nat
  cb_q :: nat
  cb_b :: nat
  cb_t :: nat
  cb_count :: "64 word"

text \<open>The constructor, on the bytes \<open>new char[2 * size]\<close> happens to have.\<close>

definition CircularBuffer_new :: "nat \<Rightarrow> string \<Rightarrow> CircularBuffer" where
  "CircularBuffer_new sz mem = \<lparr>cb_buf = mem, cb_max = sz, cb_q = 0, cb_b = 0, cb_t = 0, cb_count = 0\<rparr>"

definition CircularBuffer_Write :: "string \<Rightarrow> CircularBuffer \<Rightarrow> exn + (bool \<times> CircularBuffer)" where
  "CircularBuffer_Write s c =
     (let l = length s
      in if cb_max c < cb_q c + l then Inr (False, c)
         else
           let c1 = c\<lparr>cb_count := cb_count c + of_nat l\<rparr>
           in if cb_max c < cb_t c + l then
                let l1 = cb_max c - cb_t c
                in case memcpy (cb_t c) s (cb_buf c) of
                     Inl e \<Rightarrow> Inl e
                   | Inr m1 \<Rightarrow>
                       (case memcpy 0 (drop l1 s) m1 of
                          Inl e \<Rightarrow> Inl e
                        | Inr m2 \<Rightarrow> Inr (True, c1\<lparr>cb_buf := m2, cb_t := l - l1, cb_q := cb_q c + l\<rparr>))
              else
                case memcpy (cb_t c) s (cb_buf c) of
                  Inl e \<Rightarrow> Inl e
                | Inr m1 \<Rightarrow>
                    (case memcpy (cb_max c + cb_t c) s m1 of
                       Inl e \<Rightarrow> Inl e
                     | Inr m2 \<Rightarrow>
                         let t1 = cb_t c + l
                         in Inr (True, c1\<lparr>cb_buf := m2, cb_t := (if cb_max c \<le> t1 then t1 - cb_max c else t1), cb_q := cb_q c + l\<rparr>)))"

text \<open>\<open>Read\<close>: whether it did, what was copied to \<open>s\<close> (nothing when \<open>s\<close> is null), and the buffer after it.\<close>

definition CircularBuffer_Read :: "bool \<Rightarrow> nat \<Rightarrow> CircularBuffer \<Rightarrow> exn + (bool \<times> string \<times> CircularBuffer)" where
  "CircularBuffer_Read dest l c =
     (if cb_q c < l then Inr (False, [], c)
      else
        let reset = (\<lambda>c. if cb_q c = 0 then c\<lparr>cb_b := 0, cb_t := 0\<rparr> else c)
        in if cb_max c < cb_b c + l then
             let l1 = cb_max c - cb_b c; c1 = reset (c\<lparr>cb_b := l - l1, cb_q := cb_q c - l\<rparr>)
             in if dest then
                  (case memread (cb_b c) l1 (cb_buf c) of
                     Inl e \<Rightarrow> Inl e
                   | Inr s1 \<Rightarrow>
                       (case memread 0 (l - l1) (cb_buf c) of
                          Inl e \<Rightarrow> Inl e
                        | Inr s2 \<Rightarrow> Inr (True, s1 @ s2, c1)))
                else Inr (True, [], c1)
           else
             let b1 = cb_b c + l;
                 c1 = reset (c\<lparr>cb_b := (if cb_max c \<le> b1 then b1 - cb_max c else b1), cb_q := cb_q c - l\<rparr>)
             in if dest then
                  (case memread (cb_b c) l (cb_buf c) of Inl e \<Rightarrow> Inl e | Inr s1 \<Rightarrow> Inr (True, s1, c1))
                else Inr (True, [], c1))"

definition CircularBuffer_Remove :: "nat \<Rightarrow> CircularBuffer \<Rightarrow> exn + (bool \<times> CircularBuffer)" where
  "CircularBuffer_Remove l c =
     (case CircularBuffer_Read False l c of Inl e \<Rightarrow> Inl e | Inr (r, s, c1) \<Rightarrow> Inr (r, c1))"

definition CircularBuffer_GetLength :: "CircularBuffer \<Rightarrow> nat" where
  "CircularBuffer_GetLength c = cb_q c"

text \<open>The bytes from the pointer \<open>GetStart\<close> returns to the end of the memory.\<close>

definition CircularBuffer_GetStart :: "CircularBuffer \<Rightarrow> string" where
  "CircularBuffer_GetStart c = drop (cb_b c) (cb_buf c)"

definition CircularBuffer_GetL :: "CircularBuffer \<Rightarrow> nat" where
  "CircularBuffer_GetL c = (if cb_max c < cb_b c + cb_q c then cb_max c - cb_b c else cb_q c)"

definition CircularBuffer_Space :: "CircularBuffer \<Rightarrow> nat" where
  "CircularBuffer_Space c = cb_max c - cb_q c"

definition CircularBuffer_ByteCounter :: "bool \<Rightarrow> CircularBuffer \<Rightarrow> 64 word \<times> CircularBuffer" where
  "CircularBuffer_ByteCounter clear c = (if clear then (cb_count c, c\<lparr>cb_count := 0\<rparr>) else (cb_count c, c))"

definition CircularBuffer_ReadString :: "nat \<Rightarrow> CircularBuffer \<Rightarrow> exn + (string \<times> CircularBuffer)" where
  "CircularBuffer_ReadString l c =
     (case CircularBuffer_Read True l c of
        Inl e \<Rightarrow> Inl e
      | Inr (r, sz, c1) \<Rightarrow> if \<not> r then Inr ([], c1) else Inr (c_str (sz @ [CHR 0x00]), c1))"

subsection \<open>The invariant and the bytes a buffer holds\<close>

text \<open>
  The memory is twice the size of the buffer, and what has gone over the border is in both
  halves: so the bytes of the buffer follow each other from \<open>GetStart\<close> on.
\<close>

definition cb_inv :: "CircularBuffer \<Rightarrow> bool" where
  "cb_inv c \<longleftrightarrow>
     length (cb_buf c) = 2 * cb_max c \<and> cb_q c \<le> cb_max c \<and> (cb_b c = 0 \<or> cb_b c < cb_max c) \<and>
     cb_t c = (if cb_b c + cb_q c < cb_max c then cb_b c + cb_q c else cb_b c + cb_q c - cb_max c) \<and>
     list_all (\<lambda>i. cb_buf c ! i = cb_buf c ! (i - cb_max c)) [cb_max c..<cb_b c + cb_q c]"

definition cb_bytes :: "CircularBuffer \<Rightarrow> string" where
  "cb_bytes c = take (CircularBuffer_GetLength c) (CircularBuffer_GetStart c)"

lemma cb_invD:
  assumes "cb_inv c"
  shows "length (cb_buf c) = 2 * cb_max c" "cb_q c \<le> cb_max c" "cb_b c \<le> cb_max c" "cb_b c + cb_q c \<le> 2 * cb_max c"
    "cb_t c \<le> cb_max c"
    "\<And>i. cb_max c \<le> i \<Longrightarrow> i < cb_b c + cb_q c \<Longrightarrow> cb_buf c ! i = cb_buf c ! (i - cb_max c)"
  using assms by (auto simp: cb_inv_def list_all_iff split: if_splits)

lemma length_cb_bytes [simp]: "cb_inv c \<Longrightarrow> length (cb_bytes c) = cb_q c"
  using cb_invD(1,4) [of c] by (simp add: cb_bytes_def CircularBuffer_GetLength_def CircularBuffer_GetStart_def)

lemma nth_cb_bytes: "cb_inv c \<Longrightarrow> i < cb_q c \<Longrightarrow> cb_bytes c ! i = cb_buf c ! (cb_b c + i)"
  using cb_invD(1,4) [of c] by (simp add: cb_bytes_def CircularBuffer_GetLength_def CircularBuffer_GetStart_def)

lemma cb_new_inv: "length mem = 2 * sz \<Longrightarrow> cb_inv (CircularBuffer_new sz mem)"
  by (simp add: cb_inv_def CircularBuffer_new_def)

lemma cb_new_bytes: "cb_bytes (CircularBuffer_new sz mem) = []"
  by (simp add: cb_bytes_def CircularBuffer_new_def CircularBuffer_GetLength_def)


subsection \<open>Writing\<close>

lemma cb_extend:
  assumes c: "cb_inv c" and fits: "cb_q c + length s \<le> cb_max c"
    and len: "length m = length (cb_buf c)"
    and old: "\<And>i. i < cb_q c \<Longrightarrow> m ! (cb_b c + i) = cb_buf c ! (cb_b c + i)"
    and old2: "\<And>i. i < cb_q c \<Longrightarrow> cb_max c \<le> cb_b c + i \<Longrightarrow> m ! (cb_b c + i - cb_max c) = cb_buf c ! (cb_b c + i - cb_max c)"
    and new: "\<And>j. j < length s \<Longrightarrow> m ! (cb_b c + cb_q c + j) = s ! j"
    and new2: "\<And>j. j < length s \<Longrightarrow> cb_max c \<le> cb_b c + cb_q c + j \<Longrightarrow> m ! (cb_b c + cb_q c + j - cb_max c) = s ! j"
    and t: "t = (if cb_b c + cb_q c + length s < cb_max c then cb_b c + cb_q c + length s else cb_b c + cb_q c + length s - cb_max c)"
    and c1: "c1 = c\<lparr>cb_count := n, cb_buf := m, cb_t := t, cb_q := cb_q c + length s\<rparr>"
  shows "cb_inv c1 \<and> cb_bytes c1 = cb_bytes c @ s"
proof -
  note D = cb_invD [OF c]
  have mirror: "m ! i = m ! (i - cb_max c)" if i: "cb_max c \<le> i" "i < cb_b c + cb_q c + length s" for i
  proof (cases "i < cb_b c + cb_q c")
    case True
    then have "i = cb_b c + (i - cb_b c)" "i - cb_b c < cb_q c" using i D(3) by auto
    then show ?thesis using old [of "i - cb_b c"] old2 [of "i - cb_b c"] D(6) [of i] i True by simp
  next
    case False
    then have "i = cb_b c + cb_q c + (i - (cb_b c + cb_q c))" "i - (cb_b c + cb_q c) < length s" using i by auto
    then show ?thesis
      using new [of "i - (cb_b c + cb_q c)"] new2 [of "i - (cb_b c + cb_q c)"] i by simp
  qed
  have inv: "cb_inv c1"
    using c fits len t mirror by (auto simp: cb_inv_def c1 list_all_iff add.assoc)
  have "cb_bytes c1 = cb_bytes c @ s"
  proof (rule nth_equalityI)
    show "length (cb_bytes c1) = length (cb_bytes c @ s)" using inv c by (simp add: c1)
  next
    fix i assume i: "i < length (cb_bytes c1)"
    then have "cb_bytes c1 ! i = m ! (cb_b c + i)" using inv by (simp add: nth_cb_bytes) (simp add: c1)
    then show "cb_bytes c1 ! i = (cb_bytes c @ s) ! i"
      using i inv c old [of i] new [of "i - cb_q c"] by (auto simp: nth_append nth_cb_bytes c1)
  qed
  with inv show ?thesis by simp
qed

lemma cb_Write_full: "cb_max c < cb_q c + length s \<Longrightarrow> CircularBuffer_Write s c = Inr (False, c)"
  by (simp add: CircularBuffer_Write_def)

lemma cb_Write_fits:
  assumes c: "cb_inv c" and fits: "cb_q c + length s \<le> cb_max c"
  shows "\<exists>c1. CircularBuffer_Write s c = Inr (True, c1) \<and> cb_inv c1 \<and> cb_bytes c1 = cb_bytes c @ s \<and>
    cb_max c1 = cb_max c \<and> cb_count c1 = cb_count c + of_nat (length s)"
proof (cases "cb_max c < cb_t c + length s")
  case True
  note D = cb_invD [OF c]
  have t: "cb_t c = cb_b c + cb_q c" and "cb_t c \<le> cb_max c"
    using True c fits by (auto simp: cb_inv_def split: if_splits)
  define l1 where "l1 = cb_max c - cb_t c"
  define m1 where "m1 = take (cb_t c) (cb_buf c) @ s @ drop (cb_t c + length s) (cb_buf c)"
  define m2 where "m2 = drop l1 s @ drop (length s - l1) m1"
  define c1 where "c1 = c\<lparr>cb_count := cb_count c + of_nat (length s), cb_buf := m2, cb_t := length s - l1, cb_q := cb_q c + length s\<rparr>"
  have r1: "cb_t c + length s \<le> length (cb_buf c)" using D t fits by simp
  have len1: "length m1 = length (cb_buf c)" using r1 by (simp add: m1_def)
  have r2: "0 + length (drop l1 s) \<le> length m1" using r1 len1 by simp
  have len2: "length m2 = length (cb_buf c)" using r2 len1 by (simp add: m2_def)
  have n1: "m1 ! i = (if cb_t c \<le> i \<and> i < cb_t c + length s then s ! (i - cb_t c) else cb_buf c ! i)"
    if "i < length (cb_buf c)" for i
    unfolding m1_def by (rule copied_nth [OF r1 that])
  have n2: "m2 ! i = (if i < length s - l1 then s ! (l1 + i) else m1 ! i)" if "i < length (cb_buf c)" for i
    using copied_nth [OF r2, of i] that len1 r2 by (simp add: m2_def)
  have w: "CircularBuffer_Write s c = Inr (True, c1)"
    using fits True memcpy_Inr [OF r1] memcpy_Inr [OF r2]
    by (simp add: CircularBuffer_Write_def Let_def c1_def l1_def [symmetric] m1_def [symmetric] m2_def [symmetric])
  have "cb_inv c1 \<and> cb_bytes c1 = cb_bytes c @ s"
    by (rule cb_extend [OF c fits len2 _ _ _ _ _ c1_def])
      (use D t fits True in \<open>auto simp: n1 n2 l1_def\<close>)
  with w show ?thesis by (simp add: c1_def)
next
  case False
  note D = cb_invD [OF c]
  define m1 where "m1 = take (cb_t c) (cb_buf c) @ s @ drop (cb_t c + length s) (cb_buf c)"
  define m2 where "m2 = take (cb_max c + cb_t c) m1 @ s @ drop (cb_max c + cb_t c + length s) m1"
  define t1 where "t1 = (if cb_max c \<le> cb_t c + length s then cb_t c + length s - cb_max c else cb_t c + length s)"
  define c1 where "c1 = c\<lparr>cb_count := cb_count c + of_nat (length s), cb_buf := m2, cb_t := t1, cb_q := cb_q c + length s\<rparr>"
  have r1: "cb_t c + length s \<le> length (cb_buf c)" using D False by simp
  have len1: "length m1 = length (cb_buf c)" using r1 by (simp add: m1_def)
  have r2: "cb_max c + cb_t c + length s \<le> length m1" using D False len1 by simp
  have len2: "length m2 = length (cb_buf c)" using r2 len1 by (simp add: m2_def)
  have n1: "m1 ! i = (if cb_t c \<le> i \<and> i < cb_t c + length s then s ! (i - cb_t c) else cb_buf c ! i)"
    if "i < length (cb_buf c)" for i
    unfolding m1_def by (rule copied_nth [OF r1 that])
  have n2: "m2 ! i = (if cb_max c + cb_t c \<le> i \<and> i < cb_max c + cb_t c + length s then s ! (i - (cb_max c + cb_t c)) else m1 ! i)"
    if "i < length (cb_buf c)" for i
    unfolding m2_def by (rule copied_nth [OF r2]) (simp add: len1 that)
  have w: "CircularBuffer_Write s c = Inr (True, c1)"
    using fits False memcpy_Inr [OF r1] memcpy_Inr [OF r2]
    by (simp add: CircularBuffer_Write_def Let_def c1_def t1_def m1_def [symmetric] m2_def [symmetric])
  have t: "cb_t c = (if cb_b c + cb_q c < cb_max c then cb_b c + cb_q c else cb_b c + cb_q c - cb_max c)"
    and b: "cb_b c = 0 \<or> cb_b c < cb_max c"
    using c by (simp_all add: cb_inv_def)
  have "cb_inv c1 \<and> cb_bytes c1 = cb_bytes c @ s"
    by (rule cb_extend [OF c fits len2 _ _ _ _ _ c1_def])
      (use D(1-5) t b fits False in \<open>auto simp: n1 n2 t1_def split: if_splits\<close>)
  with w show ?thesis by (simp add: c1_def)
qed


subsection \<open>Reading\<close>

lemma cb_shrink:
  assumes c: "cb_inv c" and l: "l \<le> cb_q c"
    and b: "b = (if cb_b c + l < cb_max c then cb_b c + l else cb_b c + l - cb_max c)"
    and c1: "c1 = c\<lparr>cb_b := b, cb_q := cb_q c - l\<rparr>"
    and c2: "c2 = (if cb_q c1 = 0 then c1\<lparr>cb_b := 0, cb_t := 0\<rparr> else c1)"
  shows "cb_inv c2 \<and> cb_bytes c2 = drop l (cb_bytes c) \<and> cb_max c2 = cb_max c \<and> cb_count c2 = cb_count c"
proof (cases "cb_q c = l")
  case True
  then have z: "c2 = c\<lparr>cb_b := 0, cb_q := 0, cb_t := 0\<rparr>" by (simp add: c1 c2)
  have inv: "cb_inv c2" using c by (simp add: cb_inv_def z)
  then have "length (cb_bytes c2) = 0" by (simp add: z)
  then show ?thesis using inv c True by (simp add: z)
next
  case False
  note D = cb_invD [OF c]
  have c2': "c2 = c\<lparr>cb_b := b, cb_q := cb_q c - l\<rparr>" using False l by (simp add: c1 c2)
  have bb: "cb_b c = 0 \<or> cb_b c < cb_max c"
    and t: "cb_t c = (if cb_b c + cb_q c < cb_max c then cb_b c + cb_q c else cb_b c + cb_q c - cb_max c)"
    using c by (simp_all add: cb_inv_def)
  have inv: "cb_inv c2"
    using D bb t l False by (auto simp: cb_inv_def c2' b list_all_iff)
  have "cb_bytes c2 = drop l (cb_bytes c)"
  proof (rule nth_equalityI)
    show "length (cb_bytes c2) = length (drop l (cb_bytes c))" using inv c by (simp add: c2')
  next
    fix i assume "i < length (cb_bytes c2)"
    then have i: "i < cb_q c2" "l + i < cb_q c" using inv by (simp_all add: c2')
    then show "cb_bytes c2 ! i = drop l (cb_bytes c) ! i"
      using inv c D(6) [of "cb_b c + l + i"] by (auto simp: nth_cb_bytes) (auto simp: c2' b add.assoc)
  qed
  with inv show ?thesis by (simp add: c2')
qed

lemma cb_Read_short: "cb_q c < l \<Longrightarrow> CircularBuffer_Read dest l c = Inr (False, [], c)"
  by (simp add: CircularBuffer_Read_def)

lemma cb_read_split:
  assumes c: "cb_inv c" and l: "l \<le> cb_q c" and cross: "cb_max c < cb_b c + l"
  shows "take (cb_max c - cb_b c) (drop (cb_b c) (cb_buf c)) @ take (l - (cb_max c - cb_b c)) (cb_buf c) = take l (cb_bytes c)"
proof -
  note D = cb_invD [OF c]
  have len: "length (take (cb_max c - cb_b c) (drop (cb_b c) (cb_buf c)) @ take (l - (cb_max c - cb_b c)) (cb_buf c)) = l"
    using D l cross by auto
  have len': "length (take l (cb_bytes c)) = l" using l c by simp
  show ?thesis
  proof (rule nth_equalityI)
    fix i assume "i < length (take (cb_max c - cb_b c) (drop (cb_b c) (cb_buf c)) @ take (l - (cb_max c - cb_b c)) (cb_buf c))"
    then have i: "i < l" by (simp only: len)
    show "(take (cb_max c - cb_b c) (drop (cb_b c) (cb_buf c)) @ take (l - (cb_max c - cb_b c)) (cb_buf c)) ! i = take l (cb_bytes c) ! i"
      using D(1-4) D(6) [of "cb_b c + i"] i l cross by (auto simp: nth_append nth_cb_bytes [OF c] min_def add.commute)
  qed (simp only: len len')
qed

lemma cb_Read_enough:
  assumes c: "cb_inv c" and l: "l \<le> cb_q c"
  shows "\<exists>c1. CircularBuffer_Read dest l c = Inr (True, if dest then take l (cb_bytes c) else [], c1) \<and> cb_inv c1 \<and>
    cb_bytes c1 = drop l (cb_bytes c) \<and> cb_max c1 = cb_max c \<and> cb_count c1 = cb_count c"
proof -
  note D = cb_invD [OF c]
  define b where "b = (if cb_b c + l < cb_max c then cb_b c + l else cb_b c + l - cb_max c)"
  define c1 where "c1 = c\<lparr>cb_b := b, cb_q := cb_q c - l\<rparr>"
  define c2 where "c2 = (if cb_q c1 = 0 then c1\<lparr>cb_b := 0, cb_t := 0\<rparr> else c1)"
  have "CircularBuffer_Read dest l c = Inr (True, if dest then take l (cb_bytes c) else [], c2)"
  proof (cases "cb_max c < cb_b c + l")
    case True
    have r1: "memread (cb_b c) (cb_max c - cb_b c) (cb_buf c) = Inr (take (cb_max c - cb_b c) (drop (cb_b c) (cb_buf c)))"
      using D by (intro memread_Inr) simp
    have r2: "memread 0 (l - (cb_max c - cb_b c)) (cb_buf c) = Inr (take (l - (cb_max c - cb_b c)) (cb_buf c))"
      using memread_Inr [of 0 "l - (cb_max c - cb_b c)" "cb_buf c"] D l by simp
    have b': "b = l - (cb_max c - cb_b c)" using True D(3) by (simp add: b_def)
    show ?thesis
      using True l cb_read_split [OF c l True] r1 r2
      by (simp add: CircularBuffer_Read_def Let_def c2_def c1_def b')
  next
    case False
    have r: "memread (cb_b c) l (cb_buf c) = Inr (take l (cb_bytes c))"
      using D False l
      by (simp add: memread_def cb_bytes_def CircularBuffer_GetLength_def CircularBuffer_GetStart_def min_def)
    have b': "b = (if cb_max c \<le> cb_b c + l then cb_b c + l - cb_max c else cb_b c + l)" by (simp add: b_def)
    show ?thesis
      using False l r by (simp add: CircularBuffer_Read_def Let_def c2_def c1_def b')
  qed
  then show ?thesis using cb_shrink [OF c l b_def c1_def c2_def] by blast
qed


lemma cb_Remove_enough:
  assumes "cb_inv c" and "l \<le> cb_q c"
  shows "\<exists>c1. CircularBuffer_Remove l c = Inr (True, c1) \<and> cb_inv c1 \<and>
    cb_bytes c1 = drop l (cb_bytes c) \<and> cb_max c1 = cb_max c \<and> cb_count c1 = cb_count c"
  using cb_Read_enough [OF assms, of False] by (auto simp: CircularBuffer_Remove_def)

lemma cb_Remove_short: "cb_q c < l \<Longrightarrow> CircularBuffer_Remove l c = Inr (False, c)"
  by (simp add: CircularBuffer_Remove_def cb_Read_short)

lemma cb_ReadString_enough:
  assumes "cb_inv c" and "l \<le> cb_q c"
  shows "\<exists>c1. CircularBuffer_ReadString l c = Inr (c_str (take l (cb_bytes c)), c1) \<and> cb_inv c1 \<and> cb_bytes c1 = drop l (cb_bytes c)"
proof -
  have "c_str (s @ [CHR 0x00]) = c_str s" for s
    by (induction s) (auto simp: c_str_def)
  then show ?thesis
    using cb_Read_enough [OF assms, of True] by (auto simp: CircularBuffer_ReadString_def)
qed

subsection \<open>The buffer is a channel\<close>

text \<open>
  The operations of a client. \<open>Remove\<close> gives out the bytes the client has seen at \<open>GetStart\<close>, and
  \<open>ByteCounter\<close> and the sizes can be asked for at any time.
\<close>

datatype cb_op = CB_Write string | CB_Read nat | CB_Remove nat | CB_ByteCounter bool

fun cb_step :: "cb_op \<Rightarrow> CircularBuffer \<Rightarrow> exn + (string \<times> string \<times> CircularBuffer)" where
  "cb_step (CB_Write s) c =
     (case CircularBuffer_Write s c of Inl e \<Rightarrow> Inl e | Inr (r, c1) \<Rightarrow> Inr (if r then s else [], [], c1))"
| "cb_step (CB_Read l) c =
     (case CircularBuffer_Read True l c of Inl e \<Rightarrow> Inl e | Inr (r, s, c1) \<Rightarrow> Inr ([], s, c1))"
| "cb_step (CB_Remove l) c =
     (case CircularBuffer_Remove l c of
        Inl e \<Rightarrow> Inl e
      | Inr (r, c1) \<Rightarrow> Inr ([], if r then take l (CircularBuffer_GetStart c) else [], c1))"
| "cb_step (CB_ByteCounter clear) c = Inr ([], [], snd (CircularBuffer_ByteCounter clear c))"

lemma cb_ByteCounter_inv: "cb_inv c \<Longrightarrow> cb_inv (snd (CircularBuffer_ByteCounter clear c))"
  by (simp add: CircularBuffer_ByteCounter_def cb_inv_def)

lemma cb_ByteCounter_bytes: "cb_bytes (snd (CircularBuffer_ByteCounter clear c)) = cb_bytes c"
  by (simp add: CircularBuffer_ByteCounter_def cb_bytes_def CircularBuffer_GetLength_def CircularBuffer_GetStart_def)

lemma cb_ByteCounter_max: "cb_max (snd (CircularBuffer_ByteCounter clear c)) = cb_max c"
  by (simp add: CircularBuffer_ByteCounter_def)

lemma cb_step_law:
  assumes c: "cb_inv c"
  shows "\<exists>i out c1. cb_step x c = Inr (i, out, c1) \<and> cb_inv c1 \<and> cb_bytes c @ i = out @ cb_bytes c1 \<and> cb_max c1 = cb_max c"
proof (cases x)
  case (CB_Write s)
  then show ?thesis
    using c cb_Write_full [of c s] cb_Write_fits [OF c, of s]
    by (cases "cb_max c < cb_q c + length s") auto
next
  case (CB_Read l)
  then show ?thesis
    using c cb_Read_short [of c l True] cb_Read_enough [OF c, of l True]
    by (cases "cb_q c < l") auto
next
  case (CB_Remove l)
  have "take l (CircularBuffer_GetStart c) = take l (cb_bytes c)" if "l \<le> cb_q c"
    using that by (simp add: cb_bytes_def CircularBuffer_GetLength_def min_def)
  then show ?thesis
    using CB_Remove c cb_Remove_short [of c l] cb_Remove_enough [OF c, of l]
    by (cases "cb_q c < l") auto
next
  case (CB_ByteCounter clear)
  then show ?thesis using c by (simp add: cb_ByteCounter_inv cb_ByteCounter_bytes cb_ByteCounter_max)
qed

interpretation cb: byte_channel cb_step "\<lambda>c. cb_inv c \<and> cb_max c = sz" cb_bytes "\<lambda>_. True" for sz
proof
  fix q x assume "cb_inv q \<and> cb_max q = sz"
  with cb_step_law [of q x]
  show "\<exists>i out q1. cb_step x q = Inr (i, out, q1) \<and> (cb_inv q1 \<and> cb_max q1 = sz) \<and> cb_bytes q @ i = out @ cb_bytes q1"
    by auto
qed

text \<open>
  C37 (refinement). The circular buffer of a TCP socket is a bounded queue of bytes. Whatever is written, read,
  removed and counted, in any order, no copy leaves its memory. What has been accepted is, in order, what
  has been given out followed by the bytes the buffer holds, which stand next to each other from
  \<open>GetStart\<close> on, also over the border. A write is accepted exactly when it fits, and a read gives the oldest bytes
  exactly when there are enough of them.
\<close>

theorem circular_buffer_fifo:
  assumes "length mem = 2 * sz"
  shows "\<exists>ins outs c. channel_run cb_step ops (CircularBuffer_new sz mem) = Inr (ins, outs, c) \<and>
    ins = outs @ take (CircularBuffer_GetLength c) (CircularBuffer_GetStart c) \<and>
    CircularBuffer_GetLength c + CircularBuffer_Space c = sz \<and>
    (\<forall>s. \<exists>r c1. CircularBuffer_Write s c = Inr (r, c1) \<and> r = (length s \<le> CircularBuffer_Space c)) \<and>
    (\<forall>l. CircularBuffer_GetLength c < l \<or>
       (\<exists>c1. CircularBuffer_Read True l c = Inr (True, take l (CircularBuffer_GetStart c), c1)))"
proof -
  let ?c = "CircularBuffer_new sz mem"
  have "cb_inv ?c \<and> cb_max ?c = sz" using assms by (simp add: cb_new_inv) (simp add: CircularBuffer_new_def)
  moreover have "list_all (\<lambda>_. True) ops" by (simp add: list_all_iff)
  ultimately obtain ins outs c where
    r: "channel_run cb_step ops ?c = Inr (ins, outs, c)" "ins = outs @ cb_bytes c" and c: "cb_inv c" "cb_max c = sz"
    using cb.run_fifo [of ?c sz ops] cb_new_bytes by blast
  have "CircularBuffer_GetLength c + CircularBuffer_Space c = sz"
    using c cb_invD(2) [OF c(1)] by (simp add: CircularBuffer_GetLength_def CircularBuffer_Space_def)
  moreover have "\<exists>r c1. CircularBuffer_Write s c = Inr (r, c1) \<and> r = (length s \<le> CircularBuffer_Space c)" for s
    using cb_Write_full [of c s] cb_Write_fits [OF c(1), of s] cb_invD(2) [OF c(1)]
    by (cases "cb_max c < cb_q c + length s") (auto simp: CircularBuffer_Space_def)
  moreover have "CircularBuffer_GetLength c < l \<or>
      (\<exists>c1. CircularBuffer_Read True l c = Inr (True, take l (CircularBuffer_GetStart c), c1))" for l
    using cb_Read_enough [OF c(1), of l True]
    by (cases "l \<le> cb_q c") (auto simp: cb_bytes_def CircularBuffer_GetLength_def min_def)
  ultimately show ?thesis using r by (auto simp: cb_bytes_def)
qed

theorem circular_buffer_fifo_witness:
  "\<exists>ins outs c. channel_run cb_step [CB_Write ''abc'', CB_Read 2, CB_Write ''def'', CB_Remove 1, CB_Write ''xy'']
       (CircularBuffer_new 4 ''--------'') = Inr (ins, outs, c) \<and>
     ins = outs @ take (CircularBuffer_GetLength c) (CircularBuffer_GetStart c)"
proof -
  have "length ''--------'' = 2 * 4" by simp
  from circular_buffer_fifo [OF this] show ?thesis by blast
qed

text \<open>
  What \<open>ReadString\<close> returns ends at the first zero byte, while all the bytes asked for are taken out of
  the buffer: those after the zero byte are lost.
\<close>

lemma ReadString_loses_bytes:
  assumes c: "cb_inv c" and s: "cb_bytes c = s @ CHR 0x00 # r" "CHR 0x00 \<notin> set s"
  shows "\<exists>c1. CircularBuffer_ReadString (CircularBuffer_GetLength c) c = Inr (s, c1) \<and> cb_bytes c1 = []"
proof -
  have "take (cb_q c) (cb_bytes c) = cb_bytes c" "drop (cb_q c) (cb_bytes c) = []" using c by simp_all
  moreover have "c_str (cb_bytes c) = s" using c_str_append [OF s(2)] s(1) by (simp add: c_str_def)
  ultimately show ?thesis
    using cb_ReadString_enough [OF c order_refl] by (simp add: CircularBuffer_GetLength_def) blast
qed

section \<open>OUTPUT\<close>

text \<open>A block of the output: \<open>_b\<close> and \<open>_t\<close> are its first and its last byte, \<open>_q\<close> is their distance.\<close>

definition TCP_OUTPUT_CAPACITY :: nat where
  "TCP_OUTPUT_CAPACITY = 1024000"

record OUTPUT =
  out_b :: nat
  out_t :: nat
  out_q :: nat
  out_buf :: string

definition OUTPUT_new :: "string \<Rightarrow> OUTPUT" where
  "OUTPUT_new mem = \<lparr>out_b = 0, out_t = 0, out_q = 0, out_buf = mem\<rparr>"

definition OUTPUT_new_buf :: "string \<Rightarrow> string \<Rightarrow> exn + OUTPUT" where
  "OUTPUT_new_buf s mem =
     (case memcpy 0 s mem of
        Inl e \<Rightarrow> Inl e
      | Inr m \<Rightarrow> Inr \<lparr>out_b = 0, out_t = length s, out_q = length s, out_buf = m\<rparr>)"

definition OUTPUT_Space :: "OUTPUT \<Rightarrow> nat" where
  "OUTPUT_Space p = TCP_OUTPUT_CAPACITY - out_t p"

definition OUTPUT_Add :: "string \<Rightarrow> OUTPUT \<Rightarrow> exn + OUTPUT" where
  "OUTPUT_Add s p =
     (case memcpy (out_t p) s (out_buf p) of
        Inl e \<Rightarrow> Inl e
      | Inr m \<Rightarrow> Inr (p\<lparr>out_buf := m, out_t := out_t p + length s, out_q := out_q p + length s\<rparr>))"

definition OUTPUT_Remove :: "nat \<Rightarrow> OUTPUT \<Rightarrow> nat \<times> OUTPUT" where
  "OUTPUT_Remove n p = (out_q p - n, p\<lparr>out_b := out_b p + n, out_q := out_q p - n\<rparr>)"

definition OUTPUT_Buf :: "OUTPUT \<Rightarrow> string" where
  "OUTPUT_Buf p = drop (out_b p) (out_buf p)"

definition OUTPUT_Len :: "OUTPUT \<Rightarrow> nat" where
  "OUTPUT_Len p = out_q p"

definition out_inv :: "OUTPUT \<Rightarrow> bool" where
  "out_inv p \<longleftrightarrow> out_b p + out_q p = out_t p \<and> out_t p \<le> TCP_OUTPUT_CAPACITY \<and> length (out_buf p) = TCP_OUTPUT_CAPACITY"

definition out_bytes :: "OUTPUT \<Rightarrow> string" where
  "out_bytes p = take (OUTPUT_Len p) (OUTPUT_Buf p)"

lemma out_new_inv: "length mem = TCP_OUTPUT_CAPACITY \<Longrightarrow> out_inv (OUTPUT_new mem)"
  by (simp add: out_inv_def OUTPUT_new_def)

lemma out_new_bytes [simp]: "out_bytes (OUTPUT_new mem) = []"
  by (simp add: out_bytes_def OUTPUT_new_def OUTPUT_Len_def)

lemma length_out_bytes [simp]: "out_inv p \<Longrightarrow> length (out_bytes p) = out_q p"
  by (auto simp: out_inv_def out_bytes_def OUTPUT_Len_def OUTPUT_Buf_def)

lemma out_Add:
  assumes p: "out_inv p" and s: "length s \<le> OUTPUT_Space p"
  shows "\<exists>p1. OUTPUT_Add s p = Inr p1 \<and> out_inv p1 \<and> out_bytes p1 = out_bytes p @ s \<and> out_t p1 = out_t p + length s"
proof -
  have le: "out_t p + length s \<le> length (out_buf p)" using p s by (auto simp: out_inv_def OUTPUT_Space_def)
  moreover have "out_t p - out_b p = out_q p" using p by (auto simp: out_inv_def)
  ultimately show ?thesis
    using p s by (auto simp: OUTPUT_Add_def memcpy_Inr out_inv_def out_bytes_def OUTPUT_Len_def OUTPUT_Buf_def OUTPUT_Space_def drop_take)
qed

lemma out_Remove:
  assumes "out_inv p" and "n \<le> out_q p"
  shows "fst (OUTPUT_Remove n p) = out_q p - n \<and> out_inv (snd (OUTPUT_Remove n p)) \<and>
    out_bytes (snd (OUTPUT_Remove n p)) = drop n (out_bytes p)"
  using assms by (simp add: OUTPUT_Remove_def out_inv_def out_bytes_def OUTPUT_Len_def OUTPUT_Buf_def drop_take add.commute)

end
