(* ===== verification/Tcp_Socket.thy ===== *)
theory Tcp_Socket
  imports Circular_Buffer
begin

text \<open>
  The output of \<open>TcpSocket\<close> (\<open>src/src/Sockets-2.3.5/TcpSocket.cpp\<close>) for a socket on which SSL is not
  enabled (\<open>IsSSL()\<close> is false; \<open>sockets-config.h\<close> builds SSL in and SOCKS not): what is sent goes to the socket at once when it can, and waits in a list of blocks otherwise. The fields
  are those of the class and of its bases \<open>StreamSocket\<close> and \<open>Socket\<close>; the bits of its descriptor in the
  sets of the handler are fields too. The virtual callbacks of the class, which do nothing, are recorded as events.

  \<open>send\<close> is a parameter on a state \<open>'k\<close> of the system: it returns a count and \<open>errno\<close>.
\<close>

datatype tcp_event =
    Ev_LogError string int
  | Ev_OnDisconnect
  | Ev_OnDisconnect_reason int int
  | Ev_OnWriteComplete
  | Ev_OnTransferLimit
  | Ev_OnConnectFailed
  | Ev_OnConnect

record TcpSocket =
  ts_socket :: int
  ts_close :: bool
  ts_connected :: bool
  ts_lost :: bool
  ts_disable_read :: bool
  ts_connecting :: bool
  ts_connect_timeout :: int
  ts_timeout :: int
  ts_flush_before_close :: bool
  ts_connection_retry :: int
  ts_retries :: int
  ts_call_on_connect :: bool
  ts_line_protocol :: bool
  ts_shutdown :: int
  ts_ibuf :: CircularBuffer
  ts_input_buffer_disabled :: bool
  ts_bytes_sent :: "64 word"
  ts_bytes_received :: "64 word"
  ts_skip_c :: bool
  ts_c :: char
  ts_line :: string
  ts_obuf :: "OUTPUT list"
  ts_obuf_top :: bool
  ts_transfer_limit :: nat
  ts_output_length :: nat
  ts_rfds :: bool
  ts_wfds :: bool
  ts_efds :: bool
  ts_monitor :: "string option"
  ts_events :: "tcp_event list"

text \<open>
  \<open>ts_obuf_top\<close> is whether \<open>m_obuf_top\<close> is set: it is set to a block when the block is appended to the
  list, so it points to the last one. \<open>ts_call_on_connect\<close> is whether the socket is on the list of those
  just connected that the handler keeps. \<open>ts_monitor\<close> is what has been written to the traffic monitor, when there is one.
\<close>

definition INVALID_SOCKET :: int where
  "INVALID_SOCKET = - 1"

definition SHUT_WR :: int where
  "SHUT_WR = 1"

definition EWOULDBLOCK :: int where
  "EWOULDBLOCK = 11"

definition TCP_BUFSIZE_READ :: nat where
  "TCP_BUFSIZE_READ = 16400"

definition TCP_DISCONNECT_WRITE :: int where
  "TCP_DISCONNECT_WRITE = 1"

definition TCP_DISCONNECT_ERROR :: int where
  "TCP_DISCONNECT_ERROR = 2"

section \<open>State and events\<close>

text \<open>The constructor; \<open>mem\<close> is the memory the circular buffer gets, and \<open>m_c\<close> is not set.\<close>

definition TcpSocket_new :: "string \<Rightarrow> char \<Rightarrow> TcpSocket" where
  "TcpSocket_new mem c =
     \<lparr>ts_socket = INVALID_SOCKET, ts_close = False, ts_connected = False, ts_lost = False, ts_disable_read = False,
      ts_connecting = False, ts_connect_timeout = 5, ts_timeout = 0, ts_flush_before_close = True,
      ts_connection_retry = 0, ts_retries = 0, ts_call_on_connect = False, ts_line_protocol = False, ts_shutdown = 0,
      ts_ibuf = CircularBuffer_new TCP_BUFSIZE_READ mem, ts_input_buffer_disabled = False,
      ts_bytes_sent = 0, ts_bytes_received = 0, ts_skip_c = False, ts_c = c, ts_line = [],
      ts_obuf = [], ts_obuf_top = False, ts_transfer_limit = 0, ts_output_length = 0,
      ts_rfds = False, ts_wfds = False, ts_efds = False, ts_monitor = None, ts_events = []\<rparr>"

definition ts_log :: "tcp_event list \<Rightarrow> TcpSocket \<Rightarrow> TcpSocket" where
  "ts_log es s = s\<lparr>ts_events := ts_events s @ es\<rparr>"

definition Connecting :: "TcpSocket \<Rightarrow> bool" where
  "Connecting s = ts_connecting s"

definition SetConnecting :: "bool \<Rightarrow> TcpSocket \<Rightarrow> TcpSocket" where
  "SetConnecting x s =
     (if x \<noteq> ts_connecting s then s\<lparr>ts_connecting := x, ts_timeout := (if x then ts_connect_timeout s else 0)\<rparr> else s)"

definition Ready :: "TcpSocket \<Rightarrow> bool" where
  "Ready s \<longleftrightarrow> ts_socket s \<noteq> INVALID_SOCKET \<and> \<not> Connecting s \<and> \<not> ts_close s"

definition SetCloseAndDelete :: "bool \<Rightarrow> TcpSocket \<Rightarrow> TcpSocket" where
  "SetCloseAndDelete x s = (if x \<noteq> ts_close s then s\<lparr>ts_close := x\<rparr> else s)"

definition SetLost :: "TcpSocket \<Rightarrow> TcpSocket" where
  "SetLost s = s\<lparr>ts_lost := True\<rparr>"

text \<open>\<open>SocketHandler::Set\<close>; \<open>bException\<close> is its default, true.\<close>

definition Handler_Set :: "bool \<Rightarrow> bool \<Rightarrow> TcpSocket \<Rightarrow> TcpSocket" where
  "Handler_Set r w s = (if 0 \<le> ts_socket s then s\<lparr>ts_rfds := r, ts_wfds := w, ts_efds := True\<rparr> else s)"

text \<open>The end of \<open>SendBuf\<close> and \<open>OnWrite\<close>: the write bit is set when there is something left.\<close>

definition check_output :: "TcpSocket \<Rightarrow> TcpSocket" where
  "check_output s = Handler_Set (ts_rfds s) (ts_obuf s \<noteq> []) s"

definition GetOutputLength :: "TcpSocket \<Rightarrow> nat" where
  "GetOutputLength s = ts_output_length s"

definition GetBytesSent :: "bool \<Rightarrow> TcpSocket \<Rightarrow> 64 word \<times> TcpSocket" where
  "GetBytesSent clear s = (ts_bytes_sent s, if clear then s\<lparr>ts_bytes_sent := 0\<rparr> else s)"

definition SetTransferLimit :: "nat \<Rightarrow> TcpSocket \<Rightarrow> TcpSocket" where
  "SetTransferLimit sz s = s\<lparr>ts_transfer_limit := sz\<rparr>"

section \<open>Buffering\<close>

text \<open>
  The loop of \<open>Buffer\<close> on the bytes not yet stored. \<open>alloc\<close> gives the contents of the memory of a new
  block, which the constructor leaves as they are.
\<close>

function Buffer_loop :: "(nat \<Rightarrow> string) \<Rightarrow> string \<Rightarrow> OUTPUT list \<Rightarrow> bool \<Rightarrow> exn + (OUTPUT list \<times> bool)" where
  "Buffer_loop alloc buf obuf has_top =
     (if buf = [] then Inr (obuf, has_top)
      else if has_top \<and> obuf = [] then Inl (Undefined ''m_obuf_top dangles'')
      else if has_top \<and> 0 < OUTPUT_Space (last obuf) then
        let space = OUTPUT_Space (last obuf); sz = length buf; n = (if sz \<le> space then sz else space)
        in case OUTPUT_Add (take n buf) (last obuf) of
             Inl e \<Rightarrow> Inl e
           | Inr p \<Rightarrow> Buffer_loop alloc (drop n buf) (butlast obuf @ [p]) has_top
      else Buffer_loop alloc buf (obuf @ [OUTPUT_new (alloc (length buf))]) True)"
  by pat_completeness auto

termination
  by (relation "measure (\<lambda>(alloc, buf, obuf, has_top). 2 * length buf + (if has_top \<and> 0 < OUTPUT_Space (last obuf) then 0 else 1))")
    (auto simp: OUTPUT_Space_def OUTPUT_new_def TCP_OUTPUT_CAPACITY_def Let_def length_greater_0_conv [symmetric]
      simp del: length_greater_0_conv split: if_splits)

declare Buffer_loop.simps [simp del]

definition Buffer :: "(nat \<Rightarrow> string) \<Rightarrow> string \<Rightarrow> TcpSocket \<Rightarrow> exn + TcpSocket" where
  "Buffer alloc buf s =
     (let s1 = s\<lparr>ts_output_length := ts_output_length s + length buf\<rparr>
      in case Buffer_loop alloc buf (ts_obuf s1) (ts_obuf_top s1) of
           Inl e \<Rightarrow> Inl e
         | Inr (obuf, has_top) \<Rightarrow> Inr (s1\<lparr>ts_obuf := obuf, ts_obuf_top := has_top\<rparr>))"

section \<open>Sending\<close>

definition TryWrite :: "(string \<Rightarrow> 'k \<Rightarrow> int \<times> int \<times> 'k) \<Rightarrow> string \<Rightarrow> TcpSocket \<Rightarrow> 'k \<Rightarrow> int \<times> TcpSocket \<times> 'k" where
  "TryWrite send buf s k =
     (case send buf k of
        (n, err, k1) \<Rightarrow>
          if n = - 1 then
            (0,
             if err \<noteq> EWOULDBLOCK then
               SetLost ((SetCloseAndDelete True
                 (ts_log [Ev_LogError ''send'' err, Ev_OnDisconnect,
                          Ev_OnDisconnect_reason (TCP_DISCONNECT_WRITE + TCP_DISCONNECT_ERROR) err] s))
                 \<lparr>ts_flush_before_close := False\<rparr>)
             else s, k1)
          else if 0 < n then
            (n, s\<lparr>ts_bytes_sent := ts_bytes_sent s + of_int n, ts_monitor := map_option (\<lambda>m. m @ take (nat n) buf) (ts_monitor s)\<rparr>, k1)
          else (n, s, k1))"

text \<open>
  \<open>SendBuf\<close>. The length is passed to \<open>send\<close> as an \<open>int\<close>: more bytes than that holds would be a
  negative length.
\<close>

definition SendBuf ::
    "(string \<Rightarrow> 'k \<Rightarrow> int \<times> int \<times> 'k) \<Rightarrow> (nat \<Rightarrow> string) \<Rightarrow> string \<Rightarrow> TcpSocket \<Rightarrow> 'k \<Rightarrow> exn + (TcpSocket \<times> 'k)" where
  "SendBuf send alloc buf s k =
     (if \<not> Ready s \<and> \<not> Connecting s then
        Inr (ts_log ([Ev_LogError ''SendBuf'' (- 1)] @
               (if ts_socket s = INVALID_SOCKET then [Ev_LogError ''SendBuf'' 0] else []) @
               (if ts_close s then [Ev_LogError ''SendBuf'' 0] else [])) s, k)
      else if \<not> ts_connected s then
        (case Buffer alloc buf (ts_log [Ev_LogError ''SendBuf'' (- 1)] s) of Inl e \<Rightarrow> Inl e | Inr s1 \<Rightarrow> Inr (s1, k))
      else if ts_obuf_top s then
        (case Buffer alloc buf s of Inl e \<Rightarrow> Inl e | Inr s1 \<Rightarrow> Inr (s1, k))
      else if 2 ^ 31 \<le> length buf then Inl (Undefined ''send with a negative length'')
      else
        (case TryWrite send buf s k of
           (n, s1, k1) \<Rightarrow>
             if 0 \<le> n \<and> n < int (length buf) then
               (case Buffer alloc (drop (nat n) buf) s1 of Inl e \<Rightarrow> Inl e | Inr s2 \<Rightarrow> Inr (check_output s2, k1))
             else Inr (check_output s1, k1)))"

definition Send ::
    "(string \<Rightarrow> 'k \<Rightarrow> int \<times> int \<times> 'k) \<Rightarrow> (nat \<Rightarrow> string) \<Rightarrow> string \<Rightarrow> TcpSocket \<Rightarrow> 'k \<Rightarrow> exn + (TcpSocket \<times> 'k)" where
  "Send send alloc str s k = SendBuf send alloc str s k"

text \<open>The loop of \<open>OnWrite\<close>: one block after the other, as long as they are sent as a whole.\<close>

function OnWrite_loop :: "(string \<Rightarrow> 'k \<Rightarrow> int \<times> int \<times> 'k) \<Rightarrow> TcpSocket \<Rightarrow> 'k \<Rightarrow> TcpSocket \<times> 'k" where
  "OnWrite_loop send s k =
     (case ts_obuf s of
        [] \<Rightarrow> (ts_log [Ev_LogError ''OnWrite'' (int (ts_output_length s))] s, k)
      | p # ps \<Rightarrow>
          (case TryWrite send (take (OUTPUT_Len p) (OUTPUT_Buf p)) s k of
             (n, s1, k1) \<Rightarrow>
               if 0 < n then
                 (case OUTPUT_Remove (nat n) p of
                    (left, p1) \<Rightarrow>
                      let s2 = s1\<lparr>ts_output_length := ts_output_length s1 - nat n\<rparr>
                      in if left = 0 then
                           let s3 = s2\<lparr>ts_obuf := ps\<rparr>
                           in if ps = [] then (ts_log [Ev_OnWriteComplete] (s3\<lparr>ts_obuf_top := False\<rparr>), k1)
                              else OnWrite_loop send s3 k1
                         else (s2\<lparr>ts_obuf := p1 # ps\<rparr>, k1))
               else (s1, k1)))"
  by pat_completeness auto

termination
  by (relation "measure (\<lambda>(send, s, k). length (ts_obuf s))") auto

declare OnWrite_loop.simps [simp del]

text \<open>
  \<open>OnWrite\<close>; \<open>err\<close> is what \<open>SoError\<close> finds while the socket is connecting.
\<close>

definition OnWrite :: "(string \<Rightarrow> 'k \<Rightarrow> int \<times> int \<times> 'k) \<Rightarrow> int \<Rightarrow> TcpSocket \<Rightarrow> 'k \<Rightarrow> TcpSocket \<times> 'k" where
  "OnWrite send err s k =
     (if Connecting s then
        if err = 0 then ((SetConnecting False (Handler_Set (\<not> ts_disable_read s) False s))\<lparr>ts_call_on_connect := True\<rparr>, k)
        else
          let s1 = Handler_Set False False (ts_log [Ev_LogError ''tcp: connect failed'' err] s)
          in if ts_connection_retry s1 = - 1 \<or> ts_connection_retry s1 \<noteq> 0 \<and> ts_retries s1 < ts_connection_retry s1 then (s1, k)
             else (ts_log [Ev_OnConnectFailed] (SetCloseAndDelete True (SetConnecting False s1)), k)
      else
        let sz = (if ts_transfer_limit s \<noteq> 0 then GetOutputLength s else 0)
        in case OnWrite_loop send s k of
             (s1, k1) \<Rightarrow>
               let s2 = (if ts_transfer_limit s1 \<noteq> 0 \<and> ts_transfer_limit s1 < sz \<and> GetOutputLength s1 < ts_transfer_limit s1
                         then ts_log [Ev_OnTransferLimit] s1 else s1)
               in (check_output s2, k1))"

text \<open>What \<open>SocketHandler::Select\<close> does with a socket on its list of those just connected.\<close>

definition CallOnConnect :: "(string \<Rightarrow> 'k \<Rightarrow> int \<times> int \<times> 'k) \<Rightarrow> TcpSocket \<Rightarrow> 'k \<Rightarrow> TcpSocket \<times> 'k" where
  "CallOnConnect send s k =
     (let s1 = s\<lparr>ts_connected := True\<rparr>
      in case if GetOutputLength s1 \<noteq> 0 then OnWrite send 0 s1 k else (s1, k) of
           (s2, k1) \<Rightarrow> ((ts_log [Ev_OnConnect] s2)\<lparr>ts_call_on_connect := False\<rparr>, k1))"

text \<open>What \<open>SocketHandler::Select\<close> does with a socket that was added: the bits it starts with.\<close>

definition Handler_added :: "TcpSocket \<Rightarrow> TcpSocket" where
  "Handler_added s =
     (if \<not> ts_close s then
        if Connecting s then Handler_Set False True s
        else Handler_Set (\<not> ts_disable_read s) (GetOutputLength s \<noteq> 0) s
      else ts_log [Ev_LogError ''Add'' (ts_socket s)] s)"


section \<open>The bytes that wait\<close>

definition obuf_bytes :: "OUTPUT list \<Rightarrow> string" where
  "obuf_bytes ps = concat (map out_bytes ps)"

definition ts_pending :: "TcpSocket \<Rightarrow> string" where
  "ts_pending s = obuf_bytes (ts_obuf s)"

definition obuf_inv :: "OUTPUT list \<Rightarrow> bool \<Rightarrow> bool" where
  "obuf_inv ps has_top \<longleftrightarrow> list_all (\<lambda>p. out_inv p \<and> 0 < out_q p) ps \<and> (has_top \<longleftrightarrow> ps \<noteq> [])"

text \<open>
  The invariant: no block is empty or overrun, the length kept is that of the bytes that wait, and when
  bytes wait on a connected socket the handler is told to write.
\<close>

definition ts_core :: "TcpSocket \<Rightarrow> bool" where
  "ts_core s \<longleftrightarrow>
     obuf_inv (ts_obuf s) (ts_obuf_top s) \<and> ts_output_length s = length (ts_pending s) \<and> 0 \<le> ts_socket s \<and>
     \<not> (ts_connecting s \<and> (ts_connected s \<or> ts_call_on_connect s))"

definition ts_inv :: "TcpSocket \<Rightarrow> bool" where
  "ts_inv s \<longleftrightarrow> ts_core s \<and> (ts_connected s \<and> ts_obuf s \<noteq> [] \<longrightarrow> ts_wfds s)"

lemma obuf_bytes_simps [simp]:
  "obuf_bytes [] = []" "obuf_bytes (p # ps) = out_bytes p @ obuf_bytes ps" "obuf_bytes (ps @ qs) = obuf_bytes ps @ obuf_bytes qs"
  by (simp_all add: obuf_bytes_def)

lemma obuf_bytes_last: "ps \<noteq> [] \<Longrightarrow> obuf_bytes ps = obuf_bytes (butlast ps) @ out_bytes (last ps)"
  using append_butlast_last_id [of ps] obuf_bytes_simps(3) [of "butlast ps" "[last ps]"] by simp

lemma obuf_bytes_empty: "obuf_inv ps has_top \<Longrightarrow> obuf_bytes ps = [] \<longleftrightarrow> ps = []"
proof (cases ps)
  case (Cons p qs)
  assume "obuf_inv ps has_top"
  then have "length (out_bytes p) = out_q p" "0 < out_q p" using Cons by (simp_all add: obuf_inv_def)
  then show ?thesis using Cons by auto
qed simp

lemma Buffer_loop_bytes:
  assumes "\<And>n. length (alloc n) = TCP_OUTPUT_CAPACITY"
    and "list_all out_inv obuf" and "list_all (\<lambda>p. 0 < out_q p) (butlast obuf)"
    and "has_top \<longleftrightarrow> obuf \<noteq> []"
    and "obuf \<noteq> [] \<Longrightarrow> 0 < out_q (last obuf) \<or> buf \<noteq> [] \<and> 0 < OUTPUT_Space (last obuf)"
  shows "\<exists>obuf1 has_top1. Buffer_loop alloc buf obuf has_top = Inr (obuf1, has_top1) \<and> obuf_inv obuf1 has_top1 \<and>
    obuf_bytes obuf1 = obuf_bytes obuf @ buf"
  using assms
proof (induction alloc buf obuf has_top rule: Buffer_loop.induct)
  case (1 alloc buf obuf has_top)
  show ?case
  proof (cases "buf = []")
    case True
    have "list_all (\<lambda>p. out_inv p \<and> 0 < out_q p) obuf"
      using "1.prems" True by (cases obuf rule: rev_cases) (auto simp: list_all_iff)
    then show ?thesis using True "1.prems"(4) by (simp add: Buffer_loop.simps [of alloc "[]"] obuf_inv_def)
  next
    case buf: False
    show ?thesis
    proof (cases "has_top \<and> 0 < OUTPUT_Space (last obuf)")
      case True
      then obtain ps p where o: "obuf = ps @ [p]" using "1.prems"(4) by (cases obuf rule: rev_cases) auto
      define n where "n = (if length buf \<le> OUTPUT_Space p then length buf else OUTPUT_Space p)"
      have n: "n \<le> OUTPUT_Space p" "0 < n" "n \<le> length buf" using True buf o by (auto simp: n_def)
      have inv: "out_inv p" using "1.prems"(2) o by simp
      then obtain q where q: "OUTPUT_Add (take n buf) p = Inr q" "out_inv q" "out_bytes q = out_bytes p @ take n buf"
        using out_Add [of p "take n buf"] n by auto
      have "0 < out_q q" using length_out_bytes [OF q(2)] q(3) n buf by simp
      then have "\<exists>obuf1 has_top1. Buffer_loop alloc (drop n buf) (ps @ [q]) True = Inr (obuf1, has_top1) \<and> obuf_inv obuf1 has_top1 \<and>
          obuf_bytes obuf1 = obuf_bytes (ps @ [q]) @ drop n buf"
        using "1.IH"(1) [OF buf _ True refl refl, of n q] "1.prems" q o True n_def by auto
      then show ?thesis
        using buf True o q n_def by (simp add: Buffer_loop.simps [of alloc buf] Let_def)
    next
      case False
      let ?new = "OUTPUT_new (alloc (length buf))"
      have "0 < OUTPUT_Space ?new" by (simp add: OUTPUT_Space_def OUTPUT_new_def TCP_OUTPUT_CAPACITY_def)
      moreover have "list_all (\<lambda>p. 0 < out_q p) obuf"
        using "1.prems"(3-5) False by (cases obuf rule: rev_cases) auto
      ultimately have "\<exists>obuf1 has_top1. Buffer_loop alloc buf (obuf @ [?new]) True = Inr (obuf1, has_top1) \<and> obuf_inv obuf1 has_top1 \<and>
          obuf_bytes obuf1 = obuf_bytes (obuf @ [?new]) @ buf"
        using "1.IH"(2) [OF buf _ False] "1.prems" buf out_new_inv [of "alloc (length buf)"] by auto
      then show ?thesis
        using buf False "1.prems"(4) by (auto simp: Buffer_loop.simps [of alloc buf obuf])
    qed
  qed
qed


lemma Buffer_bytes:
  assumes "\<And>n. length (alloc n) = TCP_OUTPUT_CAPACITY" and "obuf_inv (ts_obuf s) (ts_obuf_top s)"
  shows "\<exists>obuf1 has_top1. Buffer alloc buf s =
      Inr (s\<lparr>ts_output_length := ts_output_length s + length buf, ts_obuf := obuf1, ts_obuf_top := has_top1\<rparr>) \<and>
    obuf_inv obuf1 has_top1 \<and> obuf_bytes obuf1 = ts_pending s @ buf"
proof -
  have "0 < out_q (last (ts_obuf s))" if "ts_obuf s \<noteq> []"
    using assms(2) that last_in_set [of "ts_obuf s"] by (auto simp: obuf_inv_def list_all_iff)
  then obtain obuf1 has_top1 where
    "Buffer_loop alloc buf (ts_obuf s) (ts_obuf_top s) = Inr (obuf1, has_top1)" "obuf_inv obuf1 has_top1"
    "obuf_bytes obuf1 = obuf_bytes (ts_obuf s) @ buf"
    using Buffer_loop_bytes [of alloc "ts_obuf s" "ts_obuf_top s" buf] assms
    by (auto simp: obuf_inv_def list_all_iff dest: in_set_butlastD)
  then have "Buffer alloc buf s =
      Inr (s\<lparr>ts_output_length := ts_output_length s + length buf, ts_obuf := obuf1, ts_obuf_top := has_top1\<rparr>) \<and>
    obuf_inv obuf1 has_top1 \<and> obuf_bytes obuf1 = ts_pending s @ buf"
    by (simp add: Buffer_def Let_def ts_pending_def)
  then show ?thesis by blast
qed

subsection \<open>What is relied on of send\<close>

text \<open>
  \<open>send\<close> takes at most the bytes it is given, and those it takes are the next that the peer receives.
\<close>

definition send_ok :: "(string \<Rightarrow> 'k \<Rightarrow> int \<times> int \<times> 'k) \<Rightarrow> ('k \<Rightarrow> string) \<Rightarrow> bool" where
  "send_ok send recv \<longleftrightarrow>
     (\<forall>data k n err k1. send data k = (n, err, k1) \<longrightarrow>
        - 1 \<le> n \<and> n \<le> int (length data) \<and> recv k1 = recv k @ take (nat n) data)"

definition same_io :: "TcpSocket \<Rightarrow> TcpSocket \<Rightarrow> bool" where
  "same_io s t \<longleftrightarrow>
     ts_socket t = ts_socket s \<and> ts_connected t = ts_connected s \<and> ts_connecting t = ts_connecting s \<and>
     ts_call_on_connect t = ts_call_on_connect s \<and> ts_wfds t = ts_wfds s"

text \<open>What the peer has only grows.\<close>

definition grown :: "('k \<Rightarrow> string) \<Rightarrow> 'k \<Rightarrow> 'k \<Rightarrow> bool" where
  "grown recv k k1 \<longleftrightarrow> (\<exists>out. recv k1 = recv k @ out)"

lemma grown_refl [simp, intro]: "grown recv k k"
  by (simp add: grown_def)

lemma grown_trans: "grown recv k k1 \<Longrightarrow> grown recv k1 k2 \<Longrightarrow> grown recv k k2"
  by (auto simp: grown_def)

lemma grown_taken:
  assumes "grown recv k k1" and "recv k @ p = recv k1 @ p1"
  shows "p = drop (length (recv k)) (recv k1) @ p1"
  using assms by (auto simp: grown_def)

lemmas tcp_state_defs =
  ts_log_def SetLost_def SetCloseAndDelete_def SetConnecting_def Handler_Set_def check_output_def

lemma TryWrite_taken:
  assumes "send_ok send recv" and "TryWrite send buf s k = (n, s1, k1)"
  shows "0 \<le> n \<and> n \<le> int (length buf) \<and> recv k1 = recv k @ take (nat n) buf \<and> same_io s s1 \<and>
    ts_obuf s1 = ts_obuf s \<and> ts_obuf_top s1 = ts_obuf_top s \<and> ts_output_length s1 = ts_output_length s"
proof -
  obtain m err k2 where r: "send buf k = (m, err, k2)" by (cases "send buf k") auto
  then have m: "- 1 \<le> m" "m \<le> int (length buf)" "recv k2 = recv k @ take (nat m) buf"
    using assms(1) unfolding send_ok_def by blast+
  show ?thesis
  proof (cases "m = - 1")
    case True
    then show ?thesis using assms(2) m r by (auto simp: TryWrite_def same_io_def tcp_state_defs split: if_splits)
  next
    case False
    then show ?thesis using assms(2) m r by (auto simp: TryWrite_def same_io_def split: if_splits)
  qed
qed

lemma OnWrite_loop_order:
  assumes "send_ok send recv" and "obuf_inv (ts_obuf s) (ts_obuf_top s)" and "ts_output_length s = length (ts_pending s)"
    and "OnWrite_loop send s k = (s1, k1)"
  shows "obuf_inv (ts_obuf s1) (ts_obuf_top s1) \<and> ts_output_length s1 = length (ts_pending s1) \<and> same_io s s1 \<and>
    grown recv k k1 \<and> recv k @ ts_pending s = recv k1 @ ts_pending s1"
  using assms
proof (induction send s k arbitrary: s1 k1 rule: OnWrite_loop.induct)
  case (1 send s k)
  show ?case
  proof (cases "ts_obuf s")
    case Nil
    then show ?thesis
      using "1.prems" by (auto simp: OnWrite_loop.simps [of send s] ts_pending_def same_io_def ts_log_def)
  next
    case (Cons p ps)
    obtain n t k2 where w: "TryWrite send (take (OUTPUT_Len p) (OUTPUT_Buf p)) s k = (n, t, k2)"
      by (cases "TryWrite send (take (OUTPUT_Len p) (OUTPUT_Buf p)) s k") auto
    have p: "out_inv p" "0 < out_q p" using "1.prems"(2) Cons by (simp_all add: obuf_inv_def)
    have b: "take (OUTPUT_Len p) (OUTPUT_Buf p) = out_bytes p" by (simp add: out_bytes_def)
    note tw = TryWrite_taken [OF "1.prems"(1) w, unfolded b]
    have gr: "grown recv k k2" using tw by (simp add: grown_def)
    have nq: "nat n \<le> out_q p" using tw p(1) by (simp add: nat_le_iff)
    note rm = out_Remove [OF p(1) nq]
    show ?thesis
    proof (cases "0 < n")
      case False
      then have "n = 0" using tw by simp
      then show ?thesis
        using "1.prems" w tw gr Cons False by (auto simp: OnWrite_loop.simps [of send s] ts_pending_def)
    next
      case n: True
      define s2 where "s2 = t\<lparr>ts_output_length := ts_output_length t - nat n\<rparr>"
      have len: "ts_output_length s2 = length (drop (nat n) (out_bytes p)) + length (obuf_bytes ps)"
        using tw "1.prems"(3) Cons p nq by (simp add: s2_def ts_pending_def)
      show ?thesis
      proof (cases "nat n = out_q p")
        case False
        then have "OnWrite_loop send s k = (s2\<lparr>ts_obuf := snd (OUTPUT_Remove (nat n) p) # ps\<rparr>, k2)"
          using w n Cons nq by (simp add: OnWrite_loop.simps [of send s] s2_def OUTPUT_Remove_def)
        moreover have "0 < out_q (snd (OUTPUT_Remove (nat n) p))" using nq False by (simp add: OUTPUT_Remove_def)
        ultimately show ?thesis
          using "1.prems" rm tw gr len Cons by (auto simp: obuf_inv_def ts_pending_def s2_def same_io_def)
      next
        case True
        define s3 where "s3 = s2\<lparr>ts_obuf := ps\<rparr>"
        have all: "recv k2 = recv k @ out_bytes p" using tw True p by simp
        have l3: "ts_output_length s3 = length (ts_pending s3)"
          using len True p by (simp add: s3_def ts_pending_def)
        show ?thesis
        proof (cases "ps = []")
          case True
          then have "OnWrite_loop send s k = (ts_log [Ev_OnWriteComplete] (s3\<lparr>ts_obuf_top := False\<rparr>), k2)"
            using w n Cons \<open>nat n = out_q p\<close> by (simp add: OnWrite_loop.simps [of send s] s2_def s3_def OUTPUT_Remove_def)
          then show ?thesis
            using "1.prems" tw gr all l3 Cons True by (auto simp: obuf_inv_def ts_pending_def s2_def s3_def same_io_def ts_log_def)
        next
          case False
          have r: "OnWrite_loop send s k = OnWrite_loop send s3 k2"
            using w n Cons False \<open>nat n = out_q p\<close> by (simp add: OnWrite_loop.simps [of send s] s2_def s3_def OUTPUT_Remove_def)
          have rq: "(0, snd (OUTPUT_Remove (nat n) p)) = OUTPUT_Remove (nat n) p"
            using \<open>nat n = out_q p\<close> by (simp add: OUTPUT_Remove_def)
          have "obuf_inv (ts_obuf s3) (ts_obuf_top s3)"
            using "1.prems"(2) tw Cons False by (simp add: obuf_inv_def s2_def s3_def)
          moreover have "OnWrite_loop send s3 k2 = (s1, k1)" using r "1.prems"(4) by simp
          ultimately have "obuf_inv (ts_obuf s1) (ts_obuf_top s1) \<and> ts_output_length s1 = length (ts_pending s1) \<and> same_io s3 s1 \<and>
              grown recv k2 k1 \<and> recv k2 @ ts_pending s3 = recv k1 @ ts_pending s1"
            using "1.IH" [OF Cons w [symmetric] refl n rq s2_def refl s3_def False "1.prems"(1)] l3 by blast
          then show ?thesis
            using tw all Cons grown_trans [OF gr] by (auto simp: s2_def s3_def same_io_def ts_pending_def)
        qed
      qed
    qed
  qed
qed


subsection \<open>The operations keep the order\<close>

lemma check_output_pending [simp]: "ts_pending (check_output s) = ts_pending s"
  by (simp add: check_output_def Handler_Set_def ts_pending_def)

lemma ts_log_pending [simp]: "ts_pending (ts_log es s) = ts_pending s"
  by (simp add: ts_log_def ts_pending_def)

lemma ts_log_core [simp]: "ts_core (ts_log es s) = ts_core s"
  by (simp add: ts_core_def ts_log_def ts_pending_def)

lemma ts_log_inv [simp]: "ts_inv (ts_log es s) = ts_inv s"
  by (simp add: ts_inv_def) (simp add: ts_log_def)

lemma check_output_inv: "ts_core s \<Longrightarrow> ts_inv (check_output s)"
  by (simp add: ts_inv_def ts_core_def check_output_def Handler_Set_def ts_pending_def)

lemma ts_coreD:
  assumes "ts_core s"
  shows "obuf_inv (ts_obuf s) (ts_obuf_top s)" "ts_output_length s = length (ts_pending s)" "0 \<le> ts_socket s"
    "\<not> (ts_connecting s \<and> (ts_connected s \<or> ts_call_on_connect s))"
  using assms by (simp_all add: ts_core_def)

lemma same_io_core:
  "ts_core s \<Longrightarrow> same_io s t \<Longrightarrow> obuf_inv (ts_obuf t) (ts_obuf_top t) \<Longrightarrow> ts_output_length t = length (ts_pending t) \<Longrightarrow> ts_core t"
  by (simp add: ts_core_def same_io_def)

lemma Buffer_core:
  assumes "\<And>n. length (alloc n) = TCP_OUTPUT_CAPACITY" and "ts_core s"
  shows "\<exists>s1. Buffer alloc buf s = Inr s1 \<and> ts_core s1 \<and> same_io s s1 \<and> ts_pending s1 = ts_pending s @ buf"
proof -
  note c = ts_coreD [OF assms(2)]
  obtain obuf1 has_top1 where
    b: "Buffer alloc buf s =
      Inr (s\<lparr>ts_output_length := ts_output_length s + length buf, ts_obuf := obuf1, ts_obuf_top := has_top1\<rparr>)"
    and i: "obuf_inv obuf1 has_top1" "obuf_bytes obuf1 = ts_pending s @ buf"
    using Buffer_bytes [of alloc s buf, OF assms(1) c(1)] by blast
  let ?s = "s\<lparr>ts_output_length := ts_output_length s + length buf, ts_obuf := obuf1, ts_obuf_top := has_top1\<rparr>"
  have "ts_pending ?s = ts_pending s @ buf" using i by (simp add: ts_pending_def)
  moreover have "same_io s ?s" by (simp add: same_io_def)
  moreover have "ts_core ?s" using c i by (simp add: ts_core_def ts_pending_def)
  ultimately show ?thesis using b by blast
qed

lemma same_io_inv:
  "same_io s t \<Longrightarrow> ts_core t \<Longrightarrow> ts_wfds s \<or> \<not> ts_connected s \<Longrightarrow> ts_inv t"
  by (auto simp: ts_inv_def same_io_def)

lemma SendBuf_order:
  assumes send: "send_ok send recv" and s: "ts_inv s" and alloc: "\<And>n. length (alloc n) = TCP_OUTPUT_CAPACITY"
    and len: "length buf < 2 ^ 31"
  shows "\<exists>s1 k1. SendBuf send alloc buf s k = Inr (s1, k1) \<and> ts_inv s1 \<and> grown recv k k1 \<and>
    recv k @ ts_pending s @ (if Ready s \<or> Connecting s then buf else []) = recv k1 @ ts_pending s1"
proof -
  have c: "ts_core s" using s by (simp add: ts_inv_def)
  consider (closed) "\<not> Ready s \<and> \<not> Connecting s"
    | (unconnected) "Ready s \<or> Connecting s" "\<not> ts_connected s"
    | (waiting) "Ready s \<or> Connecting s" "ts_connected s" "ts_obuf_top s"
    | (direct) "Ready s \<or> Connecting s" "ts_connected s" "\<not> ts_obuf_top s"
    by blast
  then show ?thesis
  proof cases
    case closed
    then show ?thesis using s by (simp add: SendBuf_def)
  next
    case unconnected
    let ?s = "ts_log [Ev_LogError ''SendBuf'' (- 1)] s"
    have "ts_core ?s" using c by simp
    from Buffer_core [of alloc ?s buf, OF alloc this] obtain s1 where
      b: "Buffer alloc buf ?s = Inr s1" "ts_core s1" "same_io ?s s1" "ts_pending s1 = ts_pending s @ buf" by auto
    have "ts_inv s1" using b(2,3) unconnected by (auto intro: same_io_inv simp: ts_log_def)
    then show ?thesis using unconnected b by (auto simp: SendBuf_def)
  next
    case waiting
    from Buffer_core [of alloc s buf, OF alloc c] obtain s1 where
      b: "Buffer alloc buf s = Inr s1" "ts_core s1" "same_io s s1" "ts_pending s1 = ts_pending s @ buf" by blast
    have "ts_wfds s" using s waiting ts_coreD(1) [OF c] by (auto simp: ts_inv_def obuf_inv_def)
    then have "ts_inv s1" using b(2,3) by (auto intro: same_io_inv)
    then show ?thesis using waiting b by (auto simp: SendBuf_def)
  next
    case direct
    obtain n t k1 where w: "TryWrite send buf s k = (n, t, k1)" by (cases "TryWrite send buf s k") auto
    note tw = TryWrite_taken [OF send w]
    then have gr: "grown recv k k1" by (simp add: grown_def)
    have none: "ts_pending s = []" "ts_pending t = []"
      using direct tw ts_coreD(1) [OF c] by (simp_all add: obuf_inv_def ts_pending_def)
    have t: "ts_core t"
      using tw none ts_coreD [OF c] by (intro same_io_core [OF c]) simp_all
    show ?thesis
    proof (cases "n < int (length buf)")
      case True
      from Buffer_core [of alloc t "drop (nat n) buf", OF alloc t] obtain t1 where
        b: "Buffer alloc (drop (nat n) buf) t = Inr t1" "ts_core t1" "ts_pending t1 = drop (nat n) buf"
        using none by auto
      have "SendBuf send alloc buf s k = Inr (check_output t1, k1)"
        using direct w tw True len b by (auto simp: SendBuf_def)
      then show ?thesis using tw gr none direct b check_output_inv by auto
    next
      case False
      then have "SendBuf send alloc buf s k = Inr (check_output t, k1)" using direct w len by (auto simp: SendBuf_def)
      then show ?thesis using tw gr none direct t False check_output_inv by auto
    qed
  qed
qed

lemma OnWrite_order:
  assumes send: "send_ok send recv" and s: "ts_core s" and w: "OnWrite send err s k = (s1, k1)"
  shows "ts_inv s1 \<and> grown recv k k1 \<and> recv k @ ts_pending s = recv k1 @ ts_pending s1"
proof (cases "Connecting s")
  case True
  then have "ts_connecting s" "\<not> ts_connected s" "\<not> ts_call_on_connect s"
    using ts_coreD(4) [OF s] by (auto simp: Connecting_def)
  then show ?thesis
    using w s True by (auto simp: OnWrite_def ts_inv_def ts_core_def ts_pending_def tcp_state_defs Let_def split: if_splits)
next
  case False
  obtain t k2 where l: "OnWrite_loop send s k = (t, k2)" by (cases "OnWrite_loop send s k") auto
  note ol = OnWrite_loop_order [OF send ts_coreD(1,2) [OF s] l]
  then have t: "ts_core t" using same_io_core [OF s] by blast
  have "s1 = check_output t \<or> s1 = check_output (ts_log [Ev_OnTransferLimit] t)" "k1 = k2"
    using w l False by (auto simp: OnWrite_def Let_def split: if_splits)
  then show ?thesis
    using ol t check_output_inv [of t] check_output_inv [of "ts_log [Ev_OnTransferLimit] t"] by auto
qed

lemma CallOnConnect_order:
  assumes send: "send_ok send recv" and s: "ts_inv s" and call: "ts_call_on_connect s" and c: "CallOnConnect send s k = (s1, k1)"
  shows "ts_inv s1 \<and> grown recv k k1 \<and> recv k @ ts_pending s = recv k1 @ ts_pending s1"
proof -
  let ?s = "s\<lparr>ts_connected := True\<rparr>"
  have core: "ts_core ?s" using s call by (simp add: ts_inv_def ts_core_def ts_pending_def)
  have cleared: "ts_inv (t\<lparr>ts_call_on_connect := False\<rparr>)" if "ts_inv t" for t
    using that by (auto simp: ts_inv_def ts_core_def ts_pending_def)
  show ?thesis
  proof (cases "ts_output_length s = 0")
    case True
    then have "ts_obuf s = []"
      using ts_coreD(1,2) [OF core] obuf_bytes_empty by (auto simp: ts_pending_def)
    then have "ts_inv ?s" using core by (simp add: ts_inv_def)
    then have "ts_inv ((ts_log [Ev_OnConnect] ?s)\<lparr>ts_call_on_connect := False\<rparr>)" by (intro cleared) simp
    then show ?thesis
      using c True by (auto simp: CallOnConnect_def GetOutputLength_def ts_pending_def ts_log_def)
  next
    case False
    obtain t k2 where w: "OnWrite send 0 ?s k = (t, k2)" by (cases "OnWrite send 0 ?s k") auto
    note ow = OnWrite_order [OF send core w]
    then have "ts_inv ((ts_log [Ev_OnConnect] t)\<lparr>ts_call_on_connect := False\<rparr>)" by (intro cleared) simp
    moreover have "s1 = (ts_log [Ev_OnConnect] t)\<lparr>ts_call_on_connect := False\<rparr>" "k1 = k2"
      using c w False by (auto simp: CallOnConnect_def GetOutputLength_def)
    ultimately show ?thesis using ow by (simp add: ts_pending_def ts_log_def)
  qed
qed

lemma Handler_added_inv:
  assumes "ts_inv s"
  shows "ts_inv (Handler_added s) \<and> ts_pending (Handler_added s) = ts_pending s"
proof -
  have "ts_core s" using assms by (simp add: ts_inv_def)
  then have "ts_obuf s \<noteq> [] \<longrightarrow> ts_output_length s \<noteq> 0" "ts_connecting s \<longrightarrow> \<not> ts_connected s"
    using ts_coreD(1,2,4) [of s] obuf_bytes_empty by (auto simp: ts_pending_def)
  then show ?thesis
    using assms
    by (auto simp: Handler_added_def ts_inv_def ts_core_def ts_pending_def Handler_Set_def Connecting_def GetOutputLength_def ts_log_def)
qed

section \<open>The output is a channel\<close>

text \<open>
  What can happen to a socket, in any order: data is sent, the handler finds it writable (with the error
  found while it connects), has it on its list of those just connected, or adds it; the counter and
  the limit are read and set at any time.
\<close>

datatype tcp_op =
    TS_Send "nat \<Rightarrow> string" string
  | TS_OnWrite int
  | TS_Connected
  | TS_Added
  | TS_GetBytesSent bool
  | TS_SetTransferLimit nat

fun tcp_op_ok :: "tcp_op \<Rightarrow> bool" where
  "tcp_op_ok (TS_Send alloc buf) \<longleftrightarrow> (\<forall>n. length (alloc n) = TCP_OUTPUT_CAPACITY) \<and> length buf < 2 ^ 31"
| "tcp_op_ok _ \<longleftrightarrow> True"

text \<open>What the peer got in a step is the difference between what it had before and after.\<close>

fun tcp_step ::
    "(string \<Rightarrow> 'k \<Rightarrow> int \<times> int \<times> 'k) \<Rightarrow> ('k \<Rightarrow> string) \<Rightarrow> tcp_op \<Rightarrow> TcpSocket \<times> 'k \<Rightarrow> exn + (string \<times> string \<times> TcpSocket \<times> 'k)" where
  "tcp_step send recv (TS_Send alloc buf) (s, k) =
     (case Send send alloc buf s k of
        Inl e \<Rightarrow> Inl e
      | Inr (s1, k1) \<Rightarrow> Inr (if Ready s \<or> Connecting s then buf else [], drop (length (recv k)) (recv k1), s1, k1))"
| "tcp_step send recv (TS_OnWrite err) (s, k) =
     (case OnWrite send err s k of (s1, k1) \<Rightarrow> Inr ([], drop (length (recv k)) (recv k1), s1, k1))"
| "tcp_step send recv TS_Connected (s, k) =
     (case if ts_call_on_connect s then CallOnConnect send s k else (s, k) of
        (s1, k1) \<Rightarrow> Inr ([], drop (length (recv k)) (recv k1), s1, k1))"
| "tcp_step send recv TS_Added (s, k) = Inr ([], [], Handler_added s, k)"
| "tcp_step send recv (TS_GetBytesSent clear) (s, k) = Inr ([], [], snd (GetBytesSent clear s), k)"
| "tcp_step send recv (TS_SetTransferLimit sz) (s, k) = Inr ([], [], SetTransferLimit sz s, k)"


lemma tcp_step_law:
  assumes send: "send_ok send recv" and s: "ts_inv s" and x: "tcp_op_ok x"
  shows "\<exists>i out s1 k1. tcp_step send recv x (s, k) = Inr (i, out, s1, k1) \<and> ts_inv s1 \<and> recv k1 = recv k @ out \<and>
    ts_pending s @ i = out @ ts_pending s1"
proof (cases x)
  case (TS_Send alloc buf)
  then obtain s1 k1 where r: "SendBuf send alloc buf s k = Inr (s1, k1)" "ts_inv s1" "grown recv k k1"
      "recv k @ ts_pending s @ (if Ready s \<or> Connecting s then buf else []) = recv k1 @ ts_pending s1"
    using SendBuf_order [OF send s, of alloc buf k] x by auto
  then show ?thesis using TS_Send grown_taken [OF r(3,4)] by (auto simp: Send_def grown_def)
next
  case (TS_OnWrite err)
  obtain s1 k1 where w: "OnWrite send err s k = (s1, k1)" by (cases "OnWrite send err s k") auto
  from OnWrite_order [OF send _ w] s have r: "ts_inv s1" "grown recv k k1" "recv k @ ts_pending s = recv k1 @ ts_pending s1"
    by (simp_all add: ts_inv_def)
  then show ?thesis using TS_OnWrite w grown_taken [OF r(2,3)] by (auto simp: grown_def)
next
  case TS_Connected
  show ?thesis
  proof (cases "ts_call_on_connect s")
    case True
    obtain s1 k1 where c: "CallOnConnect send s k = (s1, k1)" by (cases "CallOnConnect send s k") auto
    note r = CallOnConnect_order [OF send s True c]
    then show ?thesis using TS_Connected True c grown_taken [of recv k k1] by (auto simp: grown_def)
  qed (use TS_Connected s in simp)
next
  case TS_Added
  then show ?thesis using Handler_added_inv [OF s] by simp
next
  case (TS_GetBytesSent clear)
  then show ?thesis using s by (simp add: GetBytesSent_def ts_inv_def ts_core_def ts_pending_def)
next
  case (TS_SetTransferLimit sz)
  then show ?thesis using s by (simp add: SetTransferLimit_def ts_inv_def ts_core_def ts_pending_def)
qed

lemma tcp_byte_channel:
  assumes "send_ok send recv"
  shows "byte_channel (tcp_step send recv) (\<lambda>(s, k). ts_inv s) (\<lambda>(s, k). ts_pending s) tcp_op_ok"
proof
  fix q :: "TcpSocket \<times> 'a" and x assume "case q of (s, k) \<Rightarrow> ts_inv s" "tcp_op_ok x"
  then show "\<exists>i out q1. tcp_step send recv x q = Inr (i, out, q1) \<and> (case q1 of (s, k) \<Rightarrow> ts_inv s) \<and>
      (case q of (s, k) \<Rightarrow> ts_pending s) @ i = out @ (case q1 of (s, k) \<Rightarrow> ts_pending s)"
    using tcp_step_law [OF assms, of "fst q" x "snd q"] by (auto simp: split_beta)
qed


text \<open>A peer that takes everything gets all that waits in one call.\<close>

lemma OnWrite_loop_drains:
  assumes "\<And>data k. fst (send data k) = int (length data)"
    and "obuf_inv (ts_obuf s) (ts_obuf_top s)"
  shows "ts_obuf (fst (OnWrite_loop send s k)) = []"
  using assms
proof (induction send s k rule: OnWrite_loop.induct)
  case (1 send s k)
  show ?case
  proof (cases "ts_obuf s")
    case Nil
    then show ?thesis by (simp add: OnWrite_loop.simps [of send s] ts_log_def)
  next
    case (Cons p ps)
    have p: "out_inv p" "0 < out_q p" using "1.prems"(2) Cons by (simp_all add: obuf_inv_def)
    obtain err k1 where snd: "send (out_bytes p) k = (int (out_q p), err, k1)"
      using "1.prems"(1) [of "out_bytes p" k] p by (cases "send (out_bytes p) k") auto
    define t where "t = s\<lparr>ts_bytes_sent := ts_bytes_sent s + of_int (int (out_q p)),
      ts_monitor := map_option (\<lambda>m. m @ take (nat (int (out_q p))) (out_bytes p)) (ts_monitor s)\<rparr>"
    have w: "TryWrite send (take (OUTPUT_Len p) (OUTPUT_Buf p)) s k = (int (out_q p), t, k1)"
      using snd p by (simp add: TryWrite_def t_def out_bytes_def)
    define s2 where "s2 = t\<lparr>ts_output_length := ts_output_length t - nat (int (out_q p))\<rparr>"
    define s3 where "s3 = s2\<lparr>ts_obuf := ps\<rparr>"
    have rq: "(0, snd (OUTPUT_Remove (nat (int (out_q p))) p)) = OUTPUT_Remove (nat (int (out_q p))) p"
      by (simp add: OUTPUT_Remove_def)
    show ?thesis
    proof (cases "ps = []")
      case True
      then show ?thesis
        using w Cons p by (simp add: OnWrite_loop.simps [of send s] OUTPUT_Remove_def ts_log_def)
    next
      case False
      have "OnWrite_loop send s k = OnWrite_loop send s3 k1"
        using w Cons p False by (simp add: OnWrite_loop.simps [of send s] OUTPUT_Remove_def s2_def s3_def)
      moreover have "obuf_inv (ts_obuf s3) (ts_obuf_top s3)"
        using "1.prems"(2) Cons False by (simp add: obuf_inv_def s3_def s2_def t_def)
      moreover have "0 < int (out_q p)" using p by simp
      ultimately show ?thesis
        using "1.IH" [OF Cons w [symmetric] refl _ rq s2_def refl s3_def False "1.prems"(1)] by simp
    qed
  qed
qed

text \<open>
  C35 (invariant). Output order of a TCP socket: whatever is sent to it and whatever the handler does with it, while it connects
  and after, over partial and refused writes, the bytes accepted are, in order and without loss, those
  the peer has received followed by those that wait. The length reported is that of the bytes that
  wait, and on a connected socket with bytes that wait the handler watches for the moment to write; if the peer then takes
  everything, nothing waits any more.
\<close>

theorem tcp_output_order:
  assumes "send_ok send recv" and "0 \<le> fd" and "list_all tcp_op_ok ops"
  shows "\<exists>ins outs s k1.
    channel_run (tcp_step send recv) ops
      ((TcpSocket_new mem c)\<lparr>ts_socket := fd, ts_connecting := b, ts_connected := \<not> b\<rparr>, k) = Inr (ins, outs, s, k1) \<and>
    recv k1 = recv k @ outs \<and> ins = outs @ ts_pending s \<and> GetOutputLength s = length (ts_pending s) \<and>
    (ts_connected s \<and> ts_pending s \<noteq> [] \<longrightarrow> ts_wfds s) \<and>
    (ts_connected s \<and> (\<forall>data k. fst (send data k) = int (length data)) \<longrightarrow> ts_pending (fst (OnWrite send 0 s k1)) = [])"
proof -
  let ?s = "(TcpSocket_new mem c)\<lparr>ts_socket := fd, ts_connecting := b, ts_connected := \<not> b\<rparr>"
  note ch = tcp_byte_channel [OF assms(1)]
  have inv: "ts_inv ?s" "ts_pending ?s = []"
    using assms(2) by (simp_all add: ts_inv_def ts_core_def ts_pending_def obuf_inv_def TcpSocket_new_def)
  then obtain ins outs s k1 where r: "channel_run (tcp_step send recv) ops (?s, k) = Inr (ins, outs, s, k1)"
      and s: "ts_inv s" "ins = outs @ ts_pending s"
    using byte_channel.run_fifo [OF ch, of "(?s, k)" ops] assms(3) by auto
  have obs: "recv (snd q1) = recv (snd q) @ out"
    if "case q of (s, k) \<Rightarrow> ts_inv s" "tcp_op_ok x" "tcp_step send recv x q = Inr (i, out, q1)" for q x i out q1
    using tcp_step_law [OF assms(1), of "fst q" x "snd q"] that by (cases q) auto
  have "recv k1 = recv k @ outs"
    using byte_channel.run_observed [OF ch, of "\<lambda>q. recv (snd q)" "(?s, k)" ops] obs r assms(3) inv by auto
  moreover have core: "ts_core s" using s by (simp add: ts_inv_def)
  moreover have "ts_connected s \<and> ts_pending s \<noteq> [] \<longrightarrow> ts_wfds s"
    using s(1) by (auto simp: ts_inv_def ts_pending_def)
  moreover have "ts_pending (fst (OnWrite send 0 s k1)) = []"
    if "ts_connected s" "\<forall>data k. fst (send data k) = int (length data)"
  proof -
    have "\<not> Connecting s" using ts_coreD(4) [OF core] that(1) by (simp add: Connecting_def)
    then show ?thesis
      using OnWrite_loop_drains [of send s k1] that(2) ts_coreD(1) [OF core]
      by (auto simp: OnWrite_def Let_def split_beta ts_pending_def check_output_def Handler_Set_def ts_log_def)
  qed
  ultimately show ?thesis
    using r s ts_coreD(2) [OF core] by (auto simp: GetOutputLength_def)
qed

definition three_at_a_time :: "string \<Rightarrow> string \<Rightarrow> int \<times> int \<times> string" where
  "three_at_a_time data k = (int (length (take 3 data)), 0, k @ take 3 data)"

theorem tcp_output_order_witness:
  "\<exists>ins outs s k1.
    channel_run (tcp_step three_at_a_time (\<lambda>k. k))
      [TS_Send (\<lambda>_. replicate TCP_OUTPUT_CAPACITY CHR ''-'') ''hello'', TS_OnWrite 0,
       TS_Send (\<lambda>_. replicate TCP_OUTPUT_CAPACITY CHR ''-'') ''world'', TS_OnWrite 0]
      ((TcpSocket_new [] CHR ''-'')\<lparr>ts_socket := 5, ts_connecting := False, ts_connected := \<not> False\<rparr>, []) = Inr (ins, outs, s, k1) \<and>
    k1 = [] @ outs \<and> ins = outs @ ts_pending s"
proof -
  have s: "send_ok three_at_a_time (\<lambda>k. k)" by (auto simp: send_ok_def three_at_a_time_def min_def)
  have o: "list_all tcp_op_ok
      [TS_Send (\<lambda>_. replicate TCP_OUTPUT_CAPACITY CHR ''-'') ''hello'', TS_OnWrite 0,
       TS_Send (\<lambda>_. replicate TCP_OUTPUT_CAPACITY CHR ''-'') ''world'', TS_OnWrite 0]" by simp
  have f: "0 \<le> (5 :: int)" by simp
  from tcp_output_order [OF s f o, where mem = "[]" and c = "CHR ''-''" and b = False and k = "[]"] show ?thesis by blast
qed

end
