(* ===== verification/Tcp_Lines.thy ===== *)
theory Tcp_Lines
  imports Tcp_Socket
begin

text \<open>
  The input of \<open>TcpSocket\<close> (\<open>src/src/Sockets-2.3.5/TcpSocket.cpp\<close>): what is received goes to the circular
  buffer and, in line mode, is cut into lines. The callbacks \<open>OnLine\<close> and \<open>OnRawData\<close> of the client
  are parameters on a state \<open>'u\<close>; \<open>OnLine\<close> also tells whether it calls \<open>SetLineProtocol\<close>. A text that ends its lines in one
  way gives the same lines however it is cut into pieces on the way.
\<close>

section \<open>Line mode\<close>

definition DisableInputBuffer :: "bool \<Rightarrow> TcpSocket \<Rightarrow> TcpSocket" where
  "DisableInputBuffer x s = s\<lparr>ts_input_buffer_disabled := x\<rparr>"

definition SetLineProtocol :: "bool \<Rightarrow> TcpSocket \<Rightarrow> TcpSocket" where
  "SetLineProtocol x s = DisableInputBuffer x (s\<lparr>ts_line_protocol := x\<rparr>)"

definition GetLine :: "TcpSocket \<Rightarrow> string" where
  "GetLine s = ts_line s"

definition is_eol :: "char \<Rightarrow> bool" where
  "is_eol c \<longleftrightarrow> code_of c = 13 \<or> code_of c = 10"

definition CRLF :: string where
  "CRLF = [CHR 0x0D, CHR 0x0A]"

text \<open>A call of \<open>OnLine\<close>.\<close>

definition call_OnLine :: "(string \<Rightarrow> 'u \<Rightarrow> bool option \<times> 'u) \<Rightarrow> TcpSocket \<Rightarrow> 'u \<Rightarrow> TcpSocket \<times> 'u" where
  "call_OnLine OnLine s u =
     (case OnLine (ts_line s) u of
        (None, u1) \<Rightarrow> (s, u1)
      | (Some x, u1) \<Rightarrow> (SetLineProtocol x s, u1))"

text \<open>
  The body of the loop on the characters that end lines. \<open>buf\<close> is the buffer with the zero byte after
  the \<open>n\<close> bytes received, \<open>i\<close> the position and \<open>x\<close> the start of the line.
\<close>

definition OnRead_line ::
    "(string \<Rightarrow> 'u \<Rightarrow> bool option \<times> 'u) \<Rightarrow> nat \<Rightarrow> string \<Rightarrow> nat \<Rightarrow> nat \<Rightarrow> TcpSocket \<Rightarrow> 'u \<Rightarrow> string \<times> nat \<times> TcpSocket \<times> 'u" where
  "OnRead_line OnLine n buf i x s u =
     (let c = buf ! i;
          buf1 = buf[i := CHR 0x00];
          s1 = (if buf1 ! x \<noteq> CHR 0x00 then s\<lparr>ts_line := ts_line s @ c_str (drop x buf1)\<rparr> else s)
      in case call_OnLine OnLine s1 u of
           (s2, u1) \<Rightarrow>
             let i1 = i + 1; s3 = s2\<lparr>ts_skip_c := True, ts_c := c\<rparr>
             in if i1 < n \<and> is_eol (buf1 ! i1) \<and> buf1 ! i1 \<noteq> c then
                  (buf1, i1 + 1, s3\<lparr>ts_skip_c := False, ts_line := []\<rparr>, u1)
                else (buf1, i1, s3\<lparr>ts_line := []\<rparr>, u1))"

lemma OnRead_line_advances:
  "OnRead_line OnLine n buf i x s u = (buf1, i1, s1, u1) \<Longrightarrow> i < i1 \<and> length buf1 = length buf"
  by (auto simp: OnRead_line_def Let_def split: prod.splits if_splits)

function OnRead_while ::
    "(string \<Rightarrow> 'u \<Rightarrow> bool option \<times> 'u) \<Rightarrow> nat \<Rightarrow> string \<Rightarrow> nat \<Rightarrow> nat \<Rightarrow> TcpSocket \<Rightarrow> 'u \<Rightarrow> string \<times> nat \<times> nat \<times> TcpSocket \<times> 'u" where
  "OnRead_while OnLine n buf i x s u =
     (if i < length buf \<and> is_eol (buf ! i) \<and> ts_line_protocol s then
        (case OnRead_line OnLine n buf i x s u of
           (buf1, i1, s1, u1) \<Rightarrow> OnRead_while OnLine n buf1 i1 i1 s1 u1)
      else (buf, i, x, s, u))"
  by pat_completeness auto

termination
  by (relation "measure (\<lambda>(OnLine, n, buf, i, x, s, u). length buf - i)")
    (auto dest!: OnRead_line_advances [OF sym])

declare OnRead_while.simps [simp del]

lemma OnRead_while_advances: "OnRead_while OnLine n buf i x s u = (buf1, i1, x1, s1, u1) \<Longrightarrow> i \<le> i1"
proof (induction OnLine n buf i x s u rule: OnRead_while.induct)
  case (1 OnLine n buf i x s u)
  show ?case
  proof (cases "i < length buf \<and> is_eol (buf ! i) \<and> ts_line_protocol s")
    case True
    obtain buf2 i2 s2 u2 where b: "OnRead_line OnLine n buf i x s u = (buf2, i2, s2, u2)"
      by (cases "OnRead_line OnLine n buf i x s u") auto
    then have "i2 \<le> i1" using "1.IH" [OF True b [symmetric] refl refl] "1.prems" True
      by (simp add: OnRead_while.simps [of OnLine n buf])
    then show ?thesis using OnRead_line_advances [OF b] by simp
  next
    case False
    then show ?thesis using "1.prems" by (auto simp: OnRead_while.simps [of OnLine n buf])
  qed
qed

text \<open>The loop over the bytes, and \<open>OnRead(buf, n)\<close>.\<close>

function OnRead_for ::
    "(string \<Rightarrow> 'u \<Rightarrow> bool option \<times> 'u) \<Rightarrow> nat \<Rightarrow> string \<Rightarrow> nat \<Rightarrow> nat \<Rightarrow> TcpSocket \<Rightarrow> 'u \<Rightarrow> string \<times> nat \<times> nat \<times> TcpSocket \<times> 'u" where
  "OnRead_for OnLine n buf i x s u =
     (if i < n \<and> ts_line_protocol s then
        (case OnRead_while OnLine n buf i x s u of
           (buf1, i1, x1, s1, u1) \<Rightarrow>
             if \<not> ts_line_protocol s1 then (buf1, i1, x1, s1, u1)
             else OnRead_for OnLine n buf1 (i1 + 1) x1 s1 u1)
      else (buf, i, x, s, u))"
  by pat_completeness auto

termination
  by (relation "measure (\<lambda>(OnLine, n, buf, i, x, s, u). n - i)")
    (auto dest!: OnRead_while_advances [OF sym])

declare OnRead_for.simps [simp del]

text \<open>\<open>OnRead(buf, n)\<close> up to its call of \<open>OnRawData\<close>, with the data for it when there is any.\<close>

definition OnRead_lines ::
    "(string \<Rightarrow> 'u \<Rightarrow> bool option \<times> 'u) \<Rightarrow> string \<Rightarrow> TcpSocket \<Rightarrow> 'u \<Rightarrow> TcpSocket \<times> 'u \<times> string option" where
  "OnRead_lines OnLine data s u =
     (let n = length data
      in if 0 < n \<and> n \<le> TCP_BUFSIZE_READ then
           if ts_line_protocol s then
             let buf = data @ [CHR 0x00];
                 skip = ts_skip_c s \<and> is_eol (buf ! 0) \<and> buf ! 0 \<noteq> ts_c s;
                 s0 = (if skip then s\<lparr>ts_skip_c := False\<rparr> else s);
                 i0 = (if skip then 1 else 0)
             in case OnRead_for OnLine n buf i0 i0 s0 u of
                  (buf1, i, x, s1, u1) \<Rightarrow>
                    if \<not> ts_line_protocol s1 then (s1, u1, if i < n then Some (take (n - i) (drop i buf1)) else None)
                    else if buf1 ! x \<noteq> CHR 0x00 then (s1\<lparr>ts_line := ts_line s1 @ c_str (drop x buf1)\<rparr>, u1, None)
                    else (s1, u1, None)
           else (s, u, Some data)
         else (s, u, None))"

definition OnRead_buf ::
    "(string \<Rightarrow> 'u \<Rightarrow> bool option \<times> 'u) \<Rightarrow> (string \<Rightarrow> 'u \<Rightarrow> 'u) \<Rightarrow> string \<Rightarrow> TcpSocket \<Rightarrow> 'u \<Rightarrow> TcpSocket \<times> 'u" where
  "OnRead_buf OnLine OnRawData data s u =
     (case OnRead_lines OnLine data s u of
        (s1, u1, raw) \<Rightarrow> (s1, case raw of None \<Rightarrow> u1 | Some d \<Rightarrow> OnRawData d u1))"

section \<open>Receiving\<close>

text \<open>The bytes received are counted, monitored and, unless that is disabled, put into the input buffer.\<close>

definition take_input :: "string \<Rightarrow> TcpSocket \<Rightarrow> exn + TcpSocket" where
  "take_input data s =
     (if length data \<le> TCP_BUFSIZE_READ then
        let s1 = s\<lparr>ts_bytes_received := ts_bytes_received s + of_nat (length data),
                   ts_monitor := map_option (\<lambda>m. m @ data) (ts_monitor s)\<rparr>
        in if ts_input_buffer_disabled s1 then Inr s1
           else
             (case CircularBuffer_Write data (ts_ibuf s1) of
                Inl e \<Rightarrow> Inl e
              | Inr (r, b) \<Rightarrow>
                  let s2 = s1\<lparr>ts_ibuf := b\<rparr>
                  in Inr (if r then s2 else ts_log [Ev_LogError ''OnRead'' 0] s2))
      else Inr (ts_log [Ev_LogError ''OnRead'' (int (length data))] s))"

text \<open>
  \<open>OnRead()\<close>, on what \<open>recv\<close> returned: an error with \<open>errno\<close>, or the bytes.
\<close>

definition lose :: "int \<Rightarrow> TcpSocket \<Rightarrow> TcpSocket" where
  "lose sd s = SetLost ((SetCloseAndDelete True s)\<lparr>ts_flush_before_close := False, ts_shutdown := sd\<rparr>)"

definition OnRead ::
    "(string \<Rightarrow> 'u \<Rightarrow> bool option \<times> 'u) \<Rightarrow> (string \<Rightarrow> 'u \<Rightarrow> 'u) \<Rightarrow> int + string \<Rightarrow> TcpSocket \<Rightarrow> 'u \<Rightarrow> exn + (TcpSocket \<times> 'u)" where
  "OnRead OnLine OnRawData received s u =
     (case received of
        Inl err \<Rightarrow>
          Inr (lose (ts_shutdown s)
                 (ts_log [Ev_LogError ''read'' err, Ev_OnDisconnect, Ev_OnDisconnect_reason TCP_DISCONNECT_ERROR err] s), u)
      | Inr data \<Rightarrow>
          if data = [] then Inr (lose SHUT_WR (ts_log [Ev_OnDisconnect, Ev_OnDisconnect_reason 0 0] s), u)
          else (case take_input data s of Inl e \<Rightarrow> Inl e | Inr s1 \<Rightarrow> Inr (OnRead_buf OnLine OnRawData data s1 u)))"

definition GetInputLength :: "TcpSocket \<Rightarrow> nat" where
  "GetInputLength s = CircularBuffer_GetLength (ts_ibuf s)"

definition ReadInput :: "nat \<Rightarrow> TcpSocket \<Rightarrow> exn + (nat \<times> string \<times> TcpSocket)" where
  "ReadInput max_sz s =
     (let sz = (if max_sz < GetInputLength s then max_sz else GetInputLength s)
      in case CircularBuffer_Read True sz (ts_ibuf s) of
           Inl e \<Rightarrow> Inl e
         | Inr (r, buf, b) \<Rightarrow> Inr (sz, buf, s\<lparr>ts_ibuf := b\<rparr>))"

definition GetBytesReceived :: "bool \<Rightarrow> TcpSocket \<Rightarrow> 64 word \<times> TcpSocket" where
  "GetBytesReceived clear s = (ts_bytes_received s, if clear then s\<lparr>ts_bytes_received := 0\<rparr> else s)"


section \<open>The lines of one piece\<close>

abbreviation line_mode :: "TcpSocket \<Rightarrow> bool" where
  "line_mode s \<equiv> ts_line_protocol s \<and> ts_input_buffer_disabled s"

text \<open>
  A line ends with a carriage return or a line feed, and if the other of the two follows it belongs to the same end.
\<close>

function (sequential) scan :: "string \<Rightarrow> bool \<Rightarrow> char \<Rightarrow> string \<Rightarrow> string list \<times> string \<times> bool \<times> char" where
  "scan line skip c [] = ([], line, skip, c)"
| "scan line skip c (ch # r) =
     (if is_eol ch then
        if r \<noteq> [] \<and> is_eol (hd r) \<and> hd r \<noteq> ch then apfst ((#) line) (scan [] False ch (tl r))
        else apfst ((#) line) (scan [] True ch r)
      else scan (line @ [ch]) skip c r)"
  by pat_completeness auto

termination
  by (relation "measure (\<lambda>(line, skip, c, r). length r)") (auto simp: less_Suc_eq_le)

definition chunk_scan :: "string \<Rightarrow> bool \<Rightarrow> char \<Rightarrow> string \<Rightarrow> string list \<times> string \<times> bool \<times> char" where
  "chunk_scan line skip c data =
     (if skip \<and> is_eol (hd data) \<and> hd data \<noteq> c then scan line False c (tl data) else scan line skip c data)"

definition run_lines :: "(string \<Rightarrow> 'u \<Rightarrow> bool option \<times> 'u) \<Rightarrow> string list \<Rightarrow> 'u \<Rightarrow> 'u" where
  "run_lines OnLine ls u = fold (\<lambda>l u. snd (OnLine l u)) ls u"

text \<open>A client that stays in line mode.\<close>

definition stays :: "(string \<Rightarrow> 'u \<Rightarrow> bool option \<times> 'u) \<Rightarrow> bool" where
  "stays OnLine \<longleftrightarrow> (\<forall>l u. fst (OnLine l u) \<noteq> Some False)"

definition seg :: "nat \<Rightarrow> nat \<Rightarrow> string \<Rightarrow> string" where
  "seg x i data = take (i - x) (drop x data)"

text \<open>What the loops keep of the buffer: from the start of the line on it is as received.\<close>

definition buf_ok :: "string \<Rightarrow> string \<Rightarrow> nat \<Rightarrow> nat \<Rightarrow> bool" where
  "buf_ok data buf i x \<longleftrightarrow>
     x \<le> length data \<and> x \<le> i \<and> length buf = Suc (length data) \<and> drop x buf = drop x data @ [CHR 0x00]"

lemma buf_ok_nth: "buf_ok data buf i x \<Longrightarrow> x \<le> j \<Longrightarrow> j < length data \<Longrightarrow> buf ! j = data ! j"
  using nth_append [of "drop x data" "[CHR 0x00]" "j - x"] nth_drop [of x buf "j - x"] nth_drop [of x data "j - x"]
  by (auto simp: buf_ok_def split: if_splits)

lemma buf_ok_end: "buf_ok data buf i x \<Longrightarrow> buf ! length data = CHR 0x00"
  using nth_append [of "drop x data" "[CHR 0x00]" "length data - x"] nth_drop [of x buf "length data - x"]
  by (auto simp: buf_ok_def)

lemma buf_ok_upd:
  assumes "buf_ok data buf i x" and "i < length data" and "i < j" and "j \<le> length data"
  shows "buf_ok data (buf[i := CHR 0x00]) j j"
proof -
  have "drop j (buf[i := CHR 0x00]) = drop j buf" using assms by simp
  also have "\<dots> = drop j data @ [CHR 0x00]"
  proof -
    have e: "drop x buf = drop x data @ [CHR 0x00]" and x: "x \<le> j" using assms by (simp_all add: buf_ok_def)
    have "drop j buf = drop (j - x) (drop x buf)" using x by simp
    also have "\<dots> = drop (j - x) (drop x data @ [CHR 0x00])" by (simp only: e)
    also have "\<dots> = drop j data @ [CHR 0x00]" using x assms(4) by simp
    finally show ?thesis .
  qed
  finally show ?thesis using assms by (simp add: buf_ok_def)
qed

lemma seg_self [simp]: "seg x x data = []"
  by (simp add: seg_def)

lemma seg_snoc: "x \<le> i \<Longrightarrow> i < length data \<Longrightarrow> seg x (Suc i) data = seg x i data @ [data ! i]"
  by (simp add: seg_def Suc_diff_le take_Suc_conv_app_nth)

lemma c_str_no_nul: "CHR 0x00 \<notin> set s \<Longrightarrow> c_str (s @ CHR 0x00 # r) = s"
  using c_str_append [of s "CHR 0x00 # r"] by (simp add: c_str_def)

lemma line_read:
  assumes b: "buf_ok data buf i x" and i: "i < length data" and nul: "CHR 0x00 \<notin> set data"
  shows "c_str (drop x (buf[i := CHR 0x00])) = seg x i data"
    and "(buf[i := CHR 0x00]) ! x = CHR 0x00 \<Longrightarrow> seg x i data = []"
proof -
  have "drop x (buf[i := CHR 0x00]) = (drop x buf)[i - x := CHR 0x00]"
    using b by (simp add: drop_update_swap buf_ok_def)
  also have "\<dots> = (drop x data @ [CHR 0x00])[i - x := CHR 0x00]" using b by (simp add: buf_ok_def)
  also have "\<dots> = seg x i data @ CHR 0x00 # drop (Suc i) (data @ [CHR 0x00])"
    using b i by (simp add: upd_conv_take_nth_drop seg_def buf_ok_def)
  finally have d: "drop x (buf[i := CHR 0x00]) = seg x i data @ CHR 0x00 # drop (Suc i) (data @ [CHR 0x00])" .
  have nn: "CHR 0x00 \<notin> set (seg x i data)" using nul by (auto simp: seg_def dest: in_set_takeD in_set_dropD)
  then show "c_str (drop x (buf[i := CHR 0x00])) = seg x i data" using d c_str_no_nul by simp
  have "(buf[i := CHR 0x00]) ! x = hd (drop x (buf[i := CHR 0x00]))" using b by (simp add: hd_drop_conv_nth buf_ok_def)
  then show "(buf[i := CHR 0x00]) ! x = CHR 0x00 \<Longrightarrow> seg x i data = []"
    using d nn by (cases "seg x i data") auto
qed

lemma is_eol_nul [simp]: "\<not> is_eol (CHR 0x00)"
  by (simp add: is_eol_def code_of_def)


lemma call_OnLine_stays:
  assumes "stays OnLine" and "line_mode s" and "call_OnLine OnLine s u = (s1, u1)"
  shows "u1 = snd (OnLine (ts_line s) u) \<and> line_mode s1"
proof -
  have "fst (OnLine (ts_line s) u) \<noteq> Some False" using assms(1) by (simp add: stays_def)
  then show ?thesis
    using assms(2,3) by (auto simp: call_OnLine_def SetLineProtocol_def DisableInputBuffer_def split: prod.splits option.splits)
qed

definition rest_scan :: "string \<Rightarrow> nat \<Rightarrow> nat \<Rightarrow> TcpSocket \<Rightarrow> string list \<times> string \<times> bool \<times> char" where
  "rest_scan data i x s = scan (ts_line s @ seg x i data) (ts_skip_c s) (ts_c s) (drop i data)"

lemma OnRead_line_scan:
  assumes b: "buf_ok data buf i x" and i: "i < length data" "is_eol (data ! i)" and nul: "CHR 0x00 \<notin> set data"
    and on: "stays OnLine" "line_mode s"
    and r: "OnRead_line OnLine (length data) buf i x s u = (buf1, i1, s1, u1)"
  shows "\<exists>l. buf_ok data buf1 i1 i1 \<and> line_mode s1 \<and> u1 = snd (OnLine l u) \<and>
    rest_scan data i x s = apfst ((#) l) (rest_scan data i1 i1 s1)"
proof -
  define l where "l = ts_line s @ seg x i data"
  define buf2 where "buf2 = buf[i := CHR 0x00]"
  define s2 where "s2 = (if buf2 ! x \<noteq> CHR 0x00 then s\<lparr>ts_line := ts_line s @ c_str (drop x buf2)\<rparr> else s)"
  have l2: "ts_line s2 = l" "line_mode s2"
    using line_read [OF b i(1) nul] on(2) by (auto simp: s2_def buf2_def l_def)
  obtain s3 u3 where c: "call_OnLine OnLine s2 u = (s3, u3)" by (cases "call_OnLine OnLine s2 u") auto
  note st = call_OnLine_stays [OF on(1) l2(2) c, unfolded l2(1)]
  have c0: "buf ! i = data ! i" using buf_ok_nth [OF b _ i(1)] b by (simp add: buf_ok_def)
  have nx: "buf2 ! Suc i = data ! Suc i" if "Suc i < length data"
    using buf_ok_nth [OF b _ that] b by (simp add: buf_ok_def buf2_def)
  have d: "drop i data = data ! i # drop (Suc i) data" using i(1) by (simp add: Cons_nth_drop_Suc)
  show ?thesis
  proof (cases "Suc i < length data \<and> is_eol (data ! Suc i) \<and> data ! Suc i \<noteq> data ! i")
    case True
    then have e: "buf1 = buf2" "i1 = Suc (Suc i)" "u1 = u3" "s1 = s3\<lparr>ts_skip_c := False, ts_c := data ! i, ts_line := []\<rparr>"
      using r c nx c0 by (auto simp: OnRead_line_def Let_def buf2_def [symmetric] s2_def [symmetric])
    have "hd (drop (Suc i) data) = data ! Suc i" "tl (drop (Suc i) data) = drop (Suc (Suc i)) data" "drop (Suc i) data \<noteq> []"
      using True by (simp_all add: hd_drop_conv_nth) (simp add: drop_Suc tl_drop)
    then have "rest_scan data i x s = apfst ((#) l) (rest_scan data i1 i1 s1)"
      using True i(2) by (simp add: rest_scan_def d l_def e)
    moreover have "buf_ok data buf1 i1 i1" using buf_ok_upd [OF b i(1)] True by (simp add: e buf2_def)
    ultimately show ?thesis using st by (auto simp: e)
  next
    case False
    then have "\<not> (Suc i < length data \<and> is_eol (buf2 ! Suc i) \<and> buf2 ! Suc i \<noteq> buf ! i)" using nx c0 by auto
    then have e: "buf1 = buf2" "i1 = Suc i" "u1 = u3" "s1 = s3\<lparr>ts_skip_c := True, ts_c := data ! i, ts_line := []\<rparr>"
      using r c c0 by (auto simp: OnRead_line_def Let_def buf2_def [symmetric] s2_def [symmetric])
    have "\<not> (drop (Suc i) data \<noteq> [] \<and> is_eol (hd (drop (Suc i) data)) \<and> hd (drop (Suc i) data) \<noteq> data ! i)"
      using False by (cases "Suc i < length data") (auto simp: hd_drop_conv_nth)
    then have "rest_scan data i x s = apfst ((#) l) (rest_scan data i1 i1 s1)"
      using i(2) by (auto simp: rest_scan_def d l_def e)
    moreover have "buf_ok data buf1 i1 i1" using buf_ok_upd [OF b i(1)] i(1) by (simp add: e buf2_def)
    ultimately show ?thesis using st by (auto simp: e)
  qed
qed


lemma OnRead_while_scan:
  assumes "buf_ok data buf i x" and "CHR 0x00 \<notin> set data" and "stays OnLine" and "line_mode s"
    and "OnRead_while OnLine (length data) buf i x s u = (buf1, i1, x1, s1, u1)"
  shows "\<exists>ls. buf_ok data buf1 i1 x1 \<and> line_mode s1 \<and> u1 = run_lines OnLine ls u \<and>
    (i1 < length data \<longrightarrow> \<not> is_eol (data ! i1)) \<and> rest_scan data i x s = apfst ((@) ls) (rest_scan data i1 x1 s1)"
  using assms
proof (induction OnLine "length data" buf i x s u rule: OnRead_while.induct)
  case (1 OnLine buf i x s u)
  have eol: "i < length buf \<and> is_eol (buf ! i) \<longleftrightarrow> i < length data \<and> is_eol (data ! i)"
    using buf_ok_nth [OF "1.prems"(1), of i] buf_ok_end [OF "1.prems"(1)] "1.prems"(1)
    by (cases i "length data" rule: linorder_cases) (auto simp: buf_ok_def)
  show ?case
  proof (cases "i < length buf \<and> is_eol (buf ! i) \<and> ts_line_protocol s")
    case True
    then have i: "i < length data" "is_eol (data ! i)" using eol by auto
    obtain buf2 i2 s2 u2 where b: "OnRead_line OnLine (length data) buf i x s u = (buf2, i2, s2, u2)"
      by (cases "OnRead_line OnLine (length data) buf i x s u") auto
    from OnRead_line_scan [OF "1.prems"(1) i "1.prems"(2-4) b] obtain l where
      l: "buf_ok data buf2 i2 i2" "line_mode s2" "u2 = snd (OnLine l u)"
        "rest_scan data i x s = apfst ((#) l) (rest_scan data i2 i2 s2)" by blast
    have "OnRead_while OnLine (length data) buf2 i2 i2 s2 u2 = (buf1, i1, x1, s1, u1)"
      using "1.prems"(5) b True by (simp add: OnRead_while.simps [of OnLine _ buf])
    from "1.hyps" [OF True b [symmetric] refl refl l(1) "1.prems"(2,3) l(2) this]
    obtain ls where ls: "buf_ok data buf1 i1 x1" "line_mode s1" "u1 = run_lines OnLine ls u2"
        "i1 < length data \<longrightarrow> \<not> is_eol (data ! i1)" "rest_scan data i2 i2 s2 = apfst ((@) ls) (rest_scan data i1 x1 s1)"
      by blast
    have "u1 = run_lines OnLine (l # ls) u" using ls(3) l(3) by (simp add: run_lines_def)
    moreover have "rest_scan data i x s = apfst ((@) (l # ls)) (rest_scan data i1 x1 s1)"
      using l(4) ls(5) by (cases "rest_scan data i1 x1 s1") simp
    ultimately show ?thesis using ls by blast
  next
    case False
    then have "buf1 = buf" "i1 = i" "x1 = x" "s1 = s" "u1 = u"
      using "1.prems"(5) by (auto simp: OnRead_while.simps [of OnLine _ buf])
    then show ?thesis
      using "1.prems" False eol by (intro exI [of _ "[]"]) (auto simp: run_lines_def apfst_def map_prod_def split: prod.splits)
  qed
qed

lemma buf_ok_Suc: "buf_ok data buf i x \<Longrightarrow> buf_ok data buf (Suc i) x"
  by (simp add: buf_ok_def)

lemma OnRead_for_scan:
  assumes "buf_ok data buf i x" and "CHR 0x00 \<notin> set data" and "stays OnLine" and "line_mode s"
    and "OnRead_for OnLine (length data) buf i x s u = (buf1, i1, x1, s1, u1)"
  shows "\<exists>ls. buf_ok data buf1 i1 x1 \<and> line_mode s1 \<and> u1 = run_lines OnLine ls u \<and>
    rest_scan data i x s = (ls, ts_line s1 @ drop x1 data, ts_skip_c s1, ts_c s1)"
  using assms
proof (induction OnLine "length data" buf i x s u rule: OnRead_for.induct)
  case (1 OnLine buf i x s u)
  show ?case
  proof (cases "i < length data \<and> ts_line_protocol s")
    case True
    obtain buf2 i2 x2 s2 u2 where w: "OnRead_while OnLine (length data) buf i x s u = (buf2, i2, x2, s2, u2)"
      by (cases "OnRead_while OnLine (length data) buf i x s u") auto
    from OnRead_while_scan [OF "1.prems"(1-4) w] obtain ls2 where
      w2: "buf_ok data buf2 i2 x2" "line_mode s2" "u2 = run_lines OnLine ls2 u"
        "i2 < length data \<longrightarrow> \<not> is_eol (data ! i2)" "rest_scan data i x s = apfst ((@) ls2) (rest_scan data i2 x2 s2)" by blast
    have step: "rest_scan data i2 x2 s2 = rest_scan data (Suc i2) x2 s2"
    proof (cases "i2 < length data")
      case True
      then have "drop i2 data = data ! i2 # drop (Suc i2) data" by (simp add: Cons_nth_drop_Suc)
      then show ?thesis
        using w2(1,4) True seg_snoc [of x2 i2 data] by (simp add: rest_scan_def buf_ok_def)
    next
      case False
      then show ?thesis using w2(1) by (simp add: rest_scan_def seg_def)
    qed
    have "OnRead_for OnLine (length data) buf2 (Suc i2) x2 s2 u2 = (buf1, i1, x1, s1, u1)"
      using "1.prems"(5) w True w2(2) by (simp add: OnRead_for.simps [of OnLine _ buf])
    with "1.hyps" [OF True w [symmetric] refl refl refl] w2(2) buf_ok_Suc [OF w2(1)] "1.prems"(2,3)
    obtain ls where ls: "buf_ok data buf1 i1 x1" "line_mode s1" "u1 = run_lines OnLine ls u2"
        "rest_scan data (Suc i2) x2 s2 = (ls, ts_line s1 @ drop x1 data, ts_skip_c s1, ts_c s1)" by auto
    have "u1 = run_lines OnLine (ls2 @ ls) u" using ls(3) w2(3) by (simp add: run_lines_def)
    then show ?thesis using ls w2(5) step by auto
  next
    case False
    then have e: "buf1 = buf" "i1 = i" "x1 = x" "s1 = s" "u1 = u"
      using "1.prems"(5) by (auto simp: OnRead_for.simps [of OnLine _ buf])
    have "rest_scan data i x s = ([], ts_line s @ drop x data, ts_skip_c s, ts_c s)"
      using False "1.prems"(4) by (simp add: rest_scan_def seg_def)
    then show ?thesis using e "1.prems" by (auto simp: run_lines_def)
  qed
qed

lemma OnRead_buf_scan:
  assumes data: "data \<noteq> []" "length data \<le> TCP_BUFSIZE_READ" "CHR 0x00 \<notin> set data"
    and on: "stays OnLine" "line_mode s"
    and sc: "chunk_scan (ts_line s) (ts_skip_c s) (ts_c s) data = (ls, line, skip, c)"
  shows "\<exists>s1. OnRead_buf OnLine OnRawData data s u = (s1, run_lines OnLine ls u) \<and> line_mode s1 \<and>
    ts_line s1 = line \<and> ts_skip_c s1 = skip \<and> ts_c s1 = c"
proof -
  let ?buf = "data @ [CHR 0x00]"
  define sk where "sk \<longleftrightarrow> ts_skip_c s \<and> is_eol (?buf ! 0) \<and> ?buf ! 0 \<noteq> ts_c s"
  define s0 where "s0 = (if sk then s\<lparr>ts_skip_c := False\<rparr> else s)"
  define i0 where "i0 = (if sk then 1 else 0 :: nat)"
  have hd: "?buf ! 0 = hd data" using data(1) by (simp add: nth_append hd_conv_nth)
  have b: "buf_ok data ?buf i0 i0" using data(1) by (auto simp: buf_ok_def i0_def Suc_le_eq)
  have on0: "line_mode s0" using on(2) by (simp add: s0_def)
  obtain buf1 i1 x1 s1 u1 where f: "OnRead_for OnLine (length data) ?buf i0 i0 s0 u = (buf1, i1, x1, s1, u1)"
    by (cases "OnRead_for OnLine (length data) ?buf i0 i0 s0 u") auto
  have "rest_scan data i0 i0 s0 = (ls, line, skip, c)"
    using sc by (auto simp: rest_scan_def chunk_scan_def s0_def i0_def sk_def hd drop_Suc split: if_splits)
  with OnRead_for_scan [OF b data(3) on(1) on0 f]
  have r: "buf_ok data buf1 i1 x1" "line_mode s1" "u1 = run_lines OnLine ls u" "line = ts_line s1 @ drop x1 data"
      "skip = ts_skip_c s1" "c = ts_c s1" by auto
  have d: "drop x1 buf1 = drop x1 data @ [CHR 0x00]" using r(1) by (simp add: buf_ok_def)
  have nn: "CHR 0x00 \<notin> set (drop x1 data)" using data(3) by (auto dest: in_set_dropD)
  have "c_str (drop x1 buf1) = drop x1 data" using c_str_no_nul [OF nn, of "[]"] d by simp
  moreover have "drop x1 data = []" if "buf1 ! x1 = CHR 0x00"
    using that buf_ok_nth [OF r(1), of x1] data(3) nth_mem [of x1 data] by (cases "x1 < length data") auto
  moreover have "OnRead_buf OnLine OnRawData data s u =
      (if buf1 ! x1 \<noteq> CHR 0x00 then (s1\<lparr>ts_line := ts_line s1 @ c_str (drop x1 buf1)\<rparr>, u1) else (s1, u1))"
    using data on(2) f r(2)
    by (simp add: OnRead_buf_def OnRead_lines_def Let_def sk_def [symmetric] s0_def [symmetric] i0_def [symmetric])
  ultimately show ?thesis using r by auto
qed


section \<open>Texts in pieces\<close>

text \<open>Cutting at one character, and a text whose lines all end in the same way.\<close>

fun cut_at :: "char \<Rightarrow> string \<Rightarrow> string \<Rightarrow> string list \<times> string" where
  "cut_at e line [] = ([], line)"
| "cut_at e line (ch # r) = (if ch = e then apfst ((#) line) (cut_at e [] r) else cut_at e (line @ [ch]) r)"

definition lines_text :: "string \<Rightarrow> string list \<Rightarrow> string \<Rightarrow> string" where
  "lines_text eol ls unfinished = concat (map (\<lambda>l. l @ eol) ls) @ unfinished"

definition plain_line :: "string \<Rightarrow> bool" where
  "plain_line l \<longleftrightarrow> list_all (\<lambda>ch. \<not> is_eol ch \<and> ch \<noteq> CHR 0x00) l"

text \<open>The ends of lines a text may have: carriage return, line feed, or both in either order.\<close>

definition is_line_end :: "string \<Rightarrow> bool" where
  "is_line_end eol \<longleftrightarrow> eol \<noteq> [] \<and> length eol \<le> 2 \<and> list_all is_eol eol \<and> distinct eol"

lemma cut_at_append:
  "cut_at e line (u @ v) = (case cut_at e line u of (ls, l) \<Rightarrow> apfst ((@) ls) (cut_at e l v))"
  by (induction u arbitrary: line) (simp_all add: split_beta apfst_def map_prod_def)

lemma cut_plain: "e \<notin> set u \<Longrightarrow> cut_at e line u = ([], line @ u)"
  by (induction u arbitrary: line) auto

lemma cut_lines:
  "list_all (\<lambda>l. e \<notin> set l) ls \<Longrightarrow> e \<notin> set unfinished \<Longrightarrow> cut_at e [] (lines_text [e] ls unfinished) = (ls, unfinished)"
  by (induction ls) (auto simp: lines_text_def cut_plain cut_at_append)

text \<open>One character ends the lines: nothing is ever skipped.\<close>

lemma scan_single:
  assumes "is_eol e"
  shows "list_all (\<lambda>ch. is_eol ch \<longrightarrow> ch = e) r \<Longrightarrow> scan line skip c r = (ls, line1, skip1, c1) \<Longrightarrow> skip \<longrightarrow> c = e \<Longrightarrow>
   cut_at e line r = (ls, line1) \<and> (skip1 \<longrightarrow> c1 = e)"
proof (induction r arbitrary: line skip c ls)
  case Nil
  then show ?case by simp
next
  case (Cons ch r)
  show ?case
  proof (cases "is_eol ch")
    case True
    then have e: "ch = e" using Cons.prems(1) by simp
    have "\<not> (r \<noteq> [] \<and> is_eol (hd r) \<and> hd r \<noteq> ch)" using Cons.prems(1) e by (cases r) auto
    then have sc: "scan line skip c (ch # r) = apfst ((#) line) (scan [] True ch r)" using True by auto
    obtain ls2 rest where sc2: "scan [] True ch r = (ls2, rest)" by (cases "scan [] True ch r")
    then have r: "rest = (line1, skip1, c1)" "ls = line # ls2" using sc Cons.prems(2) by auto
    then have "cut_at e [] r = (ls2, line1) \<and> (skip1 \<longrightarrow> c1 = e)"
      using Cons.IH [of "[]" True ch ls2] Cons.prems(1) sc2 e by simp
    then show ?thesis using e r by simp
  next
    case False
    then have "ch \<noteq> e" using assms by auto
    then show ?thesis using Cons.IH [of "line @ [ch]" skip c ls] Cons.prems False by simp
  qed
qed

lemma chunk_single:
  assumes "r \<noteq> []" and "list_all (\<lambda>ch. is_eol ch \<longrightarrow> ch = e) r" and "is_eol e" and "skip \<longrightarrow> c = e"
    and "chunk_scan line skip c r = (ls, line1, skip1, c1)"
  shows "cut_at e line r = (ls, line1) \<and> (skip1 \<longrightarrow> c1 = e)"
proof -
  have "is_eol (hd r) \<longrightarrow> hd r = e" using assms(1,2) by (cases r) auto
  then have "scan line skip c r = (ls, line1, skip1, c1)" using assms(4,5) by (auto simp: chunk_scan_def)
  from scan_single [OF assms(3,2) this assms(4)] show ?thesis .
qed

text \<open>Two characters end the lines; \<open>open_pair\<close> is whether the first of the two has just been read.\<close>

fun paired :: "char \<Rightarrow> char \<Rightarrow> bool \<Rightarrow> string \<Rightarrow> bool" where
  "paired a b open_pair [] \<longleftrightarrow> \<not> open_pair"
| "paired a b open_pair (ch # r) \<longleftrightarrow>
     (if open_pair then ch = b \<and> paired a b False r
      else if ch = a then paired a b True r else \<not> is_eol ch \<and> paired a b False r)"

lemma scan_pair:
  assumes "is_eol a" "is_eol b" "a \<noteq> b"
  shows "paired a b False (r @ rest) \<Longrightarrow>
   \<exists>skip1 c1. scan line False c r =
     (fst (cut_at a line (filter (\<lambda>ch. ch \<noteq> b) r)), snd (cut_at a line (filter (\<lambda>ch. ch \<noteq> b) r)), skip1, c1) \<and>
     (skip1 \<longrightarrow> c1 = a) \<and> paired a b skip1 rest"
proof (induction r arbitrary: line c rule: length_induct)
  case (1 r)
  show ?case
  proof (cases r)
    case Nil
    then show ?thesis using "1.prems" by (simp add: ex_bool_eq)
  next
    case (Cons ch r1)
    show ?thesis
    proof (cases "ch = a")
      case False
      then have n: "\<not> is_eol ch" "paired a b False (r1 @ rest)" using "1.prems" Cons by auto
      then have "ch \<noteq> b" using assms(2) by auto
      then show ?thesis using "1.IH" [rule_format, of r1 "line @ [ch]" c] n Cons False by simp
    next
      case True
      show ?thesis
      proof (cases r1)
        case Nil
        then show ?thesis using "1.prems" True Cons assms by (simp add: ex_bool_eq)
      next
        case (Cons ch2 r2)
        then have p: "ch2 = b" "paired a b False (r2 @ rest)" using "1.prems" True \<open>r = ch # r1\<close> by auto
        then obtain skip1 c1 where
          "scan [] False a r2 = (fst (cut_at a [] (filter (\<lambda>ch. ch \<noteq> b) r2)), snd (cut_at a [] (filter (\<lambda>ch. ch \<noteq> b) r2)), skip1, c1)"
          "skip1 \<longrightarrow> c1 = a" "paired a b skip1 rest"
          using "1.IH" [rule_format, of r2 "[]" a] Cons \<open>r = ch # r1\<close> by auto
        then show ?thesis using p True Cons \<open>r = ch # r1\<close> assms by auto
      qed
    qed
  qed
qed

lemma chunk_pair:
  assumes ab: "is_eol a" "is_eol b" "a \<noteq> b" and r: "r \<noteq> []" "paired a b skip (r @ rest)" "skip \<longrightarrow> c = a"
  shows "\<exists>skip1 c1. chunk_scan line skip c r =
     (fst (cut_at a line (filter (\<lambda>ch. ch \<noteq> b) r)), snd (cut_at a line (filter (\<lambda>ch. ch \<noteq> b) r)), skip1, c1) \<and>
     (skip1 \<longrightarrow> c1 = a) \<and> paired a b skip1 rest"
proof (cases skip)
  case True
  then obtain r1 where r1: "r = b # r1" "paired a b False (r1 @ rest)" using r by (cases r) auto
  then have "chunk_scan line skip c r = scan line False c r1" using True r(3) ab by (simp add: chunk_scan_def)
  then show ?thesis using scan_pair [OF ab r1(2), of line c] r1(1) by simp
next
  case False
  then show ?thesis using scan_pair [OF ab, of r rest line c] r(2) by (simp add: chunk_scan_def)
qed


section \<open>Receiving in pieces\<close>

fun OnRead_all ::
    "(string \<Rightarrow> 'u \<Rightarrow> bool option \<times> 'u) \<Rightarrow> (string \<Rightarrow> 'u \<Rightarrow> 'u) \<Rightarrow> string list \<Rightarrow> TcpSocket \<Rightarrow> 'u \<Rightarrow> exn + (TcpSocket \<times> 'u)" where
  "OnRead_all OnLine OnRawData [] s u = Inr (s, u)"
| "OnRead_all OnLine OnRawData (d # ds) s u =
     (case OnRead OnLine OnRawData (Inr d) s u of Inl e \<Rightarrow> Inl e | Inr (s1, u1) \<Rightarrow> OnRead_all OnLine OnRawData ds s1 u1)"

definition recv_piece :: "string \<Rightarrow> bool" where
  "recv_piece d \<longleftrightarrow> d \<noteq> [] \<and> length d \<le> TCP_BUFSIZE_READ"

lemma OnRead_scan:
  assumes "recv_piece d" and "CHR 0x00 \<notin> set d" and "stays OnLine" and "line_mode s"
    and "chunk_scan (ts_line s) (ts_skip_c s) (ts_c s) d = (ls, line, skip, c)"
  shows "\<exists>s1. OnRead OnLine OnRawData (Inr d) s u = Inr (s1, run_lines OnLine ls u) \<and> line_mode s1 \<and>
    ts_line s1 = line \<and> ts_skip_c s1 = skip \<and> ts_c s1 = c"
proof -
  let ?s = "s\<lparr>ts_bytes_received := ts_bytes_received s + of_nat (length d), ts_monitor := map_option (\<lambda>m. m @ d) (ts_monitor s)\<rparr>"
  have "OnRead OnLine OnRawData (Inr d) s u = Inr (OnRead_buf OnLine OnRawData d ?s u)"
    using assms(1,4) by (simp add: OnRead_def take_input_def recv_piece_def)
  then show ?thesis
    using OnRead_buf_scan [of d OnLine ?s ls line skip c OnRawData u] assms by (auto simp: recv_piece_def)
qed

text \<open>
  Both kinds of line ends are instances of this: \<open>R\<close> relates the state between two pieces to what is still to
  come, and a piece gives the lines of a cut at \<open>e\<close> of the characters \<open>keep\<close> leaves.
\<close>

lemma OnRead_all_lines:
  assumes step: "\<And>d rest line skip c. recv_piece d \<Longrightarrow> R skip c (d @ rest) \<Longrightarrow>
      \<exists>skip1 c1. chunk_scan line skip c d = (fst (cut_at e line (filter keep d)), snd (cut_at e line (filter keep d)), skip1, c1) \<and> R skip1 c1 rest"
    and on: "stays OnLine"
  shows "list_all recv_piece ds \<Longrightarrow> CHR 0x00 \<notin> set (concat ds) \<Longrightarrow> line_mode s \<Longrightarrow> R (ts_skip_c s) (ts_c s) (concat ds) \<Longrightarrow>
    \<exists>s1. OnRead_all OnLine OnRawData ds s u = Inr (s1, run_lines OnLine (fst (cut_at e (ts_line s) (filter keep (concat ds)))) u) \<and>
      ts_line s1 = snd (cut_at e (ts_line s) (filter keep (concat ds)))"
proof (induction ds arbitrary: s u)
  case Nil
  then show ?case by (simp add: run_lines_def)
next
  case (Cons d ds)
  let ?c = "cut_at e (ts_line s) (filter keep d)"
  have d: "recv_piece d" "R (ts_skip_c s) (ts_c s) (d @ concat ds)" "CHR 0x00 \<notin> set d" using Cons.prems by auto
  from step [OF d(1,2), of "ts_line s"] obtain skip1 c1 where
    sc: "chunk_scan (ts_line s) (ts_skip_c s) (ts_c s) d = (fst ?c, snd ?c, skip1, c1)" and R: "R skip1 c1 (concat ds)"
    by blast
  obtain s1 where s1: "OnRead OnLine OnRawData (Inr d) s u = Inr (s1, run_lines OnLine (fst ?c) u)" "line_mode s1"
      "ts_line s1 = snd ?c" "ts_skip_c s1 = skip1" "ts_c s1 = c1"
    using OnRead_scan [OF d(1,3) on Cons.prems(3) sc, of OnRawData u] by blast
  have "\<exists>s2. OnRead_all OnLine OnRawData ds s1 (run_lines OnLine (fst ?c) u) =
      Inr (s2, run_lines OnLine (fst (cut_at e (ts_line s1) (filter keep (concat ds)))) (run_lines OnLine (fst ?c) u)) \<and>
      ts_line s2 = snd (cut_at e (ts_line s1) (filter keep (concat ds)))"
    using Cons.prems s1 R by (intro Cons.IH) auto
  then show ?case
    using s1 cut_at_append [of e "ts_line s" "filter keep d" "filter keep (concat ds)"]
    by (auto simp: run_lines_def split_beta)
qed


lemma plain_no_eol: "plain_line l \<Longrightarrow> is_eol e \<Longrightarrow> e \<notin> set l"
  by (auto simp: plain_line_def list_all_iff)

lemma lines_text_single:
  "list_all plain_line ls \<Longrightarrow> plain_line unfinished \<Longrightarrow> list_all (\<lambda>ch. is_eol ch \<longrightarrow> ch = e) (lines_text [e] ls unfinished)"
proof (induction ls)
  case Nil
  then show ?case by (auto simp: lines_text_def plain_line_def list_all_iff)
next
  case (Cons l ls)
  have "list_all (\<lambda>ch. is_eol ch \<longrightarrow> ch = e) l" using Cons.prems(1) by (auto simp: plain_line_def list_all_iff)
  then show ?case using Cons by (simp add: lines_text_def)
qed

lemma paired_plain: "plain_line l \<Longrightarrow> is_eol a \<Longrightarrow> paired a b False (l @ r) = paired a b False r"
  by (induction l) (auto simp: plain_line_def)

lemma lines_text_paired:
  assumes "is_eol a"
  shows "list_all plain_line ls \<Longrightarrow> plain_line unfinished \<Longrightarrow> paired a b False (lines_text [a, b] ls unfinished)"
proof (induction ls)
  case Nil
  then show ?case using paired_plain [OF _ assms, of unfinished b "[]"] by (simp add: lines_text_def)
next
  case (Cons l ls)
  then show ?case using paired_plain [OF _ assms, of l b] by (simp add: lines_text_def)
qed

lemma filter_plain: "plain_line l \<Longrightarrow> is_eol b \<Longrightarrow> filter (\<lambda>ch. ch \<noteq> b) l = l"
  by (induction l) (auto simp: plain_line_def)

lemma lines_text_filter:
  "is_eol b \<Longrightarrow> a \<noteq> b \<Longrightarrow> list_all plain_line ls \<Longrightarrow> plain_line unfinished \<Longrightarrow>
   filter (\<lambda>ch. ch \<noteq> b) (lines_text [a, b] ls unfinished) = lines_text [a] ls unfinished"
  by (induction ls) (simp_all add: lines_text_def filter_plain)

lemma lines_text_no_nul:
  "list_all plain_line ls \<Longrightarrow> plain_line unfinished \<Longrightarrow> list_all is_eol eol \<Longrightarrow> CHR 0x00 \<notin> set (lines_text eol ls unfinished)"
proof (induction ls)
  case Nil
  then show ?case by (auto simp: lines_text_def plain_line_def list_all_iff)
next
  case (Cons l ls)
  have "CHR 0x00 \<notin> set l" using Cons.prems(1) by (auto simp: plain_line_def list_all_iff)
  moreover have "CHR 0x00 \<notin> set eol" using Cons.prems(3) by (auto simp: list_all_iff)
  ultimately show ?case using Cons by (simp add: lines_text_def)
qed

lemma cut_plain_lines:
  assumes "is_eol e" and "list_all plain_line ls" and "plain_line unfinished"
  shows "cut_at e [] (lines_text [e] ls unfinished) = (ls, unfinished)"
proof (rule cut_lines)
  show "list_all (\<lambda>l. e \<notin> set l) ls"
    using assms(2) plain_no_eol [OF _ assms(1)] by (rule list.pred_mono_strong)
  show "e \<notin> set unfinished" using plain_no_eol [OF assms(3,1)] .
qed

lemma pieces_single:
  assumes e: "is_eol e" and ls: "list_all plain_line ls" "plain_line unfinished" and on: "stays OnLine"
    and pieces: "list_all recv_piece pieces" "concat pieces = lines_text [e] ls unfinished"
    and s: "line_mode s" "\<not> ts_skip_c s" "ts_line s = []"
  shows "\<exists>s1. OnRead_all OnLine OnRawData pieces s u = Inr (s1, run_lines OnLine ls u) \<and> ts_line s1 = unfinished"
proof -
  define R where "R skip c rem \<longleftrightarrow> (skip \<longrightarrow> c = e) \<and> list_all (\<lambda>ch. is_eol ch \<longrightarrow> ch = e) rem" for skip c rem
  have step: "\<exists>skip1 c1. chunk_scan line skip c d =
      (fst (cut_at e line (filter (\<lambda>_. True) d)), snd (cut_at e line (filter (\<lambda>_. True) d)), skip1, c1) \<and> R skip1 c1 rest"
    if "recv_piece d" "R skip c (d @ rest)" for d rest line skip c
  proof -
    obtain l1 l2 skip1 c1 where sc: "chunk_scan line skip c d = (l1, l2, skip1, c1)" by (cases "chunk_scan line skip c d") auto
    have "cut_at e line d = (l1, l2) \<and> (skip1 \<longrightarrow> c1 = e)"
      using that e sc by (intro chunk_single) (simp_all add: recv_piece_def R_def)
    then show ?thesis using sc that(2) by (simp add: R_def)
  qed
  have "R (ts_skip_c s) (ts_c s) (concat pieces)"
    using s(2) pieces(2) lines_text_single [OF ls] by (simp add: R_def)
  moreover have "CHR 0x00 \<notin> set (concat pieces)"
    unfolding pieces(2) using e by (intro lines_text_no_nul [OF ls]) simp
  ultimately obtain s1 where
    "OnRead_all OnLine OnRawData pieces s u =
      Inr (s1, run_lines OnLine (fst (cut_at e (ts_line s) (filter (\<lambda>_. True) (concat pieces)))) u)"
    "ts_line s1 = snd (cut_at e (ts_line s) (filter (\<lambda>_. True) (concat pieces)))"
    using OnRead_all_lines [where R = R and e = e and keep = "\<lambda>_. True", OF step on pieces(1) _ s(1)] by blast
  then show ?thesis using cut_plain_lines [OF e ls] by (simp add: pieces(2) s(3))
qed

lemma pieces_pair:
  assumes ab: "is_eol a" "is_eol b" "a \<noteq> b" and ls: "list_all plain_line ls" "plain_line unfinished" and on: "stays OnLine"
    and pieces: "list_all recv_piece pieces" "concat pieces = lines_text [a, b] ls unfinished"
    and s: "line_mode s" "\<not> ts_skip_c s" "ts_line s = []"
  shows "\<exists>s1. OnRead_all OnLine OnRawData pieces s u = Inr (s1, run_lines OnLine ls u) \<and> ts_line s1 = unfinished"
proof -
  define R where "R skip c rem \<longleftrightarrow> (skip \<longrightarrow> c = a) \<and> paired a b skip rem" for skip c rem
  have step: "\<exists>skip1 c1. chunk_scan line skip c d =
      (fst (cut_at a line (filter (\<lambda>ch. ch \<noteq> b) d)), snd (cut_at a line (filter (\<lambda>ch. ch \<noteq> b) d)), skip1, c1) \<and> R skip1 c1 rest"
    if "recv_piece d" "R skip c (d @ rest)" for d rest line skip c
    using chunk_pair [OF ab, of d skip rest c line] that by (simp add: recv_piece_def R_def)
  have "R (ts_skip_c s) (ts_c s) (concat pieces)"
    using s(2) pieces(2) lines_text_paired [OF ab(1) ls] by (simp add: R_def)
  moreover have "CHR 0x00 \<notin> set (concat pieces)"
    unfolding pieces(2) using ab by (intro lines_text_no_nul [OF ls]) simp
  ultimately obtain s1 where
    "OnRead_all OnLine OnRawData pieces s u =
      Inr (s1, run_lines OnLine (fst (cut_at a (ts_line s) (filter (\<lambda>ch. ch \<noteq> b) (concat pieces)))) u)"
    "ts_line s1 = snd (cut_at a (ts_line s) (filter (\<lambda>ch. ch \<noteq> b) (concat pieces)))"
    using OnRead_all_lines [where R = R and e = a and keep = "\<lambda>ch. ch \<noteq> b", OF step on pieces(1) _ s(1)] by blast
  then show ?thesis using cut_plain_lines [OF ab(1) ls] lines_text_filter [OF ab(2,3) ls] by (simp add: pieces(2) s(3))
qed

text \<open>
  C36 (equivalence). A text without zero bytes whose lines all end in the same way (carriage return, line feed, or both in either
  order), received by a new socket in line mode whose client does not leave that mode, is given to the client line
  by line, each once, complete and in order, however the network cuts it into pieces, also
  between the two characters of an end; the unfinished rest is what \<open>GetLine\<close> returns.
\<close>

theorem lines_in_pieces:
  assumes eol: "is_line_end eol" and ls: "list_all plain_line ls" "plain_line unfinished" and on: "stays OnLine"
    and pieces: "list_all recv_piece pieces" "concat pieces = lines_text eol ls unfinished"
  shows "\<exists>s. OnRead_all OnLine OnRawData pieces (SetLineProtocol True (TcpSocket_new mem c)) u =
      Inr (s, fold (\<lambda>l u. snd (OnLine l u)) ls u) \<and> GetLine s = unfinished"
proof -
  let ?s = "SetLineProtocol True (TcpSocket_new mem c)"
  have s: "line_mode ?s" "\<not> ts_skip_c ?s" "ts_line ?s = []"
    by (simp_all add: SetLineProtocol_def DisableInputBuffer_def TcpSocket_new_def)
  consider (single) e where "eol = [e]" "is_eol e" | (pair) a b where "eol = [a, b]" "is_eol a" "is_eol b" "a \<noteq> b"
    using eol unfolding is_line_end_def by (cases eol rule: remdups_adj.cases) auto
  then show ?thesis
  proof cases
    case single
    from pieces_single [OF single(2) ls on pieces(1) pieces(2) [unfolded single(1)] s] show ?thesis
      by (simp add: GetLine_def run_lines_def)
  next
    case pair
    from pieces_pair [OF pair(2-4) ls on pieces(1) pieces(2) [unfolded pair(1)] s] show ?thesis
      by (simp add: GetLine_def run_lines_def)
  qed
qed

definition collect :: "string \<Rightarrow> string list \<Rightarrow> bool option \<times> string list" where
  "collect l ls = (None, ls @ [l])"

theorem lines_in_pieces_witness:
  "\<exists>s. OnRead_all collect (\<lambda>d ls. ls) [''HELO a'' @ [CHR 0x0D], [CHR 0x0A] @ ''QUI'', ''T'' @ CRLF @ ''x'']
       (SetLineProtocol True (TcpSocket_new [] CHR ''-'')) [] = Inr (s, fold (\<lambda>l u. snd (collect l u)) [''HELO a'', ''QUIT''] []) \<and>
     GetLine s = ''x''"
proof (rule lines_in_pieces)
  show "is_line_end CRLF" by (simp add: is_line_end_def CRLF_def is_eol_def code_of_def)
  show "list_all plain_line [''HELO a'', ''QUIT'']" "plain_line ''x''" by (simp_all add: plain_line_def is_eol_def code_of_def)
  show "stays collect" by (simp add: stays_def collect_def)
  show "list_all recv_piece [''HELO a'' @ [CHR 0x0D], [CHR 0x0A] @ ''QUI'', ''T'' @ CRLF @ ''x'']"
    by (simp add: recv_piece_def TCP_BUFSIZE_READ_def CRLF_def)
  show "concat [''HELO a'' @ [CHR 0x0D], [CHR 0x0A] @ ''QUI'', ''T'' @ CRLF @ ''x''] = lines_text CRLF [''HELO a'', ''QUIT''] ''x''"
    by (simp add: lines_text_def CRLF_def)
qed

text \<open>
  Where the pieces do matter. The flag that the other character may follow is not reset by the
  characters of the next line, so in a text that mixes the ends of lines a line can be joined to the next; and a
  client that leaves line mode gets the second character of the end as raw data when it comes in the next piece.
\<close>

definition final_lines :: "exn + (TcpSocket \<times> 'u) \<Rightarrow> 'u option" where
  "final_lines r = (case r of Inl e \<Rightarrow> None | Inr (s, u) \<Rightarrow> Some u)"

lemmas lines_eval =
  final_lines_def OnRead_def take_input_def OnRead_buf_def OnRead_lines_def OnRead_for.simps OnRead_while.simps OnRead_line_def call_OnLine_def
  SetLineProtocol_def DisableInputBuffer_def TcpSocket_new_def is_eol_def code_of_def c_str_def TCP_BUFSIZE_READ_def
  collect_def CRLF_def

lemma stale_skip_joins_lines:
  "final_lines (OnRead_all collect (\<lambda>d ls. ls) [[CHR 0x0D], ''abc'', [CHR 0x0A], ''d'', [CHR 0x0A]]
     (SetLineProtocol True (TcpSocket_new [] CHR ''-'')) []) = Some [[], ''abcd'']"
  "final_lines (OnRead_all collect (\<lambda>d ls. ls) [[CHR 0x0D] @ ''abc'' @ [CHR 0x0A] @ ''d'' @ [CHR 0x0A]]
     (SetLineProtocol True (TcpSocket_new [] CHR ''-'')) []) = Some [[], ''abc'', ''d'']"
  by (simp_all add: lines_eval)

definition leave :: "string \<Rightarrow> string list \<Rightarrow> bool option \<times> string list" where
  "leave l ls = (if l = [] then Some False else None, ls @ [l])"

lemma raw_data_keeps_line_feed:
  "final_lines (OnRead_all leave (\<lambda>d ls. ls @ [''raw:'' @ d]) [CRLF @ ''body'']
     (SetLineProtocol True (TcpSocket_new [] CHR ''-'')) []) = Some [[], ''raw:body'']"
  "length mem = 2 * TCP_BUFSIZE_READ \<Longrightarrow>
   final_lines (OnRead_all leave (\<lambda>d ls. ls @ [''raw:'' @ d]) [[CHR 0x0D], [CHR 0x0A] @ ''body'']
     (SetLineProtocol True (TcpSocket_new mem CHR ''-'')) []) = Some [[], ''raw:'' @ [CHR 0x0A] @ ''body'']"
  by (simp_all add: lines_eval leave_def CircularBuffer_Write_def CircularBuffer_new_def memcpy_def)

end
