(* ===== verification/Http_Socket.thy ===== *)
theory Http_Socket
  imports Tcp_Lines Utility Parse_Words
begin

text \<open>
  The HTTP layer of the vendored socket library (\<open>src/src/Sockets-2.3.5/HTTPSocket.cpp\<close>): lines of the header
  are taken in line mode, the body as raw data, whole or in chunks. The virtual callbacks are recorded as events: the
  client is one that does not touch the socket while it is called. What goes on after a read that reaches behaviour C++ does
  not define is of no interest, so the state of the socket is a sum with \<^typ>\<open>exn\<close>.
\<close>

section \<open>State\<close>

datatype http_event =
    OnFirst
  | OnHeader string string
  | OnHeaderComplete
  | OnData string
  | OnDataComplete

record HTTPSocket =
  hs_first :: bool
  hs_header :: bool
  hs_method :: string
  hs_url :: string
  hs_uri :: string
  hs_query_string :: string
  hs_http_version :: string
  hs_status :: string
  hs_status_text :: string
  hs_request :: bool
  hs_response :: bool
  hs_response_header :: "(string \<times> string) list"
  hs_body_size_left :: "64 word"
  hs_http_1_1 :: bool
  hs_keepalive :: bool
  hs_response_header_append :: "(string \<times> string) list"
  hs_chunked :: bool
  hs_chunk_size :: nat
  hs_chunk_state :: int
  hs_chunk_line :: string
  hs_events :: "http_event list"

definition HTTPSocket_new :: "string \<Rightarrow> char \<Rightarrow> TcpSocket \<times> HTTPSocket" where
  "HTTPSocket_new mem c =
     (DisableInputBuffer True (SetLineProtocol True (TcpSocket_new mem c)),
      \<lparr>hs_first = True, hs_header = True, hs_method = [], hs_url = [], hs_uri = [], hs_query_string = [],
       hs_http_version = ''HTTP/1.0'', hs_status = [], hs_status_text = [], hs_request = False, hs_response = False,
       hs_response_header = [], hs_body_size_left = 0, hs_http_1_1 = False, hs_keepalive = False,
       hs_response_header_append = [], hs_chunked = False, hs_chunk_size = 0, hs_chunk_state = 0, hs_chunk_line = [],
       hs_events = []\<rparr>)"

definition hs_log :: "http_event \<Rightarrow> HTTPSocket \<Rightarrow> HTTPSocket" where
  "hs_log e h = h\<lparr>hs_events := hs_events h @ [e]\<rparr>"

section \<open>The header\<close>

definition first_line :: "string \<Rightarrow> HTTPSocket \<Rightarrow> HTTPSocket" where
  "first_line line h =
     (let p1 = getword (Parse_new line [] False); str = pa_ord p1; p2 = getword p1
      in if 4 < length str \<and> ToLower (take 5 str) = ''http/'' then
           h\<lparr>hs_http_version := str, hs_status := pa_ord p2, hs_status_text := fst (getrest p2), hs_response := True\<rparr>
         else
           let url = pa_ord p2; version = pa_ord (getword p2); http_1_1 = (4 < length version \<and> drop 4 version = ''/1.1'');
               uri = takeWhile (\<lambda>c. c \<noteq> CHR ''?'') url;
               query = (if CHR ''?'' \<in> set url then drop (length uri + 1) url else [])
           in h\<lparr>hs_method := str, hs_url := url, hs_uri := uri, hs_query_string := query, hs_http_version := version,
                hs_http_1_1 := http_1_1, hs_keepalive := http_1_1, hs_request := True\<rparr>)"

definition header_line :: "string \<Rightarrow> HTTPSocket \<Rightarrow> exn + HTTPSocket" where
  "header_line line h =
     (let p1 = getword (Parse_new line '':'' False); key = pa_ord p1; val = fst (getrest p1); k = ToLower key;
          h1 = hs_log (OnHeader key val) h
      in case if k = ''content-length'' then map_sum id of_int (c_number 64 val) else Inr (hs_body_size_left h1) of
           Inl e \<Rightarrow> Inl e
         | Inr body_left \<Rightarrow>
             Inr (h1\<lparr>hs_body_size_left := body_left,
                     hs_keepalive := (if hs_http_1_1 h1 \<and> k = ''connection'' then ToLower val \<noteq> ''close'' else hs_keepalive h1),
                     hs_chunked := (if k = ''transfer-encoding'' \<and> ToLower val = ''chunked'' then True else hs_chunked h1)\<rparr>))"

text \<open>\<open>OnLine\<close>; the first component is the argument of a call of \<open>SetLineProtocol\<close>.\<close>

definition HTTP_OnLine :: "string \<Rightarrow> exn + HTTPSocket \<Rightarrow> bool option \<times> (exn + HTTPSocket)" where
  "HTTP_OnLine line r =
     (case r of
        Inl e \<Rightarrow> (None, Inl e)
      | Inr h \<Rightarrow>
          if hs_first h then (None, Inr (hs_log OnFirst ((first_line line h)\<lparr>hs_first := False\<rparr>)))
          else if line = [] then
            let body = (hs_body_size_left h \<noteq> 0 \<or> \<not> hs_http_1_1 h \<or> \<not> hs_keepalive h \<or> hs_chunked h);
                h1 = hs_log OnHeaderComplete (if body then h\<lparr>hs_header := False\<rparr> else h);
                h2 = (if hs_body_size_left h1 = 0 \<and> \<not> hs_chunked h1 then hs_log OnDataComplete h1 else h1)
            in (if body then Some False else None, Inr h2)
          else (None, header_line line h))"

section \<open>The body\<close>

definition ends_crlf :: "string \<Rightarrow> bool" where
  "ends_crlf line \<longleftrightarrow> 1 < length line \<and> drop (length line - 2) line = CRLF"

text \<open>Characters are added to the line of a chunk until it ends in CR LF; what is left of the data is returned with it.\<close>

fun chunk_line_loop :: "string \<Rightarrow> string \<Rightarrow> string \<times> string" where
  "chunk_line_loop line [] = (line, [])"
| "chunk_line_loop line (c # buf) =
     (if length line < 2 \<or> drop (length line - 2) line \<noteq> CRLF then chunk_line_loop (line @ [c]) buf else (line, c # buf))"

definition size_of_line :: "string \<Rightarrow> nat" where
  "size_of_line line = unat (hex2unsigned (pa_ord (getword (Parse_new (take (length line - 2) line) '';'' False))))"

text \<open>
  Back to line mode for the next message. What is left of the data is copied to a buffer of
  \<^const>\<open>TCP_BUFSIZE_READ\<close> bytes, with a zero byte after it, and goes to \<open>OnRead\<close>; it is returned here.
\<close>

definition next_message :: "string \<Rightarrow> TcpSocket \<Rightarrow> HTTPSocket \<Rightarrow> exn + (TcpSocket \<times> HTTPSocket \<times> string option)" where
  "next_message rest s h =
     (let s1 = SetLineProtocol True s; h1 = h\<lparr>hs_first := True, hs_header := True, hs_body_size_left := 0\<rparr>
      in if rest = [] then Inr (s1, h1, None)
         else if length rest < TCP_BUFSIZE_READ then Inr (s1, h1, Some rest)
         else Inl (Undefined ''tmp overflows''))"

lemma chunk_line_loop_length: "length (snd (chunk_line_loop line buf)) \<le> length buf"
  by (induction line buf rule: chunk_line_loop.induct) auto

lemma chunk_line_loop_advances:
  "\<not> ends_crlf line \<Longrightarrow> buf \<noteq> [] \<Longrightarrow> length (snd (chunk_line_loop line buf)) < length buf"
  using chunk_line_loop_length [of "line @ [hd buf]" "tl buf"] by (cases buf) (auto simp: ends_crlf_def less_Suc_eq_le)

lemma chunk_line_loop_open: "\<not> ends_crlf (fst (chunk_line_loop line buf)) \<Longrightarrow> snd (chunk_line_loop line buf) = []"
  by (induction line buf rule: chunk_line_loop.induct) (auto simp: ends_crlf_def)

definition chunk_weight :: "HTTPSocket \<Rightarrow> nat" where
  "chunk_weight h = (if hs_chunk_state h = 0 then 2 else if hs_chunk_state h = 1 then 1 else if hs_chunk_state h = 4 then 1 else 0)"

text \<open>The loop over the data of a body in chunks; a state without a case would make it run for ever.\<close>

function chunk_loop :: "string \<Rightarrow> TcpSocket \<Rightarrow> HTTPSocket \<Rightarrow> exn + (TcpSocket \<times> HTTPSocket \<times> string option)" where
  "chunk_loop buf s h =
     (if buf = [] then Inr (s, h, None)
      else if hs_chunk_state h = 4 then
        let line = fst (chunk_line_loop (hs_chunk_line h) buf); rest = snd (chunk_line_loop (hs_chunk_line h) buf);
            h1 = h\<lparr>hs_chunk_line := line\<rparr>
        in if ends_crlf line then next_message rest s ((hs_log OnDataComplete h1)\<lparr>hs_chunked := False\<rparr>)
           else chunk_loop rest s h1
      else if hs_chunk_state h = 0 then
        let line = fst (chunk_line_loop (hs_chunk_line h) buf); rest = snd (chunk_line_loop (hs_chunk_line h) buf);
            h1 = h\<lparr>hs_chunk_line := line\<rparr>
        in if ends_crlf line then
             chunk_loop rest s
               (h1\<lparr>hs_chunk_size := size_of_line line, hs_chunk_state := (if size_of_line line = 0 then 4 else 1), hs_chunk_line := []\<rparr>)
           else chunk_loop rest s h1
      else if hs_chunk_state h = 1 then
        let sz = (if hs_chunk_size h < length buf then hs_chunk_size h else length buf);
            h1 = (hs_log (OnData (take sz buf)) h)\<lparr>hs_chunk_size := hs_chunk_size h - sz\<rparr>
        in chunk_loop (drop sz buf) s (if hs_chunk_size h1 = 0 then h1\<lparr>hs_chunk_state := 2\<rparr> else h1)
      else if hs_chunk_state h = 2 then chunk_loop (tl buf) s (h\<lparr>hs_chunk_state := 3\<rparr>)
      else if hs_chunk_state h = 3 then chunk_loop (tl buf) s (h\<lparr>hs_chunk_state := 0\<rparr>)
      else Inl (Undefined ''loop without progress''))"
  by pat_completeness auto

termination
proof (relation "measure (\<lambda>(buf, s, h). 3 * length buf + chunk_weight h)", goal_cases)
  case (2 buf s h line rest h1)
  then have "length rest < length buf"
    using chunk_line_loop_advances [of "hs_chunk_line h" buf] chunk_line_loop_open [of "hs_chunk_line h" buf] by auto
  then show ?case using 2 by (simp add: chunk_weight_def)
next
  case (3 buf s h line rest h1)
  then show ?case using chunk_line_loop_length [of "hs_chunk_line h" buf] by (simp add: chunk_weight_def)
next
  case (4 buf s h line rest h1)
  then have "length rest < length buf"
    using chunk_line_loop_advances [of "hs_chunk_line h" buf] chunk_line_loop_open [of "hs_chunk_line h" buf] by auto
  then show ?case using 4 by (simp add: chunk_weight_def)
next
  case (5 buf s h sz h1)
  then show ?case by (auto simp: chunk_weight_def hs_log_def split: if_splits)
qed (auto simp: chunk_weight_def neq_Nil_conv)

declare chunk_loop.simps [simp del]

definition HTTP_OnRawData :: "string \<Rightarrow> TcpSocket \<Rightarrow> HTTPSocket \<Rightarrow> exn + (TcpSocket \<times> HTTPSocket \<times> string option)" where
  "HTTP_OnRawData buf s h =
     (if hs_header h then Inr (s, h, None)
      else if hs_chunked h then chunk_loop buf s h
      else if \<not> hs_http_1_1 h \<or> \<not> hs_keepalive h then
        let h1 = (hs_log (OnData buf) h)\<lparr>hs_body_size_left := hs_body_size_left h - of_nat (length buf)\<rparr>
        in Inr (s, if hs_body_size_left h1 = 0 then hs_log OnDataComplete h1 else h1, None)
      else
        let sz = (if unat (hs_body_size_left h) < length buf then unat (hs_body_size_left h) else length buf);
            h1 = (hs_log (OnData (take sz buf)) h)\<lparr>hs_body_size_left := hs_body_size_left h - of_nat sz\<rparr>
        in if hs_body_size_left h1 = 0 then next_message (drop sz buf) s (hs_log OnDataComplete h1)
           else Inr (s, h1, None))"

section \<open>Receiving\<close>

text \<open>
  \<open>OnRead(buf, n)\<close> of an HTTP socket: lines, then raw data, then again lines when the raw data held more than a body. It
  ends because what is handed on is shorter each time.
\<close>

lemma OnRead_while_leaves:
  "OnRead_while OnLine n buf i x s u = (buf1, i1, x1, s1, u1) \<Longrightarrow> ts_line_protocol s \<Longrightarrow> \<not> ts_line_protocol s1 \<Longrightarrow> i < i1"
  using OnRead_while_advances [of OnLine n _ _ _ _ _ buf1 i1 x1 s1 u1]
  by (fastforce simp: OnRead_while.simps [of OnLine n buf] split: if_splits prod.splits dest: OnRead_line_advances)

lemma OnRead_for_leaves:
  "OnRead_for OnLine n buf i x s u = (buf1, i1, x1, s1, u1) \<Longrightarrow> ts_line_protocol s \<Longrightarrow> \<not> ts_line_protocol s1 \<Longrightarrow> i < i1"
proof (induction OnLine n buf i x s u rule: OnRead_for.induct)
  case (1 OnLine n buf i x s u)
  obtain buf2 i2 x2 s2 u2 where w: "OnRead_while OnLine n buf i x s u = (buf2, i2, x2, s2, u2)"
    by (cases "OnRead_while OnLine n buf i x s u") auto
  show ?case
  proof (cases "i < n \<and> ts_line_protocol s2")
    case True
    then have "i2 + 1 < i1"
      using "1.IH" [OF _ w [symmetric] refl refl refl] "1.prems" w by (simp add: OnRead_for.simps [of OnLine n buf])
    then show ?thesis using OnRead_while_advances [OF w] by simp
  next
    case False
    then show ?thesis using "1.prems" w OnRead_while_leaves [OF w]
      by (auto simp: OnRead_for.simps [of OnLine n buf] split: if_splits)
  qed
qed

lemma OnRead_lines_raw:
  assumes "OnRead_lines OnLine data s u = (s1, u1, Some raw)"
  shows "if ts_line_protocol s then length raw < length data else raw = data \<and> s1 = s \<and> u1 = u"
proof (cases "ts_line_protocol s")
  case True
  let ?buf = "data @ [CHR 0x00]"
  let ?skip = "ts_skip_c s \<and> is_eol (?buf ! 0) \<and> ?buf ! 0 \<noteq> ts_c s"
  let ?s = "if ?skip then s\<lparr>ts_skip_c := False\<rparr> else s" and ?i = "if ?skip then 1 else 0 :: nat"
  obtain buf1 i x s2 u2 where f: "OnRead_for OnLine (length data) ?buf ?i ?i ?s u = (buf1, i, x, s2, u2)"
    by (cases "OnRead_for OnLine (length data) ?buf ?i ?i ?s u") auto
  with assms True have "\<not> ts_line_protocol s2" "i < length data" "length raw \<le> length data - i"
    by (auto simp: OnRead_lines_def Let_def split: if_splits)
  moreover have "ts_line_protocol ?s" using True by simp
  ultimately have "?i < i" using OnRead_for_leaves [OF f] by blast
  then show ?thesis using True \<open>i < length data\<close> \<open>length raw \<le> length data - i\<close> by auto
qed (use assms in \<open>auto simp: OnRead_lines_def Let_def split: if_splits\<close>)

lemma next_message_rest:
  "next_message rest s h = Inr (s1, h1, Some d) \<Longrightarrow> d = rest \<and> ts_line_protocol s1"
  by (auto simp: next_message_def SetLineProtocol_def DisableInputBuffer_def Let_def split: if_splits)

lemma chunk_loop_rest:
  "chunk_loop buf s h = Inr (s1, h1, Some d) \<Longrightarrow> length d \<le> length buf \<and> ts_line_protocol s1"
proof (induction buf s h rule: chunk_loop.induct)
  case (1 buf s h)
  note len = chunk_line_loop_length [of "hs_chunk_line h" buf]
  consider "buf = []" | "buf \<noteq> []" "hs_chunk_state h = 4" | "buf \<noteq> []" "hs_chunk_state h = 0" | "buf \<noteq> []" "hs_chunk_state h = 1"
    | "buf \<noteq> []" "hs_chunk_state h \<notin> {0, 1, 4}" by blast
  then show ?case
  proof cases
    case 1
    then show ?thesis using "1.prems" by (simp add: chunk_loop.simps [of "[]"])
  next
    case 2
    then show ?thesis using "1.prems" "1.IH"(1) [OF 2 refl refl refl] len next_message_rest
      by (force simp: chunk_loop.simps [of buf] Let_def split: if_splits)
  next
    case 3
    then show ?thesis using "1.prems" "1.IH"(2,3) [OF 3(1) _ 3(2) refl refl refl] len
      by (force simp: chunk_loop.simps [of buf] Let_def split: if_splits)
  next
    case 4
    then show ?thesis using "1.prems" "1.IH"(4) [OF 4(1) _ _ 4(2) refl refl] len
      by (force simp: chunk_loop.simps [of buf] Let_def split: if_splits)
  next
    case 5
    then show ?thesis using "1.prems" "1.IH"(5,6)
      by (force simp: chunk_loop.simps [of buf] Let_def split: if_splits)
  qed
qed

lemma HTTP_OnRawData_rest:
  "HTTP_OnRawData buf s h = Inr (s1, h1, Some d) \<Longrightarrow> length d \<le> length buf \<and> ts_line_protocol s1"
  by (auto simp: HTTP_OnRawData_def Let_def split: if_splits dest!: chunk_loop_rest next_message_rest)

function HTTP_OnRead_buf :: "string \<Rightarrow> TcpSocket \<Rightarrow> HTTPSocket \<Rightarrow> exn + (TcpSocket \<times> HTTPSocket)" where
  "HTTP_OnRead_buf data s h =
     (case OnRead_lines HTTP_OnLine data s (Inr h) of
        (s1, Inl e, raw) \<Rightarrow> Inl e
      | (s1, Inr h1, None) \<Rightarrow> Inr (s1, h1)
      | (s1, Inr h1, Some buf) \<Rightarrow>
          (case HTTP_OnRawData buf s1 h1 of
             Inl e \<Rightarrow> Inl e
           | Inr (s2, h2, None) \<Rightarrow> Inr (s2, h2)
           | Inr (s2, h2, Some rest) \<Rightarrow> HTTP_OnRead_buf rest s2 h2))"
  by pat_completeness auto

termination
  by (relation "measure (\<lambda>(data, s, h). 2 * length data + (if ts_line_protocol s then 0 else 1))")
    (auto dest!: OnRead_lines_raw [OF sym] HTTP_OnRawData_rest split: if_splits)

declare HTTP_OnRead_buf.simps [simp del]

definition HTTP_OnRead :: "int + string \<Rightarrow> TcpSocket \<Rightarrow> HTTPSocket \<Rightarrow> exn + (TcpSocket \<times> HTTPSocket)" where
  "HTTP_OnRead received s h =
     (case received of
        Inl err \<Rightarrow>
          Inr (lose (ts_shutdown s)
                 (ts_log [Ev_LogError ''read'' err, Ev_OnDisconnect, Ev_OnDisconnect_reason TCP_DISCONNECT_ERROR err] s), h)
      | Inr data \<Rightarrow>
          if data = [] then Inr (lose SHUT_WR (ts_log [Ev_OnDisconnect, Ev_OnDisconnect_reason 0 0] s), h)
          else (case take_input data s of Inl e \<Rightarrow> Inl e | Inr s1 \<Rightarrow> HTTP_OnRead_buf data s1 h))"

section \<open>Sending\<close>

text \<open>The header fields to send are in a \<open>std::map\<close> whose keys are compared without regard to case.\<close>

fun nc_less :: "string \<Rightarrow> string \<Rightarrow> bool" where
  "nc_less x [] \<longleftrightarrow> False"
| "nc_less [] (b # y) \<longleftrightarrow> True"
| "nc_less (a # x) (b # y) \<longleftrightarrow>
     code_of (tolower a) < code_of (tolower b) \<or> code_of (tolower a) = code_of (tolower b) \<and> nc_less x y"

definition ncmap_compare :: "string \<Rightarrow> string \<Rightarrow> bool" where
  "ncmap_compare x y = nc_less (c_str x) (c_str y)"

fun nc_put :: "string \<Rightarrow> string \<Rightarrow> (string \<times> string) list \<Rightarrow> (string \<times> string) list" where
  "nc_put k v [] = [(k, v)]"
| "nc_put k v ((k1, v1) # m) =
     (if ncmap_compare k1 k then (k1, v1) # nc_put k v m
      else if ncmap_compare k k1 then (k, v) # (k1, v1) # m
      else (k1, v) # m)"

definition AddResponseHeader :: "string \<Rightarrow> string \<Rightarrow> HTTPSocket \<Rightarrow> HTTPSocket" where
  "AddResponseHeader x y h = h\<lparr>hs_response_header := nc_put x y (hs_response_header h)\<rparr>"

definition AppendResponseHeader :: "string \<Rightarrow> string \<Rightarrow> HTTPSocket \<Rightarrow> HTTPSocket" where
  "AppendResponseHeader x y h = h\<lparr>hs_response_header_append := hs_response_header_append h @ [(x, y)]\<rparr>"

definition ResponseHeaderIsSet :: "string \<Rightarrow> HTTPSocket \<Rightarrow> bool" where
  "ResponseHeaderIsSet name h \<longleftrightarrow>
     list_ex (\<lambda>(k, v). \<not> ncmap_compare k name \<and> \<not> ncmap_compare name k) (hs_response_header h) \<or>
     list_ex (\<lambda>(k, v). map tolower (c_str k) = map tolower (c_str name)) (hs_response_header_append h)"

definition SetMethod :: "string \<Rightarrow> HTTPSocket \<Rightarrow> HTTPSocket" where
  "SetMethod x h = h\<lparr>hs_method := x\<rparr>"

definition SetUrl :: "string \<Rightarrow> HTTPSocket \<Rightarrow> HTTPSocket" where
  "SetUrl x h = h\<lparr>hs_url := x\<rparr>"

definition SetUri :: "string \<Rightarrow> HTTPSocket \<Rightarrow> HTTPSocket" where
  "SetUri x h = h\<lparr>hs_uri := x\<rparr>"

definition SetHttpVersion :: "string \<Rightarrow> HTTPSocket \<Rightarrow> HTTPSocket" where
  "SetHttpVersion x h = h\<lparr>hs_http_version := x\<rparr>"

definition SetStatus :: "string \<Rightarrow> HTTPSocket \<Rightarrow> HTTPSocket" where
  "SetStatus x h = h\<lparr>hs_status := x\<rparr>"

definition SetStatusText :: "string \<Rightarrow> HTTPSocket \<Rightarrow> HTTPSocket" where
  "SetStatusText x h = h\<lparr>hs_status_text := x\<rparr>"

definition field_text :: "string \<times> string \<Rightarrow> string" where
  "field_text kv = fst kv @ '': '' @ snd kv @ CRLF"

definition response_text :: "HTTPSocket \<Rightarrow> string" where
  "response_text h =
     hs_http_version h @ '' '' @ hs_status h @ '' '' @ hs_status_text h @ CRLF @
     concat (map field_text (hs_response_header h)) @ concat (map field_text (hs_response_header_append h)) @ CRLF"

definition SendResponse ::
    "(string \<Rightarrow> 'k \<Rightarrow> int \<times> int \<times> 'k) \<Rightarrow> (nat \<Rightarrow> string) \<Rightarrow> HTTPSocket \<Rightarrow> TcpSocket \<Rightarrow> 'k \<Rightarrow> exn + (TcpSocket \<times> 'k)" where
  "SendResponse send alloc h s k = Send send alloc (response_text h) s k"

definition http_request_text :: "HTTPSocket \<Rightarrow> string" where
  "http_request_text h =
     hs_method h @ '' '' @ hs_url h @ '' '' @ hs_http_version h @ CRLF @ concat (map field_text (hs_response_header h)) @ CRLF"

definition SendRequest ::
    "(string \<Rightarrow> 'k \<Rightarrow> int \<times> int \<times> 'k) \<Rightarrow> (nat \<Rightarrow> string) \<Rightarrow> HTTPSocket \<Rightarrow> TcpSocket \<Rightarrow> 'k \<Rightarrow> exn + (TcpSocket \<times> 'k)" where
  "SendRequest send alloc h s k = Send send alloc (http_request_text h) s k"

definition Reset :: "TcpSocket \<Rightarrow> HTTPSocket \<Rightarrow> TcpSocket \<times> HTTPSocket" where
  "Reset s h =
     (SetLineProtocol True s,
      h\<lparr>hs_first := True, hs_header := True, hs_request := False, hs_response := False,
        hs_response_header := [], hs_response_header_append := []\<rparr>)"

text \<open>
  \<open>url_this\<close>: protocol, host, port, the rest and its last part, which is left as it was when there is none. The
  first result is whether \<open>EnableSSL\<close> is called.
\<close>

definition url_this :: "string \<Rightarrow> string \<Rightarrow> exn + (bool \<times> string \<times> string \<times> 16 word \<times> string \<times> string)" where
  "url_this url_in file =
     (let p1 = getword (Parse_new url_in ''/'' False); protocol = pa_ord p1;
          ssl = (map tolower (c_str protocol) = ''https:''); port = (if ssl then 443 else 80);
          p2 = getword p1; host = pa_ord p2; url = ''/'' @ fst (getrest p2);
          ws = all_words (Parse_new url ''/'' False); file1 = (if ws = [] then file else last ws)
      in if CHR '':'' \<in> set (c_str host) then
           let q = getword (Parse_new host '':'' False)
           in (case fst (getvalue q) of
                 Inl e \<Rightarrow> Inl e
               | Inr n \<Rightarrow> Inr (ssl, protocol, pa_ord q, of_int n, url, file1))
         else Inr (ssl, protocol, host, port, url, file1))"

section \<open>Bodies in chunks\<close>

text \<open>
  A line with the size of a chunk: hexadecimal digits, and possibly an extension after a semicolon. A body is
  a list of chunks, each with its line, and a last line with the size zero.
\<close>

definition hex_nat :: "string \<Rightarrow> nat" where
  "hex_nat ds = fold (\<lambda>c v. v * 16 + nat (hex_value c)) ds 0"

definition size_line :: "string \<Rightarrow> nat \<Rightarrow> bool" where
  "size_line l n \<longleftrightarrow>
     plain_line l \<and> takeWhile isxdigit l \<noteq> [] \<and> hex_nat (takeWhile isxdigit l) = n \<and> n < 2 ^ 32 \<and>
     (case dropWhile isxdigit l of [] \<Rightarrow> True | c # r \<Rightarrow> c = CHR '';'')"

definition chunk_ok :: "string \<times> string \<Rightarrow> bool" where
  "chunk_ok lc \<longleftrightarrow> size_line (fst lc) (length (snd lc)) \<and> snd lc \<noteq> []"

definition chunked_text :: "(string \<times> string) list \<Rightarrow> string \<Rightarrow> string" where
  "chunked_text cs z = concat (map (\<lambda>(l, c). l @ CRLF @ c @ CRLF) cs) @ z @ CRLF @ CRLF"

lemma xdigit_value: "isxdigit c \<Longrightarrow> 0 \<le> hex_value c"
  by (auto simp: isxdigit_def hex_value_def schar_def is_digit_def)

lemma hex2unsigned_nat: "list_all isxdigit ds \<Longrightarrow> hex2unsigned ds = of_nat (hex_nat ds)"
proof -
  have "list_all isxdigit ds \<Longrightarrow>
    fold (\<lambda>c r. r * 16 + of_int (hex_value c)) ds (of_nat v :: 32 word) = of_nat (fold (\<lambda>c v. v * 16 + nat (hex_value c)) ds v)" for v
  proof (induction ds arbitrary: v)
    case (Cons c ds)
    have "(of_nat v * 16 + of_int (hex_value c) :: 32 word) = of_nat (v * 16 + nat (hex_value c))"
      using xdigit_value [of c] Cons.prems by (simp add: of_nat_nat)
    then show ?case using Cons.IH [of "v * 16 + nat (hex_value c)"] Cons.prems by simp
  qed simp
  from this [of 0] show "list_all isxdigit ds \<Longrightarrow> ?thesis" by (simp add: hex2unsigned_def hex_nat_def)
qed

lemma xdigit_not_sep: "isxdigit c \<Longrightarrow> \<not> isblank4 c \<and> c \<noteq> CHR '';''"
  by (auto simp: isxdigit_def isblank4_def is_digit_def code_of_def)

lemma size_of_size_line:
  assumes "size_line l n"
  shows "size_of_line (l @ CRLF) = n"
proof -
  let ?p = "Parse_new l '';'' False"
  define ds r where "ds = takeWhile isxdigit l" and "r = dropWhile isxdigit l"
  have l: "l = ds @ r" by (simp add: ds_def r_def)
  have p: "Parse_Words.plain ?p" using assms
    by (auto simp: size_line_def plain_line_def Parse_Words.plain_def Parse_new_def list_all_iff)
  have sep: "sep ?p = (\<lambda>c. isblank4 c \<or> c = CHR '';'')" by (simp add: sep_def [abs_def] issplit_def Parse_new_def)
  have ds: "ds \<noteq> []" "list_all isxdigit ds" "hex_nat ds = n" "n < 2 ^ 32"
    using assms by (auto simp: size_line_def ds_def list_all_iff dest: set_takeWhileD)
  then have ns: "\<forall>c \<in> set ds. \<not> sep ?p c" unfolding sep using xdigit_not_sep by (auto simp: list_all_iff)
  have "takeWhile (\<lambda>c. \<not> sep ?p c) r = []"
    using assms unfolding sep size_line_def r_def [symmetric] by (cases r) simp_all
  then have "takeWhile (\<lambda>c. \<not> sep ?p c) l = ds" using ns unfolding l by (simp add: takeWhile_append)
  moreover have "dropWhile (sep ?p) l = l" using ns ds(1) unfolding l by (cases ds) simp_all
  ultimately have "pa_ord (getword ?p) = ds" unfolding getword_plain(1) [OF p] by (simp add: Parse_new_def)
  moreover have "take (length (l @ CRLF) - 2) (l @ CRLF) = l" by (simp add: CRLF_def)
  ultimately show ?thesis using ds hex2unsigned_nat [OF ds(2)] by (simp add: size_of_line_def unat_of_nat del: length_append)
qed

text \<open>The line of a chunk is complete exactly when all of it and its end have been read.\<close>

lemma line_open:
  assumes "plain_line l" and "k \<le> length l + 1"
  shows "\<not> ends_crlf (take k (l @ CRLF))"
proof
  let ?t = "take k (l @ CRLF)"
  assume e: "ends_crlf ?t"
  then have d: "drop (length ?t - 2) ?t = CRLF" unfolding ends_crlf_def by (rule conjunct2)
  have "CHR 0x0A \<in> set CRLF" by (simp add: CRLF_def)
  then have "CHR 0x0A \<in> set (drop (length ?t - 2) ?t)" unfolding d .
  then have "CHR 0x0A \<in> set ?t" by (rule in_set_dropD)
  then have "CHR 0x0A \<in> set l \<union> set (take (k - length l) CRLF)" by (auto dest: in_set_takeD)
  moreover have "set (take m CRLF) \<subseteq> {CHR 0x0D}" if "m \<le> 1" for m using that by (cases m) (simp_all add: CRLF_def)
  then have "set (take (k - length l) CRLF) \<subseteq> {CHR 0x0D}" using assms(2) by simp
  moreover have "CHR 0x0A \<notin> set l" by (rule plain_no_eol [OF assms(1)]) (simp add: is_eol_def code_of_def)
  ultimately show False by auto
qed

lemma ends_crlf_line: "ends_crlf (l @ CRLF)"
  by (simp add: ends_crlf_def CRLF_def)

lemma chunk_line_loop_eq:
  assumes "plain_line l"
  shows "line @ buf @ rest = l @ CRLF @ tail \<Longrightarrow> length line \<le> length l + 1 \<Longrightarrow>
    chunk_line_loop line buf =
      (if length line + length buf < length l + 2 then (line @ buf, []) else (l @ CRLF, drop (length l + 2 - length line) buf))"
proof (induction buf arbitrary: line)
  case Nil
  then show ?case by simp
next
  case (Cons ch buf)
  have "line = take (length line) (l @ CRLF)" using Cons.prems(2)
    arg_cong [OF Cons.prems(1), of "take (length line)"] by (auto simp: CRLF_def take_Cons')
  then have "\<not> ends_crlf line" using line_open [OF assms Cons.prems(2)] by metis
  then have st: "chunk_line_loop line (ch # buf) = chunk_line_loop (line @ [ch]) buf" by (auto simp: ends_crlf_def)
  show ?case
  proof (cases "length line = length l + 1")
    case True
    then have "line @ [ch] = l @ CRLF" using arg_cong [OF Cons.prems(1), of "take (length l + 2)"] by (simp add: CRLF_def)
    moreover have "chunk_line_loop (l @ CRLF) buf = (l @ CRLF, buf)"
      by (cases buf) (use ends_crlf_line [of l] in \<open>auto simp: ends_crlf_def\<close>)
    ultimately show ?thesis using st True by simp
  next
    case False
    then show ?thesis using Cons.IH [of "line @ [ch]"] Cons.prems st by (simp add: Suc_diff_le)
  qed
qed

text \<open>
  What the socket waits for: \<open>rest\<close> is what is still to come of a body, and \<open>todo\<close> the data in it that has not been
  given to the client.
\<close>

definition head_line :: "(string \<times> string) list \<Rightarrow> string \<Rightarrow> string" where
  "head_line cs z = (case cs of [] \<Rightarrow> z | (l, c) # cs1 \<Rightarrow> l)"

definition body_data :: "(string \<times> string) list \<Rightarrow> string" where
  "body_data cs = concat (map snd cs)"

definition awaits :: "HTTPSocket \<Rightarrow> string \<Rightarrow> string \<Rightarrow> bool" where
  "awaits h rest todo \<longleftrightarrow>
     (\<exists>cs z. list_all chunk_ok cs \<and> size_line z 0 \<and>
        (hs_chunk_state h = 0 \<and> hs_chunk_line h @ rest = chunked_text cs z \<and> length (hs_chunk_line h) \<le> length (head_line cs z) + 1 \<and>
           todo = body_data cs \<or>
         hs_chunk_state h = 1 \<and> hs_chunk_line h = [] \<and>
           (\<exists>c. c \<noteq> [] \<and> hs_chunk_size h = length c \<and> rest = c @ CRLF @ chunked_text cs z \<and> todo = c @ body_data cs) \<or>
         hs_chunk_state h = 2 \<and> hs_chunk_line h = [] \<and> rest = CRLF @ chunked_text cs z \<and> todo = body_data cs \<or>
         hs_chunk_state h = 3 \<and> hs_chunk_line h = [] \<and> rest = CHR 0x0A # chunked_text cs z \<and> todo = body_data cs \<or>
         hs_chunk_state h = 4 \<and> hs_chunk_line h @ rest = CRLF \<and> length (hs_chunk_line h) \<le> 1 \<and> todo = []))"

text \<open>One turn of the loop either goes on with a smaller rest of the data or is the last of the body.\<close>

definition turn :: "string \<Rightarrow> TcpSocket \<Rightarrow> HTTPSocket \<Rightarrow> string \<Rightarrow> string \<Rightarrow> bool" where
  "turn buf s h rest todo \<longleftrightarrow>
     (\<exists>buf1 h1 todo1 ds. chunk_loop buf s h = chunk_loop buf1 s h1 \<and>
        3 * length buf1 + chunk_weight h1 < 3 * length buf + chunk_weight h \<and> awaits h1 (buf1 @ rest) todo1 \<and>
        hs_header h1 = hs_header h \<and> hs_chunked h1 = hs_chunked h \<and>
        todo = concat ds @ todo1 \<and> hs_events h1 = hs_events h @ map OnData ds) \<or>
     (rest = [] \<and> todo = [] \<and> (\<exists>h1. chunk_loop buf s h = Inr (SetLineProtocol True s, h1, None) \<and>
        hs_first h1 \<and> hs_header h1 \<and> \<not> hs_chunked h1 \<and> hs_events h1 = hs_events h @ [OnDataComplete]))"

lemma turn_more:
  "chunk_loop buf s h = chunk_loop buf1 s h1 \<Longrightarrow> awaits h1 (buf1 @ rest) todo1 \<Longrightarrow>
   3 * length buf1 + chunk_weight h1 < 3 * length buf + chunk_weight h \<Longrightarrow>
   hs_header h1 = hs_header h \<Longrightarrow> hs_chunked h1 = hs_chunked h \<Longrightarrow>
   todo = concat ds @ todo1 \<Longrightarrow> hs_events h1 = hs_events h @ map OnData ds \<Longrightarrow> turn buf s h rest todo"
  unfolding turn_def by blast

lemma head_line_text:
  obtains tail where "chunked_text cs z = head_line cs z @ CRLF @ tail"
  by (cases cs) (auto simp: chunked_text_def head_line_def)

lemma head_line_ok: "list_all chunk_ok cs \<Longrightarrow> size_line z 0 \<Longrightarrow> plain_line (head_line cs z)"
  by (cases cs) (auto simp: head_line_def chunk_ok_def size_line_def)

lemma turn_line:
  assumes buf: "buf \<noteq> []" and st: "hs_chunk_state h = 0" and cs: "list_all chunk_ok cs" "size_line z 0"
    and txt1: "hs_chunk_line h @ buf @ rest = chunked_text cs z" and len: "length (hs_chunk_line h) \<le> length (head_line cs z) + 1"
  shows "turn buf s h rest (body_data cs)"
proof -
  let ?l = "head_line cs z" and ?line = "hs_chunk_line h"
  obtain tail where t: "chunked_text cs z = ?l @ CRLF @ tail" by (rule head_line_text)
  note loop = chunk_line_loop_eq [OF head_line_ok [OF cs] txt1 [unfolded t] len]
  show ?thesis
  proof (cases "length ?line + length buf < length ?l + 2")
    case True
    then have e: "chunk_line_loop ?line buf = (?line @ buf, [])" using loop by simp
    have "?line @ buf = take (length (?line @ buf)) (?l @ CRLF)"
      using True arg_cong [OF txt1 [unfolded t], of "take (length (?line @ buf))"] by (simp add: CRLF_def take_Cons')
    moreover have "length (?line @ buf) \<le> length ?l + 1" using True by simp
    ultimately have "\<not> ends_crlf (?line @ buf)" using line_open [OF head_line_ok [OF cs]] by metis
    then have "chunk_loop buf s h = chunk_loop [] s (h\<lparr>hs_chunk_line := ?line @ buf\<rparr>)"
      using buf st e by (simp add: chunk_loop.simps [of buf])
    moreover have "awaits (h\<lparr>hs_chunk_line := ?line @ buf\<rparr>) ([] @ rest) (body_data cs)"
      unfolding awaits_def using cs txt1 True st by (intro exI [of _ cs] exI [of _ z]) simp
    ultimately show ?thesis by (rule turn_more [where ds = "[]"]) (use buf st in \<open>simp_all add: chunk_weight_def\<close>)
  next
    case False
    let ?rest = "drop (length ?l + 2 - length ?line) buf"
    have e: "chunk_line_loop ?line buf = (?l @ CRLF, ?rest)" using loop False by simp
    have r: "?rest @ rest = tail"
      using arg_cong [OF txt1 [unfolded t], of "drop (length ?l + 2)"] False len by (simp add: CRLF_def)
    let ?n = "size_of_line (?l @ CRLF)"
    let ?h = "h\<lparr>hs_chunk_size := ?n, hs_chunk_state := (if ?n = 0 then 4 else 1), hs_chunk_line := []\<rparr>"
    have "chunk_loop buf s h = chunk_loop ?rest s ?h"
      using buf st e ends_crlf_line by (simp add: chunk_loop.simps [of buf] Let_def)
    moreover have "awaits ?h (?rest @ rest) (body_data cs)"
    proof (cases cs)
      case Nil
      then have "?n = 0" "tail = CRLF" "body_data cs = []"
        using size_of_size_line [OF cs(2)] t by (simp_all add: head_line_def chunked_text_def body_data_def)
      then show ?thesis unfolding awaits_def r using cs by (intro exI [of _ "[]"] exI [of _ z]) simp
    next
      case (Cons lc cs1)
      obtain l c where lc: "lc = (l, c)" by (cases lc)
      then have "?n = length c" "c \<noteq> []" "tail = c @ CRLF @ chunked_text cs1 z" "body_data cs = c @ body_data cs1" "list_all chunk_ok cs1"
        using size_of_size_line [of l "length c"] cs(1) t Cons
        by (simp_all add: head_line_def chunked_text_def body_data_def chunk_ok_def)
      then show ?thesis unfolding awaits_def r using cs by (intro exI [of _ cs1] exI [of _ z]) simp
    qed
    moreover have "length ?rest \<le> length buf" "chunk_weight ?h = 1" "chunk_weight h = 2" using st by (simp_all add: chunk_weight_def)
    then have "3 * length ?rest + chunk_weight ?h < 3 * length buf + chunk_weight h" by linarith
    ultimately show ?thesis by (rule turn_more [where ds = "[]"]) simp_all
  qed
qed

lemma turn_data:
  assumes buf: "buf \<noteq> []" and st: "hs_chunk_state h = 1" "hs_chunk_line h = []" and cs: "list_all chunk_ok cs" "size_line z 0"
    and c: "c \<noteq> []" "hs_chunk_size h = length c" and eq: "buf @ rest = c @ CRLF @ chunked_text cs z"
  shows "turn buf s h rest (c @ body_data cs)"
proof (cases "length c < length buf \<or> length c = length buf")
  case True
  let ?h = "(hs_log (OnData c) h)\<lparr>hs_chunk_size := 0, hs_chunk_state := 2\<rparr>" and ?buf = "drop (length c) buf"
  have tk: "take (length c) buf = c" using True arg_cong [OF eq, of "take (length c)"] by auto
  have "chunk_loop buf s h = chunk_loop ?buf s ?h"
  proof (cases "length c = length buf")
    case True
    then have "c = buf" using tk by simp
    then show ?thesis using buf st c(2) by (subst chunk_loop.simps) (simp add: hs_log_def)
  next
    case False
    then have "length c < length buf" using True by simp
    then show ?thesis using buf st c(2) tk by (subst chunk_loop.simps) (simp add: hs_log_def)
  qed
  moreover have "?buf @ rest = CRLF @ chunked_text cs z" using True arg_cong [OF eq, of "drop (length c)"] by auto
  then have "awaits ?h (?buf @ rest) (body_data cs)"
    unfolding awaits_def using cs st by (intro exI [of _ cs] exI [of _ z]) (simp add: hs_log_def)
  moreover have "length ?buf < length buf" using buf c by simp
  then have "3 * length ?buf + chunk_weight ?h < 3 * length buf + chunk_weight h" by (simp add: chunk_weight_def)
  ultimately show ?thesis by (rule turn_more [where ds = "[c]"]) (simp_all add: hs_log_def)
next
  case False
  let ?c = "drop (length buf) c"
  let ?h = "(hs_log (OnData buf) h)\<lparr>hs_chunk_size := length ?c\<rparr>"
  have b: "buf = take (length buf) c" using False arg_cong [OF eq, of "take (length buf)"] by auto
  then have ca: "c = buf @ ?c" by (metis append_take_drop_id)
  have "chunk_loop buf s h = chunk_loop [] s ?h"
    using buf st c False by (auto simp: chunk_loop.simps [of buf] Let_def hs_log_def)
  moreover have "rest = ?c @ CRLF @ chunked_text cs z" using False arg_cong [OF eq, of "drop (length buf)"] by auto
  then have "awaits ?h ([] @ rest) (?c @ body_data cs)"
    unfolding awaits_def using cs st False by (intro exI [of _ cs] exI [of _ z]) (simp add: hs_log_def)
  moreover have "3 * length ([] :: string) + chunk_weight ?h < 3 * length buf + chunk_weight h"
    using buf st by (simp add: chunk_weight_def hs_log_def)
  ultimately show ?thesis
    by (rule turn_more [where ds = "[buf]"]) (use ca in \<open>simp_all add: hs_log_def flip: append_assoc\<close>)
qed

lemma turn_skip:
  assumes buf: "buf \<noteq> []" and st: "hs_chunk_line h = []" and cs: "list_all chunk_ok cs" "size_line z 0"
    and eq: "hs_chunk_state h = 2 \<and> buf @ rest = CRLF @ chunked_text cs z \<or> hs_chunk_state h = 3 \<and> buf @ rest = CHR 0x0A # chunked_text cs z"
  shows "turn buf s h rest (body_data cs)"
proof -
  let ?h = "h\<lparr>hs_chunk_state := (if hs_chunk_state h = 2 then 3 else 0)\<rparr>"
  obtain ch buf1 where b: "buf = ch # buf1" using buf by (cases buf) auto
  have "chunk_loop buf s h = chunk_loop (tl buf) s ?h" using buf eq by (auto simp: chunk_loop.simps [of buf])
  moreover have "awaits ?h (tl buf @ rest) (body_data cs)"
    unfolding awaits_def using cs st eq b by (intro exI [of _ cs] exI [of _ z]) (auto simp: CRLF_def)
  ultimately show ?thesis by (rule turn_more [where ds = "[]"]) (use b eq in \<open>auto simp: chunk_weight_def\<close>)
qed

lemma turn_end:
  assumes buf: "buf \<noteq> []" and st: "hs_chunk_state h = 4" and eq: "hs_chunk_line h @ buf @ rest = CRLF" and len: "length (hs_chunk_line h) \<le> 1"
    and z: "size_line z 0"
  shows "turn buf s h rest []"
proof -
  let ?line = "hs_chunk_line h"
  have pl: "plain_line []" by (simp add: plain_line_def)
  have l2: "length ?line + length buf + length rest = 2" using arg_cong [OF eq, of length] by (simp add: CRLF_def)
  have loop: "chunk_line_loop ?line buf = (if length ?line + length buf < 2 then (?line @ buf, []) else (CRLF, drop (2 - length ?line) buf))"
    using chunk_line_loop_eq [OF pl, of ?line buf rest "[]"] eq len by (simp add: numeral_2_eq_2)
  show ?thesis
  proof (cases "length ?line + length buf < 2")
    case True
    then have "chunk_loop buf s h = chunk_loop [] s (h\<lparr>hs_chunk_line := ?line @ buf\<rparr>)"
      using buf st loop by (simp add: chunk_loop.simps [of buf] ends_crlf_def)
    moreover have "awaits (h\<lparr>hs_chunk_line := ?line @ buf\<rparr>) ([] @ rest) []"
      unfolding awaits_def using z eq True st by (intro exI [of _ "[]"] exI [of _ z]) simp
    ultimately show ?thesis by (rule turn_more [where ds = "[]"]) (use buf st in \<open>simp_all add: chunk_weight_def\<close>)
  next
    case False
    then have "length rest = 0" using l2 by linarith
    then have e: "chunk_line_loop ?line buf = (CRLF, [])" "rest = []" using False loop l2 by simp_all
    have "ends_crlf CRLF" using ends_crlf_line [of "[]"] by simp
    then show ?thesis unfolding turn_def using buf st e
      by (intro disjI2) (simp add: chunk_loop.simps [of buf] next_message_def hs_log_def Let_def)
  qed
qed

lemma awaits_turn:
  assumes "buf \<noteq> []" and "awaits h (buf @ rest) todo"
  shows "turn buf s h rest todo"
  using assms(2) turn_line [OF assms(1)] turn_data [OF assms(1)] turn_skip [OF assms(1)] turn_end [OF assms(1)]
  unfolding awaits_def by blast

lemma awaits_more: "awaits h rest todo \<Longrightarrow> rest \<noteq> []"
proof
  assume a: "awaits h rest todo" and r: "rest = []"
  have long: "length (head_line cs z) + 2 \<le> length (chunked_text cs z)" for cs z
    by (rule head_line_text [of cs z]) (simp add: CRLF_def)
  from a r obtain cs z where
    "hs_chunk_line h = chunked_text cs z \<and> length (hs_chunk_line h) \<le> length (head_line cs z) + 1 \<or>
     hs_chunk_line h = CRLF \<and> length (hs_chunk_line h) \<le> 1"
    unfolding awaits_def by (auto simp: CRLF_def)
  then show False using long [of cs z] by (auto simp: CRLF_def)
qed

text \<open>The loop over one piece of a body.\<close>

definition received_part :: "TcpSocket \<Rightarrow> HTTPSocket \<Rightarrow> string \<Rightarrow> string \<Rightarrow> TcpSocket \<Rightarrow> HTTPSocket \<Rightarrow> bool" where
  "received_part s h rest todo s1 h1 \<longleftrightarrow>
     (\<exists>ds. if rest = [] then
             s1 = SetLineProtocol True s \<and> hs_first h1 \<and> hs_header h1 \<and> \<not> hs_chunked h1 \<and> concat ds = todo \<and>
             hs_events h1 = hs_events h @ map OnData ds @ [OnDataComplete]
           else
             \<exists>todo1. s1 = s \<and> hs_header h1 = hs_header h \<and> hs_chunked h1 = hs_chunked h \<and> awaits h1 rest todo1 \<and> todo = concat ds @ todo1 \<and>
               hs_events h1 = hs_events h @ map OnData ds)"

lemma chunk_loop_part:
  "awaits h (buf @ rest) todo \<Longrightarrow> \<exists>s1 h1. chunk_loop buf s h = Inr (s1, h1, None) \<and> received_part s h rest todo s1 h1"
proof (induction "3 * length buf + chunk_weight h" arbitrary: buf h todo rule: less_induct)
  case less
  show ?case
  proof (cases "buf = []")
    case True
    then have "chunk_loop buf s h = Inr (s, h, None)" "awaits h rest todo" using less.prems by (simp_all add: chunk_loop.simps [of "[]"])
    moreover have "received_part s h rest todo s h"
      unfolding received_part_def using calculation(2) awaits_more by (intro exI [of _ "[]"]) auto
    ultimately show ?thesis by blast
  next
    case False
    from awaits_turn [OF this less.prems, of s] consider
      (more) buf1 h1 todo1 ds where "chunk_loop buf s h = chunk_loop buf1 s h1"
        "3 * length buf1 + chunk_weight h1 < 3 * length buf + chunk_weight h" "awaits h1 (buf1 @ rest) todo1"
        "hs_header h1 = hs_header h" "hs_chunked h1 = hs_chunked h"
        "todo = concat ds @ todo1" "hs_events h1 = hs_events h @ map OnData ds"
      | (last) h1 where "rest = []" "todo = []" "chunk_loop buf s h = Inr (SetLineProtocol True s, h1, None)"
          "hs_first h1" "hs_header h1" "\<not> hs_chunked h1" "hs_events h1 = hs_events h @ [OnDataComplete]"
      unfolding turn_def by blast
    then show ?thesis
    proof cases
      case more
      from less.hyps [OF more(2,3)] obtain s2 h2 where
        r: "chunk_loop buf1 s h1 = Inr (s2, h2, None)" "received_part s h1 rest todo1 s2 h2" by blast
      then obtain ds2 where "if rest = [] then
             s2 = SetLineProtocol True s \<and> hs_first h2 \<and> hs_header h2 \<and> \<not> hs_chunked h2 \<and> concat ds2 = todo1 \<and>
             hs_events h2 = hs_events h1 @ map OnData ds2 @ [OnDataComplete]
           else
             \<exists>todo2. s2 = s \<and> hs_header h2 = hs_header h1 \<and> hs_chunked h2 = hs_chunked h1 \<and> awaits h2 rest todo2 \<and>
               todo1 = concat ds2 @ todo2 \<and> hs_events h2 = hs_events h1 @ map OnData ds2"
        unfolding received_part_def by blast
      then have "received_part s h rest todo s2 h2"
        unfolding received_part_def using more by (intro exI [of _ "ds @ ds2"]) (auto split: if_splits)
      then show ?thesis using r(1) more(1) by auto
    next
      case last
      then have "received_part s h rest todo (SetLineProtocol True s) h1"
        unfolding received_part_def by (intro exI [of _ "[]"]) auto
      then show ?thesis using last(3) by blast
    qed
  qed
qed

text \<open>One piece after the other.\<close>

fun HTTP_OnRead_all :: "string list \<Rightarrow> TcpSocket \<Rightarrow> HTTPSocket \<Rightarrow> exn + (TcpSocket \<times> HTTPSocket)" where
  "HTTP_OnRead_all [] s h = Inr (s, h)"
| "HTTP_OnRead_all (d # ds) s h =
     (case HTTP_OnRead (Inr d) s h of Inl e \<Rightarrow> Inl e | Inr (s1, h1) \<Rightarrow> HTTP_OnRead_all ds s1 h1)"

lemma take_input_ok:
  assumes "recv_piece d" and "cb_inv (ts_ibuf s)"
  shows "\<exists>s1. take_input d s = Inr s1 \<and> cb_inv (ts_ibuf s1) \<and> ts_line_protocol s1 = ts_line_protocol s"
proof (cases "cb_max (ts_ibuf s) < cb_q (ts_ibuf s) + length d")
  case True
  then show ?thesis using assms cb_Write_full [OF True]
    by (auto simp: take_input_def recv_piece_def Let_def ts_log_def)
next
  case False
  then obtain c1 where "CircularBuffer_Write d (ts_ibuf s) = Inr (True, c1)" "cb_inv c1"
    using cb_Write_fits [OF assms(2), of d] by auto
  then show ?thesis using assms by (auto simp: take_input_def recv_piece_def Let_def)
qed

lemma body_piece:
  assumes d: "recv_piece d" and s: "\<not> ts_line_protocol s" "cb_inv (ts_ibuf s)" and h: "\<not> hs_header h" "hs_chunked h"
    and a: "awaits h (d @ rest) todo"
  shows "\<exists>s1 s2 h1. cb_inv (ts_ibuf s1) \<and> \<not> ts_line_protocol s1 \<and>
    HTTP_OnRead (Inr d) s h = Inr (s2, h1) \<and> received_part s1 h rest todo s2 h1"
proof -
  obtain s1 where s1: "take_input d s = Inr s1" "cb_inv (ts_ibuf s1)" "\<not> ts_line_protocol s1"
    using take_input_ok [OF d s(2)] s(1) by auto
  obtain s2 h1 where r: "chunk_loop d s1 h = Inr (s2, h1, None)" "received_part s1 h rest todo s2 h1"
    using chunk_loop_part [OF a, of s1] by auto
  have "OnRead_lines HTTP_OnLine d s1 (Inr h) = (s1, Inr h, Some d)" using d s1(3) by (simp add: OnRead_lines_def recv_piece_def)
  then have "HTTP_OnRead (Inr d) s h = Inr (s2, h1)"
    using d s1(1) h r(1) by (simp add: HTTP_OnRead_def HTTP_OnRead_buf.simps [of d] HTTP_OnRawData_def recv_piece_def)
  then show ?thesis using s1 r(2) by blast
qed

lemma body_pieces:
  "list_all recv_piece pieces \<Longrightarrow> \<not> ts_line_protocol s \<Longrightarrow> cb_inv (ts_ibuf s) \<Longrightarrow> \<not> hs_header h \<Longrightarrow> hs_chunked h \<Longrightarrow>
   awaits h (concat pieces) todo \<Longrightarrow>
   \<exists>s1 h1 ds. HTTP_OnRead_all pieces s h = Inr (s1, h1) \<and> concat ds = todo \<and>
     hs_events h1 = hs_events h @ map OnData ds @ [OnDataComplete] \<and> ts_line_protocol s1 \<and> hs_first h1 \<and> hs_header h1"
proof (induction pieces arbitrary: s h todo)
  case Nil
  then show ?case using awaits_more by fastforce
next
  case (Cons d pieces)
  then have d: "recv_piece d" "awaits h (d @ concat pieces) todo" by simp_all
  obtain s1 s2 h1 where r: "cb_inv (ts_ibuf s1)" "\<not> ts_line_protocol s1" "HTTP_OnRead (Inr d) s h = Inr (s2, h1)"
      "received_part s1 h (concat pieces) todo s2 h1"
    using body_piece [OF d(1) Cons.prems(2-5) d(2)] by blast
  then obtain ds where p: "if concat pieces = [] then
        s2 = SetLineProtocol True s1 \<and> hs_first h1 \<and> hs_header h1 \<and> \<not> hs_chunked h1 \<and> concat ds = todo \<and>
        hs_events h1 = hs_events h @ map OnData ds @ [OnDataComplete]
      else
        \<exists>todo1. s2 = s1 \<and> hs_header h1 = hs_header h \<and> hs_chunked h1 = hs_chunked h \<and> awaits h1 (concat pieces) todo1 \<and>
          todo = concat ds @ todo1 \<and> hs_events h1 = hs_events h @ map OnData ds"
    unfolding received_part_def by blast
  show ?case
  proof (cases "concat pieces = []")
    case True
    then have "pieces = []" using Cons.prems(1) by (cases pieces) (auto simp: recv_piece_def)
    then show ?thesis using p r(3) True by (auto simp: SetLineProtocol_def DisableInputBuffer_def)
  next
    case False
    then obtain todo1 where q: "s2 = s1" "hs_header h1 = hs_header h" "hs_chunked h1 = hs_chunked h" "awaits h1 (concat pieces) todo1"
        "todo = concat ds @ todo1" "hs_events h1 = hs_events h @ map OnData ds" using p unfolding if_not_P [OF False] by blast
    obtain s3 h3 ds3 where "HTTP_OnRead_all pieces s1 h1 = Inr (s3, h3)" "concat ds3 = todo1"
        "hs_events h3 = hs_events h1 @ map OnData ds3 @ [OnDataComplete]" "ts_line_protocol s3" "hs_first h3" "hs_header h3"
      using Cons.IH [of s1 h1 todo1] Cons.prems q r by auto
    then show ?thesis using r(3) q by (intro exI [of _ s3] exI [of _ h3] exI [of _ "ds @ ds3"]) simp
  qed
qed

text \<open>
  C40 (roundtrip). The first body in chunks that a connection brings (the loop is in its initial state), whatever the sizes and
  extensions of the chunks, arrives as its data: however the network cuts the text into pieces, also inside of the lines with
  the sizes and of their ends, the data given to the client is, put together, the data of the chunks; then the client
  is told once that it is complete, and the socket is in line mode for the header of the next message. Chunks are not empty and below
  4 GB, and their lines have no zero bytes. A later body in chunks on the same connection is another matter
  (\<open>second_chunked_body_lost\<close>).
\<close>

theorem chunked_body_in_pieces:
  assumes s: "\<not> ts_line_protocol s" "cb_inv (ts_ibuf s)"
    and h: "\<not> hs_header h" "hs_chunked h" "hs_chunk_state h = 0" "hs_chunk_line h = []"
    and cs: "list_all chunk_ok cs" "size_line z 0"
    and pieces: "list_all recv_piece pieces" "concat pieces = chunked_text cs z"
  shows "\<exists>s1 h1 ds. HTTP_OnRead_all pieces s h = Inr (s1, h1) \<and> concat ds = body_data cs \<and>
    hs_events h1 = hs_events h @ map OnData ds @ [OnDataComplete] \<and> ts_line_protocol s1 \<and> hs_first h1 \<and> hs_header h1"
proof (rule body_pieces [OF pieces(1) s h(1,2)])
  show "awaits h (concat pieces) (body_data cs)"
    unfolding awaits_def pieces(2) using cs h(3,4) by (intro exI [of _ cs] exI [of _ z]) simp
qed

theorem chunked_body_in_pieces_witness:
  "\<exists>s1 h1 ds. HTTP_OnRead_all [''3;x'' @ CRLF @ ''ab'', ''c'' @ [CHR 0x0D], [CHR 0x0A] @ ''0A'' @ CRLF @ ''0123456789'' @ CRLF @ ''0'', CRLF @ CRLF]
       (SetLineProtocol False (fst (HTTPSocket_new (replicate (2 * TCP_BUFSIZE_READ) CHR ''-'') CHR ''-'')))
       ((snd (HTTPSocket_new [] CHR ''-''))\<lparr>hs_header := False, hs_chunked := True\<rparr>) = Inr (s1, h1) \<and>
     concat ds = ''abc0123456789'' \<and> hs_events h1 = map OnData ds @ [OnDataComplete] \<and> ts_line_protocol s1"
proof -
  let ?mem = "replicate (2 * TCP_BUFSIZE_READ) CHR ''-''"
  let ?s = "SetLineProtocol False (fst (HTTPSocket_new ?mem CHR ''-''))"
  let ?h = "(snd (HTTPSocket_new [] CHR ''-''))\<lparr>hs_header := False, hs_chunked := True\<rparr>"
  let ?ps = "[''3;x'' @ CRLF @ ''ab'', ''c'' @ [CHR 0x0D], [CHR 0x0A] @ ''0A'' @ CRLF @ ''0123456789'' @ CRLF @ ''0'', CRLF @ CRLF]"
  let ?cs = "[(''3;x'', ''abc''), (''0A'', ''0123456789'')]"
  have s: "\<not> ts_line_protocol ?s" "cb_inv (ts_ibuf ?s)"
    using cb_new_inv [of ?mem TCP_BUFSIZE_READ] by (simp_all add: HTTPSocket_new_def SetLineProtocol_def DisableInputBuffer_def TcpSocket_new_def)
  have h: "\<not> hs_header ?h" "hs_chunked ?h" "hs_chunk_state ?h = 0" "hs_chunk_line ?h = []" by (simp_all add: HTTPSocket_new_def)
  have cs: "list_all chunk_ok ?cs" "size_line ''0'' 0"
    by (simp_all add: chunk_ok_def size_line_def plain_line_def is_eol_def isxdigit_def is_digit_def code_of_def hex_nat_def hex_value_def schar_def)
  have ps: "list_all recv_piece ?ps" "concat ?ps = chunked_text ?cs ''0''"
    by (simp_all add: recv_piece_def TCP_BUFSIZE_READ_def CRLF_def chunked_text_def)
  from chunked_body_in_pieces [OF s h cs ps] show ?thesis by (auto simp: body_data_def HTTPSocket_new_def)
qed

section \<open>Where bodies go wrong\<close>

text \<open>
  After a body in chunks the state of the loop and its line stay as they are, also over \<open>Reset\<close>: of the next body in
  chunks nothing is given to the client, which is told at once that it is complete, and the body is read as
  the lines of a new request.
\<close>

lemma second_chunked_body_lost:
  assumes "hs_chunk_state h = 4" "hs_chunk_line h = CRLF" and "\<not> hs_header h" "hs_chunked h" and "buf \<noteq> []" "length buf < TCP_BUFSIZE_READ"
  shows "\<exists>h1. HTTP_OnRawData buf s h = Inr (SetLineProtocol True s, h1, Some buf) \<and> hs_first h1 \<and>
    hs_events h1 = hs_events h @ [OnDataComplete]"
proof -
  have "chunk_line_loop CRLF buf = (CRLF, buf)" using assms(5) by (cases buf) (auto simp: CRLF_def)
  moreover have "ends_crlf CRLF" using ends_crlf_line [of "[]"] by simp
  ultimately show ?thesis using assms
    by (simp add: HTTP_OnRawData_def chunk_loop.simps [of buf] next_message_def hs_log_def)
qed

lemma chunked_body_leaves_state:
  assumes "hs_chunk_state h = 4" "hs_chunk_line h = []" and "chunk_loop CRLF s h = Inr (s1, h1, None)"
  shows "hs_chunk_state h1 = 4 \<and> hs_chunk_line h1 = CRLF"
proof -
  have "chunk_line_loop [] CRLF = (CRLF, [])" by (simp add: CRLF_def)
  moreover have "ends_crlf CRLF" "CRLF \<noteq> []" using ends_crlf_line [of "[]"] by (simp_all add: CRLF_def)
  ultimately show ?thesis using assms by (auto simp: chunk_loop.simps [of CRLF] next_message_def hs_log_def)
qed

text \<open>The same with a full buffer: the zero byte after the copy is written past its end.\<close>

lemma second_chunked_body_overflows:
  assumes "hs_chunk_state h = 4" "hs_chunk_line h = CRLF" and "\<not> hs_header h" "hs_chunked h" and "length buf = TCP_BUFSIZE_READ"
  shows "HTTP_OnRawData buf s h = Inl (Undefined ''tmp overflows'')"
proof -
  have b: "buf \<noteq> []" using assms(5) by (auto simp: TCP_BUFSIZE_READ_def)
  then have "chunk_line_loop CRLF buf = (CRLF, buf)" by (cases buf) (auto simp: CRLF_def)
  moreover have "ends_crlf CRLF" using ends_crlf_line [of "[]"] by simp
  ultimately show ?thesis using assms b
    by (simp add: HTTP_OnRawData_def chunk_loop.simps [of buf] next_message_def Let_def)
qed

text \<open>
  Without keep-alive, a piece with more bytes than the body has left makes the count of those bytes wrap around: all
  of the piece is data, and the body is never complete.
\<close>

lemma body_count_wraps:
  assumes "\<not> hs_header h" "\<not> hs_chunked h" "\<not> hs_keepalive h" and "unat (hs_body_size_left h) < length buf" "length buf < 2 ^ 64"
  shows "\<exists>h1. HTTP_OnRawData buf s h = Inr (s, h1, None) \<and> hs_events h1 = hs_events h @ [OnData buf] \<and> hs_body_size_left h1 \<noteq> 0"
proof -
  have "hs_body_size_left h \<noteq> of_nat (length buf)" using assms(4,5) by (auto simp: unat_of_nat)
  then show ?thesis using assms(1-3) by (auto simp: HTTP_OnRawData_def Let_def hs_log_def)
qed

section \<open>Headers sent and received\<close>

lemma getrest_plain:
  assumes "Parse_Words.plain p"
  shows "fst (getrest p) = dropWhile (\<lambda>c. isblank2 c \<or> issplit p c) (drop (pa_the_ptr p) (pa_the_str p))"
proof -
  let ?P = "\<lambda>c. isblank2 c \<or> issplit p c" and ?s = "pa_the_str p" and ?i = "pa_the_ptr p"
  have "NUL \<notin> set ?s" using assms by (simp add: Parse_Words.plain_def)
  then have i: "skip_while ?P ?s ?i = ?i + length (takeWhile ?P (drop ?i ?s))" by (rule skip_while_eq)
  have "drop (?i + length (takeWhile ?P (drop ?i ?s))) ?s = dropWhile ?P (drop ?i ?s)"
    by (metis add.commute drop_drop dropWhile_eq_drop)
  then show ?thesis by (auto simp: getrest_def Let_def i substr_def)
qed

text \<open>A word without separators, and a text without blanks at its start and without line ends.\<close>

definition http_word :: "string \<Rightarrow> bool" where
  "http_word w \<longleftrightarrow> w \<noteq> [] \<and> list_all (\<lambda>c. \<not> isblank4 c \<and> c \<noteq> CHR '':'' \<and> c \<noteq> NUL) w"

definition http_value :: "string \<Rightarrow> bool" where
  "http_value v \<longleftrightarrow> plain_line v \<and> (v = [] \<or> \<not> isblank2 (hd v) \<and> hd v \<noteq> CHR '':'')"

lemma getword_first:
  assumes w: "w \<noteq> []" "\<forall>c \<in> set w. \<not> (isblank4 c \<or> c \<in> set sp)" and r: "r = [] \<or> isblank4 (hd r) \<or> hd r \<in> set sp"
    and p: "Parse_Words.plain p" "pa_splits p = sp" "drop (pa_the_ptr p) (pa_the_str p) = w @ r"
  shows "pa_ord (getword p) = w" and "drop (pa_the_ptr (getword p)) (pa_the_str (getword p)) = drop 1 r"
    and "Parse_Words.plain (getword p)" and "pa_splits (getword p) = sp"
proof -
  have sep: "sep p = (\<lambda>c. isblank4 c \<or> c \<in> set sp)" using p(2) by (simp add: sep_def [abs_def] issplit_def)
  have d: "dropWhile (sep p) (w @ r) = w @ r" using w unfolding sep by (cases w) auto
  have tk: "takeWhile (\<lambda>c. \<not> sep p c) r = []" "dropWhile (\<lambda>c. \<not> sep p c) r = r" using r unfolding sep by (cases r; auto)+
  have w2: "\<forall>c \<in> set w. \<not> sep p c" using w(2) unfolding sep by blast
  show "pa_ord (getword p) = w"
    unfolding getword_plain(1) [OF p(1)] p(3) d using tk(1) w2 by (simp add: takeWhile_append)
  show "drop (pa_the_ptr (getword p)) (pa_the_str (getword p)) = drop 1 r"
    unfolding getword_str getword_plain(2) [OF p(1)] p(3) d using tk(2) w2 by (simp add: dropWhile_append2)
  show "Parse_Words.plain (getword p)" by (rule getword_plain(3) [OF p(1)])
  show "pa_splits (getword p) = sp" using p(2) by (simp add: getword_def Let_def split: prod.split)
qed

definition status_of :: "HTTPSocket \<Rightarrow> string \<times> string \<times> string" where
  "status_of h = (hs_http_version h, hs_status h, hs_status_text h)"

lemma header_line_roundtrip:
  assumes k: "http_word k" and v: "http_value v" and n: "ToLower k = ''content-length'' \<longrightarrow> c_number 64 v = Inr n"
  shows "\<exists>h1. header_line (k @ '': '' @ v) h = Inr h1 \<and> hs_events h1 = hs_events h @ [OnHeader k v] \<and> hs_first h1 = hs_first h \<and>
    status_of h1 = status_of h"
proof -
  let ?p = "Parse_new (k @ '': '' @ v) '':'' False"
  have pl: "Parse_Words.plain ?p" using k v
    by (auto simp: Parse_Words.plain_def Parse_new_def http_word_def http_value_def plain_line_def list_all_iff)
  have kk: "k \<noteq> []" "\<forall>c \<in> set k. \<not> (isblank4 c \<or> c \<in> set '':'')" using k by (auto simp: http_word_def list_all_iff)
  have r: "'': '' @ v = [] \<or> isblank4 (hd ('': '' @ v)) \<or> hd ('': '' @ v) \<in> set '':''" by simp
  have sp: "pa_splits ?p = '':''" "drop (pa_the_ptr ?p) (pa_the_str ?p) = k @ '': '' @ v" by (simp_all add: Parse_new_def)
  note g = getword_first [OF kk r pl sp]
  have "fst (getrest (getword ?p)) = dropWhile (\<lambda>c. isblank2 c \<or> c = CHR '':'') ('' '' @ v)"
    unfolding getrest_plain [OF g(3)] g(2) using g(4) by (simp add: issplit_def)
  also have "\<dots> = v" using v by (cases v) (auto simp: http_value_def isblank2_def)
  finally show ?thesis using g(1) n by (auto simp: header_line_def Let_def hs_log_def status_of_def)
qed

lemma status_line_roundtrip:
  assumes v: "http_word version" "4 < length version" "ToLower (take 5 version) = ''http/''" and st: "http_word status" and tx: "http_value phrase"
  shows "first_line (version @ '' '' @ status @ '' '' @ phrase) h =
    h\<lparr>hs_http_version := version, hs_status := status, hs_status_text := phrase, hs_response := True\<rparr>"
proof -
  let ?p = "Parse_new (version @ '' '' @ status @ '' '' @ phrase) [] False"
  have nul: "NUL \<notin> set w" if "http_word w" for w using that by (auto simp: http_word_def list_all_iff)
  have "NUL \<notin> set phrase" using tx by (auto simp: http_value_def plain_line_def list_all_iff)
  then have pl: "Parse_Words.plain ?p" using nul [OF v(1)] nul [OF st] by (simp add: Parse_Words.plain_def Parse_new_def)
  have w: "w \<noteq> []" "\<forall>c \<in> set w. \<not> (isblank4 c \<or> c \<in> set [])" if "http_word w" for w
    using that by (auto simp: http_word_def list_all_iff)
  have b: "'' '' @ x = [] \<or> isblank4 (hd ('' '' @ x)) \<or> hd ('' '' @ x) \<in> set []" for x by (simp add: isblank4_def)
  have sp: "pa_splits ?p = []" "drop (pa_the_ptr ?p) (pa_the_str ?p) = version @ '' '' @ status @ '' '' @ phrase"
    by (simp_all add: Parse_new_def)
  note g = getword_first [OF w [OF v(1)] b pl sp]
  have sp2: "drop (pa_the_ptr (getword ?p)) (pa_the_str (getword ?p)) = status @ '' '' @ phrase" using g(2) by simp
  note g2 = getword_first [OF w [OF st] b g(3) g(4) sp2]
  have "fst (getrest (getword (getword ?p))) = dropWhile isblank2 phrase"
    unfolding getrest_plain [OF g2(3)] g2(2) using g2(4) by (simp add: issplit_def)
  also have "\<dots> = phrase" using tx by (cases phrase) (auto simp: http_value_def)
  finally show ?thesis using g(1) g2(1) v by (simp add: first_line_def Let_def)
qed

text \<open>The lines of a response, which end in CR LF on the wire, and what a client that receives them is told.\<close>

definition response_fields :: "HTTPSocket \<Rightarrow> (string \<times> string) list" where
  "response_fields h = hs_response_header h @ hs_response_header_append h"

definition response_lines :: "HTTPSocket \<Rightarrow> string list" where
  "response_lines h =
     (hs_http_version h @ '' '' @ hs_status h @ '' '' @ hs_status_text h) #
     map (\<lambda>(k, v). k @ '': '' @ v) (response_fields h) @ [[]]"

definition field_ok :: "string \<times> string \<Rightarrow> bool" where
  "field_ok kv \<longleftrightarrow> http_word (fst kv) \<and> http_value (snd kv) \<and>
     (ToLower (fst kv) = ''content-length'' \<longrightarrow> isl (c_number 64 (snd kv)) = False)"

lemma response_text_lines: "response_text h = lines_text CRLF (response_lines h) []"
proof -
  have "concat (map field_text kvs) = concat (map (\<lambda>l. l @ CRLF) (map (\<lambda>(k, v). k @ '': '' @ v) kvs))" for kvs
    by (induction kvs) (auto simp: field_text_def)
  then show ?thesis by (simp add: response_text_def lines_text_def response_lines_def response_fields_def)
qed

lemma header_lines_roundtrip:
  "list_all field_ok kvs \<Longrightarrow> \<not> hs_first h \<Longrightarrow>
   \<exists>h1. fold (\<lambda>l u. snd (HTTP_OnLine l u)) (map (\<lambda>(k, v). k @ '': '' @ v) kvs) (Inr h) = Inr h1 \<and> \<not> hs_first h1 \<and>
     hs_events h1 = hs_events h @ map (\<lambda>(k, v). OnHeader k v) kvs \<and> status_of h1 = status_of h"
proof (induction kvs arbitrary: h)
  case (Cons kv kvs)
  obtain k v where kv: "kv = (k, v)" by (cases kv)
  then have ok: "http_word k" "http_value v" "ToLower k = ''content-length'' \<longrightarrow> c_number 64 v = Inr (projr (c_number 64 v))"
    using Cons.prems(1) by (auto simp: field_ok_def)
  obtain h1 where h1: "header_line (k @ '': '' @ v) h = Inr h1" "hs_events h1 = hs_events h @ [OnHeader k v]" "hs_first h1 = hs_first h"
      "status_of h1 = status_of h"
    using header_line_roundtrip [OF ok, of h] by blast
  moreover have "HTTP_OnLine (k @ '': '' @ v) (Inr h) = (None, header_line (k @ '': '' @ v) h)"
    using Cons.prems(2) by (simp add: HTTP_OnLine_def)
  ultimately show ?case using Cons.IH [of h1] Cons.prems kv by simp
qed simp

lemma header_end:
  "\<not> hs_first h \<Longrightarrow> \<exists>h1 r. snd (HTTP_OnLine [] (Inr h)) = Inr h1 \<and> hs_events h1 = hs_events h @ OnHeaderComplete # r \<and> status_of h1 = status_of h"
  by (cases "hs_body_size_left h = 0"; cases "hs_chunked h"; cases "hs_http_1_1 h"; cases "hs_keepalive h")
    (simp_all add: HTTP_OnLine_def hs_log_def status_of_def)

theorem response_roundtrip:
  assumes v: "http_word (hs_http_version h)" "4 < length (hs_http_version h)" "ToLower (take 5 (hs_http_version h)) = ''http/''"
    and st: "http_word (hs_status h)" "http_value (hs_status_text h)" and fs: "list_all field_ok (response_fields h)" and h0: "hs_first h0"
  shows "\<exists>h1. fold (\<lambda>l u. snd (HTTP_OnLine l u)) (response_lines h) (Inr h0) = Inr h1 \<and> response_text h = lines_text CRLF (response_lines h) [] \<and>
    status_of h1 = status_of h \<and>
    take (length (hs_events h0) + length (response_fields h) + 2) (hs_events h1) =
      hs_events h0 @ [OnFirst] @ map (\<lambda>(k, v). OnHeader k v) (response_fields h) @ [OnHeaderComplete]"
proof -
  let ?l = "hs_http_version h @ '' '' @ hs_status h @ '' '' @ hs_status_text h"
  let ?h = "hs_log OnFirst ((first_line ?l h0)\<lparr>hs_first := False\<rparr>)"
  have ev: "hs_events ?h = hs_events h0 @ [OnFirst]" "\<not> hs_first ?h" "status_of ?h = status_of h"
    using status_line_roundtrip [OF v st, of h0] by (simp_all add: hs_log_def status_of_def)
  obtain h2 where h2: "fold (\<lambda>l u. snd (HTTP_OnLine l u)) (map (\<lambda>(k, v). k @ '': '' @ v) (response_fields h)) (Inr ?h) = Inr h2"
      "\<not> hs_first h2" "hs_events h2 = hs_events ?h @ map (\<lambda>(k, v). OnHeader k v) (response_fields h)" "status_of h2 = status_of ?h"
    using header_lines_roundtrip [OF fs ev(2)] by blast
  obtain h3 r where h3: "snd (HTTP_OnLine [] (Inr h2)) = Inr h3" "hs_events h3 = hs_events h2 @ OnHeaderComplete # r" "status_of h3 = status_of h2"
    using header_end [OF h2(2)] by blast
  have "snd (HTTP_OnLine ?l (Inr h0)) = Inr ?h" using h0 by (simp add: HTTP_OnLine_def)
  then have "fold (\<lambda>l u. snd (HTTP_OnLine l u)) (response_lines h) (Inr h0) = Inr h3"
    using h2(1) h3(1) by (simp add: response_lines_def)
  then show ?thesis using response_text_lines [of h] h3(2,3) h2(3,4) ev(1,3) by simp
qed

text \<open>The parts of a URL.\<close>

lemma url_this_example:
  "url_this ''http://example.org:8080/a/b.html'' [] = Inr (False, ''http:'', ''example.org'', 8080, ''/a/b.html'', ''b.html'')"
  "url_this ''https://example.org/a'' ''x'' = Inr (True, ''https:'', ''example.org'', 443, ''/a'', ''a'')"
  by code_simp+

end
