(* ===== verification/Event_Timer.thy ===== *)
theory Event_Timer
  imports Prelude "HOL-Library.Sublist"
begin

text \<open>
  The timers of the vendored socket library (\<open>Event.cpp\<close>, \<open>EventTime.cpp\<close> and \<open>EventHandler.cpp\<close> under
  \<open>src/src/Sockets-2.3.5\<close>): a list of events ordered by time. Events are allocated, so each has an address,
  which \<open>CheckEvents\<close> uses to find an event again after its owner was called; \<open>malloc\<close> gives an address that no live
  event has, and is a parameter. So are the clock and the owners. Times (\<open>int64_t\<close>) and identifiers (\<open>long\<close>) have 64
  bits; a signed overflow is undefined behaviour, so an operation that overflows gives \<^const>\<open>Undefined\<close>.
\<close>

section \<open>Events\<close>

definition signed64 :: "int \<Rightarrow> exn + int" where
  "signed64 x = (if - (2 ^ 63) \<le> x \<and> x < 2 ^ 63 then Inr x else Inl (Undefined ''signed overflow''))"

lemma signed64_Inr: "signed64 x = Inr y \<longleftrightarrow> y = x \<and> - (2 ^ 63) \<le> x \<and> x < 2 ^ 63"
  by (auto simp: signed64_def)

text \<open>Times are microseconds. The counter of the identifiers is a static member of the class.\<close>

record Event =
  ev_addr :: nat
  ev_from :: nat
  ev_time :: int
  ev_id :: int

record EventHandler =
  eh_events :: "Event list"
  eh_unique_id :: int
  eh_quit :: bool
  eh_socket :: bool
  eh_wakeups :: nat

definition EventTime_at :: "int \<Rightarrow> int \<Rightarrow> int \<Rightarrow> exn + int" where
  "EventTime_at tick sec usec =
     bindX (signed64 (sec * 1000000)) (\<lambda>a. bindX (signed64 (a + usec)) (\<lambda>d. signed64 (tick + d)))"

definition Event_new :: "nat \<Rightarrow> int \<Rightarrow> nat \<Rightarrow> int \<Rightarrow> int \<Rightarrow> int \<Rightarrow> exn + Event" where
  "Event_new addr unique_id from sec usec tick =
     bindX (EventTime_at tick sec usec) (\<lambda>t. bindX (signed64 (unique_id + 1)) (\<lambda>i.
       Inr \<lparr>ev_addr = addr, ev_from = from, ev_time = t, ev_id = i\<rparr>))"

definition Event_less :: "Event \<Rightarrow> Event \<Rightarrow> bool" where
  "Event_less e f \<longleftrightarrow> ev_time e < ev_time f"

definition EventHandler_new :: EventHandler where
  "EventHandler_new = \<lparr>eh_events = [], eh_unique_id = 0, eh_quit = False, eh_socket = False, eh_wakeups = 0\<rparr>"

section \<open>The handler\<close>

fun insert_event :: "Event \<Rightarrow> Event list \<Rightarrow> Event list" where
  "insert_event e [] = [e]"
| "insert_event e (x # xs) = (if Event_less x e then x # insert_event e xs else e # x # xs)"

definition AddEvent :: "(nat list \<Rightarrow> nat) \<Rightarrow> int \<Rightarrow> nat \<Rightarrow> int \<Rightarrow> int \<Rightarrow> EventHandler \<Rightarrow> exn + (int \<times> EventHandler)" where
  "AddEvent malloc tick from sec usec h =
     bindX (Event_new (malloc (map ev_addr (eh_events h))) (eh_unique_id h) from sec usec tick) (\<lambda>e.
       Inr (ev_id e,
            h\<lparr>eh_events := insert_event e (eh_events h), eh_unique_id := ev_id e,
              eh_wakeups := (if eh_socket h then eh_wakeups h + 1 else eh_wakeups h)\<rparr>))"

fun erase_first :: "('a \<Rightarrow> bool) \<Rightarrow> 'a list \<Rightarrow> 'a list" where
  "erase_first P [] = []"
| "erase_first P (x # xs) = (if P x then xs else x # erase_first P xs)"

definition RemoveEvent :: "nat \<Rightarrow> int \<Rightarrow> EventHandler \<Rightarrow> EventHandler" where
  "RemoveEvent from eid h = h\<lparr>eh_events := erase_first (\<lambda>e. from = ev_from e \<and> eid = ev_id e) (eh_events h)\<rparr>"

text \<open>The loop of \<open>ClearEvents\<close> starts again from the beginning after each event it has erased.\<close>

lemma erase_first_length: "list_ex P xs \<Longrightarrow> length (erase_first P xs) < length xs"
  by (induction xs) auto

function ClearEvents_loop :: "nat \<Rightarrow> Event list \<Rightarrow> Event list" where
  "ClearEvents_loop from es =
     (if list_ex (\<lambda>e. ev_from e = from) es then ClearEvents_loop from (erase_first (\<lambda>e. ev_from e = from) es) else es)"
  by pat_completeness auto

termination
  by (relation "measure (\<lambda>(from, es). length es)") (auto intro: erase_first_length)

declare ClearEvents_loop.simps [simp del]

definition ClearEvents :: "nat \<Rightarrow> EventHandler \<Rightarrow> EventHandler" where
  "ClearEvents from h = h\<lparr>eh_events := ClearEvents_loop from (eh_events h)\<rparr>"

definition SetQuit :: "bool \<Rightarrow> EventHandler \<Rightarrow> EventHandler" where
  "SetQuit x h = h\<lparr>eh_quit := x\<rparr>"

text \<open>Seconds and microseconds; the quotient and the remainder of a positive number.\<close>

definition GetTimeUntilNextEvent :: "int \<Rightarrow> EventHandler \<Rightarrow> exn + (int \<times> int) option" where
  "GetTimeUntilNextEvent now h =
     (case eh_events h of
        [] \<Rightarrow> Inr None
      | e # es \<Rightarrow>
          bindX (signed64 (ev_time e - now)) (\<lambda>diff.
            let diff1 = (if diff < 1 then 1 else diff)
            in Inr (Some (diff1 div 1000000, diff1 mod 1000000))))"

text \<open>
  \<open>CheckEvents\<close>. \<open>valid\<close> is whether the owner may be called (a socket that the handler still has, or no socket),
  \<open>OnEvent\<close> is the call of the owner, which may use the handler and gets the identifier as an \<open>int\<close>; the calls made
  are returned. A loop that never ends is \<^const>\<open>None\<close>.
\<close>

type_synonym 'u owner = "nat \<Rightarrow> int \<Rightarrow> EventHandler \<times> 'u \<Rightarrow> exn + (EventHandler \<times> 'u)"

definition call_owner :: "(nat \<Rightarrow> 'u \<Rightarrow> bool) \<Rightarrow> 'u owner \<Rightarrow> Event \<Rightarrow> EventHandler \<times> 'u \<Rightarrow> exn + (EventHandler \<times> 'u)" where
  "call_owner valid OnEvent e hu =
     (if valid (ev_from e) (snd hu) then OnEvent (ev_from e) (signed_take_bit 31 (ev_id e)) hu else Inr hu)"

definition forget_event :: "Event \<Rightarrow> EventHandler \<times> 'u \<Rightarrow> EventHandler \<times> 'u" where
  "forget_event e hu =
     ((fst hu)\<lparr>eh_events := erase_first (\<lambda>x. ev_addr x = ev_addr e) (eh_events (fst hu))\<rparr>, snd hu)"

definition note_call :: "bool \<Rightarrow> Event \<Rightarrow> exn + (Event list \<times> 'r) \<Rightarrow> exn + (Event list \<times> 'r)" where
  "note_call c e r = bindX r (\<lambda>(calls, x). Inr (if c then e # calls else calls, x))"

partial_function (option) CheckEvents ::
    "(nat \<Rightarrow> 'u \<Rightarrow> bool) \<Rightarrow> 'u owner \<Rightarrow> int \<Rightarrow> EventHandler \<times> 'u \<Rightarrow> (exn + (Event list \<times> EventHandler \<times> 'u)) option" where
  "CheckEvents valid OnEvent now hu =
     (case eh_events (fst hu) of
        [] \<Rightarrow> Some (Inr ([], hu))
      | e # es \<Rightarrow>
          if ev_time e < now then
            (case call_owner valid OnEvent e hu of
               Inl x \<Rightarrow> Some (Inl x)
             | Inr hu1 \<Rightarrow>
                 Option.bind (CheckEvents valid OnEvent now (forget_event e hu1))
                   (\<lambda>r. Some (note_call (valid (ev_from e) (snd hu)) e r)))
          else Some (Inr ([], hu)))"

declare CheckEvents.simps [code]

section \<open>Lists of events\<close>

abbreviation by_time :: "Event list \<Rightarrow> bool" where
  "by_time es \<equiv> sorted (map ev_time es)"

abbreviation due :: "int \<Rightarrow> Event \<Rightarrow> bool" where
  "due now e \<equiv> ev_time e < now"

lemma set_insert_event [simp]: "set (insert_event e es) = insert e (set es)"
  by (induction es) auto

lemma by_time_insert_event: "by_time es \<Longrightarrow> by_time (insert_event e es)"
  by (induction es) (auto simp: Event_less_def)

lemma distinct_insert_event: "distinct (map f (insert_event e es)) \<longleftrightarrow> f e \<notin> set (map f es) \<and> distinct (map f es)"
  by (induction es) auto

lemma insert_event_parts:
  "insert_event e es = takeWhile (\<lambda>x. ev_time x < ev_time e) es @ e # dropWhile (\<lambda>x. ev_time x < ev_time e) es"
  by (induction es) (auto simp: Event_less_def)

lemma erase_first_split:
  "list_ex P xs \<Longrightarrow> \<exists>ys x zs. xs = ys @ x # zs \<and> P x \<and> list_all (\<lambda>y. \<not> P y) ys \<and> erase_first P xs = ys @ zs"
proof (induction xs)
  case (Cons x xs)
  show ?case
  proof (cases "P x")
    case True
    then show ?thesis by (intro exI [of _ "[]"]) auto
  next
    case False
    then obtain ys y zs where "xs = ys @ y # zs" "P y" "list_all (\<lambda>y. \<not> P y) ys" "erase_first P xs = ys @ zs"
      using Cons by auto
    then show ?thesis using False by (intro exI [of _ "x # ys"]) auto
  qed
qed simp

lemma erase_first_none: "\<not> list_ex P xs \<Longrightarrow> erase_first P xs = xs"
  by (induction xs) auto

lemma erase_first_sub: "set (erase_first P xs) \<subseteq> set xs"
  by (induction xs) auto

lemma erase_first_sorted: "by_time es \<Longrightarrow> by_time (erase_first P es)"
  using erase_first_sub [of P] by (induction es) auto

lemma erase_first_distinct: "distinct (map f es) \<Longrightarrow> distinct (map f (erase_first P es))"
  using erase_first_sub [of P] by (induction es) auto

lemma ClearEvents_loop_filter: "ClearEvents_loop from es = filter (\<lambda>e. ev_from e \<noteq> from) es"
proof (induction "from" es rule: ClearEvents_loop.induct)
  case (1 "from" es)
  show ?case
  proof (cases "list_ex (\<lambda>e. ev_from e = from) es")
    case True
    from erase_first_split [OF True] obtain ys x zs where
      e: "es = ys @ x # zs" "ev_from x = from" "erase_first (\<lambda>e. ev_from e = from) es = ys @ zs" by blast
    have "ClearEvents_loop from es = filter (\<lambda>e. ev_from e \<noteq> from) (ys @ zs)"
      using 1 [OF True] True e(3) by (simp add: ClearEvents_loop.simps [of "from" es])
    then show ?thesis using e by simp
  next
    case False
    then have "filter (\<lambda>e. ev_from e \<noteq> from) es = es" by (auto simp: filter_id_conv list_ex_iff)
    then show ?thesis using False by (simp add: ClearEvents_loop.simps [of "from" es])
  qed
qed


section \<open>The operations keep the list\<close>

definition ev_inv :: "EventHandler \<Rightarrow> bool" where
  "ev_inv h \<longleftrightarrow>
     by_time (eh_events h) \<and> distinct (map ev_addr (eh_events h)) \<and> distinct (map ev_id (eh_events h)) \<and>
     list_all (\<lambda>e. ev_id e \<le> eh_unique_id h \<and> ev_time e < 2 ^ 63) (eh_events h) \<and> 0 \<le> eh_unique_id h"

text \<open>An address that is in use is not given away again.\<close>

definition malloc_ok :: "(nat list \<Rightarrow> nat) \<Rightarrow> bool" where
  "malloc_ok malloc \<longleftrightarrow> (\<forall>used. malloc used \<notin> set used)"

lemma ev_inv_new: "ev_inv EventHandler_new"
  by (simp add: ev_inv_def EventHandler_new_def)

lemma AddEvent_Inr:
  assumes "AddEvent malloc tick from sec usec h = Inr (i, h1)"
  obtains e where "i = eh_unique_id h + 1" "i < 2 ^ 63" "ev_addr e = malloc (map ev_addr (eh_events h))" "ev_id e = i" "ev_from e = from"
    "EventTime_at tick sec usec = Inr (ev_time e)" "eh_events h1 = insert_event e (eh_events h)" "eh_unique_id h1 = i"
proof -
  from assms obtain e where e: "Event_new (malloc (map ev_addr (eh_events h))) (eh_unique_id h) from sec usec tick = Inr e"
    and h1: "i = ev_id e" "eh_events h1 = insert_event e (eh_events h)" "eh_unique_id h1 = ev_id e"
    by (auto simp: AddEvent_def bindX_eq_Inr_iff)
  from e obtain t where t: "EventTime_at tick sec usec = Inr t" "eh_unique_id h + 1 < 2 ^ 63"
    "e = \<lparr>ev_addr = malloc (map ev_addr (eh_events h)), ev_from = from, ev_time = t, ev_id = eh_unique_id h + 1\<rparr>"
    by (auto simp: Event_new_def bindX_eq_Inr_iff signed64_Inr)
  show thesis by (rule that [of e]) (use h1 t in simp_all)
qed

lemma ev_inv_AddEvent:
  assumes "malloc_ok malloc" and "ev_inv h" and "AddEvent malloc tick from sec usec h = Inr (i, h1)"
  shows "ev_inv h1"
  using assms(3)
proof (rule AddEvent_Inr)
  fix e
  assume e: "i = eh_unique_id h + 1" "ev_addr e = malloc (map ev_addr (eh_events h))" "ev_id e = i"
    "EventTime_at tick sec usec = Inr (ev_time e)" "eh_events h1 = insert_event e (eh_events h)" "eh_unique_id h1 = i"
  have "ev_addr e \<notin> set (map ev_addr (eh_events h))" using assms(1) by (simp add: malloc_ok_def e del: set_map)
  moreover have "ev_id e \<notin> set (map ev_id (eh_events h))"
    using assms(2) e by (fastforce simp: ev_inv_def list_all_iff)
  moreover have "ev_time e < 2 ^ 63" using e(4) by (auto simp: EventTime_at_def bindX_eq_Inr_iff signed64_Inr)
  ultimately show "ev_inv h1"
    using assms(2) e by (fastforce simp: ev_inv_def by_time_insert_event distinct_insert_event list_all_iff)
qed

lemma ev_inv_erase: "ev_inv h \<Longrightarrow> ev_inv (h\<lparr>eh_events := erase_first P (eh_events h)\<rparr>)"
  using erase_first_sub [of P "eh_events h"]
  by (auto simp: ev_inv_def erase_first_sorted erase_first_distinct list_all_iff)

lemma ev_inv_RemoveEvent: "ev_inv h \<Longrightarrow> ev_inv (RemoveEvent from eid h)"
  by (simp add: RemoveEvent_def ev_inv_erase)

lemma ev_inv_ClearEvents: "ev_inv h \<Longrightarrow> ev_inv (ClearEvents from h)"
  by (auto simp: ev_inv_def ClearEvents_def ClearEvents_loop_filter sorted_filter distinct_map_filter list_all_iff)

lemma by_time_due_first: "by_time es \<Longrightarrow> es = filter (due now) es @ filter (\<lambda>e. \<not> due now e) es"
proof (induction es)
  case (Cons e es)
  show ?case
  proof (cases "due now e")
    case False
    then have "filter (due now) es = []" using Cons.prems by (fastforce simp: filter_empty_conv)
    then show ?thesis using Cons False by simp
  qed (use Cons in simp)
qed simp

section \<open>Any use of the handler\<close>

datatype timer_op =
    T_Add int nat int int
  | T_Remove nat int
  | T_Clear nat
  | T_Quit bool

fun timer_step :: "(nat list \<Rightarrow> nat) \<Rightarrow> timer_op \<Rightarrow> EventHandler \<Rightarrow> exn + EventHandler" where
  "timer_step malloc (T_Add tick from sec usec) h = bindX (AddEvent malloc tick from sec usec h) (\<lambda>(i, h1). Inr h1)"
| "timer_step malloc (T_Remove from eid) h = Inr (RemoveEvent from eid h)"
| "timer_step malloc (T_Clear from) h = Inr (ClearEvents from h)"
| "timer_step malloc (T_Quit x) h = Inr (SetQuit x h)"

fun timer_run :: "(nat list \<Rightarrow> nat) \<Rightarrow> timer_op list \<Rightarrow> EventHandler \<Rightarrow> exn + EventHandler" where
  "timer_run malloc [] h = Inr h"
| "timer_run malloc (x # xs) h = bindX (timer_step malloc x h) (timer_run malloc xs)"

lemma ev_inv_SetQuit: "ev_inv h \<Longrightarrow> ev_inv (SetQuit x h)"
  by (simp add: ev_inv_def SetQuit_def)

lemma timer_step_inv: "malloc_ok malloc \<Longrightarrow> ev_inv h \<Longrightarrow> timer_step malloc x h = Inr h1 \<Longrightarrow> ev_inv h1"
  by (cases x) (auto simp: bindX_eq_Inr_iff ev_inv_RemoveEvent ev_inv_ClearEvents ev_inv_SetQuit intro: ev_inv_AddEvent)

lemma timer_run_inv: "malloc_ok malloc \<Longrightarrow> ev_inv h \<Longrightarrow> timer_run malloc xs h = Inr h1 \<Longrightarrow> ev_inv h1"
  by (induction xs arbitrary: h) (auto simp: bindX_eq_Inr_iff dest: timer_step_inv)

text \<open>A use that sets no timer for a time before \<open>now\<close>, and none whose time overflows.\<close>

fun not_before :: "int \<Rightarrow> timer_op \<Rightarrow> bool" where
  "not_before now (T_Add tick from sec usec) \<longleftrightarrow> (case EventTime_at tick sec usec of Inl x \<Rightarrow> False | Inr t \<Rightarrow> now \<le> t)"
| "not_before now x \<longleftrightarrow> True"

lemma filter_due_insert: "\<not> due now e \<Longrightarrow> filter (due now) (insert_event e es) = filter (due now) es"
  by (induction es) auto

lemma subseq_erase_first: "subseq (erase_first P xs) xs"
  by (induction xs) auto

lemma timer_step_due:
  assumes "timer_step malloc x h = Inr h1" and "not_before now x"
  shows "subseq (filter (due now) (eh_events h1)) (filter (due now) (eh_events h))"
proof (cases x)
  case (T_Add tick "from" sec usec)
  then obtain i where "AddEvent malloc tick from sec usec h = Inr (i, h1)" using assms(1) by (auto simp: bindX_eq_Inr_iff)
  then show ?thesis
    by (rule AddEvent_Inr) (use assms(2) T_Add in \<open>simp add: filter_due_insert\<close>)
next
  case (T_Remove "from" eid)
  then show ?thesis using assms(1) by (auto simp: RemoveEvent_def subseq_erase_first)
next
  case (T_Clear "from")
  then show ?thesis
    using assms(1) subseq_filter [OF subseq_filter_left] by (auto simp: ClearEvents_def ClearEvents_loop_filter simp del: filter_filter)
next
  case (T_Quit q)
  then show ?thesis using assms(1) by (auto simp: SetQuit_def)
qed

lemma timer_run_due:
  "timer_run malloc xs h = Inr h1 \<Longrightarrow> list_all (not_before now) xs \<Longrightarrow>
   subseq (filter (due now) (eh_events h1)) (filter (due now) (eh_events h))"
  by (induction xs arbitrary: h) (auto simp: bindX_eq_Inr_iff dest: timer_step_due intro: subseq_order.trans)

text \<open>Without an overflow of the times only the counter of the identifiers can overflow.\<close>

lemma timer_step_room:
  assumes "not_before now x" and "0 \<le> eh_unique_id h" and "eh_unique_id h + 1 < 2 ^ 63"
  shows "\<exists>h1. timer_step malloc x h = Inr h1 \<and> eh_unique_id h \<le> eh_unique_id h1 \<and> eh_unique_id h1 \<le> eh_unique_id h + 1"
  using assms
  by (cases x) (auto simp: AddEvent_def Event_new_def signed64_def RemoveEvent_def ClearEvents_def SetQuit_def split: sum.splits)

lemma timer_run_room:
  "list_all (not_before now) xs \<Longrightarrow> 0 \<le> eh_unique_id h \<Longrightarrow> eh_unique_id h + int (length xs) < 2 ^ 63 \<Longrightarrow>
   \<exists>h1. timer_run malloc xs h = Inr h1 \<and> eh_unique_id h \<le> eh_unique_id h1 \<and> eh_unique_id h1 \<le> eh_unique_id h + int (length xs)"
proof (induction xs arbitrary: h)
  case (Cons x xs)
  have "not_before now x" and "eh_unique_id h + 1 < 2 ^ 63" using Cons.prems by auto
  then obtain h1 where h1: "timer_step malloc x h = Inr h1" "eh_unique_id h \<le> eh_unique_id h1" "eh_unique_id h1 \<le> eh_unique_id h + 1"
    using timer_step_room [of now x h malloc] Cons.prems(2) by blast
  moreover obtain h2 where "timer_run malloc xs h1 = Inr h2" "eh_unique_id h1 \<le> eh_unique_id h2"
    "eh_unique_id h2 \<le> eh_unique_id h1 + int (length xs)"
    using Cons.IH [of h1] Cons.prems h1 by auto
  ultimately show ?case by (intro exI [of _ h2]) simp
qed simp

section \<open>Checking the events\<close>

text \<open>
  What an owner may do when it is called: use the handler, at most \<open>k\<close> times and for no timer before \<open>now\<close>. It may
  clear its events, as the destructor of an owner does, and remove any event, due or not.
\<close>

definition owner_ok :: "(nat list \<Rightarrow> nat) \<Rightarrow> int \<Rightarrow> nat \<Rightarrow> 'u owner \<Rightarrow> bool" where
  "owner_ok malloc now k OnEvent \<longleftrightarrow>
     (\<forall>from eid hu. \<exists>ops. length ops \<le> k \<and> list_all (not_before now) ops \<and>
        timer_run malloc ops (fst hu) = map_sum id fst (OnEvent from eid hu))"

text \<open>
  The reference: one pass over the events that were due when the check began. An event that an earlier owner has
  removed is left out; any other is called, if its owner is there, and is gone afterwards.
\<close>

fun fire_each :: "(nat \<Rightarrow> 'u \<Rightarrow> bool) \<Rightarrow> 'u owner \<Rightarrow> Event list \<Rightarrow> EventHandler \<times> 'u \<Rightarrow> exn + (Event list \<times> EventHandler \<times> 'u)" where
  "fire_each valid OnEvent [] hu = Inr ([], hu)"
| "fire_each valid OnEvent (e # es) hu =
     (if e \<in> set (eh_events (fst hu))
      then bindX (call_owner valid OnEvent e hu) (\<lambda>hu1.
             note_call (valid (ev_from e) (snd hu)) e (fire_each valid OnEvent es (forget_event e hu1)))
      else fire_each valid OnEvent es hu)"

lemma call_owner_ok:
  assumes "owner_ok malloc now k OnEvent" and "malloc_ok malloc" and "ev_inv (fst hu)" and "call_owner valid OnEvent e hu = Inr hu1"
  shows "ev_inv (fst hu1) \<and> subseq (filter (due now) (eh_events (fst hu1))) (filter (due now) (eh_events (fst hu)))"
proof (cases "valid (ev_from e) (snd hu)")
  case True
  then have "OnEvent (ev_from e) (signed_take_bit 31 (ev_id e)) hu = Inr hu1" using assms(4) by (simp add: call_owner_def)
  then obtain ops where "list_all (not_before now) ops" "timer_run malloc ops (fst hu) = Inr (fst hu1)"
    using assms(1) unfolding owner_ok_def by (metis map_sum.simps(2))
  then show ?thesis using timer_run_inv [OF assms(2,3)] timer_run_due by blast
qed (use assms in \<open>simp add: call_owner_def\<close>)

lemma call_owner_room:
  assumes "owner_ok malloc now k OnEvent" and "0 \<le> eh_unique_id (fst hu)" and "eh_unique_id (fst hu) + int k < 2 ^ 63"
  shows "\<exists>hu1. call_owner valid OnEvent e hu = Inr hu1 \<and> eh_unique_id (fst hu1) \<le> eh_unique_id (fst hu) + int k"
proof (cases "valid (ev_from e) (snd hu)")
  case True
  obtain ops where ops: "length ops \<le> k" "list_all (not_before now) ops"
    "timer_run malloc ops (fst hu) = map_sum id fst (OnEvent (ev_from e) (signed_take_bit 31 (ev_id e)) hu)"
    using assms(1) unfolding owner_ok_def by blast
  then obtain h1 where h1: "timer_run malloc ops (fst hu) = Inr h1" "eh_unique_id h1 \<le> eh_unique_id (fst hu) + int (length ops)"
    using timer_run_room [OF ops(2) assms(2)] assms(3) by fastforce
  then obtain hu1 where "OnEvent (ev_from e) (signed_take_bit 31 (ev_id e)) hu = Inr hu1" "fst hu1 = h1"
    using ops(3) by (cases "OnEvent (ev_from e) (signed_take_bit 31 (ev_id e)) hu") auto
  then show ?thesis using True h1 ops(1) by (auto simp: call_owner_def)
qed (simp add: call_owner_def)

lemma erase_addr_gone: "distinct (map ev_addr xs) \<Longrightarrow> e \<notin> set (erase_first (\<lambda>x. ev_addr x = ev_addr e) xs)"
  by (induction xs) (auto simp: image_iff)

lemma subseq_set: "subseq f es \<Longrightarrow> set f \<subseteq> set es"
  by (induction rule: list_emb.induct) auto

lemma subseq_Cons_hd: "subseq f (e # es) \<Longrightarrow> e \<in> set f \<Longrightarrow> e \<notin> set es \<Longrightarrow> \<exists>f1. f = e # f1 \<and> subseq f1 es"
  by (cases f) (auto dest!: subseq_set split: if_splits)

lemma subseq_Cons_skip: "subseq f (e # es) \<Longrightarrow> e \<notin> set f \<Longrightarrow> subseq f es"
  by (cases f) (auto simp: subseq_Cons2_neq split: if_splits)

text \<open>After a turn the events that are due are among those still to come.\<close>

lemma forget_event_due:
  assumes "owner_ok malloc now k OnEvent" and "malloc_ok malloc" and "ev_inv (fst hu)" and "call_owner valid OnEvent e hu = Inr hu1"
    and "subseq (filter (due now) (eh_events (fst hu))) (e # es)"
  shows "ev_inv (fst (forget_event e hu1)) \<and> subseq (filter (due now) (eh_events (fst (forget_event e hu1)))) es"
proof -
  note c = call_owner_ok [OF assms(1-4)]
  have "subseq (eh_events (fst (forget_event e hu1))) (eh_events (fst hu1))" by (simp add: forget_event_def subseq_erase_first)
  then have "subseq (filter (due now) (eh_events (fst (forget_event e hu1)))) (e # es)"
    by (rule subseq_order.trans [OF subseq_filter subseq_order.trans [OF conjunct2 [OF c] assms(5)]])
  moreover have "e \<notin> set (filter (due now) (eh_events (fst (forget_event e hu1))))"
    using c erase_addr_gone [of "eh_events (fst hu1)" e] by (simp add: forget_event_def ev_inv_def)
  ultimately show ?thesis using c by (auto simp: forget_event_def ev_inv_erase intro: subseq_Cons_skip)
qed

lemma CheckEvents_fire_each:
  assumes "owner_ok malloc now k OnEvent" and "malloc_ok malloc"
  shows "ev_inv (fst hu) \<Longrightarrow> list_all (due now) es \<Longrightarrow> distinct es \<Longrightarrow> subseq (filter (due now) (eh_events (fst hu))) es \<Longrightarrow>
    CheckEvents valid OnEvent now hu = Some (fire_each valid OnEvent es hu)"
proof (induction es arbitrary: hu)
  case Nil
  then have "filter (due now) (eh_events (fst hu)) = []" by (simp only: list_emb_Nil2)
  then show ?case by (subst CheckEvents.simps) (cases "eh_events (fst hu)"; simp split: if_splits)
next
  case (Cons e es)
  show ?case
  proof (cases "e \<in> set (eh_events (fst hu))")
    case True
    then have "e \<in> set (filter (due now) (eh_events (fst hu)))" using Cons.prems(2) by simp
    then obtain f where "filter (due now) (eh_events (fst hu)) = e # f" using subseq_Cons_hd [OF Cons.prems(4)] Cons.prems(3) by auto
    then obtain xs where xs: "eh_events (fst hu) = e # xs"
      using by_time_due_first [of "eh_events (fst hu)" now] Cons.prems(1) by (auto simp: ev_inv_def)
    have "CheckEvents valid OnEvent now (forget_event e hu1) = Some (fire_each valid OnEvent es (forget_event e hu1))"
      if "call_owner valid OnEvent e hu = Inr hu1" for hu1
      using forget_event_due [OF assms Cons.prems(1) that Cons.prems(4)] Cons.IH Cons.prems(2,3) by simp
    then show ?thesis
      using Cons.prems(2) by (subst CheckEvents.simps) (cases "call_owner valid OnEvent e hu"; simp add: xs)
  next
    case False
    then have "subseq (filter (due now) (eh_events (fst hu))) es" using Cons.prems(4) by (auto intro: subseq_Cons_skip)
    then show ?thesis using Cons False by simp
  qed
qed

lemma fire_each_result:
  assumes "owner_ok malloc now k OnEvent" and "malloc_ok malloc"
  shows "ev_inv (fst hu) \<Longrightarrow> subseq (filter (due now) (eh_events (fst hu))) es \<Longrightarrow>
    eh_unique_id (fst hu) + int k * int (length es) < 2 ^ 63 \<Longrightarrow>
    \<exists>calls h u. fire_each valid OnEvent es hu = Inr (calls, h, u) \<and> subseq calls es \<and> ev_inv h \<and>
      list_all (\<lambda>e. \<not> due now e) (eh_events h)"
proof (induction es arbitrary: hu)
  case Nil
  then have "filter (due now) (eh_events (fst hu)) = []" by (simp only: list_emb_Nil2)
  then show ?case using Nil.prems(1) by (cases hu) (auto simp: filter_empty_conv list_all_iff)
next
  case (Cons e es)
  have room: "eh_unique_id (fst hu) + int k + int k * int (length es) < 2 ^ 63" using Cons.prems(3) by (simp add: algebra_simps)
  show ?case
  proof (cases "e \<in> set (eh_events (fst hu))")
    case True
    have "0 \<le> int k * int (length es)" by simp
    then have "eh_unique_id (fst hu) + int k < 2 ^ 63" using room by linarith
    then obtain hu1 where hu1: "call_owner valid OnEvent e hu = Inr hu1" "eh_unique_id (fst hu1) \<le> eh_unique_id (fst hu) + int k"
      using call_owner_room [OF assms(1), of hu valid e] Cons.prems(1) by (auto simp: ev_inv_def)
    obtain calls h u where "fire_each valid OnEvent es (forget_event e hu1) = Inr (calls, h, u)" "subseq calls es" "ev_inv h"
      "list_all (\<lambda>e. \<not> due now e) (eh_events h)"
      using forget_event_due [OF assms Cons.prems(1) hu1(1) Cons.prems(2)] Cons.IH [of "forget_event e hu1"] hu1(2) room
      by (auto simp: forget_event_def)
    then show ?thesis using True hu1 by (auto simp: note_call_def)
  next
    case False
    then have "subseq (filter (due now) (eh_events (fst hu))) es" using Cons.prems(2) by (auto intro: subseq_Cons_skip)
    then show ?thesis using Cons.IH [OF Cons.prems(1)] room False by auto
  qed
qed

text \<open>Owners that leave the events that are due alone: then all of them are called that have an owner.\<close>

lemma erase_first_due:
  "distinct (map ev_addr xs) \<Longrightarrow> filter (due now) xs = e # es \<Longrightarrow>
   filter (due now) (erase_first (\<lambda>x. ev_addr x = ev_addr e) xs) = es"
proof (induction xs)
  case (Cons x xs)
  have "e \<in> set (x # xs)" using Cons.prems(2) by (metis filter_is_subset list.set_intros(1) subsetD)
  then have "x = e" if "ev_addr x = ev_addr e" using Cons.prems(1) that by (auto simp: image_iff)
  moreover have "due now e" using Cons.prems(2) by (metis filter_eq_ConsD)
  ultimately show ?case using Cons by (auto split: if_splits)
qed simp

definition keeps_due :: "int \<Rightarrow> 'u owner \<Rightarrow> bool" where
  "keeps_due now OnEvent \<longleftrightarrow>
     (\<forall>from eid hu hu1. OnEvent from eid hu = Inr hu1 \<longrightarrow>
        filter (due now) (eh_events (fst hu1)) = filter (due now) (eh_events (fst hu)))"

lemma fire_each_all:
  assumes "owner_ok malloc now k OnEvent" and "malloc_ok malloc" and keep: "keeps_due now OnEvent"
    and valid: "\<forall>from u. valid from u = ok from"
  shows "ev_inv (fst hu) \<Longrightarrow> filter (due now) (eh_events (fst hu)) = es \<Longrightarrow>
    fire_each valid OnEvent es hu = Inr (calls, r) \<Longrightarrow> calls = filter (\<lambda>e. ok (ev_from e)) es"
proof (induction es arbitrary: hu calls)
  case (Cons e es)
  have "e \<in> set (eh_events (fst hu))" using Cons.prems(2) by (metis filter_is_subset list.set_intros(1) subsetD)
  then obtain hu1 calls1 where hu1: "call_owner valid OnEvent e hu = Inr hu1"
    and c: "fire_each valid OnEvent es (forget_event e hu1) = Inr (calls1, r)" "calls = (if valid (ev_from e) (snd hu) then e # calls1 else calls1)"
    using Cons.prems(3) by (auto simp: bindX_eq_Inr_iff note_call_def)
  have inv: "ev_inv (fst hu1)" using call_owner_ok [OF assms(1,2) Cons.prems(1) hu1] by simp
  have "filter (due now) (eh_events (fst hu1)) = e # es"
    using hu1 keep [unfolded keeps_due_def, rule_format, of "ev_from e" _ hu hu1] Cons.prems(2)
    by (simp add: call_owner_def split: if_splits)
  then have "filter (due now) (eh_events (fst (forget_event e hu1))) = es"
    using erase_first_due inv by (simp add: forget_event_def ev_inv_def)
  moreover have "ev_inv (fst (forget_event e hu1))" using inv by (simp add: forget_event_def ev_inv_erase)
  ultimately show ?case using Cons.IH [OF _ _ c(1)] c(2) valid by simp
qed simp

lemma time_until_next:
  assumes "ev_inv h" and "list_all (\<lambda>e. \<not> due now e) (eh_events h)" and "0 \<le> now"
  shows "\<exists>r. GetTimeUntilNextEvent now h = Inr r \<and> (r = None \<longleftrightarrow> eh_events h = []) \<and>
    (\<forall>sec usec. r = Some (sec, usec) \<longrightarrow> 0 \<le> sec \<and> 0 \<le> usec \<and> usec < 1000000 \<and>
       now + (sec * 1000000 + usec) = max (now + 1) (Min (ev_time ` set (eh_events h))))"
proof (cases "eh_events h")
  case (Cons e es)
  define diff where "diff = (if ev_time e - now < 1 then 1 else ev_time e - now)"
  have "Min (ev_time ` set (eh_events h)) = ev_time e"
    using assms(1) Cons by (intro Min_eqI) (auto simp: ev_inv_def)
  moreover have "GetTimeUntilNextEvent now h = Inr (Some (diff div 1000000, diff mod 1000000))"
    using assms Cons by (simp add: ev_inv_def GetTimeUntilNextEvent_def signed64_def Let_def diff_def)
  moreover have "now + (diff div 1000000 * 1000000 + diff mod 1000000) = max (now + 1) (ev_time e)"
    by (simp add: diff_def)
  moreover have "0 \<le> diff div 1000000" by (simp add: diff_def pos_imp_zdiv_nonneg_iff)
  ultimately show ?thesis using Cons by simp
qed (simp add: GetTimeUntilNextEvent_def)

text \<open>
  C38 (functional). Timers: however events were added, removed and cleared, the list is in the order of time with distinct
  identifiers. A check then returns, if the owners it calls set no timer for a time before the check; they may set
  later timers, remove events and clear their own, as a timer that is deleted when it fires does. It is one pass
  over the events that were due, in the order of time: an event that an owner has removed is left out, of any other the
  owner is called once if it is there, and no event that was due is left. Where the owners leave the events that are
  due alone, all of them are called that have an owner. The time until the next event is then the distance to the
  earliest event, at least a microsecond. Nothing overflows while the identifiers do not run out and the
  clock is not before 1970.
\<close>

theorem timers_fire_in_order:
  assumes malloc: "malloc_ok malloc" and h0: "timer_run malloc xs EventHandler_new = Inr h0"
    and owner: "owner_ok malloc now k OnEvent" and now: "0 \<le> now"
    and room: "eh_unique_id h0 + int k * int (length (filter (due now) (eh_events h0))) < 2 ^ 63"
  shows "sorted (map ev_time (eh_events h0)) \<and> distinct (map ev_id (eh_events h0)) \<and>
    (\<exists>calls h u1. CheckEvents valid OnEvent now (h0, u) = Some (Inr (calls, h, u1)) \<and>
      fire_each valid OnEvent (filter (due now) (eh_events h0)) (h0, u) = Inr (calls, h, u1) \<and>
      subseq calls (filter (due now) (eh_events h0)) \<and>
      (keeps_due now OnEvent \<and> (\<forall>from v. valid from v = ok from) \<longrightarrow>
         calls = filter (\<lambda>e. ok (ev_from e)) (filter (due now) (eh_events h0))) \<and>
      list_all (\<lambda>e. \<not> due now e) (eh_events h) \<and>
      (\<exists>r. GetTimeUntilNextEvent now h = Inr r \<and> (r = None \<longleftrightarrow> eh_events h = []) \<and>
        (\<forall>sec usec. r = Some (sec, usec) \<longrightarrow> 0 \<le> sec \<and> 0 \<le> usec \<and> usec < 1000000 \<and>
           now + (sec * 1000000 + usec) = max (now + 1) (Min (ev_time ` set (eh_events h))))))"
proof -
  let ?due = "filter (due now) (eh_events h0)"
  have inv: "ev_inv h0" using timer_run_inv [OF malloc ev_inv_new h0] .
  then have "distinct ?due" by (auto simp: ev_inv_def distinct_map)
  then have c: "CheckEvents valid OnEvent now (h0, u) = Some (fire_each valid OnEvent ?due (h0, u))"
    using CheckEvents_fire_each [OF owner malloc] inv by (simp add: list_all_iff)
  obtain calls h u1 where f: "fire_each valid OnEvent ?due (h0, u) = Inr (calls, h, u1)" "subseq calls ?due" "ev_inv h"
    "list_all (\<lambda>e. \<not> due now e) (eh_events h)"
    using fire_each_result [OF owner malloc, of "(h0, u)" ?due valid] inv room by auto
  have "calls = filter (\<lambda>e. ok (ev_from e)) ?due" if "keeps_due now OnEvent" "\<forall>from v. valid from v = ok from"
    using fire_each_all [OF owner malloc that, of "(h0, u)" ?due calls "(h, u1)"] inv f(1) by (simp del: filter_filter)
  then show ?thesis using inv c f time_until_next [OF f(3,4) now] by (auto simp: ev_inv_def)
qed

text \<open>An allocator that always gives the lowest address that is free.\<close>

fun lowest_from :: "nat \<Rightarrow> nat list \<Rightarrow> nat \<Rightarrow> nat" where
  "lowest_from 0 used n = n"
| "lowest_from (Suc k) used n = (if n \<in> set used then lowest_from k used (n + 1) else n)"

definition lowest_free :: "nat list \<Rightarrow> nat" where
  "lowest_free used = lowest_from (Suc (fold max used 0)) used 0"

lemma lowest_free_ok: "malloc_ok lowest_free"
proof -
  have *: "lowest_from k used n \<notin> set used" if "\<forall>x\<in>set used. x < n + k" for k used n
    using that by (induction k arbitrary: n) auto
  have "x < 0 + Suc (fold max used 0)" if "x \<in> set used" for x used
    using Max.set_eq_fold [of 0 used] that by (simp add: less_Suc_eq_le) (metis List.finite_set Max_ge insertCI list.simps(15))
  then show ?thesis using * unfolding malloc_ok_def lowest_free_def by blast
qed

text \<open>
  A timer that fires once: its owner is deleted when it is called, and the destructor clears its events. Any other
  owner sets its timer again, two seconds after the check.
\<close>

definition one_shot :: "nat \<Rightarrow> int \<Rightarrow> EventHandler \<times> nat \<Rightarrow> exn + (EventHandler \<times> nat)" where
  "one_shot from eid hu =
     (if from = 1 then Inr (ClearEvents from (fst hu), snd hu + 1)
      else bindX (AddEvent lowest_free 100 from 2 0 (fst hu)) (\<lambda>(i, h). Inr (h, snd hu + 1)))"

definition some_timers :: "timer_op list" where
  "some_timers = [T_Add 10 1 0 50, T_Add 20 7 0 10, T_Add 20 2 0 20, T_Add 15 1 0 70, T_Add 30 3 1 0, T_Remove 3 5]"

lemma one_shot_ok: "owner_ok lowest_free 90 1 one_shot"
  unfolding owner_ok_def
proof (intro allI)
  fix "from" :: nat and eid :: int and hu :: "EventHandler \<times> nat"
  have t: "EventTime_at 100 2 0 = Inr 2000100" by (simp add: EventTime_at_def signed64_def)
  show "\<exists>ops. length ops \<le> 1 \<and> list_all (not_before 90) ops \<and>
    timer_run lowest_free ops (fst hu) = map_sum id fst (one_shot from eid hu)"
    by (intro exI [of _ "[if from = 1 then T_Clear from else T_Add 100 from 2 0]"])
      (auto simp: one_shot_def t bindX_def split: sum.splits)
qed

theorem timers_fire_in_order_witness:
  "\<exists>h0. timer_run lowest_free some_timers EventHandler_new = Inr h0 \<and>
     map ev_from (filter (due 90) (eh_events h0)) = [7, 2, 1, 1] \<and>
     (\<exists>calls h u1. CheckEvents (\<lambda>from u. from \<noteq> 7) one_shot 90 (h0, 0) = Some (Inr (calls, h, u1)) \<and>
        map ev_from calls = [2, 1] \<and> map ev_from (eh_events h) = [2] \<and> list_all (\<lambda>e. \<not> due 90 e) (eh_events h))"
proof -
  define h0 where "h0 = projr (timer_run lowest_free some_timers EventHandler_new)"
  have h0: "timer_run lowest_free some_timers EventHandler_new = Inr h0" unfolding h0_def by code_simp
  have d: "map ev_from (filter (due 90) (eh_events h0)) = [7, 2, 1, 1]" unfolding h0_def by code_simp
  have room: "eh_unique_id h0 + int 1 * int (length (filter (due 90) (eh_events h0))) < 2 ^ 63" unfolding h0_def by code_simp
  let ?r = "fire_each (\<lambda>from u. from \<noteq> 7) one_shot (filter (due 90) (eh_events h0)) (h0, 0)"
  have r: "map_sum id (\<lambda>(calls, h, u). (map ev_from calls, map ev_from (eh_events h))) ?r = Inr ([2, 1], [2])"
    unfolding h0_def by code_simp
  have "(0 :: int) \<le> 90" by simp
  from timers_fire_in_order [OF lowest_free_ok h0 one_shot_ok this room, of "\<lambda>from u. from \<noteq> 7" 0]
  obtain calls h u1 where c: "CheckEvents (\<lambda>from u. from \<noteq> 7) one_shot 90 (h0, 0) = Some (Inr (calls, h, u1))"
    "?r = Inr (calls, h, u1)" "list_all (\<lambda>e. \<not> due 90 e) (eh_events h)" by blast
  then have "map ev_from calls = [2, 1]" "map ev_from (eh_events h) = [2]" using r by simp_all
  then have "\<exists>calls h u1. CheckEvents (\<lambda>from u. from \<noteq> 7) one_shot 90 (h0, 0) = Some (Inr (calls, h, u1)) \<and>
      map ev_from calls = [2, 1] \<and> map ev_from (eh_events h) = [2] \<and> list_all (\<lambda>e. \<not> due 90 e) (eh_events h)"
    by (intro exI conjI) (rule c(1), assumption+, rule c(3))
  then show ?thesis using h0 d by (intro exI [of _ h0] conjI)
qed

text \<open>
  An owner that clears its events and sets a new one while it is called: the event it was called for has
  been deleted, the new one gets its address, and \<open>CheckEvents\<close>, which looks for that address, deletes the new timer too.
\<close>

definition clear_and_rearm :: "nat \<Rightarrow> int \<Rightarrow> EventHandler \<times> nat \<Rightarrow> exn + (EventHandler \<times> nat)" where
  "clear_and_rearm from eid hu =
     bindX (AddEvent lowest_free 100 from 2 0 (ClearEvents from (fst hu))) (\<lambda>(i, h). Inr (h, snd hu))"

lemma address_reuse_loses_timer:
  "bindX (timer_run lowest_free [T_Add 10 1 0 50] EventHandler_new) (\<lambda>h0.
     case CheckEvents (\<lambda>from u. True) clear_and_rearm 90 (h0, 0) of None \<Rightarrow> Inl (Undefined []) | Some r \<Rightarrow> r) =
   Inr ([\<lparr>ev_addr = 0, ev_from = 1, ev_time = 60, ev_id = 1\<rparr>],
         \<lparr>eh_events = [], eh_unique_id = 2, eh_quit = False, eh_socket = False, eh_wakeups = 0\<rparr>, 0)"
  by code_simp

text \<open>Of two events for the same moment the one added later comes first.\<close>

lemma equal_times_reversed:
  "map_sum id (\<lambda>h. map ev_id (eh_events h)) (timer_run lowest_free [T_Add 10 1 0 50, T_Add 10 2 0 50] EventHandler_new) = Inr [2, 1]"
  by code_simp

text \<open>A delay of more than about 292,000 years overflows.\<close>

lemma event_time_overflows: "EventTime_at 0 9223372036855 0 = Inl (Undefined ''signed overflow'')"
  by code_simp

text \<open>The identifier an owner is called with is an \<open>int\<close>, that of the event a \<open>long\<close>.\<close>

lemma event_id_narrowed:
  "call_owner (\<lambda>from u. True) (\<lambda>from eid hu. Inr (fst hu, eid)) \<lparr>ev_addr = 0, ev_from = 1, ev_time = 60, ev_id = 2 ^ 31\<rparr> (EventHandler_new, 0) =
   Inr (EventHandler_new, - (2 ^ 31))"
  by code_simp

end
