(* ===== verification/Mem_File.thy ===== *)
theory Mem_File
  imports Circular_Buffer
begin

text \<open>
  The memory file of the vendored socket library (\<open>src/src/Sockets-2.3.5/MemFile.cpp\<close>): a chain of blocks
  on the heap, with one position for reading and one for writing. Files opened by the same path share their
  chain, so the blocks are in an explicit store: an address is an index into the list of the blocks allocated so
  far. An access outside of the store or of a block is \<^const>\<open>Undefined\<close>.
\<close>

section \<open>Blocks and files\<close>

definition BLOCKSIZE :: nat where
  "BLOCKSIZE = 32768"

record block_t =
  blk_next :: "nat option"
  blk_data :: string

type_synonym store = "block_t list"

record MemFile =
  mf_path :: string
  mf_temporary :: bool
  mf_base :: nat
  mf_current_read :: nat
  mf_current_write :: nat
  mf_current_write_nr :: int
  mf_read_ptr :: nat
  mf_write_ptr :: nat
  mf_b_read_caused_eof :: bool

text \<open>\<open>new block_t\<close>, on the bytes its memory happens to have.\<close>

definition block_new :: "string \<Rightarrow> store \<Rightarrow> nat \<times> store" where
  "block_new mem h = (length h, h @ [\<lparr>blk_next = None, blk_data = mem\<rparr>])"

definition MemFile_on :: "string \<Rightarrow> bool \<Rightarrow> nat \<Rightarrow> MemFile" where
  "MemFile_on path temporary base =
     \<lparr>mf_path = path, mf_temporary = temporary, mf_base = base, mf_current_read = base, mf_current_write = base,
      mf_current_write_nr = 0, mf_read_ptr = 0, mf_write_ptr = 0, mf_b_read_caused_eof = False\<rparr>"

definition MemFile_new :: "string \<Rightarrow> store \<Rightarrow> MemFile \<times> store" where
  "MemFile_new mem h = (case block_new mem h of (a, h1) \<Rightarrow> (MemFile_on [] True a, h1))"

definition MemFile_open ::
    "string \<Rightarrow> string \<Rightarrow> (string \<Rightarrow> nat option) \<Rightarrow> store \<Rightarrow> MemFile \<times> (string \<Rightarrow> nat option) \<times> store" where
  "MemFile_open path mem files h =
     (case files path of
        Some a \<Rightarrow> (MemFile_on path False a, files, h)
      | None \<Rightarrow> (case block_new mem h of (a, h1) \<Rightarrow> (MemFile_on path False a, files(path \<mapsto> a), h1)))"

definition block_at :: "nat \<Rightarrow> store \<Rightarrow> exn + block_t" where
  "block_at a h = (if a < length h then Inr (h ! a) else Inl (Undefined ''no block there''))"

section \<open>Writing\<close>

text \<open>A new block after the current one, which becomes the current one.\<close>

definition append_block :: "string \<Rightarrow> MemFile \<times> store \<Rightarrow> exn + (MemFile \<times> store)" where
  "append_block mem fh =
     (case fh of (f, h) \<Rightarrow>
        case block_at (mf_current_write f) h of
          Inl e \<Rightarrow> Inl e
        | Inr b \<Rightarrow>
            (case block_new mem (h[mf_current_write f := b\<lparr>blk_next := Some (length h)\<rparr>]) of
               (a, h1) \<Rightarrow> Inr (f\<lparr>mf_current_write := a, mf_current_write_nr := mf_current_write_nr f + 1\<rparr>, h1)))"

definition advance_block :: "string \<Rightarrow> MemFile \<times> store \<Rightarrow> exn + (MemFile \<times> store)" where
  "advance_block mem fh =
     (case fh of (f, h) \<Rightarrow>
        case block_at (mf_current_write f) h of
          Inl e \<Rightarrow> Inl e
        | Inr b \<Rightarrow>
            (case blk_next b of
               Some a \<Rightarrow> Inr (f\<lparr>mf_current_write := a, mf_current_write_nr := mf_current_write_nr f + 1\<rparr>, h)
             | None \<Rightarrow> append_block mem fh))"

text \<open>The copy into the current block at an offset.\<close>

definition put_bytes :: "nat \<Rightarrow> string \<Rightarrow> MemFile \<times> store \<Rightarrow> exn + (MemFile \<times> store)" where
  "put_bytes off s fh =
     (case fh of (f, h) \<Rightarrow>
        case block_at (mf_current_write f) h of
          Inl e \<Rightarrow> Inl e
        | Inr b \<Rightarrow>
            (case memcpy off s (blk_data b) of
               Inl e \<Rightarrow> Inl e
             | Inr d \<Rightarrow> Inr (f\<lparr>mf_write_ptr := mf_write_ptr f + length s\<rparr>, h[mf_current_write f := b\<lparr>blk_data := d\<rparr>])))"

text \<open>
  The blocks after the first: the loop of \<open>fwrite\<close> and what follows it, on the bytes that are left.
  \<open>alloc\<close> gives the contents of the memory of a new block.
\<close>

function fwrite_rest :: "(nat \<Rightarrow> string) \<Rightarrow> string \<Rightarrow> MemFile \<times> store \<Rightarrow> exn + (MemFile \<times> store)" where
  "fwrite_rest alloc s fh =
     (case advance_block (alloc (length (snd fh))) fh of
        Inl e \<Rightarrow> Inl e
      | Inr fh1 \<Rightarrow>
          if BLOCKSIZE < length s then
            (case put_bytes 0 (take BLOCKSIZE s) fh1 of
               Inl e \<Rightarrow> Inl e
             | Inr fh2 \<Rightarrow> fwrite_rest alloc (drop BLOCKSIZE s) fh2)
          else put_bytes 0 s fh1)"
  by pat_completeness auto

termination
  by (relation "measure (\<lambda>(alloc, s, fh). length s)") (auto simp: BLOCKSIZE_def)

declare fwrite_rest.simps [simp del]

text \<open>\<open>(int)m_write_ptr / BLOCKSIZE\<close>: the conversion comes first, and the division truncates.\<close>

definition block_number :: "nat \<Rightarrow> int" where
  "block_number n =
     (let i = (int n + 2 ^ 31) mod 2 ^ 32 - 2 ^ 31
      in if i < 0 then - (- i div int BLOCKSIZE) else i div int BLOCKSIZE)"

definition MemFile_fwrite :: "(nat \<Rightarrow> string) \<Rightarrow> string \<Rightarrow> MemFile \<times> store \<Rightarrow> exn + (nat \<times> MemFile \<times> store)" where
  "MemFile_fwrite alloc s fh =
     (let f = fst fh; p = mf_write_ptr f mod BLOCKSIZE; nr = block_number (mf_write_ptr f); sz = length s
      in case if mf_current_write_nr f < nr then append_block (alloc (length (snd fh))) fh else Inr fh of
           Inl e \<Rightarrow> Inl e
         | Inr fh1 \<Rightarrow>
             if p + sz \<le> BLOCKSIZE then
               (case put_bytes p s fh1 of Inl e \<Rightarrow> Inl e | Inr fh2 \<Rightarrow> Inr (sz, fh2))
             else
               let sz1 = BLOCKSIZE - p
               in case put_bytes p (take sz1 s) fh1 of
                    Inl e \<Rightarrow> Inl e
                  | Inr fh2 \<Rightarrow> (case fwrite_rest alloc (drop sz1 s) fh2 of Inl e \<Rightarrow> Inl e | Inr fh3 \<Rightarrow> Inr (sz, fh3)))"

section \<open>Reading\<close>

definition get_bytes :: "nat \<Rightarrow> nat \<Rightarrow> MemFile \<Rightarrow> store \<Rightarrow> exn + (string \<times> MemFile)" where
  "get_bytes off n f h =
     (case block_at (mf_current_read f) h of
        Inl e \<Rightarrow> Inl e
      | Inr b \<Rightarrow>
          (case memread off n (blk_data b) of
             Inl e \<Rightarrow> Inl e
           | Inr s \<Rightarrow> Inr (s, f\<lparr>mf_read_ptr := mf_read_ptr f + n\<rparr>)))"

text \<open>The loop of \<open>fread\<close> and what follows it; \<open>out\<close> is what has been copied, \<open>sz2\<close> what is left.\<close>

function fread_rest :: "store \<Rightarrow> nat \<Rightarrow> string \<Rightarrow> MemFile \<Rightarrow> exn + (string \<times> MemFile)" where
  "fread_rest h sz2 out f =
     (case block_at (mf_current_read f) h of
        Inl e \<Rightarrow> Inl e
      | Inr b \<Rightarrow>
          (case blk_next b of
             None \<Rightarrow> Inr (out, f)
           | Some a \<Rightarrow>
               let f1 = f\<lparr>mf_current_read := a\<rparr>
               in if BLOCKSIZE < sz2 then
                    (case get_bytes 0 BLOCKSIZE f1 h of
                       Inl e \<Rightarrow> Inl e
                     | Inr (s, f2) \<Rightarrow> fread_rest h (sz2 - BLOCKSIZE) (out @ s) f2)
                  else
                    (case get_bytes 0 sz2 f1 h of Inl e \<Rightarrow> Inl e | Inr (s, f2) \<Rightarrow> Inr (out @ s, f2))))"
  by pat_completeness auto

termination
  by (relation "measure (\<lambda>(h, sz2, out, f). sz2)") (auto simp: BLOCKSIZE_def)

declare fread_rest.simps [simp del]

text \<open>
  What is returned is the length of what has been copied. The bytes available are counted in a
  \<open>size_t\<close>, which wraps around when the position for writing has been set back.
\<close>

definition MemFile_fread :: "nat \<Rightarrow> nat \<Rightarrow> MemFile \<Rightarrow> store \<Rightarrow> exn + (string \<times> MemFile)" where
  "MemFile_fread elem nmemb f h =
     (let p = mf_read_ptr f mod BLOCKSIZE;
          available = (if mf_read_ptr f \<le> mf_write_ptr f then mf_write_ptr f - mf_read_ptr f
                       else 2 ^ 64 - (mf_read_ptr f - mf_write_ptr f));
          beyond = (available < elem * nmemb);
          sz = (if beyond then available else elem * nmemb);
          f1 = (if beyond then f\<lparr>mf_b_read_caused_eof := True\<rparr> else f)
      in if sz = 0 then Inr ([], f1)
         else if p + sz < BLOCKSIZE then get_bytes p sz f1 h
         else
           let sz1 = BLOCKSIZE - p
           in case get_bytes p sz1 f1 h of
                Inl e \<Rightarrow> Inl e
              | Inr (s, f2) \<Rightarrow> fread_rest h (sz - sz1) s f2)"

definition MemFile_size :: "MemFile \<Rightarrow> nat" where
  "MemFile_size f = mf_write_ptr f"

definition MemFile_eof :: "MemFile \<Rightarrow> bool" where
  "MemFile_eof f = mf_b_read_caused_eof f"

definition reset_read :: "MemFile \<Rightarrow> MemFile" where
  "reset_read f = f\<lparr>mf_read_ptr := 0, mf_current_read := mf_base f\<rparr>"

definition reset_write :: "MemFile \<Rightarrow> MemFile" where
  "reset_write f = f\<lparr>mf_write_ptr := 0, mf_current_write := mf_base f, mf_current_write_nr := 0\<rparr>"


section \<open>Chains\<close>

lemma BLOCKSIZE_pos [simp]: "0 < BLOCKSIZE" "BLOCKSIZE \<noteq> 0"
  by (simp_all add: BLOCKSIZE_def)

definition blocks :: "store \<Rightarrow> nat list \<Rightarrow> string" where
  "blocks h as = concat (map (\<lambda>a. blk_data (h ! a)) as)"

definition chained :: "store \<Rightarrow> nat list \<Rightarrow> bool" where
  "chained h as \<longleftrightarrow>
     as \<noteq> [] \<and> distinct as \<and> list_all (\<lambda>a. a < length h \<and> length (blk_data (h ! a)) = BLOCKSIZE) as \<and>
     list_all (\<lambda>i. blk_next (h ! (as ! i)) = (if Suc i < length as then Some (as ! Suc i) else None)) [0..<length as]"

lemma chainD:
  assumes "chained h as"
  shows "as \<noteq> []" "distinct as" "\<And>a. a \<in> set as \<Longrightarrow> a < length h" "\<And>a. a \<in> set as \<Longrightarrow> length (blk_data (h ! a)) = BLOCKSIZE"
    "\<And>i. i < length as \<Longrightarrow> blk_next (h ! (as ! i)) = (if Suc i < length as then Some (as ! Suc i) else None)"
  using assms by (auto simp: chained_def list_all_iff)

lemma chainI:
  assumes "as \<noteq> []" "distinct as" "\<And>a. a \<in> set as \<Longrightarrow> a < length h" "\<And>a. a \<in> set as \<Longrightarrow> length (blk_data (h ! a)) = BLOCKSIZE"
    "\<And>i. i < length as \<Longrightarrow> blk_next (h ! (as ! i)) = (if Suc i < length as then Some (as ! Suc i) else None)"
  shows "chained h as"
  using assms by (auto simp: chained_def list_all_iff)

lemma length_blocks:
  assumes "\<And>a. a \<in> set as \<Longrightarrow> length (blk_data (h ! a)) = BLOCKSIZE"
  shows "length (blocks h as) = length as * BLOCKSIZE"
  using assms by (induction as) (auto simp: blocks_def)

lemma blocks_append [simp]: "blocks h (as @ bs) = blocks h as @ blocks h bs"
  by (simp add: blocks_def)

lemma blocks_cong: "(\<And>a. a \<in> set as \<Longrightarrow> blk_data (h ! a) = blk_data (k ! a)) \<Longrightarrow> blocks h as = blocks k as"
  by (induction as) (auto simp: blocks_def)

lemma drop_blocks:
  assumes "chained h as" and "i < length as"
  shows "drop (i * BLOCKSIZE) (blocks h as) = blk_data (h ! (as ! i)) @ drop (Suc i * BLOCKSIZE) (blocks h as)"
proof -
  have sp: "as = take i as @ as ! i # drop (Suc i) as" using assms(2) by (rule id_take_nth_drop)
  have len: "length (blocks h (take j as)) = j * BLOCKSIZE" if "j \<le> length as" for j
    using length_blocks [of "take j as" h] chainD(4) [OF assms(1)] that by (auto dest: in_set_takeD)
  have "blocks h as = blocks h (take i as) @ blk_data (h ! (as ! i)) @ blocks h (drop (Suc i) as)"
    by (subst sp) (simp add: blocks_def)
  moreover have "length (blk_data (h ! (as ! i))) = BLOCKSIZE" using chainD(4) [OF assms(1)] assms(2) by simp
  ultimately show ?thesis using len [of i] assms(2) by simp
qed

text \<open>A file that holds the bytes \<open>bs\<close>, with its position for writing at the end.\<close>

definition holds :: "MemFile \<times> store \<Rightarrow> nat list \<Rightarrow> string \<Rightarrow> bool" where
  "holds fh as bs \<longleftrightarrow>
     (case fh of (f, h) \<Rightarrow>
        chained h as \<and> mf_base f = hd as \<and> mf_current_write f = last as \<and> mf_current_write_nr f = int (length as) - 1 \<and>
        mf_write_ptr f = length bs \<and> (length as - 1) * BLOCKSIZE \<le> length bs \<and> length bs \<le> length as * BLOCKSIZE \<and>
        take (length bs) (blocks h as) = bs)"

definition same_read :: "MemFile \<Rightarrow> MemFile \<Rightarrow> bool" where
  "same_read f g \<longleftrightarrow>
     mf_read_ptr g = mf_read_ptr f \<and> mf_current_read g = mf_current_read f \<and> mf_b_read_caused_eof g = mf_b_read_caused_eof f \<and>
     mf_base g = mf_base f"

lemma same_read_trans: "same_read f g \<Longrightarrow> same_read g k \<Longrightarrow> same_read f k"
  by (simp add: same_read_def)

lemma holds_new: "length mem = BLOCKSIZE \<Longrightarrow> holds (MemFile_new mem h) [length h] []"
  by (simp add: holds_def MemFile_new_def block_new_def MemFile_on_def chained_def)

lemma append_holds:
  assumes f: "holds (f, h) as bs" and full: "length bs = length as * BLOCKSIZE" and mem: "length mem = BLOCKSIZE"
  shows "\<exists>g k. append_block mem (f, h) = Inr (g, k) \<and> holds (g, k) (as @ [length h]) bs \<and> same_read f g"
proof -
  have c: "chained h as" "mf_current_write f = last as" using f by (simp_all add: holds_def)
  note D = chainD [OF c(1)]
  define a where "a = last as"
  define k where "k = h[a := (h ! a)\<lparr>blk_next := Some (length h)\<rparr>] @ [\<lparr>blk_next = None, blk_data = mem\<rparr>]"
  define g where "g = f\<lparr>mf_current_write := length h, mf_current_write_nr := mf_current_write_nr f + 1\<rparr>"
  have a: "a < length h" "a \<in> set as" using D(1,3) by (simp_all add: a_def)
  have r: "append_block mem (f, h) = Inr (g, k)"
    using a c(2) by (simp add: append_block_def block_at_def block_new_def k_def g_def a_def)
  have dat: "blk_data (k ! b) = blk_data (h ! b)" if "b < length h" for b
    using that by (cases "b = a") (auto simp: k_def nth_append)
  have new: "k ! length h = \<lparr>blk_next = None, blk_data = mem\<rparr>" by (simp add: k_def nth_append)
  have nxt: "blk_next (k ! b) = (if b = a then Some (length h) else blk_next (h ! b))" if "b < length h" for b
    using that by (auto simp: k_def nth_append)
  have ai: "as ! i = a \<longleftrightarrow> Suc i = length as" if "i < length as" for i
    using that D(1,2) nth_eq_iff_index_eq [of as i "length as - 1"] by (auto simp: a_def last_conv_nth)
  have chained: "chained k (as @ [length h])"
  proof (rule chainI)
    show "distinct (as @ [length h])" using D(2,3) by auto
  next
    fix i assume i: "i < length (as @ [length h])"
    show "blk_next (k ! ((as @ [length h]) ! i)) = (if Suc i < length (as @ [length h]) then Some ((as @ [length h]) ! Suc i) else None)"
      using i D(5) [of i] nxt [of "as ! i"] ai [of i] new D(3) [of "as ! i"]
      by (cases "i < length as") (auto simp: nth_append)
  qed (use D(3,4) dat new mem in \<open>auto simp: k_def less_SucI\<close>)
  have "blocks k as = blocks h as" using D(3) dat by (intro blocks_cong) auto
  then show ?thesis
    using r f chained D(1) full by (auto simp: holds_def g_def same_read_def)
qed


lemma advance_holds:
  assumes f: "holds (f, h) as bs" and full: "length bs = length as * BLOCKSIZE" and mem: "length mem = BLOCKSIZE"
  shows "\<exists>g k. advance_block mem (f, h) = Inr (g, k) \<and> holds (g, k) (as @ [length h]) bs \<and> same_read f g"
proof -
  have c: "chained h as" "mf_current_write f = last as" using f by (simp_all add: holds_def)
  have "last as < length h" using chainD(1,3) [OF c(1)] by simp
  moreover have "blk_next (h ! last as) = None"
    using chainD(1) [OF c(1)] chainD(5) [OF c(1), of "length as - 1"] by (simp add: last_conv_nth)
  ultimately have "advance_block mem (f, h) = append_block mem (f, h)"
    using c(2) by (simp add: advance_block_def block_at_def)
  then show ?thesis using append_holds [OF assms] by simp
qed

lemma put_holds:
  assumes f: "holds (f, h) as bs" and off: "length bs = (length as - 1) * BLOCKSIZE + off" and fits: "off + length s \<le> BLOCKSIZE"
  shows "\<exists>g k. put_bytes off s (f, h) = Inr (g, k) \<and> holds (g, k) as (bs @ s) \<and> same_read f g"
proof -
  have c: "chained h as" "mf_current_write f = last as" using f by (simp_all add: holds_def)
  note D = chainD [OF c(1)]
  obtain as0 a where as: "as = as0 @ [a]" using D(1) by (cases as rule: rev_cases) auto
  have a: "a < length h" "a \<notin> set as0" "length (blk_data (h ! a)) = BLOCKSIZE" using D(2-4) as by auto
  define d where "d = take off (blk_data (h ! a)) @ s @ drop (off + length s) (blk_data (h ! a))"
  define k where "k = h[a := (h ! a)\<lparr>blk_data := d\<rparr>]"
  define g where "g = f\<lparr>mf_write_ptr := mf_write_ptr f + length s\<rparr>"
  have dl: "length d = BLOCKSIZE" using fits a by (simp add: d_def)
  have r: "put_bytes off s (f, h) = Inr (g, k)"
    using a fits c(2) as by (simp add: put_bytes_def block_at_def memcpy_Inr d_def k_def g_def)
  have ka: "k ! a = (h ! a)\<lparr>blk_data := d\<rparr>" and kb: "\<And>b. b \<noteq> a \<Longrightarrow> k ! b = h ! b" using a by (simp_all add: k_def)
  have nxt: "blk_next (k ! b) = blk_next (h ! b)" for b using ka kb [of b] by (cases "b = a") simp_all
  have len: "length (blk_data (k ! b)) = BLOCKSIZE" if "b \<in> set as" for b
    using that ka kb [of b] dl D(4) by (cases "b = a") simp_all
  have chained: "chained k as"
    using D(1,2) len nxt D(3,5) by (intro chainI) (auto simp: k_def)
  have b0: "blocks k as0 = blocks h as0" using a(2) kb by (intro blocks_cong) (metis)
  have l0: "length (blocks h as0) = length as0 * BLOCKSIZE" using D(4) as by (intro length_blocks) simp
  have bs: "bs = blocks h as0 @ take off (blk_data (h ! a))"
  proof -
    have "bs = take (length bs) (blocks h as)" using f by (simp add: holds_def)
    also have "\<dots> = blocks h as0 @ take off (blk_data (h ! a))" using off l0 as by (simp add: blocks_def)
    finally show ?thesis .
  qed
  have "blocks k as = blocks h as0 @ d" using b0 ka as by (simp add: blocks_def)
  then have "take (length (bs @ s)) (blocks k as) = bs @ s"
    using bs l0 off as fits a by (simp add: d_def)
  then show ?thesis
    using r f chained off fits as by (auto simp: holds_def g_def same_read_def)
qed

lemma fwrite_rest_holds:
  assumes alloc: "\<And>n. length (alloc n) = BLOCKSIZE"
  shows "holds (f, h) as bs \<Longrightarrow> length bs = length as * BLOCKSIZE \<Longrightarrow>
    \<exists>g k as1. fwrite_rest alloc s (f, h) = Inr (g, k) \<and> holds (g, k) as1 (bs @ s) \<and> hd as1 = hd as \<and> same_read f g"
proof (induction "length s" arbitrary: s f h as bs rule: less_induct)
  case less
  obtain g k where g: "advance_block (alloc (length h)) (f, h) = Inr (g, k)" "holds (g, k) (as @ [length h]) bs" "same_read f g"
    using advance_holds [OF less.prems alloc] by blast
  have ne: "as \<noteq> []" using less.prems(1) chainD(1) by (auto simp: holds_def)
  have at: "length bs = (length (as @ [length h]) - 1) * BLOCKSIZE + 0" using less.prems(2) by simp
  show ?case
  proof (cases "BLOCKSIZE < length s")
    case False
    then obtain g1 k1 where "put_bytes 0 s (g, k) = Inr (g1, k1)" "holds (g1, k1) (as @ [length h]) (bs @ s)" "same_read g g1"
      using put_holds [OF g(2) at, of s] by auto
    then show ?thesis
      using g False ne same_read_trans [OF g(3)]
      by (intro exI [of _ g1] exI [of _ k1] exI [of _ "as @ [length h]"]) (simp add: fwrite_rest.simps [of alloc s])
  next
    case True
    then obtain g1 k1 where p: "put_bytes 0 (take BLOCKSIZE s) (g, k) = Inr (g1, k1)"
        "holds (g1, k1) (as @ [length h]) (bs @ take BLOCKSIZE s)" "same_read g g1"
      using put_holds [OF g(2) at, of "take BLOCKSIZE s"] by auto
    have "length (drop BLOCKSIZE s) < length s" using True BLOCKSIZE_pos by (simp del: BLOCKSIZE_pos)
    moreover have "length (bs @ take BLOCKSIZE s) = length (as @ [length h]) * BLOCKSIZE" using less.prems(2) True by simp
    ultimately obtain g2 k2 as2 where r: "fwrite_rest alloc (drop BLOCKSIZE s) (g1, k1) = Inr (g2, k2)"
        "holds (g2, k2) as2 ((bs @ take BLOCKSIZE s) @ drop BLOCKSIZE s)" "hd as2 = hd (as @ [length h])" "same_read g1 g2"
      using less.hyps [of "drop BLOCKSIZE s", OF _ p(2)] by blast
    have "fwrite_rest alloc s (f, h) = Inr (g2, k2)"
      using g(1) p(1) r(1) True by (simp add: fwrite_rest.simps [of alloc s])
    moreover have "same_read f g2" using g(3) p(3) r(4) same_read_trans by blast
    ultimately show ?thesis using r(2,3) ne by auto
  qed
qed

lemma block_number_small: "n < 2 ^ 31 \<Longrightarrow> block_number n = int (n div BLOCKSIZE)"
  by (simp add: block_number_def Let_def zdiv_int)

lemma fwrite_holds:
  assumes alloc: "\<And>n. length (alloc n) = BLOCKSIZE" and f: "holds (f, h) as bs" and small: "length bs < 2 ^ 31"
  shows "\<exists>g k as1. MemFile_fwrite alloc s (f, h) = Inr (length s, g, k) \<and> holds (g, k) as1 (bs @ s) \<and> hd as1 = hd as \<and> same_read f g"
proof -
  have ne: "as \<noteq> []" and wp: "mf_write_ptr f = length bs" and nr: "mf_current_write_nr f = int (length as) - 1"
    and lo: "(length as - 1) * BLOCKSIZE \<le> length bs" and hi: "length bs \<le> length as * BLOCKSIZE"
    using f chainD(1) by (auto simp: holds_def)
  define p where "p = length bs mod BLOCKSIZE"
  obtain g k as1 where first: "(if mf_current_write_nr f < block_number (length bs) then append_block (alloc (length h)) (f, h) else Inr (f, h)) = Inr (g, k)"
      and g: "holds (g, k) as1 bs" "hd as1 = hd as" "same_read f g" "length bs = (length as1 - 1) * BLOCKSIZE + p"
  proof (cases "length bs = length as * BLOCKSIZE")
    case True
    have "p = 0" "block_number (length bs) = int (length as)" using True block_number_small [OF small] by (simp_all add: p_def)
    then show ?thesis
      using append_holds [OF f True, of "alloc (length h)"] alloc nr True ne that by auto
  next
    case False
    then have lt: "length bs < length as * BLOCKSIZE" using hi by simp
    have q: "length bs div BLOCKSIZE = length as - 1"
      using lo lt ne by (intro div_nat_eqI) (simp_all add: algebra_simps)
    have e: "length bs = (length as - 1) * BLOCKSIZE + p"
      unfolding q [symmetric] p_def by (rule div_mult_mod_eq [symmetric])
    have "block_number (length bs) = int (length as) - 1"
      using block_number_small [OF small] q ne by (simp add: of_nat_diff Suc_le_eq)
    then have "\<not> mf_current_write_nr f < block_number (length bs)" using nr by simp
    then show ?thesis using that [of f h as] f e by (simp add: same_read_def)
  qed
  have p: "p < BLOCKSIZE" by (simp add: p_def)
  have unfold: "MemFile_fwrite alloc s (f, h) =
      (if p + length s \<le> BLOCKSIZE then (case put_bytes p s (g, k) of Inl e \<Rightarrow> Inl e | Inr fh2 \<Rightarrow> Inr (length s, fh2))
       else case put_bytes p (take (BLOCKSIZE - p) s) (g, k) of
              Inl e \<Rightarrow> Inl e
            | Inr fh2 \<Rightarrow> (case fwrite_rest alloc (drop (BLOCKSIZE - p) s) fh2 of Inl e \<Rightarrow> Inl e | Inr fh3 \<Rightarrow> Inr (length s, fh3)))"
    by (simp only: MemFile_fwrite_def Let_def fst_conv snd_conv wp first p_def [symmetric] sum.case)
  show ?thesis
  proof (cases "p + length s \<le> BLOCKSIZE")
    case True
    then show ?thesis using put_holds [OF g(1,4) True] unfold g(2,3) same_read_trans by fastforce
  next
    case False
    then obtain g1 k1 where q: "put_bytes p (take (BLOCKSIZE - p) s) (g, k) = Inr (g1, k1)"
        "holds (g1, k1) as1 (bs @ take (BLOCKSIZE - p) s)" "same_read g g1"
      using put_holds [OF g(1,4), of "take (BLOCKSIZE - p) s"] p by auto
    have "as1 \<noteq> []" using g(1) chainD(1) by (auto simp: holds_def)
    then have "length (bs @ take (BLOCKSIZE - p) s) = length as1 * BLOCKSIZE"
      using g(4) False p by (cases as1) auto
    from fwrite_rest_holds [where alloc = alloc and s = "drop (BLOCKSIZE - p) s", OF alloc q(2) this] obtain g2 k2 as2 where
      r: "fwrite_rest alloc (drop (BLOCKSIZE - p) s) (g1, k1) = Inr (g2, k2)"
        "holds (g2, k2) as2 ((bs @ take (BLOCKSIZE - p) s) @ drop (BLOCKSIZE - p) s)" "hd as2 = hd as1" "same_read g1 g2" by blast
    have "MemFile_fwrite alloc s (f, h) = Inr (length s, g2, k2)" using unfold False q(1) r(1) by simp
    moreover have "same_read f g2" using g(3) q(3) r(4) same_read_trans by blast
    ultimately show ?thesis using r(2,3) g(2) by auto
  qed
qed


section \<open>Reading back\<close>

text \<open>A file whose position for reading is at \<open>r\<close>.\<close>

definition reads_at :: "MemFile \<Rightarrow> nat list \<Rightarrow> string \<Rightarrow> nat \<Rightarrow> bool" where
  "reads_at f as bs r \<longleftrightarrow>
     mf_read_ptr f = r \<and> r \<le> length bs \<and> (r < length bs \<longrightarrow> mf_current_read f = as ! (r div BLOCKSIZE))"

lemma bytes_in_block:
  assumes f: "holds (f, h) as bs" and r: "r < length bs" and n: "r mod BLOCKSIZE + n \<le> BLOCKSIZE" "r + n \<le> length bs"
  shows "r div BLOCKSIZE < length as"
    and "take n (drop (r mod BLOCKSIZE) (blk_data (h ! (as ! (r div BLOCKSIZE))))) = take n (drop r bs)"
    and "length (blk_data (h ! (as ! (r div BLOCKSIZE)))) = BLOCKSIZE"
    and "as ! (r div BLOCKSIZE) < length h"
proof -
  let ?i = "r div BLOCKSIZE" and ?p = "r mod BLOCKSIZE"
  have c: "chained h as" and len: "length bs \<le> length as * BLOCKSIZE" and bs: "take (length bs) (blocks h as) = bs"
    using f by (simp_all add: holds_def)
  show i: "?i < length as" using r len by (simp add: div_less_iff_less_mult)
  show l: "length (blk_data (h ! (as ! ?i))) = BLOCKSIZE" "as ! ?i < length h" using chainD(3,4) [OF c] i by simp_all
  have "drop r (blocks h as) = drop ?p (drop (?i * BLOCKSIZE) (blocks h as))" by simp
  also have "\<dots> = drop ?p (blk_data (h ! (as ! ?i))) @ drop (Suc ?i * BLOCKSIZE) (blocks h as)"
    unfolding drop_blocks [OF c i] using l by (simp add: mod_less_divisor less_imp_le)
  finally have d: "drop r (blocks h as) = drop ?p (blk_data (h ! (as ! ?i))) @ drop (Suc ?i * BLOCKSIZE) (blocks h as)" .
  have "take n (drop r bs) = take n (drop r (take (length bs) (blocks h as)))" by (simp only: bs)
  also have "\<dots> = take n (drop r (blocks h as))" using n(2) by (simp add: drop_take min_def)
  also have "\<dots> = take n (drop ?p (blk_data (h ! (as ! ?i))))" unfolding d using n(1) l by simp
  finally show "take n (drop ?p (blk_data (h ! (as ! ?i)))) = take n (drop r bs)" by simp
qed

lemma get_bytes_in_block:
  assumes "holds (f, h) as bs" and "r < length bs" and "r mod BLOCKSIZE + n \<le> BLOCKSIZE" and "r + n \<le> length bs"
    and "mf_current_read g = as ! (r div BLOCKSIZE)" and "mf_read_ptr g = r"
  shows "get_bytes (r mod BLOCKSIZE) n g h = Inr (take n (drop r bs), g\<lparr>mf_read_ptr := r + n\<rparr>)"
  using bytes_in_block [OF assms(1-4)] assms(3,5,6) by (simp add: get_bytes_def block_at_def memread_Inr)

lemma holds_reading:
  "holds (f, h) as bs \<Longrightarrow> mf_base g = mf_base f \<Longrightarrow> mf_current_write g = mf_current_write f \<Longrightarrow>
   mf_current_write_nr g = mf_current_write_nr f \<Longrightarrow> mf_write_ptr g = mf_write_ptr f \<Longrightarrow> holds (g, h) as bs"
  by (simp add: holds_def)

lemma fread_next:
  assumes f: "holds (f, h) as bs" and r: "r < length bs"
    and cross: "BLOCKSIZE \<le> r mod BLOCKSIZE + sz" "r + sz \<le> length bs" "sz \<le> BLOCKSIZE" 
    and g: "mf_current_read g = as ! (r div BLOCKSIZE)" "mf_read_ptr g = r + (BLOCKSIZE - r mod BLOCKSIZE)"
  defines "sz1 \<equiv> BLOCKSIZE - r mod BLOCKSIZE"
  shows "\<exists>a. fread_rest h (sz - sz1) (take sz1 (drop r bs)) g =
      Inr (take sz (drop r bs), g\<lparr>mf_current_read := a, mf_read_ptr := r + sz\<rparr>) \<and>
    (r + sz < length bs \<longrightarrow> a = as ! ((r + sz) div BLOCKSIZE))"
proof -
  let ?i = "r div BLOCKSIZE" and ?p = "r mod BLOCKSIZE"
  have c: "chained h as" and len: "length bs \<le> length as * BLOCKSIZE" using f by (simp_all add: holds_def)
  have p: "?p < BLOCKSIZE" by simp
  have sz1: "sz1 \<le> sz" "0 < sz1" "sz - sz1 < BLOCKSIZE" "sz - sz1 \<le> ?p" unfolding sz1_def using p cross by linarith+
  have i: "?i < length as" "as ! ?i < length h"
    using bytes_in_block(1,4) [OF f r, of 0] p r by simp_all
  have rr: "r + sz1 = Suc ?i * BLOCKSIZE" unfolding sz1_def mult_Suc using p div_mult_mod_eq [of r BLOCKSIZE] by linarith
  have nxt: "blk_next (h ! (as ! ?i)) = (if Suc ?i < length as then Some (as ! Suc ?i) else None)" using chainD(5) [OF c i(1)] .
  show ?thesis
  proof (cases "Suc ?i < length as")
    case False
    then have "length as = Suc ?i" using i by simp
    then have "length bs \<le> r + sz1" using len rr by simp
    then have "sz = sz1" "\<not> r + sz < length bs" using cross(2) sz1 by auto
    then show ?thesis
      using nxt False i g by (intro exI [of _ "as ! ?i"]) (simp add: fread_rest.simps [of h] block_at_def sz1_def)
  next
    case True
    have a: "as ! Suc ?i < length h" "length (blk_data (h ! (as ! Suc ?i))) = BLOCKSIZE" using chainD(3,4) [OF c] True by simp_all
    have "take (sz - sz1) (blk_data (h ! (as ! Suc ?i))) = take (sz - sz1) (drop (r + sz1) bs)"
    proof (cases "r + sz1 < length bs")
      case True
      have "(r + sz1) mod BLOCKSIZE = 0" "(r + sz1) div BLOCKSIZE = Suc ?i" unfolding rr by simp_all
      then show ?thesis
        using bytes_in_block(2) [OF f True, of "sz - sz1"] sz1 cross(2) by simp
    next
      case False
      then show ?thesis using cross(2) sz1 by simp
    qed
    then have "take sz1 (drop r bs) @ take (sz - sz1) (blk_data (h ! (as ! Suc ?i))) = take sz (drop r bs)"
      using sz1(1) take_add [of sz1 "sz - sz1" "drop r bs"] by (simp add: add.commute)
    moreover have "(r + sz) div BLOCKSIZE = Suc ?i"
    proof -
      have "r + sz = Suc ?i * BLOCKSIZE + (sz - sz1)" using rr sz1(1) by simp
      then show ?thesis using sz1(3) by (simp only: div_mult_self3) simp
    qed
    ultimately show ?thesis
      using nxt True i a g sz1 rr
      by (intro exI [of _ "as ! Suc ?i"])
        (simp add: fread_rest.simps [of h] block_at_def get_bytes_def memread_Inr Let_def sz1_def [symmetric])
  qed
qed


lemma fread_at:
  assumes f: "holds (f, h) as bs" and r: "reads_at f as bs r" and n: "elem * nmemb = n" "n \<le> BLOCKSIZE"
  shows "\<exists>g. MemFile_fread elem nmemb f h = Inr (take n (drop r bs), g) \<and> holds (g, h) as bs \<and>
    reads_at g as bs (min (r + n) (length bs)) \<and> MemFile_eof g = (MemFile_eof f \<or> length bs < r + n)"
proof -
  define sz where "sz = (if length bs - r < n then length bs - r else n)"
  define f1 where "f1 = (if length bs - r < n then f\<lparr>mf_b_read_caused_eof := True\<rparr> else f)"
  have wp: "mf_write_ptr f = length bs" and rp: "mf_read_ptr f = r" "r \<le> length bs"
    using f r by (simp_all add: holds_def reads_at_def)
  have h1: "holds (f1, h) as bs" and c1: "mf_current_read f1 = mf_current_read f" "mf_read_ptr f1 = r"
    using f rp by (auto simp: f1_def holds_def)
  have eof: "MemFile_eof f1 = (MemFile_eof f \<or> length bs < r + n)" using rp by (auto simp: f1_def MemFile_eof_def)
  have tk: "take n (drop r bs) = take sz (drop r bs)" by (auto simp: sz_def)
  have mn: "min (r + n) (length bs) = r + sz" using rp by (auto simp: sz_def)
  have unfold: "MemFile_fread elem nmemb f h =
      (if sz = 0 then Inr ([], f1)
       else if r mod BLOCKSIZE + sz < BLOCKSIZE then get_bytes (r mod BLOCKSIZE) sz f1 h
       else case get_bytes (r mod BLOCKSIZE) (BLOCKSIZE - r mod BLOCKSIZE) f1 h of
              Inl e \<Rightarrow> Inl e
            | Inr (s, f2) \<Rightarrow> fread_rest h (sz - (BLOCKSIZE - r mod BLOCKSIZE)) s f2)"
    unfolding MemFile_fread_def Let_def rp(1) wp n(1) if_P [OF rp(2)] sz_def [symmetric] f1_def [symmetric] by (rule refl)
  show ?thesis
  proof (cases "sz = 0")
    case True
    then have "reads_at f1 as bs (r + sz)" using r c1 by (simp add: reads_at_def)
    then show ?thesis using True unfold h1 eof tk mn by simp
  next
    case nz: False
    then have lt: "r < length bs" "r + sz \<le> length bs" using rp by (auto simp: sz_def split: if_splits)
    have cur: "mf_current_read f1 = as ! (r div BLOCKSIZE)" using r lt c1 by (simp add: reads_at_def)
    show ?thesis
    proof (cases "r mod BLOCKSIZE + sz < BLOCKSIZE")
      case True
      let ?g = "f1\<lparr>mf_read_ptr := r + sz\<rparr>"
      have "MemFile_fread elem nmemb f h = Inr (take n (drop r bs), ?g)"
        using unfold nz True get_bytes_in_block [OF h1 lt(1) _ lt(2) cur c1(2)] tk by simp
      moreover have "(r + sz) div BLOCKSIZE = r div BLOCKSIZE"
        using True div_add1_eq [of r sz BLOCKSIZE] by simp
      ultimately show ?thesis
        using h1 lt cur eof mn by (auto simp: reads_at_def MemFile_eof_def intro: holds_reading)
    next
      case False
      let ?sz1 = "BLOCKSIZE - r mod BLOCKSIZE"
      have p: "r mod BLOCKSIZE < BLOCKSIZE" by simp
      have le: "BLOCKSIZE \<le> r mod BLOCKSIZE + sz" "sz \<le> BLOCKSIZE" using False n(2) by (auto simp: sz_def)
      have first: "get_bytes (r mod BLOCKSIZE) ?sz1 f1 h = Inr (take ?sz1 (drop r bs), f1\<lparr>mf_read_ptr := r + ?sz1\<rparr>)"
        using get_bytes_in_block [OF h1 lt(1) _ _ cur c1(2), of ?sz1] p le(1) lt(2) by linarith
      obtain a where a: "fread_rest h (sz - ?sz1) (take ?sz1 (drop r bs)) (f1\<lparr>mf_read_ptr := r + ?sz1\<rparr>) =
          Inr (take sz (drop r bs), f1\<lparr>mf_read_ptr := r + ?sz1, mf_current_read := a, mf_read_ptr := r + sz\<rparr>)"
          "r + sz < length bs \<longrightarrow> a = as ! ((r + sz) div BLOCKSIZE)"
        using fread_next [OF h1 lt(1) le(1) lt(2) le(2), of "f1\<lparr>mf_read_ptr := r + ?sz1\<rparr>"] cur by auto
      let ?g = "f1\<lparr>mf_read_ptr := r + ?sz1, mf_current_read := a, mf_read_ptr := r + sz\<rparr>"
      have "MemFile_fread elem nmemb f h = Inr (take n (drop r bs), ?g)"
        using unfold nz False first a(1) tk by simp
      then show ?thesis
        using h1 lt a(2) eof mn by (auto simp: reads_at_def MemFile_eof_def intro: holds_reading)
    qed
  qed
qed

section \<open>Writing and reading a file\<close>

fun fwrite_all :: "(nat \<Rightarrow> string) \<Rightarrow> string list \<Rightarrow> MemFile \<times> store \<Rightarrow> exn + (MemFile \<times> store)" where
  "fwrite_all alloc [] fh = Inr fh"
| "fwrite_all alloc (s # ss) fh =
     (case MemFile_fwrite alloc s fh of Inl e \<Rightarrow> Inl e | Inr (n, fh1) \<Rightarrow> fwrite_all alloc ss fh1)"

fun fread_all :: "nat list \<Rightarrow> MemFile \<Rightarrow> store \<Rightarrow> exn + (string list \<times> MemFile)" where
  "fread_all [] f h = Inr ([], f)"
| "fread_all (n # ns) f h =
     (case MemFile_fread 1 n f h of
        Inl e \<Rightarrow> Inl e
      | Inr (s, f1) \<Rightarrow> (case fread_all ns f1 h of Inl e \<Rightarrow> Inl e | Inr (ss, f2) \<Rightarrow> Inr (s # ss, f2)))"

lemma fwrite_all_holds:
  assumes alloc: "\<And>n. length (alloc n) = BLOCKSIZE"
  shows "holds (f, h) as bs \<Longrightarrow> length (bs @ concat ss) < 2 ^ 31 \<Longrightarrow>
    \<exists>g k as1. fwrite_all alloc ss (f, h) = Inr (g, k) \<and> holds (g, k) as1 (bs @ concat ss) \<and> hd as1 = hd as \<and> same_read f g"
proof (induction ss arbitrary: f h as bs)
  case Nil
  then show ?case by (auto simp: same_read_def)
next
  case (Cons s ss)
  have "length bs < 2 ^ 31" using Cons.prems(2) by simp
  from fwrite_holds [where alloc = alloc and s = s, OF alloc Cons.prems(1) this] obtain g k as1 where
    w: "MemFile_fwrite alloc s (f, h) = Inr (length s, g, k)" "holds (g, k) as1 (bs @ s)" "hd as1 = hd as" "same_read f g" by blast
  have "length ((bs @ s) @ concat ss) < 2 ^ 31" using Cons.prems(2) by simp
  from Cons.IH [OF w(2) this] obtain g1 k1 as2 where
    r: "fwrite_all alloc ss (g, k) = Inr (g1, k1)" "holds (g1, k1) as2 ((bs @ s) @ concat ss)" "hd as2 = hd as1" "same_read g g1" by blast
  then show ?case using w same_read_trans [OF w(4) r(4)] by auto
qed

lemma fread_all_at:
  "holds (f, h) as bs \<Longrightarrow> reads_at f as bs r \<Longrightarrow> list_all (\<lambda>n. n \<le> BLOCKSIZE) ns \<Longrightarrow>
   \<exists>outs g. fread_all ns f h = Inr (outs, g) \<and> concat outs = take (sum_list ns) (drop r bs) \<and>
     MemFile_eof g = (MemFile_eof f \<or> length bs < r + sum_list ns)"
proof (induction ns arbitrary: f r)
  case Nil
  then show ?case by (auto simp: reads_at_def)
next
  case (Cons n ns)
  have "n \<le> BLOCKSIZE" "list_all (\<lambda>n. n \<le> BLOCKSIZE) ns" using Cons.prems(3) by simp_all
  obtain g where g: "MemFile_fread 1 n f h = Inr (take n (drop r bs), g)" "holds (g, h) as bs"
      "reads_at g as bs (min (r + n) (length bs))" "MemFile_eof g = (MemFile_eof f \<or> length bs < r + n)"
    using fread_at [OF Cons.prems(1,2), of 1 n n] \<open>n \<le> BLOCKSIZE\<close> by auto
  from Cons.IH [OF g(2,3) \<open>list_all _ ns\<close>] obtain outs k where
    k: "fread_all ns g h = Inr (outs, k)" "concat outs = take (sum_list ns) (drop (min (r + n) (length bs)) bs)"
      "MemFile_eof k = (MemFile_eof g \<or> length bs < min (r + n) (length bs) + sum_list ns)" by blast
  have "take n (drop r bs) @ concat outs = take (n + sum_list ns) (drop r bs)"
    using k(2) by (cases "r + n \<le> length bs") (simp_all add: take_add min_def add.commute)
  moreover have "MemFile_eof k = (MemFile_eof f \<or> length bs < r + (n + sum_list ns))"
    using k(3) g(4) Cons.prems(2) by (auto simp: min_def reads_at_def)
  ultimately show ?case using g(1) k(1) by simp
qed

text \<open>
  C39 (roundtrip). What is written to a new memory file in pieces of any size, less than 2 GB in all, comes back in order when it is
  read after all of it was written, in pieces of at most a block each: nothing is lost, repeated or made up
  at the borders of the blocks, no access leaves a block, and the end of the file is reported exactly when more was asked
  for than was written. (Reads of more than a block, and reads between the writes, are not covered:
  \<open>two_block_read_repeats\<close>, \<open>read_after_full_block_stale\<close>.)
\<close>

theorem memfile_roundtrip:
  assumes mem: "length mem = BLOCKSIZE" and alloc: "\<And>n. length (alloc n) = BLOCKSIZE"
    and small: "length (concat ss) < 2 ^ 31" and ns: "list_all (\<lambda>n. n \<le> BLOCKSIZE) ns"
  shows "\<exists>f h1 outs g. fwrite_all alloc ss (MemFile_new mem h) = Inr (f, h1) \<and> MemFile_size f = length (concat ss) \<and>
    fread_all ns f h1 = Inr (outs, g) \<and> concat outs = take (sum_list ns) (concat ss) \<and>
    MemFile_eof g = (length (concat ss) < sum_list ns)"
proof -
  obtain f0 h0 where f0: "MemFile_new mem h = (f0, h0)" by (cases "MemFile_new mem h") auto
  have start: "holds (f0, h0) [length h] []" using holds_new [OF mem, of h] f0 by simp
  have z: "mf_read_ptr f0 = 0" "mf_current_read f0 = length h" "\<not> MemFile_eof f0"
    using f0 by (auto simp: MemFile_new_def block_new_def MemFile_on_def MemFile_eof_def)
  from fwrite_all_holds [where alloc = alloc and ss = ss, OF alloc start] small obtain f h1 as where
    w: "fwrite_all alloc ss (f0, h0) = Inr (f, h1)" "holds (f, h1) as (concat ss)" "hd as = length h" "same_read f0 f" by auto
  have "as \<noteq> []" using w(2) chainD(1) by (auto simp: holds_def)
  then have "as ! 0 = length h" using w(3) by (simp add: hd_conv_nth)
  then have "reads_at f as (concat ss) 0" using w(4) z by (simp add: reads_at_def same_read_def)
  from fread_all_at [OF w(2) this ns] obtain outs g where
    "fread_all ns f h1 = Inr (outs, g)" "concat outs = take (sum_list ns) (concat ss)"
    "MemFile_eof g = (MemFile_eof f \<or> length (concat ss) < sum_list ns)" by auto
  moreover have "MemFile_size f = length (concat ss)" using w(2) by (simp add: holds_def MemFile_size_def)
  moreover have "\<not> MemFile_eof f" using w(4) z by (simp add: same_read_def MemFile_eof_def)
  ultimately show ?thesis using w(1) f0 by auto
qed

theorem memfile_roundtrip_witness:
  "\<exists>f h1 outs g. fwrite_all (\<lambda>_. replicate BLOCKSIZE CHR ''-'') [replicate BLOCKSIZE CHR ''a'', ''bcd'']
       (MemFile_new (replicate BLOCKSIZE CHR ''-'') []) = Inr (f, h1) \<and>
     fread_all [BLOCKSIZE, 2, 2] f h1 = Inr (outs, g) \<and>
     concat outs = take (sum_list [BLOCKSIZE, 2, 2]) (replicate BLOCKSIZE CHR ''a'' @ ''bcd'') \<and> MemFile_eof g"
proof -
  let ?a = "\<lambda>_ :: nat. replicate BLOCKSIZE CHR ''-''" and ?ss = "[replicate BLOCKSIZE CHR ''a'', ''bcd'']"
  have m: "length (replicate BLOCKSIZE CHR ''-'') = BLOCKSIZE" by simp
  have a: "length (?a n) = BLOCKSIZE" for n by simp
  have s: "length (concat ?ss) < 2 ^ 31" by (simp add: BLOCKSIZE_def)
  have n: "list_all (\<lambda>n. n \<le> BLOCKSIZE) [BLOCKSIZE, 2, 2]" by (simp add: BLOCKSIZE_def)
  from memfile_roundtrip [where alloc = ?a and h = "[]", OF m a s n] show ?thesis by auto
qed


section \<open>Where the positions are lost\<close>

text \<open>
  A read of exactly two blocks leaves the current block behind the position: what is read next comes from the
  second block again.
\<close>

lemma two_block_read_repeats:
  assumes f: "holds (f, h) as bs" and at: "reads_at f as bs 0" and n: "0 < n" "n < BLOCKSIZE" "2 * BLOCKSIZE + n \<le> length bs"
  shows "\<exists>g k. MemFile_fread 1 (2 * BLOCKSIZE) f h = Inr (take (2 * BLOCKSIZE) bs, g) \<and>
    MemFile_fread 1 n g h = Inr (take n (drop BLOCKSIZE bs), k)"
proof -
  have wp: "mf_write_ptr f = length bs" and rp: "mf_read_ptr f = 0" and c: "chained h as" using f at by (simp_all add: holds_def reads_at_def)
  have cur: "mf_current_read f = as ! (0 div BLOCKSIZE)" using at n by (auto simp: reads_at_def)
  have lt: "0 < length bs" "BLOCKSIZE < length bs" using n by auto
  have b0: "get_bytes 0 BLOCKSIZE f h = Inr (take BLOCKSIZE bs, f\<lparr>mf_read_ptr := BLOCKSIZE\<rparr>)"
    using get_bytes_in_block [OF f lt(1) _ _ cur rp, of BLOCKSIZE] n by simp
  note b1 = bytes_in_block [OF f lt(2)]
  have i: "Suc 0 < length as" "as ! Suc 0 < length h" "length (blk_data (h ! (as ! Suc 0))) = BLOCKSIZE" using b1(1,3,4) [of 0] n by simp_all
  have blk: "take m (blk_data (h ! (as ! Suc 0))) = take m (drop BLOCKSIZE bs)" if "m \<le> BLOCKSIZE" "BLOCKSIZE + m \<le> length bs" for m
    using b1(2) [of m] that by simp
  have i0: "as ! 0 < length h" "blk_next (h ! (as ! 0)) = Some (as ! Suc 0)" 
    using chainD(3) [OF c, of "as ! 0"] chainD(5) [OF c, of 0] i(1) by (cases as; simp)+
  let ?g = "f\<lparr>mf_read_ptr := BLOCKSIZE + BLOCKSIZE, mf_current_read := as ! Suc 0\<rparr>"
  have rest: "fread_rest h BLOCKSIZE (take BLOCKSIZE bs) (f\<lparr>mf_read_ptr := BLOCKSIZE\<rparr>) =
      Inr (take BLOCKSIZE bs @ take BLOCKSIZE (drop BLOCKSIZE bs), ?g)"
    using i0 cur i blk [of BLOCKSIZE] n by (simp add: fread_rest.simps [of h] block_at_def get_bytes_def memread_Inr)
  have "MemFile_fread 1 (2 * BLOCKSIZE) f h = Inr (take (2 * BLOCKSIZE) bs, ?g)"
    using wp rp n b0 rest take_add [of BLOCKSIZE BLOCKSIZE bs] by (simp add: MemFile_fread_def Let_def mult_2)
  moreover have "MemFile_fread 1 n ?g h = Inr (take n (drop BLOCKSIZE bs), ?g\<lparr>mf_read_ptr := BLOCKSIZE + BLOCKSIZE + n\<rparr>)"
    using wp n i blk [of n] by (simp add: MemFile_fread_def Let_def get_bytes_def block_at_def memread_Inr)
  ultimately show ?thesis by blast
qed

text \<open>
  After a full block has been read to its end, what is written next goes to a new block, and the next read still
  comes from the old one.
\<close>

lemma read_after_full_block_stale:
  assumes f: "holds (f, h) [a] d" and at: "reads_at f [a] d 0" and d: "length d = BLOCKSIZE"
    and alloc: "\<And>n. length (alloc n) = BLOCKSIZE" and s: "s \<noteq> []" "length s < BLOCKSIZE"
  shows "\<exists>g g1 k g2. MemFile_fread 1 BLOCKSIZE f h = Inr (d, g) \<and> MemFile_fwrite alloc s (g, h) = Inr (length s, g1, k) \<and>
    MemFile_fread 1 (length s) g1 k = Inr (take (length s) d, g2)"
proof -
  have wp: "mf_write_ptr f = length d" and rp: "mf_read_ptr f = 0" and c: "chained h [a]" using f at by (simp_all add: holds_def reads_at_def)
  have ne: "0 < length d" using d by simp
  have cur: "mf_current_read f = a" using at ne by (simp add: reads_at_def)
  let ?g = "f\<lparr>mf_read_ptr := BLOCKSIZE\<rparr>"
  have "get_bytes 0 BLOCKSIZE f h = Inr (d, ?g)"
    using get_bytes_in_block [OF f ne, of BLOCKSIZE f] cur rp d by simp
  moreover have "fread_rest h 0 d ?g = Inr (d, ?g)"
    using chainD(3,5) [OF c] cur by (simp add: fread_rest.simps [of h] block_at_def)
  ultimately have r1: "MemFile_fread 1 BLOCKSIZE f h = Inr (d, ?g)"
    using wp rp d by (simp add: MemFile_fread_def Let_def)
  have g: "holds (?g, h) [a] d" by (rule holds_reading [OF f]) simp_all
  have "length d < 2 ^ 31" using d by (simp add: BLOCKSIZE_def)
  from fwrite_holds [where alloc = alloc and s = s, OF alloc g this] obtain g1 k as1 where
    w: "MemFile_fwrite alloc s (?g, h) = Inr (length s, g1, k)" "holds (g1, k) as1 (d @ s)" "hd as1 = a" "same_read ?g g1" by auto
  have g1: "mf_read_ptr g1 = BLOCKSIZE" "mf_current_read g1 = a" "mf_write_ptr g1 = BLOCKSIZE + length s"
    using w(2,4) cur d by (simp_all add: same_read_def holds_def)
  have "0 < length (d @ s)" using ne by simp
  note b = bytes_in_block [OF w(2) this, of "length s"]
  have "as1 ! 0 = a" using w(2,3) chainD(1) by (auto simp: holds_def hd_conv_nth)
  then have "a < length k" "length (blk_data (k ! a)) = BLOCKSIZE" "take (length s) (blk_data (k ! a)) = take (length s) d"
    using b(2-4) d s(2) by simp_all
  then have "MemFile_fread 1 (length s) g1 k = Inr (take (length s) d, g1\<lparr>mf_read_ptr := BLOCKSIZE + length s\<rparr>)"
    using g1 s by (simp add: MemFile_fread_def Let_def get_bytes_def block_at_def memread_Inr)
  then show ?thesis using r1 w(1) by blast
qed

text \<open>A file that is opened again by its path is empty, whatever was written under this path.\<close>

lemma reopened_empty:
  "MemFile_size (fst (MemFile_open path mem files h)) = 0 \<and>
   fst (projr (MemFile_fread 1 n (fst (MemFile_open path mem files h)) h)) = []"
  by (auto simp: MemFile_size_def MemFile_open_def MemFile_on_def MemFile_fread_def block_new_def Let_def split: option.splits)

end
