(* ===== verification/Spec2Isabelle.thy ===== *)
theory Spec2Isabelle
  imports Daemon Cache_Locks Enum_Set Cache_Table Request_Handler Utility Parse_Words Http_Socket Event_Timer Mem_File
begin

text \<open>
  A model of greylist, a daemon that answers the policy requests of Postfix: for a message from a
  client the first time it is seen, the answer is to defer it, and the retry is let through after a
  timeout. The sources are C++ under \<open>src/src\<close>; those of the database wrapper are in
  \<open>src/src/dbiwrapped-0.0.1\<close>.

  \<^bold>\<open>The program.\<close> \<open>main.cpp\<close> reads a configuration file and runs a \<open>System\<close> (\<open>system.h\<close>). The
  sections of the file create databases, data sources (tables), matchers, policies and a server;
  matchers and policies form the chain of the \<open>Core\<close>. The server accepts connections in one thread
  and hands each to a pool of workers (\<open>simplescheduler.h\<close>). A worker reads a request, a block of
  lines \<open>name=value\<close>, into a \<open>Triplet\<close>, asks the core for a decision and writes the reply of the
  \<open>Action\<close>. Matchers look the triplet up, with or without a cache; the greylist policy reads and
  writes its table. Both go through a \<open>DBQuery\<close> to a \<open>Query\<close> on a connection taken from the pool of the
  \<open>Database\<close>. A second thread watches the flag that the signal handlers set: caches are emptied, the
  configuration is read again, or the daemon ends.

  \<^bold>\<open>The theories\<close>, in the order of their dependencies. State is a record with the fields of the class,
  an operation is one definition with the name of the method, an exception is a value of \<open>exn\<close>, and
  \<open>Undefined\<close> marks a run that reaches behaviour C++ does not define.

  \<^item> \<open>Prelude\<close>: exceptions, programs that throw (\<open>prog\<close>), strings, characters and numbers of the C and
    C++ libraries. \<open>Std_Map\<close>: \<open>std::map\<close>, with the locale \<open>insert_map\<close>.
  \<^item> \<open>Token_List\<close>, \<open>Tokens\<close>: the tables of \<open>tokenlist.h\<close> and \<open>tokens.h\<close>; they are well formed and agree
    with the enumerations that index them.
  \<^item> \<open>Parser\<close>: \<open>parser.h\<close>, on a reader and a writer that are parameters; the locales \<open>line_reader\<close>,
    \<open>token_writer\<close> and \<open>parser_client\<close> say what it needs of them and prove once that it returns and
    what it stores. \<open>Socket_Reader\<close> interprets them for requests on a socket, \<open>Config_Reader\<close> for the
    sections of the configuration file.
  \<^item> \<open>Utils\<close>, \<open>IP_Address\<close>, \<open>Triplet\<close>: the request and the parts of it computed on demand; what every read
    returns, whatever was read before.
  \<^item> \<open>Database\<close>, \<open>Query\<close>, \<open>Db_Data_Source\<close>: the connection pool with its invariant (locale
    \<open>resource_pool\<close>, interpreted by \<open>grabdb\<close> and \<open>freedb\<close>), statements and results, and the text of the
    statements. \<open>Enum_Set\<close>: the wrappers of ENUM and SET columns.
  \<^item> \<open>Core\<close>: the chain; its answer is that of the first module that matches and decides. \<open>Greylist\<close>: the
    policy with its statements. \<open>Greylist_Store\<close>: on a server that executes the statements the policy
    refines an automaton on the row of the request. \<open>Matchers\<close>: matchers, caches and their refresh;
    a cached exact match answers as the rows of its table.
    \<open>Cache_Locks\<close>: the caches as concurrent threads use them, on the read-write lock of \<open>readwriteable.h\<close>; a step
    relation with its invariant.
  \<^item> \<open>Action\<close>: the reply. \<open>Server\<close>: the handler of a connection. \<open>Scheduler\<close>: the pool of workers as a step
    relation over all interleavings, with its invariant by rule induction. \<open>Listener\<close>: the listening
    socket. \<open>Server_Run\<close>: the accept loop, the monitor and the signals.
  \<^item> \<open>Configuration\<close>: the sections and the objects they create. \<open>Daemon\<close>: \<open>compileConfig\<close>, the loop that
    reloads, and \<open>main\<close>; here the parts meet, from the bytes of a peer to the bytes sent back.
  \<^item> Code that is in the tree and not in the daemon: \<open>Accept_Pool\<close> and \<open>Request_Handler\<close> (the accepting
    pools that came before, their monitor and their test handler), \<open>Cache_Table\<close> (\<open>cache.h\<close>), and of the
    vendored socket library \<open>Base64\<close>, \<open>Utility\<close>, the tokenizer \<open>Parse_Words\<close>, the buffers, the output and the
    line input of a TCP socket (\<open>Circular_Buffer\<close> with the locale \<open>byte_channel\<close>, \<open>Tcp_Socket\<close>, \<open>Tcp_Lines\<close>), the
    HTTP messages on top of it (\<open>Http_Socket\<close>), the timers \<open>Event_Timer\<close> and the memory file \<open>Mem_File\<close>.

  \<^bold>\<open>What is shown.\<close> The greylisting contract end to end (\<open>Daemon.greylist_connection\<close>) and for the policy
  alone; that reading, parsing, serving, reloading and starting return whatever comes in; that
  connections, descriptors and counters are given back on every path; the order and the completeness
  of replies, of scheduled tasks and of accepted connections; that no match uses a cache from before a refresh and
  that the lock of the caches cannot block for ever; in the vendored library, that bytes, lines, bodies in chunks and
  timers keep their order and none is lost, under the conditions each theorem names; round trips of the protocol, the
  configuration and the text encodings; what each part does with input it refuses. Where the code
  does something else than it seems to mean, a lemma states what it does.

  \<^bold>\<open>Parameters.\<close> What is not in the sources is an argument: libdbi (record \<open>libdbi\<close>), the resolver, the
  regular expressions, the system calls of the listener (\<open>net\<close>) and of a connection (\<open>conn_io\<close>), the
  mutex of boost (\<open>shared_mutex\<close>), \<open>send\<close> and what \<open>recv\<close> returns, memory allocation, the time, and the
  file. What is relied on is a named predicate on the argument, such as \<open>dbi_handles\<close>, \<open>net_fds\<close>,
  \<open>greylist_store\<close>, \<open>client_ok\<close>, \<open>shared_mutex_ok\<close>, \<open>send_ok\<close> or \<open>malloc_ok\<close>, with an instance in the witness
  of each theorem that has it.

  \<^bold>\<open>Loops.\<close> A loop whose end depends on the other side is a partial function with \<open>None\<close> for a run that
  never returns, and there is a theorem that it does return; there is no fuel. What other threads
  and the system do in the meantime is a list of events or results, and the theorems hold for every list.
  Integers keep the width of their C++ type wherever the code can reach its bounds.

  \<^bold>\<open>Simplifications.\<close> Creating a thread succeeds: the exception of \<open>boost::thread\<close> that would leave \<open>schedule\<close> and the accept
  loop is not modelled. The test at the start of \<open>schedule\<close> reads its two counters in one step. In \<open>Cache_Locks\<close> the content of
  a cache is a function of the table alone, so a handler there serves matchers with the same columns; what
  matchers with different columns do is \<open>Matchers.exact_cache_shared\<close>. The count of handled requests is an integer without bound. Integers
  that libdbi returns have 64 bits, of which a version with a smaller \<open>long\<close> uses a part, and a statement with a zero
  byte is passed on whole: where the library cuts it is part of the parameter. Sockets of the vendored library are those on which SSL is
  not enabled.

  \<^bold>\<open>Not modelled.\<close> That \<open>boost::call_once\<close> creates a singleton once, and \<open>sharedcache.h\<close>, which is not used. Outside of
  \<open>Scheduler\<close> and \<open>Cache_Locks\<close> the models are sequential between the points where threads meet. The loggers and the
  pid file, which only print. Of the vendored socket library, which the daemon does not link: opening and closing
  sockets, UDP, SSL, SOCKS, the resolver, the loop around \<open>select\<close>, the clients and servers on top of the HTTP messages, and SMTP; and the vendored thread pool,
  which it does not use either. The drafts \<open>blockingaccept.cpp\<close>, \<open>blockingacceptnoqueue.cpp\<close>, \<open>Socket.cpp\<close> and
  \<open>signals.cpp\<close>, thin layers over system calls that are not built.
\<close>

section \<open>Properties that span components\<close>

text \<open>
  The tables agree: the index under which a column of the configuration is
  found is the index of the member of the request with the same name.
\<close>

theorem columns_are_members:
  "map (findToken configColumnTokens)
     [''client_address'', ''sender'', ''recipient'', ''reverse_client_name'', ''client_name'',
      ''short_reverse_client_name'', ''short_client_name'', ''triplet_string'', ''network''] =
   map (int \<circ> MemberType_idx) members"
  by code_simp

end
